(* ===== verification/Prelude.thy ===== *)
theory Prelude
  imports Main "HOL-Library.Word" "HOL-Library.Multiset" "HOL-Library.Monad_Syntax"
begin

text \<open>
  What the component theories share.

  \<^item> The run-time faults of the source (a failing \<open>assert\<close>, a nil dereference, an index out of
    range) are the value \<^term>\<open>None\<close> of an option: an operation that may fault has an option
    type, and its theorems say when it is \<^term>\<open>Some\<close>. Error codes (\<open>SQLITE_NOMEM\<close> and so on)
    are ordinary values.
  \<^item> The machine integers of the source as words.
  \<^item> The carry loop of the two bottom-up merge sorts (\<open>rowset.go\<close>, \<open>pagecache/pcache.go\<close>) and,
    in the locale \<open>bucket_merge\<close>, what it needs from the merge it is used with.
\<close>

unbundle bit_operations_syntax

named_theorems wordsimps

type_synonym byte = "8 word"
type_synonym uint16 = "16 word"
type_synonym uint32 = "32 word"
type_synonym int64 = "64 word"
type_synonym uint64 = "64 word"

text \<open>The result codes the modelled operations return (src/sqliteInt.go).\<close>

datatype rc = SQLITE_OK | SQLITE_ERROR | SQLITE_NOMEM | SQLITE_DONE | SQLITE_CORRUPT
  | SQLITE_IOERR | SQLITE_IOERR_NOMEM | SQLITE_IOERR_SHORT_READ | SQLITE_BUSY | SQLITE_READONLY
  | SQLITE_PROTOCOL | SQLITE_CANTOPEN | SQLITE_FULL | SQLITE_MISUSE | SQLITE_TOOBIG
  | WAL_RETRY | SQLITE_READONLY_CANTLOCK | SQLITE_READONLY_RECOVERY | SQLITE_BUSY_RECOVERY | SQLITE_CONSTRAINT | SQLITE_ABORT
  | SQLITE_INTERNAL | SQLITE_PERM | SQLITE_LOCKED | SQLITE_INTERRUPT | SQLITE_NOTFOUND | SQLITE_EMPTY | SQLITE_SCHEMA | SQLITE_MISMATCH
  | SQLITE_NOLFS | SQLITE_AUTH | SQLITE_FORMAT | SQLITE_RANGE | SQLITE_NOTADB | SQLITE_ROW | SQLITE_LOCKED_SHAREDCACHE

text \<open>\<open>assert(P)\<close> in the source: the call faults when \<open>P\<close> does not hold.\<close>

definition assertion :: "bool \<Rightarrow> unit option" where
  "assertion b = (if b then Some () else None)"

lemma assertion_simps [simp]:
  "assertion True = Some ()" "assertion False = None"
  "(assertion b = Some u) = b" "(assertion b = None) = (\<not> b)"
  by (simp_all add: assertion_def)

lemma bind_assertion [simp]:
  "(Option.bind (assertion b) f = Some y) = (b \<and> f () = Some y)"
  "b \<Longrightarrow> Option.bind (assertion b) f = f ()"
  by (simp_all add: assertion_def)

subsection \<open>Lists\<close>

abbreviation ssorted :: "'a::linorder list \<Rightarrow> bool" where
  "ssorted \<equiv> sorted_wrt (<)"

lemma ssorted_unique:
  assumes "ssorted xs" "ssorted ys" "set xs = set ys"
  shows "xs = ys"
  using assms by (metis strict_sorted_equal)

lemma ssorted_snoc [simp]:
  "ssorted (xs @ [x]) \<longleftrightarrow> ssorted xs \<and> (\<forall>y\<in>set xs. y < x)"
  by (auto simp: sorted_wrt_append)

lemma ssorted_less_last:
  "ssorted xs \<Longrightarrow> xs \<noteq> [] \<Longrightarrow> last xs < x \<Longrightarrow> \<forall>y\<in>set xs. y < x"
  by (induction xs rule: rev_induct) auto

lemma take_drop_append:
  "m \<le> n \<Longrightarrow> take (n - m) (drop m xs) @ drop n xs = drop m xs"
  by (metis append_take_drop_id drop_drop le_add_diff_inverse2)

subsection \<open>The carry loop of a bottom-up merge sort\<close>

text \<open>
  Both sorts keep an array of buckets. A new run is merged into bucket 0; while the bucket is
  occupied the merged run is carried to the next one and the bucket is emptied. The second
  component is the run that is left when every bucket was occupied (the loop ran off the array),
  and \<open>[]\<close> when the run found a place.
\<close>

fun carry :: "('a list \<Rightarrow> 'a list \<Rightarrow> 'a list) \<Rightarrow> 'a list list \<Rightarrow> 'a list \<Rightarrow> 'a list list \<times> 'a list" where
  "carry m [] p = ([], p)"
| "carry m (b # bs) p =
     (if b = [] then (p # bs, [])
      else (let (bs', q) = carry m bs (m b p) in ([] # bs', q)))"

text \<open>The occupied buckets read as a binary number: it counts the runs inserted so far.\<close>

fun occupancy :: "'a list list \<Rightarrow> nat" where
  "occupancy [] = 0"
| "occupancy (b # bs) = of_bool (b \<noteq> []) + 2 * occupancy bs"

lemma occupancy_bound: "occupancy bs < 2 ^ length bs"
  by (induction bs) (auto simp: of_bool_def)

lemma occupancy_replicate [simp]: "occupancy (replicate n []) = 0"
  by (induction n) auto

lemma length_carry [simp]: "length (fst (carry m bs p)) = length bs"
  by (induction bs arbitrary: p) (auto split: prod.splits, metis fst_conv)

text \<open>
  What the sorts need from their merge: it keeps the order \<open>ok\<close>, its contents are the combined
  contents of its arguments (\<open>f\<close> is union for the merge that drops duplicates, multiset sum for
  the one that keeps them), and it loses no run.
\<close>

locale bucket_merge = comm_monoid f z for f :: "'c \<Rightarrow> 'c \<Rightarrow> 'c" and z +
  fixes merge :: "'a list \<Rightarrow> 'a list \<Rightarrow> 'a list"
    and ok :: "'a list \<Rightarrow> bool"
    and contents :: "'a list \<Rightarrow> 'c"
  assumes merge_ok: "ok xs \<Longrightarrow> ok ys \<Longrightarrow> ok (merge xs ys)"
    and merge_contents: "ok xs \<Longrightarrow> ok ys \<Longrightarrow> contents (merge xs ys) = f (contents xs) (contents ys)"
    and merge_nonempty: "ys \<noteq> [] \<Longrightarrow> merge xs ys \<noteq> []"
    and ok_Nil: "ok []"
    and contents_Nil: "contents [] = z"
begin

definition total :: "'a list list \<Rightarrow> 'c" where
  "total bs = foldr (\<lambda>b. f (contents b)) bs z"

lemma total_simps [simp]:
  "total [] = z" "total (b # bs) = f (contents b) (total bs)"
  by (simp_all add: total_def)

lemma total_replicate_Nil [simp]: "total (replicate n []) = z"
  by (induction n) (auto simp: contents_Nil)

lemma carry_ok:
  assumes "\<forall>b\<in>set bs. ok b" "ok p"
  shows "(\<forall>b\<in>set (fst (carry merge bs p)). ok b) \<and> ok (snd (carry merge bs p))"
  using assms
proof (induction bs arbitrary: p)
  case (Cons b bs)
  then have "(\<forall>b\<in>set (fst (carry merge bs (merge b p))). ok b) \<and> ok (snd (carry merge bs (merge b p)))"
    by (intro Cons.IH) (simp_all add: merge_ok)
  with Cons.prems show ?case by (simp add: case_prod_beta ok_Nil)
qed simp

lemma carry_total:
  assumes "\<forall>b\<in>set bs. ok b" "ok p"
  shows "f (total (fst (carry merge bs p))) (contents (snd (carry merge bs p))) = f (total bs) (contents p)"
  using assms
proof (induction bs arbitrary: p)
  case (Cons b bs)
  have "f (total (fst (carry merge bs (merge b p)))) (contents (snd (carry merge bs (merge b p))))
        = f (total bs) (f (contents b) (contents p))"
    using Cons.IH [of "merge b p"] Cons.prems by (simp add: merge_ok merge_contents)
  then show ?case by (simp add: contents_Nil case_prod_beta ac_simps)
qed simp

lemma carry_overflow:
  "p \<noteq> [] \<Longrightarrow> (snd (carry merge bs p) = []) = (occupancy bs + 1 < 2 ^ length bs)"
proof (induction bs arbitrary: p)
  case (Cons b bs)
  have "occupancy bs < 2 ^ length bs" by (rule occupancy_bound)
  moreover have "(snd (carry merge bs (merge b p)) = []) = (occupancy bs + 1 < 2 ^ length bs)"
    using Cons.prems by (intro Cons.IH merge_nonempty)
  ultimately show ?case by (auto simp: case_prod_beta)
qed simp

lemma carry_occupancy:
  "p \<noteq> [] \<Longrightarrow> snd (carry merge bs p) = [] \<Longrightarrow> occupancy (fst (carry merge bs p)) = occupancy bs + 1"
proof (induction bs arbitrary: p)
  case (Cons b bs)
  then show ?case
    using Cons.IH [of "merge b p"] merge_nonempty [of p b]
    by (auto simp: case_prod_beta split: if_splits)
qed simp

lemma fold_merge:
  assumes "\<forall>b\<in>set bs. ok b" "ok p"
  shows "ok (fold (\<lambda>b p. merge p b) bs p)"
    and "contents (fold (\<lambda>b p. merge p b) bs p) = f (contents p) (total bs)"
  using assms by (induction bs arbitrary: p) (simp_all add: merge_ok merge_contents ac_simps)

end

section \<open>Runs of operations\<close>

text \<open>
  A run of operations of a component, with the result of each; a run of its specification, where an
  operation may have several outcomes; and the runs whose operations are all within the contract.
\<close>

fun run_steps :: "('o \<Rightarrow> 's \<Rightarrow> ('r \<times> 's) option) \<Rightarrow> 'o list \<Rightarrow> 's \<Rightarrow> ('r list \<times> 's) option" where
  "run_steps f [] s = Some ([], s)"
| "run_steps f (x # xs) s = (case f x s of None \<Rightarrow> None
     | Some (r, s') \<Rightarrow> (case run_steps f xs s' of None \<Rightarrow> None | Some (rs, s'') \<Rightarrow> Some (r # rs, s'')))"

fun spec_steps :: "('o \<Rightarrow> 'a \<Rightarrow> 'r \<Rightarrow> 'a \<Rightarrow> bool) \<Rightarrow> 'o list \<Rightarrow> 'a \<Rightarrow> 'r list \<Rightarrow> 'a \<Rightarrow> bool" where
  "spec_steps g [] a [] b = (a = b)"
| "spec_steps g (x # xs) a (r # rs) b = (\<exists>c. g x a r c \<and> spec_steps g xs c rs b)"
| "spec_steps g _ _ _ _ = False"

fun legal_steps :: "('o \<Rightarrow> 's \<Rightarrow> bool) \<Rightarrow> ('o \<Rightarrow> 's \<Rightarrow> ('r \<times> 's) option) \<Rightarrow> 'o list \<Rightarrow> 's \<Rightarrow> bool" where
  "legal_steps ok f [] s = True"
| "legal_steps ok f (x # xs) s = (ok x s \<and> (case f x s of None \<Rightarrow> True | Some (_, s') \<Rightarrow> legal_steps ok f xs s'))"

text \<open>The contract of a component that implements a specification step by step.\<close>

locale simulation =
  fixes f :: "'o \<Rightarrow> 's \<Rightarrow> ('r \<times> 's) option" and g :: "'o \<Rightarrow> 'a \<Rightarrow> 'r \<Rightarrow> 'a \<Rightarrow> bool"
    and ok :: "'o \<Rightarrow> 's \<Rightarrow> bool" and R :: "'s \<Rightarrow> 'a \<Rightarrow> bool"
  assumes step: "R s a \<Longrightarrow> ok x s \<Longrightarrow> \<exists>r s' b. f x s = Some (r, s') \<and> g x a r b \<and> R s' b"
begin

lemma run: "R s a \<Longrightarrow> legal_steps ok f xs s \<Longrightarrow> \<exists>rs s' b. run_steps f xs s = Some (rs, s') \<and> spec_steps g xs a rs b \<and> R s' b"
proof (induction xs arbitrary: s a)
  case Nil
  then show ?case by (intro exI [of _ "[]"]) auto
next
  case (Cons x xs)
  obtain r s1 b where 1: "f x s = Some (r, s1)" "g x a r b" "R s1 b" using step [OF Cons.prems(1), of x] Cons.prems(2) by auto
  then obtain rs s' c where "run_steps f xs s1 = Some (rs, s')" "spec_steps g xs b rs c" "R s' c"
    using Cons.IH [OF 1(3)] Cons.prems(2) by auto
  then show ?case using 1 by (intro exI [of _ "r # rs"]) auto
qed

end

end
