(* ===== verification/RowSet.thy ===== *)
theory RowSet
  imports Prelude "HOL-Library.Tree"
begin

text \<open>
  The RowSet object (src/rowset.go): a collection of rowids with INSERT, a batched TEST and
  SMALLEST. An entry chain linked by \<open>pRight\<close> is a list of rowids, a tree of entries is a
  \<^typ>\<open>int tree\<close>, and the forest (a chain of entries whose \<open>pLeft\<close> is a tree) is a list of trees,
  where \<^const>\<open>Leaf\<close> is the nil pointer. \<open>pLast\<close> keeps the value of the entry it points to, the only
  part of it the code reads. The entry pool is counted: \<open>nFresh\<close> free entries of the newest chunk and
  the number of chunks. Whether \<open>sqlite3DbMallocRaw\<close> succeeds is the argument \<open>mallocOk\<close> of the
  operations that allocate.
\<close>

section \<open>Model\<close>

definition ROWSET_SORTED :: byte where "ROWSET_SORTED = 1"
definition ROWSET_NEXT :: byte where "ROWSET_NEXT = 2"

text \<open>\<open>(1024 - 8) / sizeof(struct RowSetEntry)\<close>, with 8-byte pointers.\<close>

definition ROWSET_ENTRY_PER_CHUNK :: nat where "ROWSET_ENTRY_PER_CHUNK = (1024 - 8) div 24"

record RowSet =
  nChunk :: nat
  pEntry :: "int list"
  pLast :: "int option"
  pForest :: "int tree list"
  nFresh :: nat
  rsFlags :: byte
  iBatch :: byte

text \<open>\<open>ROUND(sizeof(RowSet), 8)\<close> is 56; the surplus of the space becomes the first fresh entries.\<close>

definition sqlite3RowSetInit :: "nat \<Rightarrow> RowSet option" where
  "sqlite3RowSetInit N = do {
     assertion (56 \<le> N);
     Some \<lparr>nChunk = 0, pEntry = [], pLast = None, pForest = [],
           nFresh = ((N - 56) div 24) mod 65536, rsFlags = ROWSET_SORTED, iBatch = 0\<rparr> }"

definition RowSet_Clear :: "RowSet \<Rightarrow> RowSet" where
  "RowSet_Clear p = p\<lparr>nChunk := 0, nFresh := 0, pEntry := [], pLast := None, pForest := [],
                      rsFlags := ROWSET_SORTED\<rparr>"

definition rowSetEntryAlloc :: "bool \<Rightarrow> RowSet \<Rightarrow> bool \<times> RowSet" where
  "rowSetEntryAlloc mallocOk p =
     (if nFresh p = 0 then
        (if \<not> mallocOk then (False, p)
         else (True, p\<lparr>nChunk := nChunk p + 1, nFresh := ROWSET_ENTRY_PER_CHUNK - 1\<rparr>))
      else (True, p\<lparr>nFresh := nFresh p - 1\<rparr>))"

definition sqlite3RowSetInsert :: "bool \<Rightarrow> RowSet \<Rightarrow> int \<Rightarrow> RowSet option" where
  "sqlite3RowSetInsert mallocOk p rowid = do {
     assertion (rsFlags p AND ROWSET_NEXT = 0);
     let (ok, p) = rowSetEntryAlloc mallocOk p;
     if \<not> ok then Some p
     else (case pLast p of
       Some v \<Rightarrow>
         let p = (if rsFlags p AND ROWSET_SORTED \<noteq> 0 \<and> rowid \<le> v
                  then p\<lparr>rsFlags := rsFlags p AND NOT ROWSET_SORTED\<rparr> else p)
         in Some (p\<lparr>pEntry := pEntry p @ [rowid], pLast := Some rowid\<rparr>)
     | None \<Rightarrow> Some (p\<lparr>pEntry := [rowid], pLast := Some rowid\<rparr>)) }"

text \<open>
  The merge asserts at every turn that neither list starts with a descent, and once more of the
  list that is left at the end; \<open>None\<close> is a failed assertion.
\<close>

fun head_in_order :: "int list \<Rightarrow> bool" where
  "head_in_order (v # w # _) \<longleftrightarrow> v \<le> w"
| "head_in_order _ \<longleftrightarrow> True"

fun rowSetEntryMerge :: "int list \<Rightarrow> int list \<Rightarrow> int list option" where
  "rowSetEntryMerge (a # pA) (b # pB) = do {
     assertion (head_in_order (a # pA));
     assertion (head_in_order (b # pB));
     if a < b then do { p \<leftarrow> rowSetEntryMerge pA (b # pB); Some (a # p) }
     else if b < a then do { p \<leftarrow> rowSetEntryMerge (a # pA) pB; Some (b # p) }
     else rowSetEntryMerge pA (b # pB) }"
| "rowSetEntryMerge [] pB = do { assertion (head_in_order pB); Some pB }"
| "rowSetEntryMerge pA [] = do { assertion (head_in_order pA); Some pA }"

text \<open>
  The sort: \<open>aBucket[40]\<close>. The inner loop merges the run with the full buckets and puts it into the
  first empty one; a run that is carried past the last bucket indexes out of range.
\<close>

fun rowSetEntrySort_carry :: "int list list \<Rightarrow> int list \<Rightarrow> int list list option" where
  "rowSetEntrySort_carry [] p = None"
| "rowSetEntrySort_carry (b # aBucket) p =
     (if b = [] then Some (p # aBucket)
      else do {
        p \<leftarrow> rowSetEntryMerge b p;
        aBucket \<leftarrow> rowSetEntrySort_carry aBucket p;
        Some ([] # aBucket) })"

fun rowSetEntrySort_loop :: "int list list \<Rightarrow> int list \<Rightarrow> int list list option" where
  "rowSetEntrySort_loop aBucket [] = Some aBucket"
| "rowSetEntrySort_loop aBucket (v # pIn) = do {
     aBucket \<leftarrow> rowSetEntrySort_carry aBucket [v];
     rowSetEntrySort_loop aBucket pIn }"

fun rowSetEntrySort_collect :: "int list list \<Rightarrow> int list \<Rightarrow> int list option" where
  "rowSetEntrySort_collect [] p = Some p"
| "rowSetEntrySort_collect (b # aBucket) p = do {
     p \<leftarrow> rowSetEntryMerge p b;
     rowSetEntrySort_collect aBucket p }"

definition rowSetEntrySort :: "int list \<Rightarrow> int list option" where
  "rowSetEntrySort pIn = do {
     aBucket \<leftarrow> rowSetEntrySort_loop (replicate 40 []) pIn;
     rowSetEntrySort_collect aBucket [] }"

text \<open>
  The list of a tree and the position of \<open>*ppLast\<close> in it. Linking the last entry of the left part
  to the root cuts off whatever followed it; the assertion at the end says that nothing follows
  \<open>*ppLast\<close>.
\<close>

fun rowSetTreeToList :: "int tree \<Rightarrow> (int list \<times> nat) option" where
  "rowSetTreeToList Leaf = None"
| "rowSetTreeToList (Node l v r) = do {
     first \<leftarrow> (if l \<noteq> Leaf
               then do { (ppFirst, p) \<leftarrow> rowSetTreeToList l; Some (take (p + 1) ppFirst) }
               else Some []);
     (rest, ppLast) \<leftarrow> (if r \<noteq> Leaf
               then do { (rest, p) \<leftarrow> rowSetTreeToList r; Some (rest, length first + 1 + p) }
               else Some ([], length first));
     assertion (drop (ppLast + 1) (first @ v # rest) = []);
     Some (first @ v # rest, ppLast) }"

text \<open>The second argument is \<open>iDepth - 1\<close>: the code calls it with \<open>iDepth\<close> of at least 1.\<close>

fun rowSetNDeepTree :: "int list \<Rightarrow> nat \<Rightarrow> int tree \<times> int list" where
  "rowSetNDeepTree [] d = (Leaf, [])"
| "rowSetNDeepTree (x # xs) 0 = (Node Leaf x Leaf, xs)"
| "rowSetNDeepTree (x # xs) (Suc d) =
     (case rowSetNDeepTree (x # xs) d of
        (pLeft, []) \<Rightarrow> (pLeft, [])
      | (pLeft, p # rest) \<Rightarrow>
          (let (pRight, rest') = rowSetNDeepTree rest d in (Node pLeft p pRight, rest')))"

lemma rowSetNDeepTree_length: "length (snd (rowSetNDeepTree xs d)) \<le> length xs - of_bool (xs \<noteq> [])"
proof (induction xs d rule: rowSetNDeepTree.induct)
  case (3 x xs d)
  then show ?case
    by (cases "rowSetNDeepTree (x # xs) d") (force split: list.splits prod.splits)
qed auto

lemma rowSetNDeepTree_rest: "(t, rest) = rowSetNDeepTree xs d \<Longrightarrow> length rest < Suc (length xs)"
  using rowSetNDeepTree_length [of xs d] by (cases "rowSetNDeepTree xs d") auto

function rowSetListToTree_loop :: "int tree \<Rightarrow> int list \<Rightarrow> nat \<Rightarrow> int tree" where
  "rowSetListToTree_loop p [] d = p"
| "rowSetListToTree_loop p (x # pList) d =
     (case rowSetNDeepTree pList d of
        (pRight, rest) \<Rightarrow> rowSetListToTree_loop (Node p x pRight) rest (Suc d))"
  by pat_completeness auto
termination
  by (relation "measure (\<lambda>(p, xs, d). length xs)") (auto dest: rowSetNDeepTree_rest)

fun rowSetListToTree :: "int list \<Rightarrow> int tree option" where
  "rowSetListToTree [] = None"
| "rowSetListToTree (x # pList) = Some (rowSetListToTree_loop (Node Leaf x Leaf) pList 0)"

definition rowSetToList :: "RowSet \<Rightarrow> RowSet option" where
  "rowSetToList p = do {
     assertion (rsFlags p AND ROWSET_NEXT = 0);
     p \<leftarrow> (if rsFlags p AND ROWSET_SORTED = 0
           then do { e \<leftarrow> rowSetEntrySort (pEntry p); Some (p\<lparr>pEntry := e\<rparr>) }
           else Some p);
     assertion (pForest p = []);
     Some (p\<lparr>rsFlags := rsFlags p OR ROWSET_NEXT\<rparr>) }"

text \<open>The rowid written to \<open>*pRowid\<close> with the return value 1, or \<open>None\<close> for 0.\<close>

definition sqlite3RowSetNext :: "RowSet \<Rightarrow> (int option \<times> RowSet) option" where
  "sqlite3RowSetNext p = do {
     p \<leftarrow> (if rsFlags p AND ROWSET_NEXT = 0 then rowSetToList p else Some p);
     (case pEntry p of
        v # rest \<Rightarrow>
          let p = p\<lparr>pEntry := rest\<rparr>
          in Some (Some v, if rest = [] then RowSet_Clear p else p)
      | [] \<Rightarrow> Some (None, p)) }"

text \<open>
  The walk over the forest that finds a free slot, merging the trees on its way into the list; the
  second component is the list that is left when no slot was free.
\<close>

fun rowSetForestAdd :: "int tree list \<Rightarrow> int list \<Rightarrow> (int tree list \<times> int list option) option" where
  "rowSetForestAdd [] p = Some ([], Some p)"
| "rowSetForestAdd (t # ts) p =
     (if t = Leaf then do { t' \<leftarrow> rowSetListToTree p; Some (t' # ts, None) }
      else do {
        (pAux, pTail) \<leftarrow> rowSetTreeToList t;
        p \<leftarrow> rowSetEntryMerge pAux p;
        (ts', left) \<leftarrow> rowSetForestAdd ts p;
        Some (Leaf # ts', left) })"

fun rowSetTreeFind :: "int tree \<Rightarrow> int \<Rightarrow> bool" where
  "rowSetTreeFind Leaf x = False"
| "rowSetTreeFind (Node l v r) x =
     (if v < x then rowSetTreeFind r x else if x < v then rowSetTreeFind l x else True)"

definition rowSetNewBatch :: "bool \<Rightarrow> RowSet \<Rightarrow> RowSet option" where
  "rowSetNewBatch mallocOk p =
     (if pEntry p = [] then Some p
      else do {
        e \<leftarrow> (if rsFlags p AND ROWSET_SORTED = 0 then rowSetEntrySort (pEntry p) else Some (pEntry p));
        (forest, left) \<leftarrow> rowSetForestAdd (pForest p) e;
        p \<leftarrow> (case left of
               None \<Rightarrow> Some (p\<lparr>pForest := forest\<rparr>)
             | Some e' \<Rightarrow>
                 (let (ok, p) = rowSetEntryAlloc mallocOk p
                  in if ok then do { t \<leftarrow> rowSetListToTree e'; Some (p\<lparr>pForest := forest @ [t]\<rparr>) }
                     else Some (p\<lparr>pForest := forest\<rparr>)));
        Some (p\<lparr>pEntry := [], pLast := None, rsFlags := rsFlags p OR ROWSET_SORTED\<rparr>) })"

definition sqlite3RowSetTest :: "bool \<Rightarrow> RowSet \<Rightarrow> byte \<Rightarrow> int \<Rightarrow> (bool \<times> RowSet) option" where
  "sqlite3RowSetTest mallocOk p batch iRowid = do {
     assertion (rsFlags p AND ROWSET_NEXT = 0);
     p \<leftarrow> (if batch \<noteq> iBatch p
           then do { p \<leftarrow> rowSetNewBatch mallocOk p; Some (p\<lparr>iBatch := batch\<rparr>) }
           else Some p);
     Some (list_ex (\<lambda>t. rowSetTreeFind t iRowid) (pForest p), p) }"

section \<open>The merge and the sort\<close>

text \<open>The merge on lists that are in order, where no assertion fails.\<close>

fun merge_distinct :: "int list \<Rightarrow> int list \<Rightarrow> int list" where
  "merge_distinct (a # pA) (b # pB) =
     (if a < b then a # merge_distinct pA (b # pB)
      else if b < a then b # merge_distinct (a # pA) pB
      else merge_distinct pA (b # pB))"
| "merge_distinct [] pB = pB"
| "merge_distinct pA [] = pA"

lemma ssorted_head_in_order: "ssorted xs \<Longrightarrow> head_in_order xs"
  by (cases xs rule: head_in_order.cases) auto

lemma rowSetEntryMerge_Some:
  "ssorted xs \<Longrightarrow> ssorted ys \<Longrightarrow> rowSetEntryMerge xs ys = Some (merge_distinct xs ys)"
  by (induction xs ys rule: merge_distinct.induct) (simp_all add: ssorted_head_in_order)

lemma set_merge_distinct [simp]: "set (merge_distinct xs ys) = set xs \<union> set ys"
  by (induction xs ys rule: merge_distinct.induct) auto

lemma ssorted_merge_distinct: "ssorted xs \<Longrightarrow> ssorted ys \<Longrightarrow> ssorted (merge_distinct xs ys)"
  by (induction xs ys rule: merge_distinct.induct) auto

interpretation rs: bucket_merge "(\<union>)" "{}" merge_distinct ssorted set
proof unfold_locales
  fix xs ys :: "int list"
  assume "ys \<noteq> []"
  then show "merge_distinct xs ys \<noteq> []"
    by (metis set_merge_distinct set_empty sup_eq_bot_iff)
qed (auto simp: ssorted_merge_distinct)

lemma rowSetEntrySort_carry_eq:
  assumes "\<forall>b\<in>set bs. ssorted b" "ssorted p" "p \<noteq> []"
  shows "rowSetEntrySort_carry bs p =
           (case carry merge_distinct bs p of (bs', q) \<Rightarrow> if q = [] then Some bs' else None)"
  using assms
proof (induction bs arbitrary: p)
  case (Cons b bs)
  have "ssorted (merge_distinct b p)" "merge_distinct b p \<noteq> []"
    using Cons.prems ssorted_merge_distinct rs.merge_nonempty by auto
  with Cons show ?case
    by (auto simp: rowSetEntryMerge_Some split: prod.splits)
qed simp

lemma rowSetEntrySort_collect_eq:
  "\<forall>b\<in>set bs. ssorted b \<Longrightarrow> ssorted p \<Longrightarrow>
   rowSetEntrySort_collect bs p = Some (fold (\<lambda>b p. merge_distinct p b) bs p)"
  by (induction bs arbitrary: p) (simp_all add: rowSetEntryMerge_Some ssorted_merge_distinct)

lemma rowSetEntrySort_loop_Some:
  assumes "\<forall>b\<in>set bs. ssorted b" "occupancy bs + length xs < 2 ^ length bs"
  shows "\<exists>bs'. rowSetEntrySort_loop bs xs = Some bs' \<and> (\<forall>b\<in>set bs'. ssorted b) \<and>
           rs.total bs' = rs.total bs \<union> set xs"
  using assms
proof (induction xs arbitrary: bs)
  case (Cons x xs)
  obtain bs' q where c: "carry merge_distinct bs [x] = (bs', q)" by fastforce
  have "q = []" using rs.carry_overflow [of "[x]" bs] Cons.prems c by simp
  then have "rowSetEntrySort_carry bs [x] = Some bs'"
    using rowSetEntrySort_carry_eq [of bs "[x]"] Cons.prems c by simp
  moreover have "\<forall>b\<in>set bs'. ssorted b" using rs.carry_ok [of bs "[x]"] Cons.prems c by simp
  moreover have "rs.total bs' = rs.total bs \<union> {x}"
    using rs.carry_total [of bs "[x]"] Cons.prems c \<open>q = []\<close> by simp
  moreover have "occupancy bs' = occupancy bs + 1" "length bs' = length bs"
    using rs.carry_occupancy [of "[x]" bs] length_carry [of merge_distinct bs "[x]"] c \<open>q = []\<close> by simp_all
  ultimately show ?case using Cons.IH [of bs'] Cons.prems by simp
qed simp

lemma rowSetEntrySort_loop_None:
  assumes "\<forall>b\<in>set bs. ssorted b" "2 ^ length bs \<le> occupancy bs + length xs"
  shows "rowSetEntrySort_loop bs xs = None"
  using assms
proof (induction xs arbitrary: bs)
  case Nil
  then show ?case using occupancy_bound [of bs] by simp
next
  case (Cons x xs)
  obtain bs' q where c: "carry merge_distinct bs [x] = (bs', q)" by fastforce
  then have e: "rowSetEntrySort_carry bs [x] = (if q = [] then Some bs' else None)"
    using rowSetEntrySort_carry_eq [of bs "[x]"] Cons.prems by simp
  show ?case
  proof (cases "q = []")
    case True
    then have "occupancy bs' = occupancy bs + 1" "length bs' = length bs" "\<forall>b\<in>set bs'. ssorted b"
      using rs.carry_occupancy [of "[x]" bs] length_carry [of merge_distinct bs "[x]"]
        rs.carry_ok [of bs "[x]"] Cons.prems c by simp_all
    then show ?thesis using Cons.IH [of bs'] Cons.prems e True by simp
  qed (simp add: e)
qed

lemma rowSetEntrySort_Some:
  assumes "length xs < 2 ^ 40"
  shows "rowSetEntrySort xs = Some (sorted_list_of_set (set xs))"
proof -
  let ?b = "replicate 40 [] :: int list list"
  obtain bs' where l: "rowSetEntrySort_loop ?b xs = Some bs'" and o: "\<forall>b\<in>set bs'. ssorted b"
    and t: "rs.total bs' = set xs"
    using rowSetEntrySort_loop_Some [of ?b xs] assms by auto
  let ?r = "fold (\<lambda>b p. merge_distinct p b) bs' []"
  have "ssorted ?r" "set ?r = set xs"
    using rs.fold_merge [OF o, of "[]"] t by simp_all
  then have "?r = sorted_list_of_set (set xs)"
    by (intro ssorted_unique) simp_all
  with l o show ?thesis by (simp add: rowSetEntrySort_def rowSetEntrySort_collect_eq)
qed

section \<open>Trees and lists\<close>

lemma rowSetTreeToList_inorder: "t \<noteq> Leaf \<Longrightarrow> rowSetTreeToList t = Some (inorder t, size t - 1)"
proof (induction t)
  case (Node l v r)
  have "0 < size l" if "l \<noteq> Leaf" using that by (cases l) auto
  moreover have "0 < size r" if "r \<noteq> Leaf" using that by (cases r) auto
  ultimately show ?case using Node by auto
qed simp

lemma rowSetNDeepTree_inorder: "inorder (fst (rowSetNDeepTree xs d)) @ snd (rowSetNDeepTree xs d) = xs"
proof (induction xs d rule: rowSetNDeepTree.induct)
  case (3 x xs d)
  then show ?case
    by (cases "rowSetNDeepTree (x # xs) d") (auto split: list.splits prod.splits)
qed auto

text \<open>The tree has the depth asked for, and is complete whenever entries are left over.\<close>

lemma rowSetNDeepTree_shape:
  "height (fst (rowSetNDeepTree xs d)) \<le> Suc d \<and>
   (snd (rowSetNDeepTree xs d) \<noteq> [] \<longrightarrow> size (fst (rowSetNDeepTree xs d)) + 1 = 2 ^ Suc d)"
proof (induction xs d rule: rowSetNDeepTree.induct)
  case (3 x xs d)
  then show ?case
    by (cases "rowSetNDeepTree (x # xs) d") (force split: list.splits prod.splits)
qed auto

lemma rowSetListToTree_loop_inorder: "inorder (rowSetListToTree_loop p xs d) = inorder p @ xs"
proof (induction p xs d rule: rowSetListToTree_loop.induct)
  case (2 p x pList d)
  then show ?case
    using rowSetNDeepTree_inorder [of pList d] by (cases "rowSetNDeepTree pList d") auto
qed simp

lemma rowSetListToTree_loop_height:
  "height p = Suc d \<Longrightarrow> size p + 1 = 2 ^ Suc d \<Longrightarrow>
   2 ^ (height (rowSetListToTree_loop p xs d) - 1) \<le> size (rowSetListToTree_loop p xs d)"
proof (induction p xs d rule: rowSetListToTree_loop.induct)
  case (1 p d)
  have "(2::nat) ^ d < 2 ^ Suc d" by simp
  with 1 show ?case by simp
next
  case (2 p x pList d)
  obtain r rest where n: "rowSetNDeepTree pList d = (r, rest)" by fastforce
  show ?case
  proof (cases "rest = []")
    case True
    then show ?thesis using 2 n rowSetNDeepTree_shape [of pList d] by simp
  next
    case False
    then have "height r \<le> Suc d" "size r + 1 = 2 ^ Suc d"
      using n rowSetNDeepTree_shape [of pList d] by simp_all
    then show ?thesis using 2 n by simp
  qed
qed

lemma rowSetListToTree_Some:
  "xs \<noteq> [] \<Longrightarrow> \<exists>t. rowSetListToTree xs = Some t \<and> t \<noteq> Leaf \<and> inorder t = xs \<and> 2 ^ (height t - 1) \<le> size t"
proof (cases xs)
  case (Cons x ys)
  let ?t = "rowSetListToTree_loop (Node Leaf x Leaf) ys 0"
  have "inorder ?t = xs" using rowSetListToTree_loop_inorder [of "Node Leaf x Leaf" ys 0] Cons by simp
  moreover from this have "?t \<noteq> Leaf" using Cons by auto
  moreover have "2 ^ (height ?t - 1) \<le> size ?t" by (rule rowSetListToTree_loop_height) simp_all
  ultimately show ?thesis using Cons by auto
qed simp

lemma rowSetTreeFind_iff: "ssorted (inorder t) \<Longrightarrow> rowSetTreeFind t x = (x \<in> set_tree t)"
  by (induction t) (auto simp: sorted_wrt_append)

section \<open>The operations refine a batched set\<close>

text \<open>
  The abstract object: the rowids a TEST can see, the rowids inserted since the last change of the
  batch number, and that number.
\<close>

record BatchedSet =
  visible :: "int set"
  pending :: "int set"
  batch :: byte

definition BatchedSet_insert :: "int \<Rightarrow> BatchedSet \<Rightarrow> BatchedSet" where
  "BatchedSet_insert x s = s\<lparr>pending := insert x (pending s)\<rparr>"

definition BatchedSet_test :: "byte \<Rightarrow> int \<Rightarrow> BatchedSet \<Rightarrow> bool \<times> BatchedSet" where
  "BatchedSet_test b x s =
     (let s' = (if b \<noteq> batch s then \<lparr>visible = visible s \<union> pending s, pending = {}, batch = b\<rparr> else s)
      in (x \<in> visible s', s'))"

definition rowset_abs :: "RowSet \<Rightarrow> BatchedSet" where
  "rowset_abs p = \<lparr>visible = (\<Union>t\<in>set (pForest p). set_tree t), pending = set (pEntry p), batch = iBatch p\<rparr>"

text \<open>The invariant of a RowSet from which no rowid has been extracted.\<close>

definition rowset_inv :: "RowSet \<Rightarrow> bool" where
  "rowset_inv p \<longleftrightarrow>
     rsFlags p AND ROWSET_NEXT = 0 \<and>
     pLast p = (if pEntry p = [] then None else Some (last (pEntry p))) \<and>
     (rsFlags p AND ROWSET_SORTED \<noteq> 0 \<longrightarrow> ssorted (pEntry p)) \<and>
     (\<forall>t\<in>set (pForest p). ssorted (inorder t))"

lemma rowset_flags [simp]:
  "(f AND NOT ROWSET_SORTED) AND ROWSET_NEXT = f AND ROWSET_NEXT"
  "(f OR ROWSET_SORTED) AND ROWSET_NEXT = f AND ROWSET_NEXT"
  "(f AND NOT ROWSET_SORTED) AND ROWSET_SORTED = 0"
  "(f OR ROWSET_NEXT) AND ROWSET_NEXT = ROWSET_NEXT"
  "ROWSET_SORTED AND ROWSET_NEXT = 0" "ROWSET_SORTED \<noteq> 0" "ROWSET_NEXT \<noteq> 0"
  by (auto simp: ROWSET_SORTED_def ROWSET_NEXT_def bit_simps intro!: bit_eqI)

lemma rowset_flag_set [simp]: "(f OR ROWSET_SORTED) AND ROWSET_SORTED = ROWSET_SORTED"
  by (auto simp: ROWSET_SORTED_def bit_simps intro!: bit_eqI)

lemma rowSetEntryAlloc_frame:
  assumes "rowSetEntryAlloc ok p = (r, p')"
  shows "pEntry p' = pEntry p" "pLast p' = pLast p" "pForest p' = pForest p" "rsFlags p' = rsFlags p"
    "iBatch p' = iBatch p" "ok \<Longrightarrow> r"
  using assms by (auto simp: rowSetEntryAlloc_def split: if_splits)

lemma rowset_init_inv: "sqlite3RowSetInit N = Some p \<Longrightarrow> rowset_inv p"
  by (auto simp: sqlite3RowSetInit_def rowset_inv_def)

lemma rowset_init_abs:
  "sqlite3RowSetInit N = Some p \<Longrightarrow> rowset_abs p = \<lparr>visible = {}, pending = {}, batch = 0\<rparr>"
  by (auto simp: sqlite3RowSetInit_def rowset_abs_def)

lemma rowset_insert:
  assumes inv: "rowset_inv p"
  obtains p' where "sqlite3RowSetInsert True p x = Some p'" "rowset_inv p'"
    "pEntry p' = pEntry p @ [x]" "pForest p' = pForest p" "iBatch p' = iBatch p"
proof -
  obtain r q where a: "rowSetEntryAlloc True p = (r, q)" by fastforce
  note fr = rowSetEntryAlloc_frame [OF a]
  show ?thesis
  proof (cases "pEntry p = []")
    case True
    with a fr inv show ?thesis
      by (intro that [of "q\<lparr>pEntry := [x], pLast := Some x\<rparr>"])
         (auto simp: sqlite3RowSetInsert_def rowset_inv_def)
  next
    case False
    with a fr inv ssorted_less_last [of "pEntry p" x] show ?thesis
      by (intro that [of "(if rsFlags q AND ROWSET_SORTED \<noteq> 0 \<and> x \<le> last (pEntry p)
               then q\<lparr>rsFlags := rsFlags q AND NOT ROWSET_SORTED\<rparr> else q)
             \<lparr>pEntry := pEntry p @ [x], pLast := Some x\<rparr>"])
         (auto simp: sqlite3RowSetInsert_def rowset_inv_def Let_def)
  qed
qed

lemma rowset_insert_abs:
  assumes "pEntry p' = pEntry p @ [x]" "pForest p' = pForest p" "iBatch p' = iBatch p"
  shows "rowset_abs p' = BatchedSet_insert x (rowset_abs p)"
  using assms by (auto simp: rowset_abs_def BatchedSet_insert_def)

text \<open>The walk over the forest keeps every tree ordered and loses no rowid.\<close>

lemma rowSetForestAdd_Some:
  assumes "\<forall>t\<in>set ts. ssorted (inorder t)" "ssorted e" "e \<noteq> []"
  shows "\<exists>ts' left. rowSetForestAdd ts e = Some (ts', left) \<and> (\<forall>t\<in>set ts'. ssorted (inorder t)) \<and>
    (case left of
       None \<Rightarrow> (\<Union>t\<in>set ts'. set_tree t) = (\<Union>t\<in>set ts. set_tree t) \<union> set e
     | Some e' \<Rightarrow> ssorted e' \<and> e' \<noteq> [] \<and>
         (\<Union>t\<in>set ts'. set_tree t) \<union> set e' = (\<Union>t\<in>set ts. set_tree t) \<union> set e)"
  using assms
proof (induction ts arbitrary: e)
  case (Cons t ts)
  show ?case
  proof (cases "t = Leaf")
    case True
    obtain t' where t': "rowSetListToTree e = Some t'" "inorder t' = e"
      using rowSetListToTree_Some [OF Cons.prems(3)] by blast
    then have "set_tree t' = set e" by (metis set_inorder)
    with True t' Cons.prems show ?thesis by auto
  next
    case False
    let ?e = "merge_distinct (inorder t) e"
    have s: "set ?e = set_tree t \<union> set e" by simp
    have "ssorted ?e" "?e \<noteq> []"
      using Cons.prems s by (auto intro: ssorted_merge_distinct simp del: set_merge_distinct)
    moreover have "rowSetEntryMerge (inorder t) e = Some ?e"
      using Cons.prems by (simp add: rowSetEntryMerge_Some)
    ultimately obtain ts' left where ih: "rowSetEntryMerge (inorder t) e = Some ?e" "rowSetForestAdd ts ?e = Some (ts', left)"
      "\<forall>t\<in>set ts'. ssorted (inorder t)"
      "case left of
         None \<Rightarrow> (\<Union>t\<in>set ts'. set_tree t) = (\<Union>t\<in>set ts. set_tree t) \<union> set ?e
       | Some e' \<Rightarrow> ssorted e' \<and> e' \<noteq> [] \<and>
           (\<Union>t\<in>set ts'. set_tree t) \<union> set e' = (\<Union>t\<in>set ts. set_tree t) \<union> set ?e"
      using Cons.IH [of ?e] Cons.prems by auto
    with False s show ?thesis
      by (auto simp: rowSetTreeToList_inorder Un_assoc Un_left_commute split: option.splits)
  qed
qed auto

lemma rowSetNewBatch_Some:
  assumes inv: "rowset_inv p" and len: "length (pEntry p) < 2 ^ 40"
  shows "\<exists>p'. rowSetNewBatch True p = Some p' \<and> rowset_inv p' \<and> pEntry p' = [] \<and>
     (\<Union>t\<in>set (pForest p'). set_tree t) = (\<Union>t\<in>set (pForest p). set_tree t) \<union> set (pEntry p)"
proof (cases "pEntry p = []")
  case True
  with inv show ?thesis by (auto simp: rowSetNewBatch_def)
next
  case False
  let ?e = "if rsFlags p AND ROWSET_SORTED = 0 then sorted_list_of_set (set (pEntry p)) else pEntry p"
  have e: "ssorted ?e" "set ?e = set (pEntry p)" "?e \<noteq> []"
    using inv False by (auto simp: rowset_inv_def)
  have srt: "(if rsFlags p AND ROWSET_SORTED = 0 then rowSetEntrySort (pEntry p) else Some (pEntry p)) = Some ?e"
    using rowSetEntrySort_Some [OF len] by simp
  obtain ts' left where add: "rowSetForestAdd (pForest p) ?e = Some (ts', left)"
    "\<forall>t\<in>set ts'. ssorted (inorder t)"
    "case left of
       None \<Rightarrow> (\<Union>t\<in>set ts'. set_tree t) = (\<Union>t\<in>set (pForest p). set_tree t) \<union> set ?e
     | Some e' \<Rightarrow> ssorted e' \<and> e' \<noteq> [] \<and>
         (\<Union>t\<in>set ts'. set_tree t) \<union> set e' = (\<Union>t\<in>set (pForest p). set_tree t) \<union> set ?e"
    using rowSetForestAdd_Some [of "pForest p" ?e] inv e by (auto simp: rowset_inv_def)
  show ?thesis
  proof (cases left)
    case None
    with add e(2) inv False srt show ?thesis
      by (simp add: rowSetNewBatch_def rowset_inv_def)
  next
    case (Some e')
    obtain r q where a: "rowSetEntryAlloc True p = (r, q)" by fastforce
    note fr = rowSetEntryAlloc_frame [OF a]
    obtain t where t: "rowSetListToTree e' = Some t" "inorder t = e'"
      using rowSetListToTree_Some [of e'] add Some by auto
    then have "set_tree t = set e'" by (metis set_inorder)
    with add e(2) inv False srt Some a fr t show ?thesis
      by (auto simp: rowSetNewBatch_def rowset_inv_def)
  qed
qed

lemma rowset_test:
  assumes inv: "rowset_inv p" and len: "length (pEntry p) < 2 ^ 40"
  obtains p' where
    "sqlite3RowSetTest True p b x = Some (fst (BatchedSet_test b x (rowset_abs p)), p')"
    "rowset_abs p' = snd (BatchedSet_test b x (rowset_abs p))"
    "rowset_inv p'" "length (pEntry p') \<le> length (pEntry p)"
proof -
  have find: "list_ex (\<lambda>t. rowSetTreeFind t x) (pForest q) = (x \<in> (\<Union>t\<in>set (pForest q). set_tree t))"
    if "rowset_inv q" for q
    using that by (auto simp: rowset_inv_def list_ex_iff rowSetTreeFind_iff)
  show ?thesis
  proof (cases "b = iBatch p")
    case True
    with inv find [OF inv] show ?thesis
      by (intro that [of p])
         (simp_all add: sqlite3RowSetTest_def BatchedSet_test_def rowset_abs_def rowset_inv_def)
  next
    case False
    from rowSetNewBatch_Some [OF inv len] obtain q where q: "rowSetNewBatch True p = Some q" "rowset_inv q"
      "pEntry q = []" "(\<Union>t\<in>set (pForest q). set_tree t) = (\<Union>t\<in>set (pForest p). set_tree t) \<union> set (pEntry p)"
      by blast
    from q(2) have "rowset_inv (q\<lparr>iBatch := b\<rparr>)" by (simp add: rowset_inv_def)
    with False q inv find [OF q(2)] show ?thesis
      by (intro that [of "q\<lparr>iBatch := b\<rparr>"])
         (simp_all add: sqlite3RowSetTest_def BatchedSet_test_def rowset_abs_def rowset_inv_def)
  qed
qed

section \<open>Runs of the object\<close>

datatype rowset_op = RInsert bool int | RTest bool byte int

text \<open>
  A run of inserts and tests, with the results of the tests. Each operation carries whether an
  allocation it makes succeeds.
\<close>

fun op_malloc :: "rowset_op \<Rightarrow> bool" where
  "op_malloc (RInsert ok x) = ok"
| "op_malloc (RTest ok b x) = ok"

fun rowset_run :: "rowset_op list \<Rightarrow> RowSet \<Rightarrow> bool list option" where
  "rowset_run [] p = Some []"
| "rowset_run (RInsert ok x # ops) p = do { p \<leftarrow> sqlite3RowSetInsert ok p x; rowset_run ops p }"
| "rowset_run (RTest ok b x # ops) p =
     do { (r, p) \<leftarrow> sqlite3RowSetTest ok p b x; rs \<leftarrow> rowset_run ops p; Some (r # rs) }"

fun BatchedSet_run :: "rowset_op list \<Rightarrow> BatchedSet \<Rightarrow> bool list" where
  "BatchedSet_run [] s = []"
| "BatchedSet_run (RInsert ok x # ops) s = BatchedSet_run ops (BatchedSet_insert x s)"
| "BatchedSet_run (RTest ok b x # ops) s =
     (let (r, s) = BatchedSet_test b x s in r # BatchedSet_run ops s)"

lemma rowset_run_refines:
  assumes "rowset_inv p" "length (pEntry p) + length ops < 2 ^ 40" "list_all op_malloc ops"
  shows "rowset_run ops p = Some (BatchedSet_run ops (rowset_abs p))"
  using assms
proof (induction ops arbitrary: p)
  case (Cons op ops)
  show ?case
  proof (cases op)
    case (RInsert ok x)
    obtain p' where p': "sqlite3RowSetInsert True p x = Some p'" "rowset_inv p'"
      "pEntry p' = pEntry p @ [x]" "pForest p' = pForest p" "iBatch p' = iBatch p"
      by (rule rowset_insert [OF Cons.prems(1)])
    then show ?thesis
      using Cons.IH [of p'] Cons.prems RInsert rowset_insert_abs [of p' p x] by simp
  next
    case (RTest ok b x)
    have "length (pEntry p) < 2 ^ 40" using Cons.prems by simp
    then obtain p' where p': "sqlite3RowSetTest True p b x = Some (fst (BatchedSet_test b x (rowset_abs p)), p')"
      "rowset_abs p' = snd (BatchedSet_test b x (rowset_abs p))"
      "rowset_inv p'" "length (pEntry p') \<le> length (pEntry p)"
      by (rule rowset_test [OF Cons.prems(1)])
    then show ?thesis
      using Cons.IH [of p'] Cons.prems RTest by (simp add: case_prod_beta)
  qed
qed simp

text \<open>
  With failing allocations: an insert may be lost, and a test may lose the rowids it was to file in
  the forest, but every rowid that is found was inserted, and the invariant holds.
\<close>

definition rowset_below :: "RowSet \<Rightarrow> BatchedSet \<Rightarrow> bool" where
  "rowset_below p s \<longleftrightarrow> visible (rowset_abs p) \<subseteq> visible s \<and> pending (rowset_abs p) \<subseteq> pending s \<and>
     batch (rowset_abs p) = batch s"

lemma rowset_insert_below:
  assumes "rowset_inv p" "rowset_below p s"
  obtains p' where "sqlite3RowSetInsert ok p x = Some p'" "rowset_inv p'"
    "length (pEntry p') \<le> length (pEntry p) + 1" "rowset_below p' (BatchedSet_insert x s)"
proof (cases "fst (rowSetEntryAlloc ok p)")
  case True
  then have "rowSetEntryAlloc ok p = rowSetEntryAlloc True p"
    by (auto simp: rowSetEntryAlloc_def split: if_splits)
  then have "sqlite3RowSetInsert ok p x = sqlite3RowSetInsert True p x"
    by (simp add: sqlite3RowSetInsert_def)
  moreover obtain p' where "sqlite3RowSetInsert True p x = Some p'" "rowset_inv p'"
      "pEntry p' = pEntry p @ [x]" "pForest p' = pForest p" "iBatch p' = iBatch p"
    by (rule rowset_insert [OF assms(1)])
  ultimately show thesis
    using assms(2) by (intro that [of p']) (auto simp: rowset_below_def rowset_abs_def BatchedSet_insert_def)
next
  case False
  then have "rowSetEntryAlloc ok p = (False, p)" by (auto simp: rowSetEntryAlloc_def split: if_splits)
  with assms show thesis
    by (intro that [of p])
       (auto simp: sqlite3RowSetInsert_def rowset_inv_def rowset_below_def BatchedSet_insert_def)
qed

lemma rowSetNewBatch_below:
  assumes inv: "rowset_inv p" and len: "length (pEntry p) < 2 ^ 40"
  shows "\<exists>p'. rowSetNewBatch ok p = Some p' \<and> rowset_inv p' \<and> pEntry p' = [] \<and>
     (\<Union>t\<in>set (pForest p'). set_tree t) \<subseteq> (\<Union>t\<in>set (pForest p). set_tree t) \<union> set (pEntry p)"
proof (cases "rowSetNewBatch ok p = rowSetNewBatch True p")
  case True
  then show ?thesis using rowSetNewBatch_Some [OF inv len] by auto
next
  case False
  let ?e = "if rsFlags p AND ROWSET_SORTED = 0 then sorted_list_of_set (set (pEntry p)) else pEntry p"
  from False have ne: "pEntry p \<noteq> []" by (auto simp: rowSetNewBatch_def)
  then have e: "ssorted ?e" "set ?e = set (pEntry p)" "?e \<noteq> []" using inv by (auto simp: rowset_inv_def)
  have srt: "(if rsFlags p AND ROWSET_SORTED = 0 then rowSetEntrySort (pEntry p) else Some (pEntry p)) = Some ?e"
    using rowSetEntrySort_Some [OF len] by simp
  obtain ts' left where add: "rowSetForestAdd (pForest p) ?e = Some (ts', left)"
    "\<forall>t\<in>set ts'. ssorted (inorder t)"
    "case left of
       None \<Rightarrow> (\<Union>t\<in>set ts'. set_tree t) = (\<Union>t\<in>set (pForest p). set_tree t) \<union> set ?e
     | Some e' \<Rightarrow> ssorted e' \<and> e' \<noteq> [] \<and>
         (\<Union>t\<in>set ts'. set_tree t) \<union> set e' = (\<Union>t\<in>set (pForest p). set_tree t) \<union> set ?e"
    using rowSetForestAdd_Some [of "pForest p" ?e] inv e by (auto simp: rowset_inv_def)
  have alloc: "rowSetEntryAlloc ok p = rowSetEntryAlloc True p \<or> rowSetEntryAlloc ok p = (False, p)"
    by (simp add: rowSetEntryAlloc_def)
  from False ne srt add obtain e' where l: "left = Some e'" "rowSetEntryAlloc ok p = (False, p)"
    using alloc by (cases left) (auto simp: rowSetNewBatch_def)
  with add e(2) inv ne srt show ?thesis by (auto simp: rowSetNewBatch_def rowset_inv_def)
qed

lemma rowset_test_below:
  assumes inv: "rowset_inv p" and len: "length (pEntry p) < 2 ^ 40" and below: "rowset_below p s"
  obtains r p' where "sqlite3RowSetTest ok p b x = Some (r, p')" "r \<longrightarrow> fst (BatchedSet_test b x s)"
    "rowset_inv p'" "length (pEntry p') \<le> length (pEntry p)" "rowset_below p' (snd (BatchedSet_test b x s))"
proof -
  obtain q where q: "(if b \<noteq> iBatch p then do { p \<leftarrow> rowSetNewBatch ok p; Some (p\<lparr>iBatch := b\<rparr>) } else Some p) = Some q"
    "rowset_inv q" "length (pEntry q) \<le> length (pEntry p)" "rowset_below q (snd (BatchedSet_test b x s))"
  proof (cases "b = iBatch p")
    case True
    with inv below show thesis
      by (intro that [of p]) (auto simp: rowset_below_def rowset_abs_def BatchedSet_test_def Let_def)
  next
    case False
    obtain q where "rowSetNewBatch ok p = Some q" "rowset_inv q" "pEntry q = []"
      "(\<Union>t\<in>set (pForest q). set_tree t) \<subseteq> (\<Union>t\<in>set (pForest p). set_tree t) \<union> set (pEntry p)"
      using rowSetNewBatch_below [OF inv len] by blast
    with False below show thesis
      by (intro that [of "q\<lparr>iBatch := b\<rparr>"])
         (auto simp: rowset_below_def rowset_abs_def rowset_inv_def BatchedSet_test_def Let_def)
  qed
  let ?r = "list_ex (\<lambda>t. rowSetTreeFind t x) (pForest q)"
  have "?r = (x \<in> visible (rowset_abs q))"
    using q(2) by (auto simp: rowset_inv_def list_ex_iff rowSetTreeFind_iff rowset_abs_def)
  moreover have "fst (BatchedSet_test b x s) = (x \<in> visible (snd (BatchedSet_test b x s)))"
    by (simp add: BatchedSet_test_def Let_def)
  ultimately have "?r \<longrightarrow> fst (BatchedSet_test b x s)" using q(4) by (auto simp: rowset_below_def)
  with q inv show thesis by (intro that [of ?r q]) (simp_all add: sqlite3RowSetTest_def rowset_inv_def)
qed

lemma rowset_run_below:
  assumes "rowset_inv p" "length (pEntry p) + length ops < 2 ^ 40" "rowset_below p s"
  shows "\<exists>rs. rowset_run ops p = Some rs \<and> list_all2 (\<longrightarrow>) rs (BatchedSet_run ops s)"
  using assms
proof (induction ops arbitrary: p s)
  case (Cons op ops)
  show ?case
  proof (cases op)
    case (RInsert ok x)
    obtain p' where "sqlite3RowSetInsert ok p x = Some p'" "rowset_inv p'"
      "length (pEntry p') \<le> length (pEntry p) + 1" "rowset_below p' (BatchedSet_insert x s)"
      by (rule rowset_insert_below [OF Cons.prems(1,3)])
    then show ?thesis using Cons.IH [of p' "BatchedSet_insert x s"] Cons.prems RInsert by simp
  next
    case (RTest ok b x)
    have "length (pEntry p) < 2 ^ 40" using Cons.prems by simp
    then obtain r p' where "sqlite3RowSetTest ok p b x = Some (r, p')" "r \<longrightarrow> fst (BatchedSet_test b x s)"
      "rowset_inv p'" "length (pEntry p') \<le> length (pEntry p)" "rowset_below p' (snd (BatchedSet_test b x s))"
      by (rule rowset_test_below [OF Cons.prems(1) _ Cons.prems(3)])
    then show ?thesis
      using Cons.IH [of p' "snd (BatchedSet_test b x s)"] Cons.prems RTest by (auto simp: case_prod_beta)
  qed
qed simp

fun rowset_inserts :: "int list \<Rightarrow> RowSet \<Rightarrow> RowSet option" where
  "rowset_inserts [] p = Some p"
| "rowset_inserts (x # xs) p = do { p \<leftarrow> sqlite3RowSetInsert True p x; rowset_inserts xs p }"

fun rowset_nexts :: "nat \<Rightarrow> RowSet \<Rightarrow> (int option list \<times> RowSet) option" where
  "rowset_nexts 0 p = Some ([], p)"
| "rowset_nexts (Suc n) p =
     do { (r, p) \<leftarrow> sqlite3RowSetNext p; (rs, p) \<leftarrow> rowset_nexts n p; Some (r # rs, p) }"

lemma rowset_inserts_Some:
  "rowset_inv p \<Longrightarrow> \<exists>p'. rowset_inserts xs p = Some p' \<and> rowset_inv p' \<and>
     pEntry p' = pEntry p @ xs \<and> pForest p' = pForest p"
proof (induction xs arbitrary: p)
  case (Cons x xs)
  obtain p' where "sqlite3RowSetInsert True p x = Some p'" "rowset_inv p'"
      "pEntry p' = pEntry p @ [x]" "pForest p' = pForest p"
    by (rule rowset_insert [OF Cons.prems])
  then show ?case using Cons.IH [of p'] by auto
qed auto

lemma sqlite3RowSetNext_empty:
  "pEntry p = [] \<Longrightarrow> pForest p = [] \<Longrightarrow> rsFlags p AND ROWSET_SORTED \<noteq> 0 \<Longrightarrow>
   \<exists>p'. sqlite3RowSetNext p = Some (None, p')"
  by (auto simp: sqlite3RowSetNext_def rowSetToList_def)

lemma sqlite3RowSetNext_Cons:
  "rsFlags p AND ROWSET_NEXT \<noteq> 0 \<Longrightarrow> pEntry p = v # rest \<Longrightarrow>
   sqlite3RowSetNext p = Some (Some v, if rest = [] then RowSet_Clear (p\<lparr>pEntry := rest\<rparr>) else p\<lparr>pEntry := rest\<rparr>)"
  by (simp add: sqlite3RowSetNext_def)

lemma rowset_nexts_extract:
  assumes "rsFlags p AND ROWSET_NEXT \<noteq> 0" "pEntry p = ys" "ys \<noteq> []"
  shows "\<exists>p'. rowset_nexts (length ys + 1) p = Some (map Some ys @ [None], p')"
  using assms
proof (induction ys arbitrary: p)
  case (Cons y ys)
  show ?case
  proof (cases "ys = []")
    case True
    obtain p' where "sqlite3RowSetNext (RowSet_Clear (p\<lparr>pEntry := []\<rparr>)) = Some (None, p')"
      using sqlite3RowSetNext_empty [of "RowSet_Clear (p\<lparr>pEntry := []\<rparr>)"] by (auto simp: RowSet_Clear_def)
    with Cons.prems True show ?thesis by (simp add: sqlite3RowSetNext_Cons)
  next
    case False
    then obtain p' where ih: "rowset_nexts (Suc (length ys)) (p\<lparr>pEntry := ys\<rparr>) = Some (map Some ys @ [None], p')"
      using Cons.IH [of "p\<lparr>pEntry := ys\<rparr>"] Cons.prems by auto
    have "rowset_nexts (Suc (Suc (length ys))) p = Some (map Some (y # ys) @ [None], p')"
      by (subst rowset_nexts.simps(2))
         (simp add: sqlite3RowSetNext_Cons [OF Cons.prems(1,2)] False ih del: rowset_nexts.simps)
    then show ?thesis by auto
  qed
qed simp

lemma rowSetToList_Some:
  assumes "rowset_inv p" "pForest p = []" "length (pEntry p) < 2 ^ 40"
  shows "rowSetToList p = Some (p\<lparr>pEntry := sorted_list_of_set (set (pEntry p)),
           rsFlags := rsFlags p OR ROWSET_NEXT\<rparr>)"
proof -
  have "ssorted (pEntry p) \<Longrightarrow> p\<lparr>pEntry := sorted_list_of_set (set (pEntry p))\<rparr> = p"
    using ssorted_unique [of "sorted_list_of_set (set (pEntry p))" "pEntry p"] by simp
  with assms rowSetEntrySort_Some [OF assms(3)] show ?thesis
    by (auto simp: rowSetToList_def rowset_inv_def)
qed

lemma sqlite3RowSetNext_first:
  assumes "rowset_inv p" "rowSetToList p = Some q" "rsFlags q AND ROWSET_NEXT \<noteq> 0"
  shows "sqlite3RowSetNext p = sqlite3RowSetNext q"
  using assms by (simp add: sqlite3RowSetNext_def rowset_inv_def)

lemma rowset_extract:
  assumes inv: "rowset_inv p" and f: "pForest p = []" and len: "length (pEntry p) < 2 ^ 40"
  shows "\<exists>p'. rowset_nexts (card (set (pEntry p)) + 1) p =
           Some (map Some (sorted_list_of_set (set (pEntry p))) @ [None], p')"
proof -
  define q where "q = p\<lparr>pEntry := sorted_list_of_set (set (pEntry p)), rsFlags := rsFlags p OR ROWSET_NEXT\<rparr>"
  have q: "rowSetToList p = Some q" using rowSetToList_Some [OF inv f len] by (simp add: q_def)
  have nq: "rsFlags q AND ROWSET_NEXT \<noteq> 0" by (simp add: q_def)
  have "rowset_nexts (Suc n) p = rowset_nexts (Suc n) q" for n
    using sqlite3RowSetNext_first [OF inv q nq] by simp
  moreover have "\<exists>p'. rowset_nexts (card (set (pEntry p)) + 1) q =
           Some (map Some (sorted_list_of_set (set (pEntry p))) @ [None], p')"
  proof (cases "pEntry p = []")
    case True
    then show ?thesis using nq by (simp add: sqlite3RowSetNext_def q_def)
  next
    case False
    then show ?thesis
      using rowset_nexts_extract [OF nq, of "sorted_list_of_set (set (pEntry p))"] by (simp add: q_def)
  qed
  ultimately show ?thesis by simp
qed

section \<open>Properties\<close>

text \<open>
  C6. A RowSet is a batched set: every sequence of fewer than \<open>2 ^ 40\<close> INSERT and TEST operations on a
  fresh RowSet runs to its end without a failing assertion, whether allocations succeed or not. A TEST
  that answers yes names a rowid that was inserted before the last change of the batch number, and
  when every allocation succeeds each TEST answers exactly that.
\<close>

theorem rowset_run_correct:
  assumes "56 \<le> N" and "length ops < 2 ^ 40"
  shows "\<exists>rs. do { p \<leftarrow> sqlite3RowSetInit N; rowset_run ops p } = Some rs \<and>
           list_all2 (\<longrightarrow>) rs (BatchedSet_run ops \<lparr>visible = {}, pending = {}, batch = 0\<rparr>) \<and>
           (list_all op_malloc ops \<longrightarrow> rs = BatchedSet_run ops \<lparr>visible = {}, pending = {}, batch = 0\<rparr>)"
proof -
  obtain p where p: "sqlite3RowSetInit N = Some p" "pEntry p = []"
    using assms(1) by (auto simp: sqlite3RowSetInit_def)
  note inv = rowset_init_inv [OF p(1)] and ab = rowset_init_abs [OF p(1)]
  have "rowset_below p \<lparr>visible = {}, pending = {}, batch = 0\<rparr>" by (simp add: rowset_below_def ab)
  then obtain rs where "rowset_run ops p = Some rs"
    "list_all2 (\<longrightarrow>) rs (BatchedSet_run ops \<lparr>visible = {}, pending = {}, batch = 0\<rparr>)"
    using rowset_run_below [OF inv, of ops] p assms(2) by auto
  then show ?thesis using rowset_run_refines [OF inv, of ops] p assms(2) ab by auto
qed

theorem rowset_run_correct_witness:
  "do { p \<leftarrow> sqlite3RowSetInit 64;
        rowset_run [RInsert True 5, RTest True 1 5, RInsert True 9, RTest True 1 9, RTest True 2 9] p }
   = Some [True, False, True]"
  using rowset_run_correct [of 64 "[RInsert True 5, RTest True 1 5, RInsert True 9, RTest True 1 9, RTest True 2 9]"]
  by (simp add: BatchedSet_insert_def BatchedSet_test_def Let_def)

text \<open>
  C29. Extraction: after any sequence of inserts into a fresh RowSet, SMALLEST returns the inserted
  rowids in increasing order without duplicates and then reports that the set is empty.
\<close>

theorem rowset_extract_sorted:
  assumes "56 \<le> N" and "length xs < 2 ^ 40"
  shows "\<exists>p. do { p \<leftarrow> sqlite3RowSetInit N; p \<leftarrow> rowset_inserts xs p; rowset_nexts (card (set xs) + 1) p }
             = Some (map Some (sorted_list_of_set (set xs)) @ [None], p)"
proof -
  obtain p where p: "sqlite3RowSetInit N = Some p" "pEntry p = []" "pForest p = []"
    using assms(1) by (auto simp: sqlite3RowSetInit_def)
  obtain q where q: "rowset_inserts xs p = Some q" "rowset_inv q" "pEntry q = xs" "pForest q = []"
    using rowset_inserts_Some [OF rowset_init_inv [OF p(1)], of xs] p by auto
  then show ?thesis using p rowset_extract [OF q(2,4)] assms(2) by simp
qed

theorem rowset_extract_sorted_witness:
  "\<exists>p. do { p \<leftarrow> sqlite3RowSetInit 64; p \<leftarrow> rowset_inserts [7, 3, 7] p; rowset_nexts 3 p }
      = Some ([Some 3, Some 7, None], p)"
proof -
  have "set [7, 3, 7] = {3, 7::int}" "card {3, 7::int} + 1 = 3" "sorted_list_of_set {3, 7::int} = [3, 7]"
    by auto
  then show ?thesis using rowset_extract_sorted [of 64 "[7, 3, 7]"] by (simp only:) simp
qed

text \<open>
  The bottom-up merge sort with 40 buckets returns the sorted list of the distinct rowids of its
  input; it indexes past its bucket array exactly when the input has \<open>2 ^ 40\<close> entries or more.
\<close>

theorem rowset_sort_spec:
  "rowSetEntrySort xs = (if length xs < 2 ^ 40 then Some (sorted_list_of_set (set xs)) else None)"
  using rowSetEntrySort_Some [of xs] rowSetEntrySort_loop_None [of "replicate 40 []" xs]
  by (simp add: rowSetEntrySort_def)

text \<open>
  The list of a sorted batch becomes a search tree that holds exactly that list in order and is
  balanced: a tree of height \<open>h\<close> has at least \<open>2 ^ (h - 1)\<close> entries. Turning it back gives the list.
\<close>

theorem rowset_tree_balanced:
  assumes "xs \<noteq> []"
  shows "\<exists>t. rowSetListToTree xs = Some t \<and> map_option fst (rowSetTreeToList t) = Some xs \<and> 2 ^ (height t - 1) \<le> length xs"
  using rowSetListToTree_Some [OF assms] by (auto simp: rowSetTreeToList_inorder simp flip: length_inorder)

theorem rowset_tree_balanced_witness:
  "\<exists>t. rowSetListToTree [1, 2, 3, 4] = Some t \<and> map_option fst (rowSetTreeToList t) = Some [1, 2, 3, 4] \<and> 2 ^ (height t - 1) \<le> (4::nat)"
  using rowset_tree_balanced [of "[1, 2, 3, 4]"] by simp

end
