(* ===== verification/Ctype.thy ===== *)
theory Ctype
  imports Prelude
begin

text \<open>
  Strings and character classes. A NUL-terminated C string is the list of its characters before the
  NUL; \<open>zat z i\<close> is the source's \<open>z[i]\<close>, which reads the terminator at the end. The tables of
  src/global.go are transcribed; the lemmas say what each class is.
\<close>

definition NUL :: char where "NUL = CHR 0x00"

definition zat :: "string \<Rightarrow> nat \<Rightarrow> char" where
  "zat z i = (if i < length z then z ! i else NUL)"

abbreviation code :: "char \<Rightarrow> nat" where
  "code c \<equiv> of_char c"

definition sqlite3UpperToLower :: "nat list" where
  "sqlite3UpperToLower =
    [0, 1, 2, 3, 4, 5, 6, 7, 8, 9, 10, 11, 12, 13, 14, 15, 16, 17,
     18, 19, 20, 21, 22, 23, 24, 25, 26, 27, 28, 29, 30, 31, 32, 33, 34, 35,
     36, 37, 38, 39, 40, 41, 42, 43, 44, 45, 46, 47, 48, 49, 50, 51, 52, 53,
     54, 55, 56, 57, 58, 59, 60, 61, 62, 63, 64, 97, 98, 99, 100, 101, 102, 103,
     104, 105, 106, 107, 108, 109, 110, 111, 112, 113, 114, 115, 116, 117, 118, 119, 120, 121,
     122, 91, 92, 93, 94, 95, 96, 97, 98, 99, 100, 101, 102, 103, 104, 105, 106, 107,
     108, 109, 110, 111, 112, 113, 114, 115, 116, 117, 118, 119, 120, 121, 122, 123, 124, 125,
     126, 127, 128, 129, 130, 131, 132, 133, 134, 135, 136, 137, 138, 139, 140, 141, 142, 143,
     144, 145, 146, 147, 148, 149, 150, 151, 152, 153, 154, 155, 156, 157, 158, 159, 160, 161,
     162, 163, 164, 165, 166, 167, 168, 169, 170, 171, 172, 173, 174, 175, 176, 177, 178, 179,
     180, 181, 182, 183, 184, 185, 186, 187, 188, 189, 190, 191, 192, 193, 194, 195, 196, 197,
     198, 199, 200, 201, 202, 203, 204, 205, 206, 207, 208, 209, 210, 211, 212, 213, 214, 215,
     216, 217, 218, 219, 220, 221, 222, 223, 224, 225, 226, 227, 228, 229, 230, 231, 232, 233,
     234, 235, 236, 237, 238, 239, 240, 241, 242, 243, 244, 245, 246, 247, 248, 249, 250, 251,
     252, 253, 254, 255]"

definition sqlite3CtypeMap :: "nat list" where
  "sqlite3CtypeMap =
    [0, 0, 0, 0, 0, 0, 0, 0, 0, 1, 1, 1, 1, 1, 0, 0,
     0, 0, 0, 0, 0, 0, 0, 0, 0, 0, 0, 0, 0, 0, 0, 0,
     1, 0, 0, 0, 64, 0, 0, 0, 0, 0, 0, 0, 0, 0, 0, 0,
     12, 12, 12, 12, 12, 12, 12, 12, 12, 12, 0, 0, 0, 0, 0, 0,
     0, 10, 10, 10, 10, 10, 10, 2, 2, 2, 2, 2, 2, 2, 2, 2,
     2, 2, 2, 2, 2, 2, 2, 2, 2, 2, 2, 0, 0, 0, 0, 64,
     0, 42, 42, 42, 42, 42, 42, 34, 34, 34, 34, 34, 34, 34, 34, 34,
     34, 34, 34, 34, 34, 34, 34, 34, 34, 34, 34, 0, 0, 0, 0, 0,
     64, 64, 64, 64, 64, 64, 64, 64, 64, 64, 64, 64, 64, 64, 64, 64,
     64, 64, 64, 64, 64, 64, 64, 64, 64, 64, 64, 64, 64, 64, 64, 64,
     64, 64, 64, 64, 64, 64, 64, 64, 64, 64, 64, 64, 64, 64, 64, 64,
     64, 64, 64, 64, 64, 64, 64, 64, 64, 64, 64, 64, 64, 64, 64, 64,
     64, 64, 64, 64, 64, 64, 64, 64, 64, 64, 64, 64, 64, 64, 64, 64,
     64, 64, 64, 64, 64, 64, 64, 64, 64, 64, 64, 64, 64, 64, 64, 64,
     64, 64, 64, 64, 64, 64, 64, 64, 64, 64, 64, 64, 64, 64, 64, 64,
     64, 64, 64, 64, 64, 64, 64, 64, 64, 64, 64, 64, 64, 64, 64, 64]"

definition charMap :: "char \<Rightarrow> nat" where
  "charMap c = sqlite3UpperToLower ! code c"

definition sqlite3Isspace :: "char \<Rightarrow> bool" where
  "sqlite3Isspace c \<longleftrightarrow> sqlite3CtypeMap ! code c AND 0x01 \<noteq> 0"

definition sqlite3Isalpha :: "char \<Rightarrow> bool" where
  "sqlite3Isalpha c \<longleftrightarrow> sqlite3CtypeMap ! code c AND 0x02 \<noteq> 0"

definition sqlite3Isdigit :: "char \<Rightarrow> bool" where
  "sqlite3Isdigit c \<longleftrightarrow> sqlite3CtypeMap ! code c AND 0x04 \<noteq> 0"

definition sqlite3Isxdigit :: "char \<Rightarrow> bool" where
  "sqlite3Isxdigit c \<longleftrightarrow> sqlite3CtypeMap ! code c AND 0x08 \<noteq> 0"

definition IdChar :: "char \<Rightarrow> bool" where
  "IdChar c \<longleftrightarrow> sqlite3CtypeMap ! code c AND 0x46 \<noteq> 0"

section \<open>What the tables say\<close>

text \<open>Each fact is checked at the 256 indices by evaluation.\<close>

lemma charMap_table:
  "sqlite3UpperToLower = map (\<lambda>c. if 65 \<le> c \<and> c \<le> 90 then c + 32 else c) [0..<256]"
  by (simp add: sqlite3UpperToLower_def upt_conv_Cons)

lemma space_table:
  "map (\<lambda>t. t AND 0x01 \<noteq> 0) sqlite3CtypeMap = map (\<lambda>c. c = 32 \<or> 9 \<le> c \<and> c \<le> 13) [0..<256]"
  by (simp add: sqlite3CtypeMap_def upt_conv_Cons)

lemma alpha_table:
  "map (\<lambda>t. t AND 0x02 \<noteq> 0) sqlite3CtypeMap = map (\<lambda>c. 65 \<le> c \<and> c \<le> 90 \<or> 97 \<le> c \<and> c \<le> 122) [0..<256]"
  by (simp add: sqlite3CtypeMap_def upt_conv_Cons)

lemma digit_table:
  "map (\<lambda>t. t AND 0x04 \<noteq> 0) sqlite3CtypeMap = map (\<lambda>c. 48 \<le> c \<and> c \<le> 57) [0..<256]"
  by (simp add: sqlite3CtypeMap_def upt_conv_Cons)

lemma xdigit_table:
  "map (\<lambda>t. t AND 0x08 \<noteq> 0) sqlite3CtypeMap = map (\<lambda>c. 48 \<le> c \<and> c \<le> 57 \<or> 65 \<le> c \<and> c \<le> 70 \<or> 97 \<le> c \<and> c \<le> 102) [0..<256]"
  by (simp add: sqlite3CtypeMap_def upt_conv_Cons)

lemma idchar_table:
  "map (\<lambda>t. t AND 0x46 \<noteq> 0) sqlite3CtypeMap = map (\<lambda>c. c = 36 \<or> c = 95 \<or> 48 \<le> c \<and> c \<le> 57 \<or> 65 \<le> c \<and> c \<le> 90 \<or> 97 \<le> c \<and> c \<le> 122 \<or> 128 \<le> c) [0..<256]"
  by (simp add: sqlite3CtypeMap_def upt_conv_Cons)

lemma length_sqlite3CtypeMap [simp]: "length sqlite3CtypeMap = 256"
  by (simp add: sqlite3CtypeMap_def)

lemma table_at:
  assumes "map f tbl = map g [0..<256]"
  shows "f (tbl ! code c) = g (code c)"
proof -
  have "length tbl = 256" using arg_cong [OF assms, of length] by simp
  then show ?thesis
    using arg_cong [OF assms, of "\<lambda>l. l ! code c"] nat_of_char_less_256 [of c] by simp
qed

lemma charMap_iff: "charMap c = (if 65 \<le> code c \<and> code c \<le> 90 then code c + 32 else code c)"
  using nat_of_char_less_256 [of c] by (simp add: charMap_def charMap_table)

lemma Isspace_iff: "sqlite3Isspace c \<longleftrightarrow> code c = 32 \<or> 9 \<le> code c \<and> code c \<le> 13"
  using table_at [OF space_table, of c] by (simp only: sqlite3Isspace_def)

lemma Isalpha_iff: "sqlite3Isalpha c \<longleftrightarrow> 65 \<le> code c \<and> code c \<le> 90 \<or> 97 \<le> code c \<and> code c \<le> 122"
  using table_at [OF alpha_table, of c] by (simp only: sqlite3Isalpha_def)

lemma Isdigit_iff: "sqlite3Isdigit c \<longleftrightarrow> 48 \<le> code c \<and> code c \<le> 57"
  using table_at [OF digit_table, of c] by (simp only: sqlite3Isdigit_def)

lemma Isxdigit_iff:
  "sqlite3Isxdigit c \<longleftrightarrow> 48 \<le> code c \<and> code c \<le> 57 \<or> 65 \<le> code c \<and> code c \<le> 70 \<or>
     97 \<le> code c \<and> code c \<le> 102"
  using table_at [OF xdigit_table, of c] by (simp only: sqlite3Isxdigit_def)

lemma IdChar_iff:
  "IdChar c \<longleftrightarrow> code c = 36 \<or> code c = 95 \<or> 48 \<le> code c \<and> code c \<le> 57 \<or>
     65 \<le> code c \<and> code c \<le> 90 \<or> 97 \<le> code c \<and> code c \<le> 122 \<or> 128 \<le> code c"
  using table_at [OF idchar_table, of c] by (simp only: IdChar_def)

lemmas ctype_iff = Isspace_iff Isalpha_iff Isdigit_iff Isxdigit_iff IdChar_iff

lemma code_NUL [simp]: "code NUL = 0"
  by (simp add: NUL_def)

lemma zat_simps [simp]:
  "zat [] i = NUL" "zat (c # z) 0 = c" "zat (c # z) (Suc i) = zat z i"
  by (simp_all add: zat_def)

end
