(* ===== verification/Util.thy ===== *)
theory Util
  imports Ctype "HOL-Library.Signed_Division"
begin

text \<open>
  src/util.go: checked 64-bit arithmetic, decimal and hexadecimal conversions, and the removal of
  SQL quotes. An \<open>int64\<close> is an \<^typ>\<open>int\<close> in its range; where an operation of the source can leave
  the range the wrap-around is written out with \<open>wrap64\<close>. Division truncates (\<open>sdiv\<close>, \<open>smod\<close>).
\<close>

section \<open>Checked arithmetic\<close>

definition LARGEST_INT64 :: int where "LARGEST_INT64 = 9223372036854775807"
definition SMALLEST_INT64 :: int where "SMALLEST_INT64 = - 1 - LARGEST_INT64"

definition wrap64 :: "int \<Rightarrow> int" where "wrap64 x = signed_take_bit 63 x"

abbreviation in_int64 :: "int \<Rightarrow> bool" where
  "in_int64 x \<equiv> SMALLEST_INT64 \<le> x \<and> x \<le> LARGEST_INT64"

text \<open>The result is the return value (1 for overflow) and the new contents of \<open>*pA\<close>.\<close>

definition sqlite3AddInt64 :: "int \<Rightarrow> int \<Rightarrow> int \<times> int" where
  "sqlite3AddInt64 iA iB =
     (if iB \<ge> 0 then
        (if iA > 0 \<and> wrap64 (LARGEST_INT64 - iA) < iB then (1, iA) else (0, wrap64 (iA + iB)))
      else
        (if iA < 0 \<and> wrap64 (- wrap64 (iA + LARGEST_INT64)) > wrap64 (iB + 1) then (1, iA)
         else (0, wrap64 (iA + iB))))"

definition sqlite3SubInt64 :: "int \<Rightarrow> int \<Rightarrow> int \<times> int" where
  "sqlite3SubInt64 iA iB =
     (if iB = SMALLEST_INT64 then
        (if iA \<ge> 0 then (1, iA) else (0, wrap64 (iA - iB)))
      else sqlite3AddInt64 iA (wrap64 (- iB)))"

definition TWOPOWER32 :: int where "TWOPOWER32 = 4294967296"
definition TWOPOWER31 :: int where "TWOPOWER31 = 2147483648"

definition sqlite3MulInt64 :: "int \<Rightarrow> int \<Rightarrow> (int \<times> int) option" where
  "sqlite3MulInt64 iA iB =
     (let iA1 = iA sdiv TWOPOWER32; iA0 = iA smod TWOPOWER32;
          iB1 = iB sdiv TWOPOWER32; iB0 = iB smod TWOPOWER32
      in if wrap64 (iA1 * iB1) \<noteq> 0 then Some (1, iA)
         else do {
           assertion (wrap64 (iA1 * iB0) = 0 \<or> wrap64 (iA0 * iB1) = 0);
           let r = wrap64 (wrap64 (iA1 * iB0) + wrap64 (iA0 * iB1));
           if r < - TWOPOWER31 \<or> r \<ge> TWOPOWER31 then Some (1, iA)
           else
             let r = wrap64 (r * TWOPOWER32); (rc, r) = sqlite3AddInt64 r (wrap64 (iA0 * iB0)) in
             if rc \<noteq> 0 then Some (1, iA) else Some (0, r)
         })"

text \<open>A 32-bit \<open>int\<close>.\<close>

definition wrap32 :: "int \<Rightarrow> int" where "wrap32 x = signed_take_bit 31 x"

definition sqlite3AbsInt32 :: "int \<Rightarrow> int" where
  "sqlite3AbsInt32 x =
     (if x \<ge> 0 then x else if x = - 2147483648 then 2147483647 else wrap32 (- x))"

section \<open>Decimal strings\<close>

text \<open>The loop of \<open>compare2pow63\<close> over the 18 characters of \<open>pow63\<close>, at index \<open>i\<close>.\<close>

fun compare2pow63_loop :: "string \<Rightarrow> nat \<Rightarrow> string \<Rightarrow> nat \<Rightarrow> int \<Rightarrow> int" where
  "compare2pow63_loop zNum incr [] i c = c"
| "compare2pow63_loop zNum incr (p # pow63) i c =
     (if c = 0 then compare2pow63_loop zNum incr pow63 (i + 1) ((int (code (zat zNum (i * incr))) - int (code p)) * 10)
      else c)"

definition compare2pow63 :: "string \<Rightarrow> nat \<Rightarrow> int" where
  "compare2pow63 zNum incr =
     (let c = compare2pow63_loop zNum incr ''922337203685477580'' 0 0
      in if c = 0 then int (code (zat zNum (18 * incr))) - int (code (CHR ''8'')) else c)"

text \<open>The \<open>for\<close> loop of \<open>sqlite3GetInt32\<close>: it ends with the number of digits read and the value.\<close>

fun sqlite3GetInt32_loop :: "string \<Rightarrow> nat \<Rightarrow> int \<Rightarrow> nat \<times> int" where
  "sqlite3GetInt32_loop [] i v = (i, v)"
| "sqlite3GetInt32_loop (ch # z) i v =
     (let c = int (code ch) - int (code (CHR ''0''))
      in if i < 11 \<and> c \<ge> 0 \<and> c \<le> 9 then sqlite3GetInt32_loop z (i + 1) (v * 10 + c) else (i, v))"

text \<open>\<^term>\<open>None\<close> is the return value 0, which leaves \<open>*pValue\<close> alone.\<close>

definition sqlite3GetInt32 :: "string \<Rightarrow> int option" where
  "sqlite3GetInt32 zNum =
     (let (neg, zNum) =
        (if zat zNum 0 = CHR ''-'' then (1, tl zNum) else if zat zNum 0 = CHR ''+'' then (0, tl zNum) else (0::int, zNum));
          zNum = dropWhile (\<lambda>c. c = CHR ''0'') zNum;
          (i, v) = sqlite3GetInt32_loop zNum 0 0
      in if i > 10 then None
         else if v - neg > 2147483647 then None
         else Some (wrap32 (if neg \<noteq> 0 then - v else v)))"

text \<open>The argument is \<^term>\<open>None\<close> for a null pointer.\<close>

definition sqlite3Atoi :: "string option \<Rightarrow> int" where
  "sqlite3Atoi z = (case z of None \<Rightarrow> 0 | Some z \<Rightarrow> (case sqlite3GetInt32 z of None \<Rightarrow> 0 | Some x \<Rightarrow> x))"

section \<open>Hexadecimal strings\<close>

definition sqlite3HexToInt :: "char \<Rightarrow> byte option" where
  "sqlite3HexToInt c =
     (let h = code c in do {
        assertion (48 \<le> h \<and> h \<le> 57 \<or> 97 \<le> h \<and> h \<le> 102 \<or> 65 \<le> h \<and> h \<le> 70);
        Some (word_of_nat ((h + 9 * (1 AND drop_bit 6 h)) AND 0xf))
      })"

text \<open>The loop \<open>for(i=0; i<n; i+=2)\<close> after \<open>n--\<close>, with \<open>z\<close> the characters from \<open>i\<close> on.\<close>

fun sqlite3HexToBlob_loop :: "string \<Rightarrow> byte list option" where
  "sqlite3HexToBlob_loop (h # l # z) = do {
     a \<leftarrow> sqlite3HexToInt h;
     b \<leftarrow> sqlite3HexToInt l;
     bs \<leftarrow> sqlite3HexToBlob_loop z;
     Some ((push_bit 4 a OR b) # bs)
   }"
| "sqlite3HexToBlob_loop z = Some []"

definition sqlite3HexToBlob :: "string \<Rightarrow> nat \<Rightarrow> byte list option" where
  "sqlite3HexToBlob z n = sqlite3HexToBlob_loop (take n z)"

section \<open>SQL quotes\<close>

text \<open>
  The Go function \<open>Dequote\<close>. \<open>z[i + 1]\<close> at the end of the string is an index out of range.
\<close>

fun Dequote_loop :: "char \<Rightarrow> string \<Rightarrow> string option" where
  "Dequote_loop quote [] = Some []"
| "Dequote_loop quote (c # z) =
     (if c = quote then
        (case z of
           [] \<Rightarrow> None
         | d # z' \<Rightarrow> if d = quote then map_option (Cons quote) (Dequote_loop quote z') else Some [])
      else map_option (Cons c) (Dequote_loop quote z))"

definition Dequote :: "string \<Rightarrow> string option" where
  "Dequote z =
     (case z of
        [] \<Rightarrow> Some []
      | q # z' \<Rightarrow>
          if q = CHR 0x27 \<or> q = CHR 0x22 \<or> q = CHR 0x60 then Dequote_loop q z'
          else if q = CHR 0x5B then Dequote_loop (CHR 0x5D) z'
          else Some z)"

section \<open>Specifications\<close>

definition dec_value :: "string \<Rightarrow> int" where
  "dec_value ds = foldl (\<lambda>v c. v * 10 + (int (code c) - 48)) 0 ds"

text \<open>The signed decimal number a string starts with; the empty digit string counts as 0.\<close>

definition decimal_prefix :: "string \<Rightarrow> int" where
  "decimal_prefix z =
     (case z of
        [] \<Rightarrow> 0
      | c # cs \<Rightarrow>
          if c = CHR ''-'' then - dec_value (takeWhile sqlite3Isdigit cs)
          else if c = CHR ''+'' then dec_value (takeWhile sqlite3Isdigit cs)
          else dec_value (takeWhile sqlite3Isdigit z))"

text \<open>SQL quoting: every quote character is doubled.\<close>

fun double_quotes :: "char \<Rightarrow> string \<Rightarrow> string" where
  "double_quotes q [] = []"
| "double_quotes q (c # z) = (if c = q then [q, q] else [c]) @ double_quotes q z"

section \<open>Lemmas\<close>

lemmas int64_defs = LARGEST_INT64_def SMALLEST_INT64_def TWOPOWER32_def TWOPOWER31_def

lemma wrap64_id: "in_int64 x \<Longrightarrow> wrap64 x = x"
  by (simp add: wrap64_def int64_defs signed_take_bit_int_eq_self_iff)

lemma wrap32_id: "- 2147483648 \<le> x \<Longrightarrow> x \<le> 2147483647 \<Longrightarrow> wrap32 x = x"
  by (simp add: wrap32_def signed_take_bit_int_eq_self_iff)

lemma sqlite3AddInt64_exact:
  assumes "in_int64 iA" "in_int64 iB"
  shows "sqlite3AddInt64 iA iB = (if in_int64 (iA + iB) then (0, iA + iB) else (1, iA))"
proof -
  have "iA > 0 \<Longrightarrow> wrap64 (LARGEST_INT64 - iA) = LARGEST_INT64 - iA"
    and "iA < 0 \<Longrightarrow> wrap64 (iA + LARGEST_INT64) = iA + LARGEST_INT64"
    and "iA < 0 \<Longrightarrow> wrap64 (- (iA + LARGEST_INT64)) = - (iA + LARGEST_INT64)"
    and "iB < 0 \<Longrightarrow> wrap64 (iB + 1) = iB + 1"
    using assms by (auto intro!: wrap64_id simp: int64_defs)
  then show ?thesis
    using assms wrap64_id [of "iA + iB"]
    by (cases "iB \<ge> 0"; cases "iA > 0"; cases "iA < 0") (auto simp: sqlite3AddInt64_def int64_defs)
qed

lemma sqlite3SubInt64_exact:
  assumes "in_int64 iA" "in_int64 iB"
  shows "sqlite3SubInt64 iA iB = (if in_int64 (iA - iB) then (0, iA - iB) else (1, iA))"
proof (cases "iB = SMALLEST_INT64")
  case True
  then show ?thesis
    using assms wrap64_id [of "iA - iB"] by (auto simp: sqlite3SubInt64_def int64_defs)
next
  case False
  then have "in_int64 (- iB)" using assms by (simp add: int64_defs)
  then show ?thesis
    using False sqlite3AddInt64_exact [OF assms(1), of "- iB"]
    by (simp add: sqlite3SubInt64_def wrap64_id)
qed

text \<open>The high and low halves of a 64-bit factor: the sign is shared and the low half is small.\<close>

lemma split_factor:
  fixes a :: int
  assumes "in_int64 a" "a1 = a sdiv TWOPOWER32" "a0 = a smod TWOPOWER32"
  shows "a = a1 * TWOPOWER32 + a0" and "\<bar>a1\<bar> \<le> TWOPOWER31" and "\<bar>a0\<bar> < TWOPOWER32"
    and "0 \<le> a1 * a0" and "(a \<ge> 0 \<and> a1 \<ge> 0 \<and> a0 \<ge> 0) \<or> (a \<le> 0 \<and> a1 \<le> 0 \<and> a0 \<le> 0)"
proof -
  show eq: "a = a1 * TWOPOWER32 + a0"
    unfolding assms(2,3) by (simp add: sdiv_mult_smod_eq)
  show "(a \<ge> 0 \<and> a1 \<ge> 0 \<and> a0 \<ge> 0) \<or> (a \<le> 0 \<and> a1 \<le> 0 \<and> a0 \<le> 0)"
  proof (cases "a \<ge> 0")
    case True
    then show ?thesis
      using assms(2,3) by (cases "a = 0") (simp_all add: int64_defs signed_divide_int_def signed_modulo_int_def)
  next
    case False
    then have "a sdiv TWOPOWER32 = - ((- a) div TWOPOWER32)" "a smod TWOPOWER32 = - ((- a) mod TWOPOWER32)"
      by (simp_all add: int64_defs signed_divide_int_def signed_modulo_int_def)
    with False show ?thesis using assms(2,3) by (simp add: int64_defs pos_imp_zdiv_nonneg_iff)
  qed
  moreover show "\<bar>a0\<bar> < TWOPOWER32"
    using assms(3) by (simp add: int64_defs signed_modulo_int_def abs_mult abs_sgn_eq)
  ultimately show "\<bar>a1\<bar> \<le> TWOPOWER31" "0 \<le> a1 * a0"
    using assms(1) eq by (auto simp: int64_defs mult_nonpos_nonpos)
qed

text \<open>The part of \<open>sqlite3MulInt64\<close> after the cross product \<open>r\<close> is known.\<close>

lemma mul_tail:
  fixes r p :: int
  assumes "ab = r * TWOPOWER32 + p" and "r \<ge> 0 \<and> p \<ge> 0 \<or> r \<le> 0 \<and> p \<le> 0"
  shows "in_int64 ab \<Longrightarrow> in_int64 p"
    and "in_int64 p \<Longrightarrow>
      (if r < - TWOPOWER31 \<or> r \<ge> TWOPOWER31 then Some (1, iA)
       else let r = wrap64 (r * TWOPOWER32); (rc, r) = sqlite3AddInt64 r (wrap64 p) in
            if rc \<noteq> 0 then Some (1, iA) else Some (0, r))
      = Some (if in_int64 ab then (0, ab) else (1, iA))"
proof -
  show "in_int64 ab \<Longrightarrow> in_int64 p" using assms by (auto simp: int64_defs)
  assume p: "in_int64 p"
  show "(if r < - TWOPOWER31 \<or> r \<ge> TWOPOWER31 then Some (1, iA)
       else let r = wrap64 (r * TWOPOWER32); (rc, r) = sqlite3AddInt64 r (wrap64 p) in
            if rc \<noteq> 0 then Some (1, iA) else Some (0, r))
      = Some (if in_int64 ab then (0, ab) else (1, iA))"
  proof (cases "r < - TWOPOWER31 \<or> r \<ge> TWOPOWER31")
    case True
    then have "\<not> in_int64 ab" using assms by (auto simp: int64_defs)
    with True show ?thesis by auto
  next
    case False
    then have "in_int64 (r * TWOPOWER32)" by (simp add: int64_defs)
    with False p show ?thesis by (simp add: wrap64_id sqlite3AddInt64_exact assms(1))
  qed
qed

lemma mult_sign_agree:
  fixes a1 a0 b :: int
  assumes "a1 \<ge> 0 \<and> a0 \<ge> 0 \<or> a1 \<le> 0 \<and> a0 \<le> 0"
  shows "a1 * b \<ge> 0 \<and> a0 * b \<ge> 0 \<or> a1 * b \<le> 0 \<and> a0 * b \<le> 0"
  using assms by (metis linear mult_nonneg_nonneg mult_nonneg_nonpos mult_nonpos_nonneg mult_nonpos_nonpos)

lemma abs_mult_less:
  fixes x y :: int
  assumes "\<bar>x\<bar> \<le> TWOPOWER31" "\<bar>y\<bar> < TWOPOWER32"
  shows "in_int64 (x * y)" and "in_int64 (y * x)"
proof -
  have "\<bar>x * y\<bar> \<le> TWOPOWER31 * (TWOPOWER32 - 1)"
    unfolding abs_mult using assms by (intro mult_mono) auto
  then show "in_int64 (x * y)" "in_int64 (y * x)" by (auto simp: int64_defs mult.commute)
qed

lemma sqlite3MulInt64_small:
  assumes "in_int64 iA" "in_int64 iB" "iA sdiv TWOPOWER32 = 0 \<or> iB sdiv TWOPOWER32 = 0"
  shows "in_int64 (iA * iB) \<Longrightarrow> in_int64 ((iA smod TWOPOWER32) * (iB smod TWOPOWER32))"
    and "in_int64 ((iA smod TWOPOWER32) * (iB smod TWOPOWER32)) \<Longrightarrow>
      sqlite3MulInt64 iA iB = Some (if in_int64 (iA * iB) then (0, iA * iB) else (1, iA))"
proof -
  define a1 a0 b1 b0 where ab: "a1 = iA sdiv TWOPOWER32" "a0 = iA smod TWOPOWER32"
    "b1 = iB sdiv TWOPOWER32" "b0 = iB smod TWOPOWER32"
  note A = split_factor [OF assms(1) ab(1,2)] and B = split_factor [OF assms(2) ab(3,4)]
  have z: "a1 = 0 \<or> b1 = 0" using assms(3) ab by simp
  have eq: "iA * iB = (a1 * b0 + a0 * b1) * TWOPOWER32 + a0 * b0"
    using z by (subst A(1), subst B(1)) (auto simp: algebra_simps)
  have sg: "a1 * b0 + a0 * b1 \<ge> 0 \<and> a0 * b0 \<ge> 0 \<or> a1 * b0 + a0 * b1 \<le> 0 \<and> a0 * b0 \<le> 0"
    using z mult_sign_agree [of a1 a0 b0] mult_sign_agree [of b1 b0 a0] A(5) B(5) by (auto simp: mult.commute)
  have w: "wrap64 (a1 * b0) = a1 * b0" "wrap64 (a0 * b1) = a0 * b1" "wrap64 (a1 * b0 + a0 * b1) = a1 * b0 + a0 * b1"
    using z abs_mult_less [OF A(2) B(3)] abs_mult_less [OF B(2) A(3)] by (auto simp: wrap64_id)
  show "in_int64 (iA * iB) \<Longrightarrow> in_int64 (iA smod TWOPOWER32 * (iB smod TWOPOWER32))"
    using mul_tail(1) [OF eq sg] ab by simp
  assume "in_int64 (iA smod TWOPOWER32 * (iB smod TWOPOWER32))"
  then have t: "(if a1 * b0 + a0 * b1 < - TWOPOWER31 \<or> a1 * b0 + a0 * b1 \<ge> TWOPOWER31 then Some (1, iA)
       else let r = wrap64 ((a1 * b0 + a0 * b1) * TWOPOWER32); (rc, r) = sqlite3AddInt64 r (wrap64 (a0 * b0)) in
            if rc \<noteq> 0 then Some (1, iA) else Some (0, r))
      = Some (if in_int64 (iA * iB) then (0, iA * iB) else (1, iA))"
    using mul_tail(2) [OF eq sg, of iA] ab by simp
  have "wrap64 (a1 * b1) = 0" "a1 * b0 = 0 \<or> a0 * b1 = 0"
    using z by (auto simp: wrap64_def)
  then show "sqlite3MulInt64 iA iB = Some (if in_int64 (iA * iB) then (0, iA * iB) else (1, iA))"
    unfolding sqlite3MulInt64_def ab [symmetric] Let_def [of a1] Let_def [of a0] Let_def [of b1] Let_def [of b0]
    using t by (simp add: w Let_def)
qed

lemma sqlite3MulInt64_large:
  assumes "in_int64 iA" "in_int64 iB" "iA sdiv TWOPOWER32 \<noteq> 0" "iB sdiv TWOPOWER32 \<noteq> 0"
  shows "\<not> in_int64 (iA * iB)" and "sqlite3MulInt64 iA iB = Some (1, iA)"
proof -
  note A = split_factor [OF assms(1) refl refl] and B = split_factor [OF assms(2) refl refl]
  have "\<bar>iA\<bar> \<ge> TWOPOWER32" "\<bar>iB\<bar> \<ge> TWOPOWER32"
    using A(1,5) B(1,5) assms(3,4) by (auto simp: int64_defs)
  then have "TWOPOWER32 * TWOPOWER32 \<le> \<bar>iA\<bar> * \<bar>iB\<bar>" by (intro mult_mono) (auto simp: int64_defs)
  then show "\<not> in_int64 (iA * iB)" by (auto simp: int64_defs simp flip: abs_mult)
  have "\<bar>iA sdiv TWOPOWER32 * (iB sdiv TWOPOWER32)\<bar> \<le> TWOPOWER31 * TWOPOWER31"
    unfolding abs_mult using A(2) B(2) by (intro mult_mono) (auto simp: int64_defs)
  then have "wrap64 (iA sdiv TWOPOWER32 * (iB sdiv TWOPOWER32)) = iA sdiv TWOPOWER32 * (iB sdiv TWOPOWER32)"
    by (intro wrap64_id) (auto simp: int64_defs)
  then show "sqlite3MulInt64 iA iB = Some (1, iA)"
    using assms(3,4) by (simp add: sqlite3MulInt64_def Let_def)
qed

subsection \<open>Decimal strings\<close>

lemma dec_foldl:
  "foldl (\<lambda>v c. v * 10 + (int (code c) - 48)) v ds = v * 10 ^ length ds + dec_value ds"
proof (induction ds arbitrary: v)
  case (Cons c ds)
  show ?case
    using Cons.IH [of "v * 10 + (int (code c) - 48)"] Cons.IH [of "int (code c) - 48"]
    by (simp add: dec_value_def algebra_simps)
qed (simp add: dec_value_def)

lemma dec_value_Nil [simp]: "dec_value [] = 0"
  by (simp add: dec_value_def)

lemma dec_value_Cons: "dec_value (c # ds) = (int (code c) - 48) * 10 ^ length ds + dec_value ds"
  using dec_foldl [of "int (code c) - 48" ds] by (simp add: dec_value_def)

lemma dec_value_bounds:
  "list_all sqlite3Isdigit ds \<Longrightarrow> 0 \<le> dec_value ds \<and> dec_value ds < 10 ^ length ds"
proof (induction ds)
  case (Cons c ds)
  then have c: "0 \<le> int (code c) - 48" "int (code c) - 48 \<le> 9" by (auto simp: Isdigit_iff)
  define k :: int where "k = 10 ^ length ds"
  have "0 \<le> (int (code c) - 48) * k" "(int (code c) - 48) * k \<le> 9 * k"
    using c by (auto intro!: mult_right_mono mult_nonneg_nonneg simp: k_def)
  moreover have "0 \<le> dec_value ds" "dec_value ds < k" using Cons by (simp_all add: k_def)
  ultimately have "0 \<le> (int (code c) - 48) * k + dec_value ds \<and> (int (code c) - 48) * k + dec_value ds < 10 * k"
    by linarith
  then show ?case by (simp add: dec_value_Cons k_def)
qed simp

lemma dec_value_drop_zeros:
  "dec_value (takeWhile sqlite3Isdigit (dropWhile (\<lambda>c. c = CHR ''0'') z)) = dec_value (takeWhile sqlite3Isdigit z)"
  by (induction z) (auto simp: dec_value_Cons Isdigit_iff)

lemma digit_iff: "(0 \<le> int (code c) - int (code (CHR ''0'')) \<and> int (code c) - int (code (CHR ''0'')) \<le> 9) = sqlite3Isdigit c"
  by (auto simp: Isdigit_iff)

lemma sqlite3GetInt32_loop_eq:
  "i \<le> 11 \<Longrightarrow> sqlite3GetInt32_loop z i v =
     (let ds = take (11 - i) (takeWhile sqlite3Isdigit z)
      in (i + length ds, v * 10 ^ length ds + dec_value ds))"
proof (induction z i v rule: sqlite3GetInt32_loop.induct)
  case (2 ch z i v)
  show ?case
  proof (cases "i < 11 \<and> sqlite3Isdigit ch")
    case True
    then have "sqlite3GetInt32_loop (ch # z) i v = sqlite3GetInt32_loop z (i + 1) (v * 10 + (int (code ch) - 48))"
      using digit_iff [of ch] by (simp add: Let_def)
    moreover have "11 - i = Suc (11 - (i + 1))" using True by arith
    ultimately show ?thesis
      using True 2(1) [of "int (code ch) - 48"] digit_iff [of ch] by (simp add: Let_def dec_value_Cons algebra_simps)
  next
    case False
    then show ?thesis using 2 digit_iff [of ch] by (auto simp: Let_def)
  qed
qed (simp add: Let_def)

text \<open>Eleven digits without a leading zero are beyond 32 bits.\<close>

lemma dec_value_large:
  assumes "list_all sqlite3Isdigit (c # ds)" "c \<noteq> CHR ''0''" "length ds \<ge> 10"
  shows "dec_value (c # ds) \<ge> 10 ^ 10"
proof -
  have "code c \<noteq> 48" using assms(2) of_char_eq_iff [of c "CHR ''0''"] by simp
  then have "int (code c) - 48 \<ge> 1" using assms(1) by (simp add: Isdigit_iff)
  then have "1 * 10 ^ 10 \<le> (int (code c) - 48) * 10 ^ length ds"
    using assms(3) by (intro mult_mono power_increasing) auto
  then show ?thesis using dec_value_bounds [of ds] assms(1) by (simp add: dec_value_Cons)
qed

lemma sqlite3GetInt32_scan:
  fixes z :: string
  defines "D \<equiv> dec_value (takeWhile sqlite3Isdigit z)"
  assumes "sqlite3GetInt32_loop (dropWhile (\<lambda>c. c = CHR ''0'') z) 0 0 = (i, v)"
  shows "i > 10 \<Longrightarrow> D \<ge> 10 ^ 10" and "i \<le> 10 \<Longrightarrow> v = D" and "D \<ge> 0"
proof -
  define ds where "ds = takeWhile sqlite3Isdigit (dropWhile (\<lambda>c. c = CHR ''0'') z)"
  have iv: "i = min 11 (length ds)" "v = dec_value (take 11 ds)"
    using assms(2) sqlite3GetInt32_loop_eq [of 0 "dropWhile (\<lambda>c. c = CHR ''0'') z" 0]
    by (simp_all add: Let_def ds_def min.commute)
  have D: "D = dec_value ds" by (simp add: D_def ds_def dec_value_drop_zeros)
  have dig: "list_all sqlite3Isdigit ds" by (auto simp: ds_def list_all_iff dest: set_takeWhileD)
  have hd0: "hd ds \<noteq> CHR ''0''" if "ds \<noteq> []"
  proof -
    define y where "y = dropWhile (\<lambda>c. c = CHR ''0'') z"
    have "y \<noteq> []" "hd ds = hd y" using that unfolding ds_def y_def [symmetric] by (cases y; simp split: if_splits)+
    then show ?thesis using hd_dropWhile [of "\<lambda>c. c = CHR ''0''" z] unfolding y_def by simp
  qed
  show "D \<ge> 0" using dec_value_bounds [OF dig] D by simp
  show "v = D" if "i \<le> 10" using that iv D by simp
  show "D \<ge> 10 ^ 10" if "i > 10"
  proof -
    have "length ds \<ge> 11" using that iv by simp
    then obtain c cs where "ds = c # cs" "length cs \<ge> 10" by (cases ds) auto
    then show ?thesis using dec_value_large [of c cs] dig hd0 D by simp
  qed
qed

lemma sqlite3GetInt32_eq:
  "sqlite3GetInt32 z =
     (if - 2147483648 \<le> decimal_prefix z \<and> decimal_prefix z \<le> 2147483647 then Some (decimal_prefix z) else None)"
proof -
  define s where "s = (zat z 0 = CHR ''-'' \<or> zat z 0 = CHR ''+'')"
  define neg :: int where "neg = (if zat z 0 = CHR ''-'' then 1 else 0)"
  define y where "y = (if s then tl z else z)"
  define D where "D = dec_value (takeWhile sqlite3Isdigit y)"
  obtain i v where iv: "sqlite3GetInt32_loop (dropWhile (\<lambda>c. c = CHR ''0'') y) 0 0 = (i, v)" by fastforce
  note scan = sqlite3GetInt32_scan [OF iv, folded D_def]
  have dp: "decimal_prefix z = (if neg \<noteq> 0 then - D else D)"
    by (cases z) (auto simp: decimal_prefix_def D_def y_def s_def neg_def NUL_def)
  have "(if zat z 0 = CHR ''-'' then (1, tl z) else if zat z 0 = CHR ''+'' then (0, tl z) else (0::int, z)) = (neg, y)"
    by (simp add: neg_def y_def s_def)
  then have "sqlite3GetInt32 z = (if i > 10 then None else if v - neg > 2147483647 then None
      else Some (wrap32 (if neg \<noteq> 0 then - v else v)))"
    by (simp add: sqlite3GetInt32_def iv)
  also have "\<dots> = (if - 2147483648 \<le> decimal_prefix z \<and> decimal_prefix z \<le> 2147483647 then Some (decimal_prefix z) else None)"
  proof (cases "i > 10")
    case True
    then show ?thesis using scan(1) dp by (auto simp: neg_def)
  next
    case False
    then have "v = D" "D \<ge> 0" using scan by auto
    then show ?thesis using False dp by (auto simp: neg_def wrap32_id)
  qed
  finally show ?thesis .
qed

text \<open>The comparison with \<open>2 ^ 63\<close> goes by the first differing digit.\<close>

lemma compare2pow63_loop_stop: "c \<noteq> 0 \<Longrightarrow> compare2pow63_loop z incr ps i c = c"
  by (cases ps) auto

lemma compare2pow63_loop_spec:
  fixes z :: string and incr :: nat
  defines "D \<equiv> \<lambda>i n. map (\<lambda>j. zat z (j * incr)) [i..<i + n]"
  assumes "list_all sqlite3Isdigit (D i (length ps))" "list_all sqlite3Isdigit ps"
  shows "(compare2pow63_loop z incr ps i 0 = 0) = (D i (length ps) = ps)
       \<and> sgn (compare2pow63_loop z incr ps i 0) = sgn (dec_value (D i (length ps)) - dec_value ps)"
  using assms(2,3)
proof (induction ps arbitrary: i)
  case (Cons p ps)
  define c where "c = zat z (i * incr)"
  have D: "D i (length (p # ps)) = c # D (Suc i) (length ps)"
    unfolding D_def c_def by (simp add: upt_conv_Cons del: upt_Suc)
  have L: "length (D j n) = n" for j n by (simp add: D_def del: upt_Suc)
  note B = dec_value_bounds [of ps] dec_value_bounds [of "D (Suc i) (length ps)"]
  show ?case
  proof (cases "c = p")
    case True
    then show ?thesis using Cons.IH [of "Suc i"] Cons.prems D L by (simp add: c_def [symmetric] dec_value_Cons)
  next
    case False
    then have ne: "code c \<noteq> code p" by simp
    have l: "compare2pow63_loop z incr (p # ps) i 0 = (int (code c) - int (code p)) * 10"
      using ne by (simp add: c_def [symmetric] compare2pow63_loop_stop)
    define k :: int where "k = 10 ^ length ps"
    have b: "0 \<le> dec_value ps" "dec_value ps < k" "0 \<le> dec_value (D (Suc i) (length ps))" "dec_value (D (Suc i) (length ps)) < k"
      using B Cons.prems D L by (auto simp: k_def)
    have "sgn ((int (code c) - int (code p)) * k + (dec_value (D (Suc i) (length ps)) - dec_value ps)) = sgn (int (code c) - int (code p))"
    proof (cases "code c < code p")
      case True
      then have "(int (code c) - int (code p)) * k \<le> (-1) * k" using b by (intro mult_right_mono) auto
      then have "(int (code c) - int (code p)) * k + (dec_value (D (Suc i) (length ps)) - dec_value ps) < 0"
        using b by linarith
      then show ?thesis using True by (simp add: sgn_neg)
    next
      case False
      then have ge: "0 < int (code c) - int (code p)" using ne by linarith
      then have "1 * k \<le> (int (code c) - int (code p)) * k" using b by (intro mult_right_mono) auto
      then have "0 < (int (code c) - int (code p)) * k + (dec_value (D (Suc i) (length ps)) - dec_value ps)"
        using b by linarith
      then show ?thesis using ge by (simp only: sgn_pos)
    qed
    moreover have "dec_value (c # D (Suc i) (length ps)) - dec_value (p # ps)
        = (int (code c) - int (code p)) * k + (dec_value (D (Suc i) (length ps)) - dec_value ps)"
      by (simp add: dec_value_Cons L k_def algebra_simps)
    moreover have "sgn ((int (code c) - int (code p)) * 10) = sgn (int (code c) - int (code p))"
      by (simp only: sgn_mult) simp
    ultimately show ?thesis unfolding l D using ne False by simp
  qed
qed (simp add: D_def)

subsection \<open>Hexadecimal strings and quotes\<close>

lemma sqlite3HexToInt_iff: "(\<exists>x. sqlite3HexToInt c = Some x) = sqlite3Isxdigit c"
  by (auto simp: sqlite3HexToInt_def Isxdigit_iff Let_def)

lemma sqlite3HexToBlob_loop_iff:
  "even (length z) \<Longrightarrow> (\<exists>bs. sqlite3HexToBlob_loop z = Some bs) = list_all sqlite3Isxdigit z"
proof (induction z rule: sqlite3HexToBlob_loop.induct)
  case (1 h l z)
  then show ?case
    using sqlite3HexToInt_iff [of h] sqlite3HexToInt_iff [of l]
    by (cases "sqlite3HexToInt h"; cases "sqlite3HexToInt l") (auto simp: bind_eq_Some_conv)
qed auto

lemma Dequote_loop_body:
  "Dequote_loop q (double_quotes q s @ z) = map_option ((@) s) (Dequote_loop q z)"
proof (induction s)
  case (Cons c s)
  then show ?case by (simp add: option.map_comp comp_def)
qed (simp add: option.map_id0 [unfolded id_def] option.map_ident)

section \<open>Properties\<close>

text \<open>
  C30. Checked addition and subtraction are exact on 64-bit operands: the result is the true sum
  (difference) when it fits, and otherwise overflow is reported and the operand is unchanged.
\<close>

theorem addsub_int64_exact:
  assumes "in_int64 iA" and "in_int64 iB"
  shows "sqlite3AddInt64 iA iB = (if in_int64 (iA + iB) then (0, iA + iB) else (1, iA))
    \<and> sqlite3SubInt64 iA iB = (if in_int64 (iA - iB) then (0, iA - iB) else (1, iA))"
  using sqlite3AddInt64_exact [OF assms] sqlite3SubInt64_exact [OF assms] by blast

theorem addsub_int64_exact_witness:
  "sqlite3AddInt64 9223372036854775807 1 = (1, 9223372036854775807)
   \<and> sqlite3SubInt64 (- 1) (- 9223372036854775808) = (0, 9223372036854775807)"
  using addsub_int64_exact [of 9223372036854775807 1] addsub_int64_exact [of "- 1" "- 9223372036854775808"]
  by (simp add: int64_defs)

text \<open>
  Checked multiplication never rejects a product that fits: when the true product is a 64-bit
  integer it is returned; and when the product of the low halves fits, the result is exact.
  (When that partial product overflows, the code may report success with a wrong value:
  \<open>mul_int64_missed_overflow\<close>.)
\<close>

theorem mul_int64_correct:
  assumes "in_int64 iA" and "in_int64 iB"
  shows "in_int64 (iA * iB) \<or> in_int64 ((iA smod TWOPOWER32) * (iB smod TWOPOWER32)) \<Longrightarrow>
    sqlite3MulInt64 iA iB = Some (if in_int64 (iA * iB) then (0, iA * iB) else (1, iA))"
  using sqlite3MulInt64_large [OF assms] sqlite3MulInt64_small [OF assms]
  by (cases "iA sdiv TWOPOWER32 = 0 \<or> iB sdiv TWOPOWER32 = 0") auto

theorem mul_int64_correct_witness:
  "sqlite3MulInt64 3037000499 (- 3037000499) = Some (0, - 9223372030926249001)"
  using mul_int64_correct [of 3037000499 "- 3037000499"] by (simp add: int64_defs)

lemma mul_int64_missed_overflow:
  "sqlite3MulInt64 4294967295 4294967295 = Some (0, - 8589934591)"
  by (simp add: sqlite3MulInt64_def sqlite3AddInt64_def wrap64_def int64_defs Let_def)

text \<open>
  \<open>sqlite3GetInt32\<close> reads the signed decimal number its argument starts with, for any number of
  leading zeros and digits, and accepts it exactly when it is a 32-bit integer.
\<close>

theorem getInt32_correct:
  "sqlite3GetInt32 z =
     (if - 2147483648 \<le> decimal_prefix z \<and> decimal_prefix z \<le> 2147483647 then Some (decimal_prefix z) else None)"
  by (rule sqlite3GetInt32_eq)

lemma compare2pow63_parts:
  assumes "list_all sqlite3Isdigit (map (\<lambda>i. zat zNum (i * incr)) [0..<19])"
  shows "sgn (compare2pow63 zNum incr) = sgn (dec_value (map (\<lambda>i. zat zNum (i * incr)) [0..<19]) - 2 ^ 63)"
    and "map (\<lambda>i. zat zNum (i * incr)) [0..<18] = ''922337203685477580'' \<Longrightarrow>
         compare2pow63 zNum incr = dec_value (map (\<lambda>i. zat zNum (i * incr)) [0..<19]) - 2 ^ 63"
proof -
  define A where "A = dec_value (map (\<lambda>i. zat zNum (i * incr)) [0..<18])"
  define d where "d = zat zNum (18 * incr)"
  define c where "c = compare2pow63_loop zNum incr ''922337203685477580'' 0 0"
  have split: "map (\<lambda>i. zat zNum (i * incr)) [0..<19] = map (\<lambda>i. zat zNum (i * incr)) [0..<18] @ [d]"
  proof -
    have "[0..<19] = [0..<18] @ [18::nat]" by (simp add: upt_conv_Cons)
    then show ?thesis by (simp only: map_append list.map d_def)
  qed
  have d: "48 \<le> code d" "code d \<le> 57" and dig: "list_all sqlite3Isdigit (map (\<lambda>i. zat zNum (i * incr)) [0..<18])"
    using assms unfolding split by (simp_all add: Isdigit_iff)
  have V: "dec_value (map (\<lambda>i. zat zNum (i * incr)) [0..<19]) - 2 ^ 63 = 10 * (A - 922337203685477580) + (int (code d) - 56)"
    unfolding split A_def dec_value_def by simp
  have P: "list_all sqlite3Isdigit ''922337203685477580''" "dec_value ''922337203685477580'' = 922337203685477580"
    by (simp_all add: Isdigit_iff dec_value_def)
  have C: "(c = 0) = (map (\<lambda>i. zat zNum (i * incr)) [0..<18] = ''922337203685477580'')"
      "sgn c = sgn (A - 922337203685477580)"
  proof -
    have "length ''922337203685477580'' = 18" by simp
    then show "(c = 0) = (map (\<lambda>i. zat zNum (i * incr)) [0..<18] = ''922337203685477580'')"
      "sgn c = sgn (A - 922337203685477580)"
      using compare2pow63_loop_spec [of zNum incr 0 "''922337203685477580''"] dig P
      unfolding c_def A_def by (simp_all only: add_0)
  qed
  have R: "compare2pow63 zNum incr = (if c = 0 then int (code d) - 56 else c)"
    by (simp add: compare2pow63_def c_def d_def)
  show "sgn (compare2pow63 zNum incr) = sgn (dec_value (map (\<lambda>i. zat zNum (i * incr)) [0..<19]) - 2 ^ 63)"
  proof (cases "c = 0")
    case True
    then have "A = 922337203685477580" using C(1) P by (simp add: A_def)
    then show ?thesis unfolding V R using True by simp
  next
    case False
    then have "sgn (10 * (A - 922337203685477580) + (int (code d) - 56)) = sgn (A - 922337203685477580)"
      using C(2) d by (auto simp: sgn_if split: if_splits)
    then show ?thesis unfolding V R using False C(2) by simp
  qed
  show "compare2pow63 zNum incr = dec_value (map (\<lambda>i. zat zNum (i * incr)) [0..<19]) - 2 ^ 63"
    if "map (\<lambda>i. zat zNum (i * incr)) [0..<18] = ''922337203685477580''"
    using that C(1) P unfolding V R by (simp add: A_def)
qed

text \<open>
  \<open>compare2pow63\<close> on 19 digits (\<open>incr\<close> bytes apart) has the sign of the comparison of their value
  with \<open>2 ^ 63\<close>, and is the difference itself when only the last digit differs.
\<close>

theorem compare2pow63_correct:
  assumes "list_all sqlite3Isdigit (map (\<lambda>i. zat zNum (i * incr)) [0..<19])"
  shows "sgn (compare2pow63 zNum incr) = sgn (dec_value (map (\<lambda>i. zat zNum (i * incr)) [0..<19]) - 2 ^ 63)
    \<and> (map (\<lambda>i. zat zNum (i * incr)) [0..<18] = ''922337203685477580'' \<longrightarrow>
         compare2pow63 zNum incr = dec_value (map (\<lambda>i. zat zNum (i * incr)) [0..<19]) - 2 ^ 63)"
  using compare2pow63_parts [OF assms] by blast

theorem compare2pow63_correct_witness:
  "sgn (compare2pow63 ''9223372036854775800'' 1) = - 1 \<and> compare2pow63 ''9223372036854775800'' 1 = - 8"
proof -
  have e: "map (\<lambda>i. zat ''9223372036854775800'' (i * 1)) [0..<19] = ''9223372036854775800''"
    "map (\<lambda>i. zat ''9223372036854775800'' (i * 1)) [0..<18] = ''922337203685477580''"
    by (simp_all add: upt_conv_Cons zat_def)
  have v: "dec_value ''9223372036854775800'' = 9223372036854775800" by (simp add: dec_value_def)
  show ?thesis
    using compare2pow63_correct [of "''9223372036854775800''" 1] unfolding e v by (simp add: Isdigit_iff)
qed

text \<open>
  \<open>Dequote\<close> on a properly quoted string, with any quote character of the source: it returns the
  text between the quotes when another character follows the closing quote, and indexes past the
  end of the string when the closing quote is the last character.
\<close>

theorem dequote_quoted:
  assumes "q \<in> {CHR 0x27, CHR 0x22, CHR 0x60}"
  shows "Dequote (q # double_quotes q s @ [q]) = None
    \<and> (c \<noteq> q \<longrightarrow> Dequote (q # double_quotes q s @ q # c # z) = Some s)
    \<and> Dequote (CHR 0x5B # double_quotes (CHR 0x5D) s @ [CHR 0x5D]) = None"
  using assms by (auto simp: Dequote_def Dequote_loop_body)

theorem dequote_quoted_witness:
  "Dequote [CHR 0x27, CHR ''a'', CHR 0x27] = None
   \<and> Dequote [CHR 0x27, CHR ''a'', CHR 0x27, CHR '' ''] = Some ''a''"
  using dequote_quoted [of "CHR 0x27" "''a''" "CHR '' ''" "[]"]
  by simp

end
