(* ===== verification/Bitvec.thy ===== *)
theory Bitvec
  imports Prelude "HOL-Library.Signed_Division"
begin

text \<open>
  src/bitvec: the interface \<open>BitVector\<close> and its two implementations, a dense \<open>Bitmap\<close> and a
  sparse \<open>Hashmap\<close>. The interface is the locale \<open>bit_vector\<close>; both implementations are
  interpretations of it. A byte index out of range is the result \<^term>\<open>None\<close>. Where a Go
  function ends without a \<open>return\<close>, the model returns \<open>false\<close>.
\<close>

section \<open>The dense bitmap\<close>

type_synonym Bitmap = "byte list"

definition NewBitmap :: "nat \<Rightarrow> Bitmap" where
  "NewBitmap n = replicate n 0"

text \<open>The byte and the mask of bit \<open>i\<close>: the byte index is taken before \<open>i--\<close>, the mask after it.\<close>

definition Bitmap_segment :: "int \<Rightarrow> int" where
  "Bitmap_segment i = i sdiv 8"

definition bit_mask :: "int \<Rightarrow> byte" where
  "bit_mask i = push_bit (nat ((i - 1) AND 7)) 1"

definition Bitmap_Test :: "Bitmap \<Rightarrow> int \<Rightarrow> bool option" where
  "Bitmap_Test b i =
     (let segment = Bitmap_segment i
      in if i > 0 \<and> segment \<le> int (length b)
         then do { assertion (nat segment < length b); Some (b ! nat segment AND bit_mask i \<noteq> 0) }
         else Some False)"

definition Bitmap_Set :: "Bitmap \<Rightarrow> int \<Rightarrow> (bool \<times> Bitmap) option" where
  "Bitmap_Set b i =
     (let segment = Bitmap_segment i
      in if i > 0 \<and> segment \<le> int (length b)
         then do { assertion (nat segment < length b);
                   Some (True, b[nat segment := b ! nat segment OR bit_mask i]) }
         else Some (False, b))"

definition Bitmap_Clear :: "Bitmap \<Rightarrow> int \<Rightarrow> Bitmap option" where
  "Bitmap_Clear b i =
     (let segment = Bitmap_segment i
      in if i > 0 \<and> segment \<le> int (length b)
         then do { assertion (nat segment < length b);
                   Some (b[nat segment := b ! nat segment AND NOT (bit_mask i)]) }
         else Some b)"

definition Bitmap_Len :: "Bitmap \<Rightarrow> int" where
  "Bitmap_Len b = int (length b)"

section \<open>The sparse bitmap\<close>

record Hashmap =
  hm_hash :: "int \<rightharpoonup> byte"
  hm_size :: int
  hm_set :: int

definition NewHashmap :: "int \<Rightarrow> Hashmap" where
  "NewHashmap n = \<lparr>hm_hash = Map.empty, hm_size = n, hm_set = 0\<rparr>"

definition Hashmap_Len :: "Hashmap \<Rightarrow> int" where
  "Hashmap_Len h = hm_size h"

text \<open>A Go map lookup of an absent key is the zero value.\<close>

definition Hashmap_Test :: "Hashmap \<Rightarrow> int \<Rightarrow> bool option" where
  "Hashmap_Test h i =
     (if i > 0 \<and> i \<le> hm_size h
      then Some ((case hm_hash h ((i - 1) sdiv 8) of Some x \<Rightarrow> x | None \<Rightarrow> 0) AND bit_mask i \<noteq> 0)
      else Some False)"

definition Hashmap_Set :: "Hashmap \<Rightarrow> int \<Rightarrow> (bool \<times> Hashmap) option" where
  "Hashmap_Set h i =
     (if i > 0 \<and> i \<le> hm_size h
      then let segment = (i - 1) sdiv 8;
               v = (case hm_hash h segment of Some x \<Rightarrow> x OR bit_mask i | None \<Rightarrow> bit_mask i)
           in Some (True, h\<lparr>hm_hash := (hm_hash h)(segment \<mapsto> v), hm_set := hm_set h + 1\<rparr>)
      else Some (False, h))"

definition Hashmap_Clear :: "Hashmap \<Rightarrow> int \<Rightarrow> Hashmap option" where
  "Hashmap_Clear h i =
     (if i > 0 \<and> i \<le> hm_size h
      then let segment = (i - 1) sdiv 8;
               v = (case hm_hash h segment of Some x \<Rightarrow> x AND NOT (bit_mask i) | None \<Rightarrow> NOT (bit_mask i))
           in Some (h\<lparr>hm_hash := (hm_hash h)(segment \<mapsto> v), hm_set := hm_set h - 1\<rparr>)
      else Some h)"

section \<open>The interface\<close>

text \<open>
  \<open>valid b i\<close> says that bit \<open>i\<close> can be set in \<open>b\<close>; \<open>clearable b i\<close> that clearing it
  affects no other bit.
\<close>

datatype bitop = BSet int | BClear int

fun run_bitops :: "('b \<Rightarrow> int \<Rightarrow> (bool \<times> 'b) option) \<Rightarrow> ('b \<Rightarrow> int \<Rightarrow> 'b option) \<Rightarrow> bitop list \<Rightarrow> 'b \<Rightarrow> 'b option" where
  "run_bitops st clr [] b = Some b"
| "run_bitops st clr (BSet i # ops) b = do { (ok, b) \<leftarrow> st b i; run_bitops st clr ops b }"
| "run_bitops st clr (BClear i # ops) b = do { b \<leftarrow> clr b i; run_bitops st clr ops b }"

text \<open>The abstract bit set, and the bits that a sequence of operations makes clearable.\<close>

fun bitop_abs :: "bitop list \<Rightarrow> int set \<Rightarrow> int set" where
  "bitop_abs [] S = S"
| "bitop_abs (BSet i # ops) S = bitop_abs ops (insert i S)"
| "bitop_abs (BClear i # ops) S = bitop_abs ops (S - {i})"

fun bitop_arg :: "bitop \<Rightarrow> int" where
  "bitop_arg (BSet i) = i"
| "bitop_arg (BClear i) = i"

text \<open>Every cleared bit is in \<open>C\<close> or was set before.\<close>

fun clears_ok :: "int set \<Rightarrow> bitop list \<Rightarrow> bool" where
  "clears_ok C [] = True"
| "clears_ok C (BSet i # ops) = clears_ok (insert i C) ops"
| "clears_ok C (BClear i # ops) = (i \<in> C \<and> clears_ok C ops)"

locale bit_vector =
  fixes tst :: "'b \<Rightarrow> int \<Rightarrow> bool option"
    and st :: "'b \<Rightarrow> int \<Rightarrow> (bool \<times> 'b) option"
    and clr :: "'b \<Rightarrow> int \<Rightarrow> 'b option"
    and valid :: "'b \<Rightarrow> int \<Rightarrow> bool"
    and clearable :: "'b \<Rightarrow> int \<Rightarrow> bool"
  assumes test_total: "valid b i \<Longrightarrow> \<exists>r. tst b i = Some r"
    and set_law: "valid b i \<Longrightarrow> \<exists>b'. st b i = Some (True, b') \<and> valid b' = valid b
          \<and> (\<forall>j. valid b j \<longrightarrow> tst b' j = (if j = i then Some True else tst b j))
          \<and> (\<forall>j. clearable b j \<longrightarrow> clearable b' j) \<and> clearable b' i"
    and clear_law: "valid b i \<Longrightarrow> clearable b i \<Longrightarrow> \<exists>b'. clr b i = Some b' \<and> valid b' = valid b
          \<and> (\<forall>j. valid b j \<longrightarrow> tst b' j = (if j = i then Some False else tst b j))
          \<and> (\<forall>j. clearable b j \<longrightarrow> clearable b' j)"
begin

lemma run_abs:
  assumes "\<forall>i. valid b i \<longrightarrow> tst b i = Some (i \<in> S)" "\<forall>op\<in>set ops. valid b (bitop_arg op)"
    and "\<forall>i\<in>C. clearable b i" "clears_ok C ops"
  shows "\<exists>b'. run_bitops st clr ops b = Some b' \<and> valid b' = valid b \<and> (\<forall>i. valid b i \<longrightarrow> tst b' i = Some (i \<in> bitop_abs ops S))"
  using assms
proof (induction ops arbitrary: b S C)
  case (Cons op ops)
  show ?case
  proof (cases op)
    case (BSet i)
    then have "valid b i" using Cons.prems(2) by simp
    then obtain b' where b': "st b i = Some (True, b')" "valid b' = valid b"
        "\<forall>j. valid b j \<longrightarrow> tst b' j = (if j = i then Some True else tst b j)"
        "\<forall>j. clearable b j \<longrightarrow> clearable b' j" "clearable b' i"
      using set_law by blast
    have "\<exists>b''. run_bitops st clr ops b' = Some b'' \<and> valid b'' = valid b' \<and> (\<forall>j. valid b' j \<longrightarrow> tst b'' j = Some (j \<in> bitop_abs ops (insert i S)))"
      by (rule Cons.IH [where C = "insert i C"]) (use Cons.prems b' BSet in auto)
    then show ?thesis using b' BSet by auto
  next
    case (BClear i)
    then have "valid b i" "clearable b i" using Cons.prems(2,3,4) by auto
    then obtain b' where b': "clr b i = Some b'" "valid b' = valid b"
        "\<forall>j. valid b j \<longrightarrow> tst b' j = (if j = i then Some False else tst b j)"
        "\<forall>j. clearable b j \<longrightarrow> clearable b' j"
      using clear_law by blast
    have "\<exists>b''. run_bitops st clr ops b' = Some b'' \<and> valid b'' = valid b' \<and> (\<forall>j. valid b' j \<longrightarrow> tst b'' j = Some (j \<in> bitop_abs ops (S - {i})))"
      by (rule Cons.IH [where C = C]) (use Cons.prems b' BClear in auto)
    then show ?thesis using b' BClear by auto
  qed
qed auto

end

section \<open>Bit arithmetic\<close>

lemma and_7_mod: "(i - 1) AND 7 = (i - 1) mod (8::int)"
  using take_bit_eq_mask [of 3 "i - 1"] by (simp add: take_bit_eq_mod mask_eq_exp_minus_1)

lemma bit_mask_index: "nat ((i - 1) AND 7) < 8"
  by (simp add: and_7_mod)

lemma bit_bit_mask: "bit (bit_mask i) n \<longleftrightarrow> n = nat ((i - 1) mod 8)"
  using bit_mask_index [of i] unfolding bit_mask_def and_7_mod
  by (auto simp: bit_simps bit_1_iff)

lemma and_bit_mask: "(x AND bit_mask i \<noteq> 0) = bit x (nat ((i - 1) mod 8))"
proof
  assume "x AND bit_mask i \<noteq> 0"
  then obtain n where "bit (x AND bit_mask i) n" using bit_word_eqI by (metis bit_0_eq bot_apply bot_bool_def)
  then show "bit x (nat ((i - 1) mod 8))" by (auto simp: bit_and_iff bit_bit_mask)
next
  assume "bit x (nat ((i - 1) mod 8))"
  then have "bit (x AND bit_mask i) (nat ((i - 1) mod 8))" by (simp add: bit_and_iff bit_bit_mask)
  then show "x AND bit_mask i \<noteq> 0" by (metis bit_0_eq bot_apply bot_bool_def)
qed

lemma bit_or_mask: "bit (x OR bit_mask i) (nat ((j - 1) mod 8)) \<longleftrightarrow> (i - 1) mod 8 = (j - 1) mod 8 \<or> bit x (nat ((j - 1) mod 8))"
  by (auto simp: bit_or_iff bit_bit_mask nat_eq_iff)

lemma bit_andnot_mask: "bit (x AND NOT (bit_mask i)) (nat ((j - 1) mod 8)) \<longleftrightarrow> (i - 1) mod 8 \<noteq> (j - 1) mod 8 \<and> bit x (nat ((j - 1) mod 8))"
  by (auto simp: bit_and_iff bit_not_iff bit_bit_mask nat_eq_iff dest: bit_imp_le_length)

text \<open>Distinct bits differ in their byte or in their mask, for both numberings of the bytes.\<close>

lemma sdiv_nonneg: "0 \<le> x \<Longrightarrow> x sdiv 8 = x div (8::int)"
  by (cases "x = 0") (simp_all add: signed_divide_int_def)

lemma segment_div: "i > 0 \<Longrightarrow> Bitmap_segment i = i div 8" "i > 0 \<Longrightarrow> (i - 1) sdiv 8 = (i - 1) div 8"
  by (simp_all add: Bitmap_segment_def sdiv_nonneg)

lemma pred_mod_inj: "(i - 1) mod 8 = (j - 1) mod 8 \<Longrightarrow> i mod 8 = (j::int) mod 8"
  using mod_add_cong [of "i - 1" 8 "j - 1" 1 1] by simp

lemma segment_inj: "i div 8 = j div 8 \<Longrightarrow> (i - 1) mod 8 = (j - 1) mod 8 \<Longrightarrow> i = (j::int)"
  using pred_mod_inj [of i j] by (metis div_mult_mod_eq)

lemma pred_segment_inj: "(i - 1) div 8 = (j - 1) div 8 \<Longrightarrow> (i - 1) mod 8 = (j - 1) mod 8 \<Longrightarrow> i = (j::int)"
  by (metis div_mult_mod_eq diff_add_cancel)

section \<open>The implementations satisfy the interface\<close>

definition Bitmap_valid :: "Bitmap \<Rightarrow> int \<Rightarrow> bool" where
  "Bitmap_valid b i \<longleftrightarrow> 0 < i \<and> i < 8 * int (length b)"

lemma Bitmap_valid_index:
  "Bitmap_valid b i \<Longrightarrow> 0 < i \<and> Bitmap_segment i = i div 8 \<and> i div 8 \<le> int (length b) \<and> nat (i div 8) < length b"
  by (auto simp: Bitmap_valid_def segment_div nat_less_iff div_pos_pos_trivial less_imp_le)

lemma Bitmap_ops:
  assumes "Bitmap_valid b i"
  shows "Bitmap_Test b i = Some (bit (b ! nat (i div 8)) (nat ((i - 1) mod 8)))"
    and "Bitmap_Set b i = Some (True, b[nat (i div 8) := b ! nat (i div 8) OR bit_mask i])"
    and "Bitmap_Clear b i = Some (b[nat (i div 8) := b ! nat (i div 8) AND NOT (bit_mask i)])"
  using Bitmap_valid_index [OF assms]
  by (simp_all add: Bitmap_Test_def Bitmap_Set_def Bitmap_Clear_def Let_def and_bit_mask)

lemma Bitmap_update:
  assumes "Bitmap_valid b i" "Bitmap_valid b j"
  shows "(b[nat (i div 8) := x] ! nat (j div 8)) = (if i div 8 = j div 8 then x else b ! nat (j div 8))"
  using Bitmap_valid_index [OF assms(1)] Bitmap_valid_index [OF assms(2)]
  by (auto simp: nth_list_update nat_eq_iff pos_imp_zdiv_nonneg_iff)

interpretation bm: bit_vector Bitmap_Test Bitmap_Set Bitmap_Clear Bitmap_valid "\<lambda>b i. True"
proof
  fix b i
  assume v: "Bitmap_valid b i"
  show "\<exists>r. Bitmap_Test b i = Some r" using Bitmap_ops(1) [OF v] by simp
  define seg where "seg = nat (i div 8)"
  have l: "Bitmap_valid (b[seg := x]) = Bitmap_valid b" for x by (simp add: Bitmap_valid_def fun_eq_iff)
  have "Bitmap_Test (b[seg := b ! seg OR bit_mask i]) j = (if j = i then Some True else Bitmap_Test b j)"
    if "Bitmap_valid b j" for j
    using that Bitmap_update [OF v that] segment_inj [of i j] l Bitmap_ops(1) [of _ j]
    by (auto simp: seg_def bit_or_mask)
  then show "\<exists>b'. Bitmap_Set b i = Some (True, b') \<and> Bitmap_valid b' = Bitmap_valid b \<and>
         (\<forall>j. Bitmap_valid b j \<longrightarrow> Bitmap_Test b' j = (if j = i then Some True else Bitmap_Test b j)) \<and>
         (\<forall>j. True \<longrightarrow> True) \<and> True"
    using Bitmap_ops(2) [OF v] l by (auto simp: seg_def)
  have "Bitmap_Test (b[seg := b ! seg AND NOT (bit_mask i)]) j = (if j = i then Some False else Bitmap_Test b j)"
    if "Bitmap_valid b j" for j
    using that Bitmap_update [OF v that] segment_inj [of i j] l Bitmap_ops(1) [of _ j]
    by (auto simp: seg_def bit_andnot_mask)
  then show "\<exists>b'. Bitmap_Clear b i = Some b' \<and> Bitmap_valid b' = Bitmap_valid b \<and>
         (\<forall>j. Bitmap_valid b j \<longrightarrow> Bitmap_Test b' j = (if j = i then Some False else Bitmap_Test b j)) \<and>
         (\<forall>j. True \<longrightarrow> True)"
    using Bitmap_ops(3) [OF v] l by (auto simp: seg_def)
qed

definition Hashmap_valid :: "Hashmap \<Rightarrow> int \<Rightarrow> bool" where
  "Hashmap_valid h i \<longleftrightarrow> 0 < i \<and> i \<le> hm_size h"

definition Hashmap_clearable :: "Hashmap \<Rightarrow> int \<Rightarrow> bool" where
  "Hashmap_clearable h i \<longleftrightarrow> (i - 1) div 8 \<in> dom (hm_hash h)"

lemma Hashmap_Test_valid:
  "Hashmap_valid h i \<Longrightarrow>
   Hashmap_Test h i = Some (bit (case hm_hash h ((i - 1) div 8) of Some x \<Rightarrow> x | None \<Rightarrow> 0) (nat ((i - 1) mod 8)))"
  by (simp add: Hashmap_Test_def Hashmap_valid_def segment_div and_bit_mask)

interpretation hm: bit_vector Hashmap_Test Hashmap_Set Hashmap_Clear Hashmap_valid Hashmap_clearable
proof
  fix h i
  assume v: "Hashmap_valid h i"
  show "\<exists>r. Hashmap_Test h i = Some r" using Hashmap_Test_valid [OF v] by simp
  define seg where "seg = (i - 1) div 8"
  define upd where "upd = (\<lambda>x n. h\<lparr>hm_hash := (hm_hash h)(seg \<mapsto> x), hm_set := n\<rparr>)"
  have l: "Hashmap_valid (upd x n) = Hashmap_valid h" for x n by (simp add: Hashmap_valid_def upd_def fun_eq_iff)
  have c: "Hashmap_clearable (upd x n) j \<longleftrightarrow> Hashmap_clearable h j \<or> (j - 1) div 8 = seg" for x n j
    by (auto simp: Hashmap_clearable_def upd_def)
  have T: "Hashmap_Test (upd x n) j = (if (j - 1) div 8 = seg then Some (bit x (nat ((j - 1) mod 8))) else Hashmap_Test h j)"
    if "Hashmap_valid h j" for x n j
    using that l [of x n] by (auto simp: Hashmap_Test_valid) (auto simp: upd_def)
  let ?s = "case hm_hash h seg of Some x \<Rightarrow> x OR bit_mask i | None \<Rightarrow> bit_mask i"
  have "Hashmap_Test (upd ?s n) j = (if j = i then Some True else Hashmap_Test h j)" if "Hashmap_valid h j" for n j
    using that T [OF that] pred_segment_inj [of i j]
    by (auto simp: Hashmap_Test_valid bit_or_mask bit_bit_mask seg_def nat_eq_iff split: option.splits)
  moreover have "Hashmap_Set h i = Some (True, upd ?s (hm_set h + 1))"
    using v by (simp add: Hashmap_Set_def Hashmap_valid_def segment_div seg_def upd_def Let_def)
  ultimately show "\<exists>b'. Hashmap_Set h i = Some (True, b') \<and> Hashmap_valid b' = Hashmap_valid h \<and>
         (\<forall>j. Hashmap_valid h j \<longrightarrow> Hashmap_Test b' j = (if j = i then Some True else Hashmap_Test h j)) \<and>
         (\<forall>j. Hashmap_clearable h j \<longrightarrow> Hashmap_clearable b' j) \<and> Hashmap_clearable b' i"
    using l c by (auto simp: seg_def)
  assume "Hashmap_clearable h i"
  then obtain x where x: "hm_hash h seg = Some x" by (auto simp: Hashmap_clearable_def seg_def)
  have "Hashmap_Test (upd (x AND NOT (bit_mask i)) n) j = (if j = i then Some False else Hashmap_Test h j)"
    if "Hashmap_valid h j" for n j
    using that T [OF that] pred_segment_inj [of i j] x
    by (auto simp: Hashmap_Test_valid bit_andnot_mask seg_def)
  moreover have "Hashmap_Clear h i = Some (upd (x AND NOT (bit_mask i)) (hm_set h - 1))"
    using v x by (simp add: Hashmap_Clear_def Hashmap_valid_def segment_div seg_def upd_def Let_def)
  ultimately show "\<exists>b'. Hashmap_Clear h i = Some b' \<and> Hashmap_valid b' = Hashmap_valid h \<and>
         (\<forall>j. Hashmap_valid h j \<longrightarrow> Hashmap_Test b' j = (if j = i then Some False else Hashmap_Test h j)) \<and>
         (\<forall>j. Hashmap_clearable h j \<longrightarrow> Hashmap_clearable b' j)"
    using l c by auto
qed

section \<open>Properties\<close>

lemma clears_ok_UNIV: "clears_ok UNIV ops"
proof (induction ops)
  case (Cons op ops)
  then show ?case by (cases op) simp_all
qed simp

text \<open>
  C31. A dense bitmap of \<open>n\<close> bytes is a set of bit numbers: after any sequence of Set and Clear on
  bits below \<open>8 n\<close>, Test answers membership in the set those operations build. Bits \<open>8 n\<close> to
  \<open>8 n + 7\<close> pass the range check and index past the array.
\<close>

theorem bitmap_is_set:
  assumes "\<forall>op\<in>set ops. 0 < bitop_arg op \<and> bitop_arg op < 8 * int n"
  shows "\<exists>b. run_bitops Bitmap_Set Bitmap_Clear ops (NewBitmap n) = Some b
       \<and> (\<forall>i. 0 < i \<and> i < 8 * int n \<longrightarrow> Bitmap_Test b i = Some (i \<in> bitop_abs ops {}))
       \<and> (\<forall>i. 8 * int n \<le> i \<and> i < 8 * int n + 8 \<and> 0 < i \<longrightarrow> Bitmap_Test b i = None \<and> Bitmap_Set b i = None)"
proof -
  have v: "Bitmap_valid (NewBitmap n) i \<longleftrightarrow> 0 < i \<and> i < 8 * int n" for i
    by (simp add: Bitmap_valid_def NewBitmap_def)
  have "Bitmap_Test (NewBitmap n) i = Some (i \<in> {})" if "Bitmap_valid (NewBitmap n) i" for i
    using Bitmap_ops(1) [OF that] Bitmap_valid_index [OF that] by (simp add: NewBitmap_def)
  moreover have "clears_ok UNIV ops" by (rule clears_ok_UNIV)
  ultimately obtain b where b: "run_bitops Bitmap_Set Bitmap_Clear ops (NewBitmap n) = Some b"
      "Bitmap_valid b = Bitmap_valid (NewBitmap n)"
      "\<forall>i. Bitmap_valid (NewBitmap n) i \<longrightarrow> Bitmap_Test b i = Some (i \<in> bitop_abs ops {})"
    using bm.run_abs [of "NewBitmap n" "{}" ops UNIV] assms v by auto
  have "Bitmap_valid b (8 * int n - 1) \<longleftrightarrow> n > 0" "\<not> Bitmap_valid b (8 * int n + 1)"
    unfolding b(2) v by auto
  then have len: "length b = n" unfolding Bitmap_valid_def by linarith
  have "Bitmap_Test b i = None \<and> Bitmap_Set b i = None" if "8 * int n \<le> i" "i < 8 * int n + 8" "0 < i" for i
  proof -
    have "i div 8 = int n" using that by presburger
    then show ?thesis using that len by (simp add: Bitmap_Test_def Bitmap_Set_def segment_div Let_def)
  qed
  then show ?thesis using b v by auto
qed

theorem bitmap_is_set_witness:
  "\<exists>b. run_bitops Bitmap_Set Bitmap_Clear [BSet 8, BSet 3, BClear 8] (NewBitmap 2) = Some b
       \<and> Bitmap_Test b 3 = Some True \<and> Bitmap_Test b 8 = Some False \<and> Bitmap_Test b 16 = None"
  using bitmap_is_set [of "[BSet 8, BSet 3, BClear 8]" 2] by fastforce

text \<open>
  C32. A sparse bitmap of size \<open>n\<close> is a set of bit numbers for every sequence of Set and Clear that
  clears only bits set before, and Test and Set refuse every bit outside \<open>1..n\<close>.
\<close>

theorem hashmap_is_set:
  assumes "\<forall>op\<in>set ops. 0 < bitop_arg op \<and> bitop_arg op \<le> n" and "clears_ok {} ops"
  shows "\<exists>h. run_bitops Hashmap_Set Hashmap_Clear ops (NewHashmap n) = Some h
       \<and> (\<forall>i. Hashmap_Test h i = Some (0 < i \<and> i \<le> n \<and> i \<in> bitop_abs ops {}))"
proof -
  have v: "Hashmap_valid (NewHashmap n) i \<longleftrightarrow> 0 < i \<and> i \<le> n" for i
    by (simp add: Hashmap_valid_def NewHashmap_def)
  have "Hashmap_Test (NewHashmap n) i = Some (i \<in> {})" if "Hashmap_valid (NewHashmap n) i" for i
    using Hashmap_Test_valid [OF that] by (simp add: NewHashmap_def)
  then obtain h where h: "run_bitops Hashmap_Set Hashmap_Clear ops (NewHashmap n) = Some h"
      "Hashmap_valid h = Hashmap_valid (NewHashmap n)"
      "\<forall>i. Hashmap_valid (NewHashmap n) i \<longrightarrow> Hashmap_Test h i = Some (i \<in> bitop_abs ops {})"
    using hm.run_abs [of "NewHashmap n" "{}" ops "{}"] assms v by auto
  have "Hashmap_Test h i = Some False" if "\<not> Hashmap_valid h i" for i
    using that by (auto simp: Hashmap_Test_def Hashmap_valid_def)
  then show ?thesis using h v by metis
qed

theorem hashmap_is_set_witness:
  "\<exists>h. run_bitops Hashmap_Set Hashmap_Clear [BSet 8, BSet 3, BClear 8] (NewHashmap 10) = Some h
       \<and> Hashmap_Test h 3 = Some True \<and> Hashmap_Test h 8 = Some False \<and> Hashmap_Test h 11 = Some False"
  using hashmap_is_set [of "[BSet 8, BSet 3, BClear 8]" 10] by fastforce

text \<open>
  Clearing a bit of the sparse bitmap whose byte was never written stores the complement of its
  mask, which sets the other bits of that byte.
\<close>

lemma hashmap_clear_sets_bits:
  "do { h \<leftarrow> Hashmap_Clear (NewHashmap 10) 1; Hashmap_Test h 2 } = Some True"
  by (simp add: Hashmap_Clear_def Hashmap_Test_def NewHashmap_def bit_mask_def sdiv_nonneg)

end
