(* ===== verification/Buffer.thy ===== *)
theory Buffer
  imports Prelude
begin

text \<open>
  src/btree/buffer.go: big-endian integers and variable-length integers in byte buffers. A buffer is
  the list of its bytes; an index past its end is \<^term>\<open>None\<close>. Where the Go text combines a byte with a
  wider integer without a conversion the byte is widened; a shift inside an explicit conversion
  (\<open>uint32(b[0] << 14)\<close>) is a shift of the byte.
\<close>

section \<open>Fixed-width integers\<close>

definition ReadUint16 :: "byte list \<Rightarrow> uint16 option" where
  "ReadUint16 b = do { assertion (length b \<ge> 2); Some (push_bit 8 (ucast (b ! 0)) OR ucast (b ! 1)) }"

definition WriteUint16 :: "byte list \<Rightarrow> uint16 \<Rightarrow> byte list option" where
  "WriteUint16 b v = do { assertion (length b \<ge> 2); Some (b[0 := ucast (drop_bit 8 v), 1 := ucast v]) }"

definition IncrementUint16 :: "byte list \<Rightarrow> uint16 \<Rightarrow> byte list option" where
  "IncrementUint16 b value = do { v \<leftarrow> ReadUint16 b; WriteUint16 b (v + value) }"

definition ReadUint32 :: "byte list \<Rightarrow> uint32 option" where
  "ReadUint32 b = do {
     assertion (length b \<ge> 4);
     Some (push_bit 24 (ucast (b ! 0)) OR push_bit 16 (ucast (b ! 1)) OR push_bit 8 (ucast (b ! 2)) OR ucast (b ! 3))
   }"

definition WriteUint32 :: "byte list \<Rightarrow> uint32 \<Rightarrow> byte list option" where
  "WriteUint32 b v = do {
     assertion (length b \<ge> 4);
     Some (b[0 := ucast (drop_bit 24 v), 1 := ucast (drop_bit 16 v), 2 := ucast (drop_bit 8 v), 3 := ucast v])
   }"

definition IncrementUint32 :: "byte list \<Rightarrow> uint16 \<Rightarrow> byte list option" where
  "IncrementUint32 b value = do { v \<leftarrow> ReadUint32 b; WriteUint32 b (v + ucast value) }"

definition ReadCompressedIntNotZero :: "byte list \<Rightarrow> int option" where
  "ReadCompressedIntNotZero b = do { v \<leftarrow> ReadUint16 b; Some (((uint v - 1) AND 0xffff) + 1) }"

section \<open>Variable-length integers\<close>

definition SLOT_2_0 :: uint64 where "SLOT_2_0 = 0x001fc07f"
definition SLOT_4_2_0 :: uint64 where "SLOT_4_2_0 = 0xf01fc07f"

text \<open>\<open>p[i]\<close>, with an index out of range as \<^term>\<open>None\<close>.\<close>

definition byte_at :: "byte list \<Rightarrow> nat \<Rightarrow> uint64 option" where
  "byte_at p i = (if i < length p then Some (ucast (p ! i)) else None)"

definition ReadVarint64 :: "byte list \<Rightarrow> (uint64 \<times> byte list) option" where
  "ReadVarint64 p = do {
     v \<leftarrow> byte_at p 0;
     if v AND 0x80 = 0 then Some (v, drop 1 p)
     else do {
       b \<leftarrow> byte_at p 1;
       if b AND 0x80 = 0 then Some (push_bit 7 (v AND 0x7f) OR b, drop 2 p)
       else do {
         p2 \<leftarrow> byte_at p 2;
         let v = push_bit 14 v OR p2;
         if v AND 0x80 = 0 then Some ((v AND SLOT_2_0) OR push_bit 7 (b AND 0x7f), drop 3 p)
         else do {
           let v = v AND SLOT_2_0;
           p3 \<leftarrow> byte_at p 3;
           let b = push_bit 14 b OR p3;
           if b AND 0x80 = 0 then Some (push_bit 7 v OR (b AND SLOT_2_0), drop 4 p)
           else do {
             let b = b AND SLOT_2_0;
             let s = v;
             p4 \<leftarrow> byte_at p 4;
             let v = push_bit 14 v OR p4;
             if v AND 0x80 = 0 then Some (push_bit 32 (drop_bit 18 s) OR (v OR push_bit 7 b), drop 5 p)
             else do {
               let s = push_bit 7 s OR b;
               p5 \<leftarrow> byte_at p 5;
               let b = push_bit 14 b OR p5;
               if b AND 0x80 = 0 then
                 (let v = v AND SLOT_2_0 in
                  Some ((push_bit 7 v OR b) OR push_bit 32 (drop_bit 18 s), drop 6 p))
               else do {
                 p6 \<leftarrow> byte_at p 6;
                 let v = push_bit 14 v OR p6;
                 if v AND 0x80 = 0 then
                   Some ((v AND SLOT_4_2_0) OR push_bit 7 (b AND SLOT_2_0) OR push_bit 32 (drop_bit 11 s), drop 7 p)
                 else do {
                   let v = v AND SLOT_2_0;
                   p7 \<leftarrow> byte_at p 7;
                   let b = push_bit 14 b OR p7;
                   if b AND 0x80 = 0 then
                     Some ((push_bit 7 v OR (b AND SLOT_4_2_0)) OR push_bit 32 (drop_bit 4 s), drop 8 p)
                   else do {
                     p8 \<leftarrow> byte_at p 8;
                     let v = push_bit 15 v OR p8;
                     let s = push_bit 4 s OR drop_bit 3 (p4 AND 0x7f);
                     Some ((v OR push_bit 8 (b AND SLOT_2_0)) OR push_bit 32 s, drop 9 p)
                   }
                 }
               }
             }
           }
         }
       }
     }
   }"

definition ReadVarint32 :: "byte list \<Rightarrow> (uint32 \<times> byte list) option" where
  "ReadVarint32 b = do {
     assertion (length b > 0);
     if b ! 0 < 0x80 then Some (ucast (b ! 0), drop 1 b)
     else do {
       assertion (length b > 1);
       if b ! 1 AND 0x80 = 0 then Some (push_bit 7 (ucast (b ! 0 AND 0x7f)) OR ucast (b ! 1), drop 2 b)
       else do {
         assertion (length b > 2);
         let v = (ucast (push_bit 14 (b ! 0)) OR ucast (b ! 2) :: uint32);
         if v AND 0x80 = 0 then
           Some (((v AND push_bit 14 0x7f) OR 0x7f) OR push_bit 7 (ucast (b ! 1 AND 0x7f)), drop 3 b)
         else do {
           (v64, buf) \<leftarrow> ReadVarint64 b;
           Some (if v64 AND 0xffffffff \<noteq> v64 then 0xffffffff else ucast v64, buf)
         }
       }
     }
   }"

text \<open>The loop of the nine-byte case of \<open>WriteVarint64\<close>, from \<open>b[7]\<close> down to \<open>b[0]\<close>.\<close>

fun WriteVarint64_nine :: "nat \<Rightarrow> uint64 \<Rightarrow> byte list \<Rightarrow> byte list" where
  "WriteVarint64_nine 0 v acc = acc"
| "WriteVarint64_nine (Suc i) v acc =
     WriteVarint64_nine i (drop_bit 7 v) (ucast ((v AND 0x7f) OR 0x80) # acc)"

text \<open>The loop that fills \<open>buf\<close> from the least significant group on.\<close>

function WriteVarint64_buf :: "uint64 \<Rightarrow> byte list" where
  "WriteVarint64_buf v =
     ucast ((v AND 0x7f) OR 0x80) # (if drop_bit 7 v = 0 then [] else WriteVarint64_buf (drop_bit 7 v))"
  by pat_completeness auto

lemma drop_bit_7_less: "drop_bit 7 v \<noteq> 0 \<Longrightarrow> unat (drop_bit 7 v) < unat (v :: uint64)"
proof -
  assume "drop_bit 7 v \<noteq> 0"
  then have "v \<noteq> 0" by auto
  then have "0 < unat v" by (simp add: unat_gt_0)
  then show ?thesis unfolding unat_drop_bit_eq by (simp add: drop_bit_eq_div)
qed

termination WriteVarint64_buf
  by (relation "measure unat") (auto intro: drop_bit_7_less)

declare WriteVarint64_buf.simps [simp del]

text \<open>
  The bytes written over the front of \<open>b\<close> and the offset of the remainder the function returns.
\<close>

definition put_bytes :: "byte list \<Rightarrow> byte list \<Rightarrow> byte list option" where
  "put_bytes b bs = do { assertion (length bs \<le> length b); Some (bs @ drop (length bs) b) }"

definition WriteVarint64 :: "byte list \<Rightarrow> uint64 \<Rightarrow> (byte list \<times> nat) option" where
  "WriteVarint64 b v =
     (if v AND push_bit 32 0xff000000 \<noteq> 0 then do {
        b \<leftarrow> put_bytes b (WriteVarint64_nine 8 (drop_bit 8 v) [ucast v]);
        Some (b, 9)
      } else do {
        let buf = WriteVarint64_buf v;
        let buf = buf[0 := buf ! 0 AND 0x7f];
        let l = length buf - 1;
        b \<leftarrow> put_bytes b (rev buf);
        Some (b, l)
      })"

definition WriteVarint32 :: "byte list \<Rightarrow> uint32 \<Rightarrow> (byte list \<times> nat) option" where
  "WriteVarint32 b v =
     (if v < 0x80 then do { b \<leftarrow> put_bytes b [ucast v]; Some (b, 1) }
      else if v AND NOT 0x3fff = 0 then do {
        b \<leftarrow> put_bytes b [ucast (drop_bit 7 v OR 0x80), ucast (v AND 0x7f)];
        Some (b, 2)
      } else WriteVarint64 b (ucast v))"

text \<open>
  \<open>VarintLen\<close>: the loop declares a new variable \<open>count\<close>, so the named result keeps its zero value.
\<close>

fun VarintLen_loop :: "uint64 \<Rightarrow> nat \<Rightarrow> nat \<Rightarrow> nat" where
  "VarintLen_loop v cnt 0 = cnt"
| "VarintLen_loop v cnt (Suc n) = (if v \<noteq> 0 \<and> cnt < 9 then VarintLen_loop (drop_bit 7 v) (cnt + 1) n else cnt)"

definition VarintLen :: "uint64 \<Rightarrow> nat" where
  "VarintLen v = (let result = 0; inner = VarintLen_loop v 1 9 in result)"

section \<open>The encoding\<close>

text \<open>
  The encoding as the comment in the source describes it: up to eight groups of seven bits, most
  significant first, with the high bit set on all but the last; a ninth byte holds eight bits.
\<close>

fun varint_decode :: "nat \<Rightarrow> uint64 \<Rightarrow> byte list \<Rightarrow> (uint64 \<times> byte list) option" where
  "varint_decode n v [] = None"
| "varint_decode n v (b # bs) =
     (if n = 8 then Some (push_bit 8 v OR ucast b, bs)
      else if bit b 7 then varint_decode (n + 1) (push_bit 7 v OR ucast (b AND 0x7f)) bs
      else Some (push_bit 7 v OR ucast b, bs))"

section \<open>Round trips\<close>

lemma uint16_round: "push_bit 8 (ucast (ucast (drop_bit 8 v) :: byte)) OR ucast (ucast v :: byte) = (v :: uint16)"
  by (rule bit_word_eqI) (auto simp: bit_simps)

lemma uint32_round:
  "push_bit 24 (ucast (ucast (drop_bit 24 v) :: byte)) OR push_bit 16 (ucast (ucast (drop_bit 16 v) :: byte))
   OR push_bit 8 (ucast (ucast (drop_bit 8 v) :: byte)) OR ucast (ucast v :: byte) = (v :: uint32)"
proof (rule bit_word_eqI)
  fix n
  assume "n < LENGTH(32)"
  consider "n < 8" | "8 \<le> n" "n < 16" | "16 \<le> n" "n < 24" | "24 \<le> n" by linarith
  then show "bit (push_bit 24 (ucast (ucast (drop_bit 24 v) :: byte)) OR push_bit 16 (ucast (ucast (drop_bit 16 v) :: byte))
   OR push_bit 8 (ucast (ucast (drop_bit 8 v) :: byte)) OR ucast (ucast v :: byte) :: uint32) n = bit v n"
    using \<open>n < LENGTH(32)\<close> by cases (simp_all add: bit_simps, auto)
qed

lemma uint32_bytes:
  fixes b0 b1 b2 b3 :: byte
  defines "v \<equiv> (push_bit 24 (ucast b0) OR push_bit 16 (ucast b1) OR push_bit 8 (ucast b2) OR ucast b3 :: uint32)"
  shows "ucast (drop_bit 24 v) = b0" "ucast (drop_bit 16 v) = b1" "ucast (drop_bit 8 v) = b2" "ucast v = b3"
  unfolding v_def by (intro bit_word_eqI; auto simp: bit_simps dest: bit_imp_le_length)+

lemma and_80: "(x AND 0x80 = 0) = (\<not> bit x 7)" for x :: "'a::len word"
  using and_exp_eq_0_iff_not_bit [of x 7] by simp

lemma mask7: "(0x7f :: 'a::len word) = mask 7"
  by (simp add: mask_eq_exp_minus_1)

lemma SLOT_bits: "bit SLOT_2_0 n \<longleftrightarrow> n < 7 \<or> 14 \<le> n \<and> n < 21"
  "bit SLOT_4_2_0 n \<longleftrightarrow> n < 7 \<or> 14 \<le> n \<and> n < 21 \<or> 28 \<le> n \<and> n < 32"
proof -
  have e: "SLOT_2_0 = push_bit 14 (mask 7) OR mask 7" "SLOT_4_2_0 = push_bit 28 (mask 4) OR push_bit 14 (mask 7) OR mask 7"
    by (simp_all add: SLOT_2_0_def SLOT_4_2_0_def mask_eq_exp_minus_1 push_bit_eq_mult)
  show "bit SLOT_2_0 n \<longleftrightarrow> n < 7 \<or> 14 \<le> n \<and> n < 21" unfolding e by (auto simp: bit_simps)
  show "bit SLOT_4_2_0 n \<longleftrightarrow> n < 7 \<or> 14 \<le> n \<and> n < 21 \<or> 28 \<le> n \<and> n < 32" unfolding e by (auto simp: bit_simps)
qed

text \<open>Bit \<open>n\<close> of a value whose seven-bit group at position \<open>k\<close> is \<open>b\<close>.\<close>

lemma bit_last: "\<not> bit b 7 \<Longrightarrow> bit (b :: byte) n \<Longrightarrow> n < 7"
  using bit_imp_le_length [of b n] by (cases "n = 7") auto

lemmas varint_bits = bit_simps SLOT_bits mask7

subsection \<open>Seven-bit groups\<close>

text \<open>The seven value bits of a byte, and how the masks of the source select groups.\<close>

definition grp :: "byte \<Rightarrow> uint64" where
  "grp b = ucast (b AND 0x7f)"

lemma bit_grp: "bit (grp b) n \<longleftrightarrow> n < 7 \<and> bit b n"
  unfolding grp_def mask7 by (auto simp: bit_simps)

lemma grp_last: "\<not> bit b 7 \<Longrightarrow> ucast b = grp b"
  by (rule bit_word_eqI) (auto simp: bit_simps bit_grp dest: bit_last)

lemma and_7f_grp: "ucast b AND 0x7f = grp b"
  unfolding mask7 by (rule bit_word_eqI) (auto simp: bit_simps bit_grp)

lemma slot_2_0: "(push_bit 14 x OR ucast (r :: byte)) AND SLOT_2_0 = push_bit 14 (x AND mask 7) OR grp r"
  by (rule bit_word_eqI) (auto simp: bit_simps SLOT_bits bit_grp dest: bit_imp_le_length)

lemma low_7:
  "ucast (r :: byte) AND mask 7 = grp r" "(push_bit 14 x OR ucast (r :: byte)) AND mask 7 = grp r"
  "grp r AND mask 7 = grp r" "(push_bit 14 x OR grp r) AND mask 7 = grp r"
  by (rule bit_word_eqI; auto simp: bit_simps bit_grp dest: bit_imp_le_length)+

lemma slot_4_2_0:
  "(push_bit 14 (push_bit 14 x OR ucast (r :: byte)) OR ucast (t :: byte)) AND SLOT_4_2_0
     = push_bit 28 (x AND mask 4) OR push_bit 14 (grp r) OR grp t"
  by (rule bit_word_eqI) (auto simp: bit_simps SLOT_bits bit_grp dest: bit_imp_le_length)

lemma drop_grp: "n \<ge> 7 \<Longrightarrow> drop_bit n (grp b) = 0"
  by (rule bit_word_eqI) (auto simp: bit_simps bit_grp)

lemma drop_push_grp:
  "n \<le> m \<Longrightarrow> m \<le> 57 \<Longrightarrow> drop_bit n (push_bit m (grp b)) = push_bit (m - n) (grp b)"
  "m \<le> n \<Longrightarrow> m \<le> 57 \<Longrightarrow> drop_bit n (push_bit m (grp b)) = drop_bit (n - m) (grp b)"
  by (rule bit_word_eqI; auto simp: bit_simps bit_grp add.commute)+

text \<open>The parts of a group that the source splits between the low and the high 32 bits.\<close>

lemma join_grp:
  "push_bit 32 (drop_bit 4 (grp b)) OR push_bit 28 (grp b) = push_bit 28 (grp b)"
  "push_bit 32 (drop_bit 3 (grp b)) OR push_bit 29 (grp b) = push_bit 29 (grp b)"
  by (rule bit_word_eqI; auto simp: bit_simps bit_grp)+

lemma join_grp_mask: "push_bit 28 (grp b AND mask 4) OR push_bit 32 (drop_bit 4 (grp b)) = push_bit 28 (grp b)"
proof (rule bit_word_eqI)
  fix n
  show "bit (push_bit 28 (grp b AND mask 4) OR push_bit 32 (drop_bit 4 (grp b))) n = bit (push_bit 28 (grp b)) n"
    if "n < LENGTH(64)" using that by (cases "n < 32") (auto simp: bit_simps bit_grp)
qed

lemmas group_simps = slot_2_0 slot_4_2_0 low_7 and_7f_grp drop_grp drop_push_grp push_bit_or drop_bit_or

lemma bit7_word: "bit (ucast (b :: byte) :: uint64) 7 = bit b 7" "bit (push_bit 14 x OR ucast (b :: byte) :: uint64) 7 = bit b 7"
  by (simp_all add: bit_simps)

text \<open>What each branch of \<open>ReadVarint64\<close> computes, as groups.\<close>

lemma varint_branch_5:
  "push_bit 32 (drop_bit 18 (push_bit 14 (grp p0) OR grp p2)) OR ((push_bit 14 (push_bit 14 (grp p0) OR grp p2) OR grp p4)
     OR push_bit 7 (push_bit 14 (grp p1) OR grp p3))
   = push_bit 28 (grp p0) OR push_bit 21 (grp p1) OR push_bit 14 (grp p2) OR push_bit 7 (grp p3) OR grp p4"
  (is "?l = _")
proof -
  have "?l = (push_bit 32 (drop_bit 4 (grp p0)) OR push_bit 28 (grp p0)) OR push_bit 21 (grp p1) OR push_bit 14 (grp p2)
      OR push_bit 7 (grp p3) OR grp p4"
    by (simp add: group_simps ac_simps)
  then show ?thesis by (simp only: join_grp)
qed

lemma varint_branch_6:
  fixes p0 p1 p2 p3 :: byte
  defines "s \<equiv> push_bit 7 (push_bit 14 (grp p0) OR grp p2) OR (push_bit 14 (grp p1) OR grp p3)"
  shows "(push_bit 7 (push_bit 14 (grp p2) OR grp p4) OR (push_bit 14 (push_bit 14 (grp p1) OR grp p3) OR grp p5)) OR push_bit 32 (drop_bit 18 s)
   = push_bit 35 (grp p0) OR push_bit 28 (grp p1) OR push_bit 21 (grp p2) OR push_bit 14 (grp p3) OR push_bit 7 (grp p4) OR grp p5"
  (is "?l = _")
proof -
  have "?l = push_bit 35 (grp p0) OR (push_bit 32 (drop_bit 4 (grp p1)) OR push_bit 28 (grp p1)) OR push_bit 21 (grp p2)
      OR push_bit 14 (grp p3) OR push_bit 7 (grp p4) OR grp p5"
    unfolding s_def by (simp add: group_simps ac_simps)
  then show ?thesis by (simp only: join_grp)
qed

lemma varint_branch_7:
  fixes p0 p1 p2 p3 :: byte
  defines "s \<equiv> push_bit 7 (push_bit 14 (grp p0) OR grp p2) OR (push_bit 14 (grp p1) OR grp p3)"
  shows "(push_bit 28 (grp p2 AND mask 4) OR push_bit 14 (grp p4) OR grp p6) OR push_bit 7 (push_bit 14 (grp p3) OR grp p5) OR push_bit 32 (drop_bit 11 s)
   = push_bit 42 (grp p0) OR push_bit 35 (grp p1) OR push_bit 28 (grp p2) OR push_bit 21 (grp p3) OR push_bit 14 (grp p4) OR push_bit 7 (grp p5) OR grp p6"
  (is "?l = _")
proof -
  have "?l = push_bit 42 (grp p0) OR push_bit 35 (grp p1) OR (push_bit 28 (grp p2 AND mask 4) OR push_bit 32 (drop_bit 4 (grp p2)))
      OR push_bit 21 (grp p3) OR push_bit 14 (grp p4) OR push_bit 7 (grp p5) OR grp p6"
    unfolding s_def by (simp add: group_simps ac_simps)
  then show ?thesis by (simp only: join_grp_mask)
qed

lemma varint_branch_8:
  fixes p0 p1 p2 p3 :: byte
  defines "s \<equiv> push_bit 7 (push_bit 14 (grp p0) OR grp p2) OR (push_bit 14 (grp p1) OR grp p3)"
  shows "(push_bit 7 (push_bit 14 (grp p4) OR grp p6) OR (push_bit 28 (grp p3 AND mask 4) OR push_bit 14 (grp p5) OR grp p7)) OR push_bit 32 (drop_bit 4 s)
   = push_bit 49 (grp p0) OR push_bit 42 (grp p1) OR push_bit 35 (grp p2) OR push_bit 28 (grp p3) OR push_bit 21 (grp p4)
     OR push_bit 14 (grp p5) OR push_bit 7 (grp p6) OR grp p7"
  (is "?l = _")
proof -
  have "?l = push_bit 49 (grp p0) OR push_bit 42 (grp p1) OR push_bit 35 (grp p2) OR (push_bit 28 (grp p3 AND mask 4) OR push_bit 32 (drop_bit 4 (grp p3)))
      OR push_bit 21 (grp p4) OR push_bit 14 (grp p5) OR push_bit 7 (grp p6) OR grp p7"
    unfolding s_def by (simp add: group_simps ac_simps)
  then show ?thesis by (simp only: join_grp_mask)
qed

lemma varint_branch_9:
  fixes p0 p1 p2 p3 :: byte
  defines "s \<equiv> push_bit 7 (push_bit 14 (grp p0) OR grp p2) OR (push_bit 14 (grp p1) OR grp p3)"
  shows "((push_bit 15 (push_bit 14 (grp p4) OR grp p6) OR p8) OR push_bit 8 (push_bit 14 (grp p5) OR grp p7))
     OR push_bit 32 (push_bit 4 s OR drop_bit 3 (grp p4))
   = push_bit 57 (grp p0) OR push_bit 50 (grp p1) OR push_bit 43 (grp p2) OR push_bit 36 (grp p3) OR push_bit 29 (grp p4)
     OR push_bit 22 (grp p5) OR push_bit 15 (grp p6) OR push_bit 8 (grp p7) OR p8"
  (is "?l = _")
proof -
  have "?l = push_bit 57 (grp p0) OR push_bit 50 (grp p1) OR push_bit 43 (grp p2) OR push_bit 36 (grp p3)
      OR (push_bit 32 (drop_bit 3 (grp p4)) OR push_bit 29 (grp p4)) OR push_bit 22 (grp p5) OR push_bit 15 (grp p6) OR push_bit 8 (grp p7) OR p8"
    unfolding s_def by (simp add: group_simps ac_simps)
  then show ?thesis by (simp only: join_grp)
qed

text \<open>\<open>ReadVarint64\<close> follows the encoding, for each number of bytes and for a buffer that ends too early.\<close>

lemma varint_decode_grp:
  "bit b 7 \<Longrightarrow> n \<noteq> 8 \<Longrightarrow> varint_decode n v (b # bs) = varint_decode (n + 1) (push_bit 7 v OR grp b) bs"
  "\<not> bit b 7 \<Longrightarrow> n \<noteq> 8 \<Longrightarrow> varint_decode n v (b # bs) = Some (push_bit 7 v OR grp b, bs)"
  "n = 8 \<Longrightarrow> varint_decode n v (b # bs) = Some (push_bit 8 v OR ucast b, bs)"
  by (simp_all add: grp_last) (simp add: grp_def)

lemma slot_grp:
  "(push_bit 14 x OR grp r) AND SLOT_2_0 = push_bit 14 (x AND mask 7) OR grp r"
  "(push_bit 14 (push_bit 14 x OR ucast (r :: byte)) OR grp t) AND SLOT_4_2_0
     = push_bit 28 (x AND mask 4) OR push_bit 14 (grp r) OR grp t"
  "(push_bit 14 x OR grp r) AND mask 4 = grp r AND mask 4"
  by (rule bit_word_eqI; auto simp: bit_simps SLOT_bits bit_grp dest: bit_imp_le_length)+

lemma bit7_grp: "\<not> bit (push_bit 14 x OR grp b) 7" "\<not> bit (grp b) 7"
  by (simp_all add: bit_simps bit_grp)

lemmas read_simps = ReadVarint64_def byte_at_def and_80 bit7_word bit7_grp slot_2_0 slot_4_2_0 low_7 and_7f_grp grp_last slot_grp Let_def

lemmas decode_simps = varint_decode_grp push_bit_or or.assoc or.commute or.left_commute

lemma read_1_4:
  "\<not> bit p0 7 \<Longrightarrow> ReadVarint64 (p0 # r) = varint_decode 0 0 (p0 # r)"
  "bit p0 7 \<Longrightarrow> \<not> bit p1 7 \<Longrightarrow> ReadVarint64 (p0 # p1 # r) = varint_decode 0 0 (p0 # p1 # r)"
  "bit p0 7 \<Longrightarrow> bit p1 7 \<Longrightarrow> \<not> bit p2 7 \<Longrightarrow> ReadVarint64 (p0 # p1 # p2 # r) = varint_decode 0 0 (p0 # p1 # p2 # r)"
  "bit p0 7 \<Longrightarrow> bit p1 7 \<Longrightarrow> bit p2 7 \<Longrightarrow> \<not> bit p3 7 \<Longrightarrow>
     ReadVarint64 (p0 # p1 # p2 # p3 # r) = varint_decode 0 0 (p0 # p1 # p2 # p3 # r)"
  by (simp add: read_simps varint_decode_grp del: varint_decode.simps; simp add: decode_simps)+

lemma read_5_6:
  assumes "bit p0 7" "bit p1 7" "bit p2 7" "bit p3 7"
  shows "\<not> bit p4 7 \<Longrightarrow> ReadVarint64 (p0 # p1 # p2 # p3 # p4 # r) = varint_decode 0 0 (p0 # p1 # p2 # p3 # p4 # r)"
    and "bit p4 7 \<Longrightarrow> \<not> bit p5 7 \<Longrightarrow>
      ReadVarint64 (p0 # p1 # p2 # p3 # p4 # p5 # r) = varint_decode 0 0 (p0 # p1 # p2 # p3 # p4 # p5 # r)"
proof -
  assume 4: "\<not> bit p4 7"
  have "ReadVarint64 (p0 # p1 # p2 # p3 # p4 # r)
      = Some (push_bit 28 (grp p0) OR push_bit 21 (grp p1) OR push_bit 14 (grp p2) OR push_bit 7 (grp p3) OR grp p4, r)"
    using assms 4 by (simp add: read_simps varint_branch_5 del: push_bit_or drop_bit_or push_bit_and drop_bit_and push_bit_push_bit)
  then show "ReadVarint64 (p0 # p1 # p2 # p3 # p4 # r) = varint_decode 0 0 (p0 # p1 # p2 # p3 # p4 # r)"
    using assms 4 by (simp add: decode_simps del: varint_decode.simps)
next
  assume 5: "bit p4 7" "\<not> bit p5 7"
  have "ReadVarint64 (p0 # p1 # p2 # p3 # p4 # p5 # r)
      = Some (push_bit 35 (grp p0) OR push_bit 28 (grp p1) OR push_bit 21 (grp p2) OR push_bit 14 (grp p3) OR push_bit 7 (grp p4) OR grp p5, r)"
    using assms 5 by (simp add: read_simps varint_branch_6 del: push_bit_or drop_bit_or push_bit_and drop_bit_and push_bit_push_bit)
  then show "ReadVarint64 (p0 # p1 # p2 # p3 # p4 # p5 # r) = varint_decode 0 0 (p0 # p1 # p2 # p3 # p4 # p5 # r)"
    using assms 5 by (simp add: decode_simps del: varint_decode.simps)
qed

lemma read_7_9:
  assumes "bit p0 7" "bit p1 7" "bit p2 7" "bit p3 7" "bit p4 7" "bit p5 7"
  shows "\<not> bit p6 7 \<Longrightarrow>
      ReadVarint64 (p0 # p1 # p2 # p3 # p4 # p5 # p6 # r) = varint_decode 0 0 (p0 # p1 # p2 # p3 # p4 # p5 # p6 # r)"
    and "bit p6 7 \<Longrightarrow> \<not> bit p7 7 \<Longrightarrow>
      ReadVarint64 (p0 # p1 # p2 # p3 # p4 # p5 # p6 # p7 # r) = varint_decode 0 0 (p0 # p1 # p2 # p3 # p4 # p5 # p6 # p7 # r)"
    and "bit p6 7 \<Longrightarrow> bit p7 7 \<Longrightarrow>
      ReadVarint64 (p0 # p1 # p2 # p3 # p4 # p5 # p6 # p7 # p8 # r) = varint_decode 0 0 (p0 # p1 # p2 # p3 # p4 # p5 # p6 # p7 # p8 # r)"
proof -
  assume 6: "\<not> bit p6 7"
  have "ReadVarint64 (p0 # p1 # p2 # p3 # p4 # p5 # p6 # r)
      = Some (push_bit 42 (grp p0) OR push_bit 35 (grp p1) OR push_bit 28 (grp p2) OR push_bit 21 (grp p3) OR push_bit 14 (grp p4) OR push_bit 7 (grp p5) OR grp p6, r)"
    using assms 6 by (simp add: read_simps varint_branch_7 del: push_bit_or drop_bit_or push_bit_and drop_bit_and push_bit_push_bit)
  then show "ReadVarint64 (p0 # p1 # p2 # p3 # p4 # p5 # p6 # r) = varint_decode 0 0 (p0 # p1 # p2 # p3 # p4 # p5 # p6 # r)"
    using assms 6 by (simp add: decode_simps del: varint_decode.simps)
next
  assume 7: "bit p6 7" "\<not> bit p7 7"
  have "ReadVarint64 (p0 # p1 # p2 # p3 # p4 # p5 # p6 # p7 # r)
      = Some (push_bit 49 (grp p0) OR push_bit 42 (grp p1) OR push_bit 35 (grp p2) OR push_bit 28 (grp p3) OR push_bit 21 (grp p4)
          OR push_bit 14 (grp p5) OR push_bit 7 (grp p6) OR grp p7, r)"
    using assms 7 by (simp add: read_simps varint_branch_8 del: push_bit_or drop_bit_or push_bit_and drop_bit_and push_bit_push_bit)
  then show "ReadVarint64 (p0 # p1 # p2 # p3 # p4 # p5 # p6 # p7 # r) = varint_decode 0 0 (p0 # p1 # p2 # p3 # p4 # p5 # p6 # p7 # r)"
    using assms 7 by (simp add: decode_simps del: varint_decode.simps)
next
  assume 8: "bit p6 7" "bit p7 7"
  have "ReadVarint64 (p0 # p1 # p2 # p3 # p4 # p5 # p6 # p7 # p8 # r)
      = Some (push_bit 57 (grp p0) OR push_bit 50 (grp p1) OR push_bit 43 (grp p2) OR push_bit 36 (grp p3) OR push_bit 29 (grp p4)
     OR push_bit 22 (grp p5) OR push_bit 15 (grp p6) OR push_bit 8 (grp p7) OR ucast p8, r)"
    using assms 8 by (simp add: read_simps varint_branch_9 del: push_bit_or drop_bit_or push_bit_and drop_bit_and push_bit_push_bit)
  then show "ReadVarint64 (p0 # p1 # p2 # p3 # p4 # p5 # p6 # p7 # p8 # r) = varint_decode 0 0 (p0 # p1 # p2 # p3 # p4 # p5 # p6 # p7 # p8 # r)"
    using assms 8 by (simp add: decode_simps del: varint_decode.simps)
qed

lemma ReadVarint64_short:
  assumes "\<forall>b\<in>set p. bit b 7" "length p < 9"
  shows "ReadVarint64 p = None"
proof -
  have b: "bit (p ! i) 7" if "i < length p" for i using assms(1) that by simp
  have "length p = 0 \<or> length p = 1 \<or> length p = 2 \<or> length p = 3 \<or> length p = 4 \<or> length p = 5 \<or> length p = 6 \<or> length p = 7 \<or> length p = 8"
    using assms(2) by linarith
  then show ?thesis
    using b by (elim disjE) (simp_all add: ReadVarint64_def byte_at_def and_80 bit7_word Let_def slot_2_0 del: push_bit_or)
qed

lemma varint_decode_short: "\<forall>b\<in>set p. bit b 7 \<Longrightarrow> n + length p < 9 \<Longrightarrow> varint_decode n v p = None"
  by (induction p arbitrary: n v) auto

text \<open>A buffer either ends too early or starts with a complete varint.\<close>

lemma varint_split:
  fixes p :: "byte list"
  shows "(\<forall>b\<in>set p. bit b 7) \<and> length p \<le> n
    \<or> (\<exists>bs b r. p = bs @ b # r \<and> (\<forall>b\<in>set bs. bit b 7) \<and> (length bs < n \<and> \<not> bit b 7 \<or> length bs = n))"
proof (induction n arbitrary: p)
  case 0
  then show ?case by (cases p) auto
next
  case (Suc n)
  show ?case
  proof (cases p)
    case (Cons c q)
    show ?thesis
    proof (cases "bit c 7")
      case True
      then show ?thesis
        using Suc.IH [of q]
      proof (elim disjE)
        assume "\<exists>bs b r. q = bs @ b # r \<and> (\<forall>b\<in>set bs. bit b 7) \<and> (length bs < n \<and> \<not> bit b 7 \<or> length bs = n)"
        then obtain bs b r where "q = bs @ b # r" "\<forall>b\<in>set bs. bit b 7" "length bs < n \<and> \<not> bit b 7 \<or> length bs = n"
          by blast
        then show ?thesis using True Cons by (intro disjI2 exI [of _ "c # bs"] exI [of _ b] exI [of _ r]) auto
      qed (use True Cons in simp)
    next
      case False
      then show ?thesis using Cons by (intro disjI2 exI [of _ "[]"]) auto
    qed
  qed simp
qed

lemma ReadVarint64_decode: "ReadVarint64 p = varint_decode 0 0 p"
proof (cases "(\<forall>b\<in>set p. bit b 7) \<and> length p \<le> 8")
  case True
  then show ?thesis using ReadVarint64_short [of p] varint_decode_short [of p 0 0] by simp
next
  case False
  then obtain bs b r where p: "p = bs @ b # r" "\<forall>b\<in>set bs. bit b 7" "length bs < 8 \<and> \<not> bit b 7 \<or> length bs = 8"
    using varint_split [of p 8] by blast
  then have "length bs = 0 \<and> \<not> bit b 7 \<or> length bs = 1 \<and> \<not> bit b 7 \<or> length bs = 2 \<and> \<not> bit b 7 \<or> length bs = 3 \<and> \<not> bit b 7
    \<or> length bs = 4 \<and> \<not> bit b 7 \<or> length bs = 5 \<and> \<not> bit b 7 \<or> length bs = 6 \<and> \<not> bit b 7 \<or> length bs = 7 \<and> \<not> bit b 7 \<or> length bs = 8"
    by linarith
  then show ?thesis
    using p(1,2)
    by (elim disjE)
      (auto simp: numeral_eq_Suc length_Suc_conv read_1_4 read_5_6 read_7_9 simp del: varint_decode.simps)
qed

subsection \<open>Writing\<close>

text \<open>Reading a sequence of groups back.\<close>

lemma varint_decode_groups:
  assumes "\<forall>b\<in>set bs. bit b 7" "n + length bs < 8" "\<not> bit b 7"
  shows "varint_decode n v (bs @ b # r) = Some (foldl (\<lambda>v b. push_bit 7 v OR grp b) v (bs @ [b]), r)"
  using assms(1,2)
proof (induction bs arbitrary: n v)
  case Nil
  then show ?case using assms(3) by (simp add: grp_last)
next
  case (Cons c bs)
  then show ?case using Cons.IH [of "n + 1" "push_bit 7 v OR grp c"] by (simp add: grp_def)
qed

lemma varint_decode_nine:
  assumes "\<forall>b\<in>set bs. bit b 7" "n + length bs = 8"
  shows "varint_decode n v (bs @ b # r) = Some (push_bit 8 (foldl (\<lambda>v b. push_bit 7 v OR grp b) v bs) OR ucast b, r)"
  using assms
proof (induction bs arbitrary: n v)
  case (Cons c bs)
  then show ?case using Cons.IH [of "n + 1" "push_bit 7 v OR grp c"] by (simp add: grp_def)
qed simp

lemma bit_80: "bit (0x80 :: 'a::len word) n \<longleftrightarrow> n = 7 \<and> n < LENGTH('a)"
  using bit_exp_iff [where 'a = "'a word", of 7 n] by (auto simp: possible_bit_word)

lemma bit_80_int: "bit (0x80 :: int) n \<longleftrightarrow> n = 7"
  using bit_exp_iff [where 'a = int, of 7 n] by auto

lemma low_group: "bit (ucast ((v AND 0x7f) OR 0x80 :: uint64) :: byte) 7" "grp (ucast ((v AND 0x7f) OR 0x80)) = v AND mask 7"
    "grp (ucast ((v AND 0x7f) OR 0x80) AND 0x7f) = v AND mask 7" "\<not> bit (ucast ((v AND 0x7f) OR 0x80 :: uint64) AND 0x7f :: byte) 7"
proof -
  note b = bit_80 bit_80_int
  show "bit (ucast ((v AND 0x7f) OR 0x80 :: uint64) :: byte) 7" by (simp add: bit_simps b)
  show "grp (ucast ((v AND 0x7f) OR 0x80)) = v AND mask 7" "grp (ucast ((v AND 0x7f) OR 0x80) AND 0x7f) = v AND mask 7"
    unfolding mask7 by (rule bit_word_eqI; auto simp: bit_simps bit_grp b)+
  show "\<not> bit (ucast ((v AND 0x7f) OR 0x80 :: uint64) AND 0x7f :: byte) 7" unfolding mask7 by (simp add: bit_simps)
qed

lemma join_low_group: "push_bit 7 (drop_bit 7 v) OR (v AND mask 7) = (v :: uint64)"
  by (rule bit_word_eqI) (auto simp: bit_simps)

lemma WriteVarint64_buf_props:
  "\<forall>b\<in>set (WriteVarint64_buf v). bit b 7" "WriteVarint64_buf v \<noteq> []"
  "foldl (\<lambda>v b. push_bit 7 v OR grp b) 0 (rev (WriteVarint64_buf v)) = v"
  "unat v < 2 ^ (7 * k) \<Longrightarrow> length (WriteVarint64_buf v) \<le> max 1 k"
proof -
  show "\<forall>b\<in>set (WriteVarint64_buf v). bit b 7"
  proof (induction v rule: WriteVarint64_buf.induct)
    case (1 v)
    then show ?case by (subst WriteVarint64_buf.simps) (auto simp: low_group)
  qed
  show "WriteVarint64_buf v \<noteq> []" by (subst WriteVarint64_buf.simps) simp
  show "foldl (\<lambda>v b. push_bit 7 v OR grp b) 0 (rev (WriteVarint64_buf v)) = v"
  proof (induction v rule: WriteVarint64_buf.induct)
    case (1 v)
    then have "foldl (\<lambda>v b. push_bit 7 v OR grp b) 0 (rev (if drop_bit 7 v = 0 then [] else WriteVarint64_buf (drop_bit 7 v))) = drop_bit 7 v"
      by auto
    then show ?case by (subst WriteVarint64_buf.simps) (simp add: low_group join_low_group)
  qed
  show "unat v < 2 ^ (7 * k) \<Longrightarrow> length (WriteVarint64_buf v) \<le> max 1 k"
  proof (induction v arbitrary: k rule: WriteVarint64_buf.induct)
    case (1 v)
    show ?case
    proof (cases "drop_bit 7 v = 0")
      case True
      then show ?thesis by (subst WriteVarint64_buf.simps) simp
    next
      case False
      have d: "unat (drop_bit 7 v) = unat v div 128" unfolding unat_drop_bit_eq by (simp add: drop_bit_eq_div)
      then have "128 \<le> unat v" using False by (metis div_less not_le unat_eq_zero)
      then obtain j where k: "k = Suc j" "j > 0"
        using "1.prems" by (cases k; cases "k - 1") auto
      then have "unat (drop_bit 7 v) < 2 ^ (7 * j)" using "1.prems" d by (simp add: less_mult_imp_div_less power_add mult.commute)
      then have "length (WriteVarint64_buf (drop_bit 7 v)) \<le> max 1 j" using "1.IH" False by blast
      then show ?thesis using False k by (subst WriteVarint64_buf.simps) auto
    qed
  qed
qed

lemma WriteVarint64_nine_eq:
  "\<exists>bs. WriteVarint64_nine k v acc = bs @ acc \<and> length bs = k \<and> (\<forall>b\<in>set bs. bit b 7)
     \<and> foldl (\<lambda>v b. push_bit 7 v OR grp b) (drop_bit (7 * k) v) bs = v"
proof (induction k arbitrary: v acc)
  case (Suc k)
  obtain bs where bs: "WriteVarint64_nine k (drop_bit 7 v) (ucast ((v AND 0x7f) OR 0x80) # acc) = bs @ ucast ((v AND 0x7f) OR 0x80) # acc"
      "length bs = k" "\<forall>b\<in>set bs. bit b 7" "foldl (\<lambda>v b. push_bit 7 v OR grp b) (drop_bit (7 * k) (drop_bit 7 v)) bs = drop_bit 7 v"
    using Suc.IH [of "drop_bit 7 v" "ucast ((v AND 0x7f) OR 0x80) # acc"] by auto
  then show ?case
    by (intro exI [of _ "bs @ [ucast ((v AND 0x7f) OR 0x80)]"]) (auto simp: low_group join_low_group add.commute)
qed simp

lemma small_top: "v AND push_bit 32 0xff000000 = 0 \<longleftrightarrow> unat (v :: uint64) < 2 ^ 56"
proof -
  have m: "push_bit 32 0xff000000 = (push_bit 56 (mask 8) :: uint64)" by (simp add: mask_eq_exp_minus_1 push_bit_eq_mult)
  have "v AND push_bit 32 0xff000000 = 0 \<longleftrightarrow> (\<forall>n\<ge>56. \<not> bit v n)"
  proof (intro iffI allI impI notI)
    fix n
    assume a: "v AND push_bit 32 0xff000000 = 0" "56 \<le> n" "bit v n"
    then have "n < 64" using bit_imp_le_length [of v n] by simp
    then have "bit (v AND push_bit 32 0xff000000) n" unfolding m using a by (auto simp: bit_simps)
    then show False using a(1) by simp
  next
    assume "\<forall>n\<ge>56. \<not> bit v n"
    then show "v AND push_bit 32 0xff000000 = 0" unfolding m by (intro bit_word_eqI) (auto simp: bit_simps)
  qed
  also have "\<dots> \<longleftrightarrow> take_bit 56 v = v"
  proof (intro iffI allI impI)
    assume "take_bit 56 v = v"
    then have "bit v n \<longleftrightarrow> n < 56 \<and> bit v n" for n by (metis bit_take_bit_iff)
    then show "\<not> bit v n" if "56 \<le> n" for n using that by (metis not_le)
  next
    assume "\<forall>n\<ge>56. \<not> bit v n"
    then show "take_bit 56 v = v" by (intro bit_word_eqI) (auto simp: bit_take_bit_iff not_le)
  qed
  also have "\<dots> \<longleftrightarrow> unat v < 2 ^ 56"
    unfolding word_unat_eq_iff unsigned_take_bit_eq by (rule take_bit_nat_eq_self_iff)
  finally show ?thesis .
qed

text \<open>The bytes written: they decode to the value, and there are at most nine.\<close>

lemma WriteVarint64_ok:
  assumes "length b \<ge> 9"
  obtains bs n where "WriteVarint64 b v = Some (bs @ drop (length bs) b, n)" "length bs \<le> 9" "length bs \<noteq> 0"
    "\<And>r. varint_decode 0 0 (bs @ r) = Some (v, r)" "n = (if unat v < 2 ^ 56 then length bs - 1 else length bs)"
proof (cases "v AND push_bit 32 0xff000000 = 0")
  case True
  let ?buf = "WriteVarint64_buf v" and ?b0 = "hd (WriteVarint64_buf v)"
  obtain c cs where c: "?buf = c # cs" using WriteVarint64_buf_props(2) [of v] by (cases ?buf) auto
  have k: "length ?buf \<le> 8" using WriteVarint64_buf_props(4) [of v 8] True small_top [of v] by simp
  have g: "grp (c AND 0x7f) = grp c" "\<not> bit (c AND 0x7f) 7"
    unfolding mask7 by (auto intro!: bit_word_eqI simp: bit_grp bit_simps)
  have "foldl (\<lambda>v b. push_bit 7 v OR grp b) 0 (rev cs @ [c AND 0x7f]) = v"
    using WriteVarint64_buf_props(3) [of v] c g by simp
  then have "varint_decode 0 0 ((rev cs @ [c AND 0x7f]) @ r) = Some (v, r)" for r
    using varint_decode_groups [of "rev cs" 0 "c AND 0x7f" 0 r] WriteVarint64_buf_props(1) [of v] c g k by simp
  moreover have "WriteVarint64 b v = Some ((rev cs @ [c AND 0x7f]) @ drop (length (rev cs @ [c AND 0x7f])) b, length cs)"
    using True c k assms by (simp add: WriteVarint64_def put_bytes_def Let_def)
  moreover have "length (rev cs @ [c AND 0x7f]) \<le> 9" "unat v < 2 ^ 56" using k c True small_top [of v] by auto
  ultimately show ?thesis by (intro that [of "rev cs @ [c AND 0x7f]" "length cs"]) auto
next
  case False
  obtain bs where bs: "WriteVarint64_nine 8 (drop_bit 8 v) [ucast v] = bs @ [ucast v]" "length bs = 8" "\<forall>b\<in>set bs. bit b 7"
      "foldl (\<lambda>v b. push_bit 7 v OR grp b) (drop_bit 56 (drop_bit 8 v)) bs = drop_bit 8 v"
    using WriteVarint64_nine_eq [of 8 "drop_bit 8 v" "[ucast v]"] by auto
  have z: "drop_bit 56 (drop_bit 8 v) = 0" by (rule bit_word_eqI) (auto simp: bit_simps dest: bit_imp_le_length)
  have "push_bit 8 (drop_bit 8 v) OR ucast (ucast v :: byte) = v" by (rule bit_word_eqI) (auto simp: bit_simps)
  then have "varint_decode 0 0 ((bs @ [ucast v]) @ r) = Some (v, r)" for r
    using varint_decode_nine [of bs 0 0 "ucast v" r] bs z by simp
  moreover have "WriteVarint64 b v = Some ((bs @ [ucast v]) @ drop (length (bs @ [ucast v])) b, 9)"
    using False bs(1,2) assms by (simp add: WriteVarint64_def put_bytes_def)
  moreover have "\<not> unat v < 2 ^ 56" using False small_top [of v] by simp
  ultimately show ?thesis using bs(2) by (intro that [of "bs @ [ucast v]" 9]) auto
qed

lemma less_80: "(b :: byte) < 0x80 \<longleftrightarrow> \<not> bit b 7"
proof -
  have "bit b 7 \<longleftrightarrow> odd (unat b div 128)"
    using bit_iff_odd [of "unat b" 7] by (simp add: bit_unsigned_iff)
  moreover have "unat b < 256" using unsigned_less [of b] by simp
  moreover from this have "\<not> unat b < 128 \<Longrightarrow> unat b div 128 = 1" by (intro div_nat_eqI) auto
  ultimately show ?thesis unfolding word_less_nat_alt by (cases "unat b < 128") auto
qed

lemma u32_mask: "(0xffffffff :: uint64) = mask 32"
  by (simp add: mask_eq_exp_minus_1)

lemma and_u32: "(v AND 0xffffffff = v) \<longleftrightarrow> unat (v :: uint64) < 2 ^ 32"
proof -
  have "v AND 0xffffffff = take_bit 32 v" by (simp add: take_bit_eq_mask mask_eq_exp_minus_1)
  then show ?thesis unfolding word_unat_eq_iff unsigned_take_bit_eq by (simp add: take_bit_nat_eq_self_iff)
qed

lemma ucast_grp_small: "unat (push_bit 7 (grp a) OR grp b) < 2 ^ 32" "unat (grp b) < 2 ^ 32"
  unfolding and_u32 [symmetric] u32_mask by (rule bit_word_eqI; auto simp: bit_simps bit_grp)+

lemma ReadVarint32_split:
  "\<not> bit b 7 \<Longrightarrow> ReadVarint32 (b # r) = Some (ucast (grp b), r)"
  "bit c 7 \<Longrightarrow> \<not> bit b 7 \<Longrightarrow> ReadVarint32 (c # b # r) = Some (ucast (push_bit 7 (grp c) OR grp b), r)"
  "bit c 7 \<Longrightarrow> bit d 7 \<Longrightarrow> \<not> bit b 7 \<Longrightarrow> ReadVarint32 (c # d # b # r) = Some (0x7f OR push_bit 7 (ucast (d AND 0x7f)), r)"
  "bit c 7 \<Longrightarrow> bit d 7 \<Longrightarrow> bit b 7 \<Longrightarrow> ReadVarint32 (c # d # b # r) =
     (case ReadVarint64 (c # d # b # r) of None \<Rightarrow> None
      | Some (v, r) \<Rightarrow> Some (if unat v < 2 ^ 32 then ucast v else 0xffffffff, r))"
proof -
  have z: "push_bit 14 c = 0" for c :: byte by (rule bit_word_eqI) (auto simp: bit_simps)
  have h: "bit (ucast b :: uint32) 7 = bit b 7" for b :: byte by (simp add: bit_simps)
  show "\<not> bit b 7 \<Longrightarrow> ReadVarint32 (b # r) = Some (ucast (grp b), r)"
    by (auto simp: ReadVarint32_def less_80 intro!: bit_word_eqI) (auto simp: bit_simps bit_grp dest: bit_last)
  show "bit c 7 \<Longrightarrow> \<not> bit b 7 \<Longrightarrow> ReadVarint32 (c # b # r) = Some (ucast (push_bit 7 (grp c) OR grp b), r)"
    unfolding mask7 by (auto simp: ReadVarint32_def less_80 and_80 mask7 intro!: bit_word_eqI) (auto simp: bit_simps bit_grp dest: bit_last)
  have "\<not> bit b 7 \<Longrightarrow> ucast b AND push_bit 14 0x7f = (0 :: uint32)"
    unfolding mask7 by (rule bit_word_eqI) (auto simp: bit_simps dest: bit_last)
  then show "bit c 7 \<Longrightarrow> bit d 7 \<Longrightarrow> \<not> bit b 7 \<Longrightarrow> ReadVarint32 (c # d # b # r) = Some (0x7f OR push_bit 7 (ucast (d AND 0x7f)), r)"
    by (simp add: ReadVarint32_def less_80 and_80 z h Let_def)
  show "bit c 7 \<Longrightarrow> bit d 7 \<Longrightarrow> bit b 7 \<Longrightarrow> ReadVarint32 (c # d # b # r) =
     (case ReadVarint64 (c # d # b # r) of None \<Rightarrow> None
      | Some (v, r) \<Rightarrow> Some (if unat v < 2 ^ 32 then ucast v else 0xffffffff, r))"
    unfolding and_u32 [symmetric]
    by (cases "ReadVarint64 (c # d # b # r)") (simp_all add: ReadVarint32_def less_80 and_80 z h Let_def split_beta)
qed

section \<open>Properties\<close>

text \<open>
  C33. The unrolled \<open>ReadVarint64\<close>, with its shared shifts and masks, computes the encoding that the
  comments describe, on every buffer: same value, same remainder, and an index out of range exactly
  when the buffer ends inside the varint.
\<close>

theorem readVarint64_correct: "ReadVarint64 p = varint_decode 0 0 p"
  by (rule ReadVarint64_decode)

text \<open>
  What \<open>WriteVarint64\<close> returns: the remainder starts behind the \<open>k\<close> bytes written only for values of 57
  bits or more; below that it starts at the last byte written.
\<close>

lemma writeVarint64_remainder:
  assumes "length b \<ge> 9"
  shows "\<exists>b' n k. WriteVarint64 b v = Some (b', n) \<and> 1 \<le> k \<and> k \<le> 9 \<and> drop k b' = drop k b \<and> length b' = length b
     \<and> ReadVarint64 b' = Some (v, drop k b') \<and> n = (if unat v < 2 ^ 56 then k - 1 else k)"
proof -
  obtain bs n where bs: "WriteVarint64 b v = Some (bs @ drop (length bs) b, n)" "length bs \<le> 9" "length bs \<noteq> 0"
    "\<And>r. varint_decode 0 0 (bs @ r) = Some (v, r)" "n = (if unat v < 2 ^ 56 then length bs - 1 else length bs)"
    using WriteVarint64_ok [OF assms] by metis
  then show ?thesis using assms
    by (intro exI [of _ "bs @ drop (length bs) b"] exI [of _ n] exI [of _ "length bs"]) (simp add: ReadVarint64_decode Suc_le_eq)
qed

text \<open>
  C34. Round trip: the bytes that \<open>WriteVarint64\<close> writes into a buffer of at least nine bytes are between one
  and nine, \<open>ReadVarint64\<close> reads the value back from them and returns what follows them, and the
  rest of the buffer is unchanged.
\<close>

theorem varint64_roundtrip:
  assumes "length b \<ge> 9"
  shows "\<exists>b' k. map_option fst (WriteVarint64 b v) = Some b' \<and> 1 \<le> k \<and> k \<le> 9 \<and> length b' = length b \<and> drop k b' = drop k b
     \<and> ReadVarint64 b' = Some (v, drop k b)"
  using writeVarint64_remainder [OF assms, of v] by auto

theorem varint64_roundtrip_witness:
  "\<exists>b' k. map_option fst (WriteVarint64 (replicate 9 0) 300) = Some b' \<and> 1 \<le> k \<and> k \<le> 9 \<and> length b' = 9
     \<and> drop k b' = drop k (replicate 9 0) \<and> ReadVarint64 b' = Some (300, drop k (replicate 9 0))"
  using varint64_roundtrip [of "replicate 9 0" 300] by simp

text \<open>
  \<open>ReadVarint32\<close> agrees with the encoding on one- and two-byte varints and on varints of four
  bytes or more (a value beyond 32 bits reads as \<open>0xffffffff\<close>); on a three-byte varint its value
  is \<open>0x7f\<close> with the second group, whatever the first and third bytes are.
\<close>

theorem readVarint32_cases:
  assumes "varint_decode 0 0 p = Some (v, r)"
  shows "(length p \<noteq> length r + 3 \<longrightarrow> ReadVarint32 p = Some (if unat v < 2 ^ 32 then ucast v else 0xffffffff, r))
    \<and> (length p = length r + 3 \<longrightarrow> ReadVarint32 p = Some (0x7f OR push_bit 7 (ucast (p ! 1 AND 0x7f)), r))"
proof -
  have "\<not> ((\<forall>b\<in>set p. bit b 7) \<and> length p \<le> 8)" using varint_decode_short [of p 0 0] assms by auto
  then obtain bs b q where p: "p = bs @ b # q" "\<forall>b\<in>set bs. bit b 7" "length bs < 8 \<and> \<not> bit b 7 \<or> length bs = 8"
    using varint_split [of p 8] by blast
  then have rq: "r = q" using assms varint_decode_groups [of bs 0 b 0 q] varint_decode_nine [of bs 0 0 b q] by auto
  consider "length bs = 0" | "length bs = 1" | "length bs = 2" | "length bs \<ge> 3" by linarith
  then have "(length bs \<noteq> 2 \<longrightarrow> ReadVarint32 p = Some (if unat v < 2 ^ 32 then ucast v else 0xffffffff, q))
      \<and> (length bs = 2 \<longrightarrow> ReadVarint32 p = Some (0x7f OR push_bit 7 (ucast (p ! 1 AND 0x7f)), q))"
  proof cases
    case 1
    then show ?thesis using p assms ReadVarint32_split(1) [of b q] ucast_grp_small(2) [of b] by (auto simp: grp_last)
  next
    case 2
    then obtain c where "bs = [c]" by (auto simp: length_Suc_conv)
    then show ?thesis using p assms ReadVarint32_split(2) [of c b q] ucast_grp_small(1) [of c b]
      by (auto simp: varint_decode_grp simp del: varint_decode.simps)
  next
    case 3
    then obtain c d where "bs = [c, d]" by (auto simp: length_Suc_conv numeral_eq_Suc)
    then show ?thesis using p ReadVarint32_split(3) [of c d b q] by auto
  next
    case 4
    then obtain c d e bs' where "bs = c # d # e # bs'" by (metis Suc_le_length_iff numeral_3_eq_3)
    then show ?thesis using p assms ReadVarint32_split(4) [of c d e "bs' @ b # q"] ReadVarint64_decode [of p] rq 4 by auto
  qed
  then show ?thesis using p(1) rq by auto
qed

theorem readVarint32_cases_witness:
  "ReadVarint32 [0x81, 0x00, 5] = Some (128, [5]) \<and> ReadVarint32 [0x81, 0x80, 0x00] = Some (127, [])"
proof -
  have "varint_decode 0 0 [0x81, 0x00, 5] = Some (128, [5])" "varint_decode 0 0 [0x81, 0x80, 0x00] = Some (16384, [])"
    by simp_all
  then show ?thesis
    using readVarint32_cases [of "[0x81, 0x00, 5]" 128 "[5]"] readVarint32_cases [of "[0x81, 0x80, 0x00]" 16384 "[]"] by simp
qed

lemma uint_roundtrip_parts:
  shows "length b \<ge> 4 \<Longrightarrow> \<exists>b'. WriteUint32 b v = Some b' \<and> length b' = length b \<and> drop 4 b' = drop 4 b \<and> ReadUint32 b' = Some v"
    and "length b \<ge> 4 \<Longrightarrow> do { w \<leftarrow> ReadUint32 b; WriteUint32 b w } = Some b"
    and "length b \<ge> 2 \<Longrightarrow> \<exists>b'. WriteUint16 b u = Some b' \<and> drop 2 b' = drop 2 b \<and> ReadUint16 b' = Some u"
proof -
  show "length b \<ge> 2 \<Longrightarrow> \<exists>b'. WriteUint16 b u = Some b' \<and> drop 2 b' = drop 2 b \<and> ReadUint16 b' = Some u"
  proof -
    assume "length b \<ge> 2"
    then obtain b0 b1 r where "b = b0 # b1 # r" by (auto simp: numeral_eq_Suc Suc_le_length_iff)
    then show ?thesis by (simp add: WriteUint16_def ReadUint16_def uint16_round)
  qed
  show "\<exists>b'. WriteUint32 b v = Some b' \<and> length b' = length b \<and> drop 4 b' = drop 4 b \<and> ReadUint32 b' = Some v"
    "do { w \<leftarrow> ReadUint32 b; WriteUint32 b w } = Some b" if L: "length b \<ge> 4"
  proof -
    obtain b0 b1 b2 b3 r where b: "b = b0 # b1 # b2 # b3 # r"
      using L by (auto simp: numeral_eq_Suc Suc_le_length_iff)
    then show "\<exists>b'. WriteUint32 b v = Some b' \<and> length b' = length b \<and> drop 4 b' = drop 4 b \<and> ReadUint32 b' = Some v"
      by (simp add: WriteUint32_def ReadUint32_def uint32_round)
    show "do { w \<leftarrow> ReadUint32 b; WriteUint32 b w } = Some b"
      using b uint32_bytes [of b0 b1 b2 b3] by (simp add: WriteUint32_def ReadUint32_def)
  qed
qed

text \<open>
  Big-endian 32- and 16-bit integers: reading gives back what was written, and writing what was
  read restores the bytes.
\<close>

theorem uint_roundtrip:
  assumes "length b \<ge> 4"
  shows "(\<exists>b'. WriteUint32 b v = Some b' \<and> length b' = length b \<and> drop 4 b' = drop 4 b \<and> ReadUint32 b' = Some v)
    \<and> do { w \<leftarrow> ReadUint32 b; WriteUint32 b w } = Some b
    \<and> (\<exists>b'. WriteUint16 b u = Some b' \<and> drop 2 b' = drop 2 b \<and> ReadUint16 b' = Some u)"
  using uint_roundtrip_parts(1) [OF assms, of v] uint_roundtrip_parts(2) [OF assms] uint_roundtrip_parts(3) [of b u] assms by auto

theorem uint_roundtrip_witness:
  "(\<exists>b'. WriteUint32 [1, 2, 3, 4, 5] 0xdeadbeef = Some b' \<and> ReadUint32 b' = Some 0xdeadbeef)
   \<and> do { w \<leftarrow> ReadUint32 [1, 2, 3, 4]; WriteUint32 [1, 2, 3, 4] w } = Some [1, 2, 3, 4]"
  using uint_roundtrip [of "[1, 2, 3, 4, 5]" "0xdeadbeef" 0] uint_roundtrip [of "[1, 2, 3, 4]" 0 0]
  by (auto simp del: length_drop)

text \<open>\<open>VarintLen\<close> always returns 0: the loop counts in a variable of its own.\<close>

lemma varintLen_zero: "VarintLen v = 0"
  by (simp add: VarintLen_def Let_def)

end
