(* ===== verification/WalIndex.thy ===== *)
theory WalIndex
  imports Prelude
begin

text \<open>
  The wal-index of src/wal.go: the hash tables that map a database page number to the last frame of
  the write-ahead log that holds it. Every page of the index has an array of page numbers and a
  hash table with linear probing; frame numbers and page numbers are natural numbers below
  \<open>2 ^ 32\<close>. The C pointers into a page (\<open>aHash\<close>, \<open>aPageNumber\<close>) are the number of the page; the
  two accessors \<open>aHash\<close> and \<open>aPageNumber\<close> read through them and \<open>put_page\<close> writes.
\<close>

definition WALINDEX_HDR_SIZE :: nat where "WALINDEX_HDR_SIZE = 136"
definition HASHTABLE_NPAGE :: nat where "HASHTABLE_NPAGE = 4096"
definition HASHTABLE_HASH_1 :: nat where "HASHTABLE_HASH_1 = 383"
definition HASHTABLE_NSLOT :: nat where "HASHTABLE_NSLOT = HASHTABLE_NPAGE * 2"
definition HASHTABLE_NPAGE_ONE :: nat where
  "HASHTABLE_NPAGE_ONE = HASHTABLE_NPAGE - WALINDEX_HDR_SIZE div 4"

text \<open>A page of the wal-index: its words and its hash slots.\<close>

record WiPage =
  wi_word :: "nat \<Rightarrow> nat"
  wi_hash :: "nat \<Rightarrow> nat"

definition zero_page :: WiPage where
  "zero_page = \<lparr>wi_word = (\<lambda>_. 0), wi_hash = (\<lambda>_. 0)\<rparr>"

datatype exclusiveMode = WAL_NORMAL_MODE | WAL_EXCLUSIVE_MODE | WAL_HEAPMEMORY_MODE

text \<open>
  What the environment of the index answers: whether the two allocations of \<open>walIndexPage\<close> succeed
  and what \<open>sqlite3OsShmMap\<close> returns for a page.
\<close>

record WalEnv =
  env_realloc :: "nat \<Rightarrow> bool"
  env_malloc :: "nat \<Rightarrow> bool"
  env_shm_map :: "nat \<Rightarrow> rc \<times> WiPage option"

text \<open>
  The header. Its own checksum and version, which guard the copy in shared memory against torn
  reads, are left out: the copies are compared as values.
\<close>

record WalIndexHdr =
  iChange :: nat
  bigEndCksum :: bool
  hPageSize :: nat
  mxFrame :: nat
  nPage :: nat
  aFrameCksum :: "uint32 \<times> uint32"
  aSalt :: "byte list"

text \<open>\<open>shmHdr\<close> is the header in the wal-index, \<open>hdr\<close> the connection's copy of it.\<close>

record Wal =
  pDbFd :: WalEnv
  nWiData :: nat
  apWiData :: "nat \<Rightarrow> WiPage option"
  exclMode :: exclusiveMode
  writeLock :: bool
  readLock :: int
  shmReadOnly :: bool
  hdr :: WalIndexHdr
  shmHdr :: WalIndexHdr
  nBackfill :: nat
  aReadMark :: "nat list"
  nCkpt :: nat
  walPageSize :: nat
  truncateOnCommit :: bool
  mxWalSize :: int
  iCallback :: nat
  ckptLock :: bool

section \<open>Operations\<close>

definition walIndexPage :: "Wal \<Rightarrow> nat \<Rightarrow> (rc \<times> Wal) option" where
  "walIndexPage w iPage =
     (if nWiData w \<le> iPage \<and> \<not> env_realloc (pDbFd w) iPage then Some (SQLITE_NOMEM, w)
      else
        let w = (if nWiData w \<le> iPage
                 then w\<lparr>apWiData := (\<lambda>i. if nWiData w \<le> i \<and> i \<le> iPage then None else apWiData w i), nWiData := iPage + 1\<rparr>
                 else w);
            (rc, w) =
              (if apWiData w iPage = None then
                 (if exclMode w = WAL_HEAPMEMORY_MODE then
                    (if env_malloc (pDbFd w) iPage
                     then (SQLITE_OK, w\<lparr>apWiData := (apWiData w)(iPage := Some zero_page)\<rparr>)
                     else (SQLITE_NOMEM, w))
                  else
                    let (rc, page) = env_shm_map (pDbFd w) iPage;
                        w = w\<lparr>apWiData := (apWiData w)(iPage := page)\<rparr>
                    in if rc = SQLITE_READONLY then (SQLITE_OK, w\<lparr>shmReadOnly := True\<rparr>) else (rc, w))
               else (SQLITE_OK, w))
        in do {
          assertion (iPage = 0 \<or> apWiData w iPage \<noteq> None \<or> rc \<noteq> SQLITE_OK);
          Some (rc, w)
        })"

definition walHash :: "nat \<Rightarrow> nat option" where
  "walHash iPage = do {
     assertion (iPage > 0);
     Some ((iPage * HASHTABLE_HASH_1) mod 2 ^ 32 AND (HASHTABLE_NSLOT - 1))
   }"

definition walNextHash :: "nat \<Rightarrow> nat" where
  "walNextHash iPriorHash = (iPriorHash + 1) AND (HASHTABLE_NSLOT - 1)"

text \<open>\<open>walHashGet\<close>: the page is made available; \<open>iZero\<close> and the two accessors depend only on \<open>iHash\<close>.\<close>

definition walHash_iZero :: "nat \<Rightarrow> nat" where
  "walHash_iZero iHash = (if iHash = 0 then 0 else HASHTABLE_NPAGE_ONE + (iHash - 1) * HASHTABLE_NPAGE)"

definition walHashGet :: "Wal \<Rightarrow> nat \<Rightarrow> (rc \<times> Wal \<times> nat) option" where
  "walHashGet w iHash = do {
     (rc, w) \<leftarrow> walIndexPage w iHash;
     assertion (rc = SQLITE_OK \<or> iHash > 0);
     Some (rc, w, walHash_iZero iHash)
   }"

definition wi_offset :: "nat \<Rightarrow> nat" where
  "wi_offset iHash = (if iHash = 0 then WALINDEX_HDR_SIZE div 4 else 0)"

definition page_number :: "nat \<Rightarrow> WiPage \<Rightarrow> nat \<Rightarrow> nat" where
  "page_number iHash p idx = wi_word p (wi_offset iHash + idx - 1)"

definition put_page :: "Wal \<Rightarrow> nat \<Rightarrow> WiPage \<Rightarrow> Wal" where
  "put_page w iHash p = w\<lparr>apWiData := (apWiData w)(iHash := Some p)\<rparr>"

definition walFramePage :: "nat \<Rightarrow> nat option" where
  "walFramePage iFrame =
     (let iHash = (iFrame + HASHTABLE_NPAGE - HASHTABLE_NPAGE_ONE - 1) div HASHTABLE_NPAGE
      in do {
        assertion ((iHash = 0 \<or> iFrame > HASHTABLE_NPAGE_ONE)
           \<and> (iHash \<ge> 1 \<or> iFrame \<le> HASHTABLE_NPAGE_ONE)
           \<and> (iHash \<le> 1 \<or> iFrame > HASHTABLE_NPAGE_ONE + HASHTABLE_NPAGE)
           \<and> (iHash \<ge> 2 \<or> iFrame \<le> HASHTABLE_NPAGE_ONE + HASHTABLE_NPAGE)
           \<and> (iHash \<le> 2 \<or> iFrame > HASHTABLE_NPAGE_ONE + 2 * HASHTABLE_NPAGE));
        Some iHash
      })"

definition walFramePageNumber :: "Wal \<Rightarrow> nat \<Rightarrow> nat option" where
  "walFramePageNumber w iFrame = do {
     iHash \<leftarrow> walFramePage iFrame;
     p \<leftarrow> apWiData w iHash;
     if iHash = 0 then Some (wi_word p (WALINDEX_HDR_SIZE div 4 + iFrame - 1))
     else Some (wi_word p ((iFrame - 1 - HASHTABLE_NPAGE_ONE) mod HASHTABLE_NPAGE))
   }"

text \<open>The two loops of \<open>walCleanupHash\<close> on its page: entries and page numbers beyond \<open>iLimit\<close> are zeroed.\<close>

definition cleanup_page :: "nat \<Rightarrow> nat \<Rightarrow> WiPage \<Rightarrow> WiPage" where
  "cleanup_page iHash iLimit p =
     \<lparr>wi_word = (\<lambda>j. if wi_offset iHash + iLimit \<le> j \<and> j < HASHTABLE_NPAGE then 0 else wi_word p j),
      wi_hash = (\<lambda>i. if i < HASHTABLE_NSLOT \<and> wi_hash p i > iLimit then 0 else wi_hash p i)\<rparr>"

definition walCleanupHash :: "Wal \<Rightarrow> Wal option" where
  "walCleanupHash w = do {
     assertion (writeLock w);
     if mxFrame (hdr w) = 0 then Some w
     else do {
       iHash \<leftarrow> walFramePage (mxFrame (hdr w));
       assertion (nWiData w > iHash);
       assertion (apWiData w iHash \<noteq> None);
       (rc, w, iZero) \<leftarrow> walHashGet w iHash;
       p \<leftarrow> apWiData w iHash;
       assertion (mxFrame (hdr w) > iZero);
       Some (put_page w iHash (cleanup_page iHash (mxFrame (hdr w) - iZero) p))
     }
   }"

text \<open>
  The probe loop of \<open>walIndexAppend\<close>: the first free slot from \<open>iKey\<close> on, or \<open>SQLITE_CORRUPT\<close> when
  the collision counter runs out.
\<close>

fun walIndexAppend_probe :: "(nat \<Rightarrow> nat) \<Rightarrow> nat \<Rightarrow> nat \<Rightarrow> nat option" where
  "walIndexAppend_probe aHash iKey 0 = (if aHash iKey = 0 then Some iKey else None)"
| "walIndexAppend_probe aHash iKey (Suc nCollide) =
     (if aHash iKey = 0 then Some iKey else walIndexAppend_probe aHash (walNextHash iKey) nCollide)"

text \<open>The \<open>memset\<close> for the first entry of a table: from \<open>aPageNumber[1]\<close> to the end of the hash table.\<close>

definition clear_page :: "nat \<Rightarrow> WiPage \<Rightarrow> WiPage" where
  "clear_page iHash p =
     \<lparr>wi_word = (\<lambda>j. if wi_offset iHash \<le> j \<and> j < HASHTABLE_NPAGE then 0 else wi_word p j),
      wi_hash = (\<lambda>i. if i < HASHTABLE_NSLOT then 0 else wi_hash p i)\<rparr>"

definition walIndexAppend :: "Wal \<Rightarrow> nat \<Rightarrow> nat \<Rightarrow> (rc \<times> Wal) option" where
  "walIndexAppend w iFrame iPage = do {
     iHash \<leftarrow> walFramePage iFrame;
     (rc, w, iZero) \<leftarrow> walHashGet w iHash;
     if rc \<noteq> SQLITE_OK then Some (rc, w)
     else do {
       let idx = iFrame - iZero;
       assertion (idx \<le> HASHTABLE_NSLOT div 2 + 1);
       p \<leftarrow> apWiData w iHash;
       let w = (if idx = 1 then put_page w iHash (clear_page iHash p) else w);
       p \<leftarrow> apWiData w iHash;
       w \<leftarrow> (if page_number iHash p idx \<noteq> 0 then do {
                w \<leftarrow> walCleanupHash w;
                p \<leftarrow> apWiData w iHash;
                assertion (page_number iHash p idx = 0);
                Some w
              } else Some w);
       p \<leftarrow> apWiData w iHash;
       iKey0 \<leftarrow> walHash iPage;
       (case walIndexAppend_probe (wi_hash p) iKey0 idx of
          None \<Rightarrow> Some (SQLITE_CORRUPT, w)
        | Some iKey \<Rightarrow>
            Some (SQLITE_OK, put_page w iHash
              \<lparr>wi_word = (wi_word p)(wi_offset iHash + idx - 1 := iPage), wi_hash = (wi_hash p)(iKey := idx)\<rparr>))
     }
   }"

text \<open>
  The search of \<open>sqlite3WalRead\<close>. The inner loop scans one hash table from the slot of \<open>pgno\<close> to the
  first empty slot and keeps the last match; \<^term>\<open>None\<close> is \<open>SQLITE_CORRUPT\<close>.
\<close>

fun walRead_probe :: "(nat \<Rightarrow> nat) \<Rightarrow> (nat \<Rightarrow> nat) \<Rightarrow> nat \<Rightarrow> nat \<Rightarrow> nat \<Rightarrow> nat \<Rightarrow> nat \<Rightarrow> nat \<Rightarrow> nat option" where
  "walRead_probe aHash aPageNumber iZero iLast pgno iKey iRead 0 = (if aHash iKey = 0 then Some iRead else None)"
| "walRead_probe aHash aPageNumber iZero iLast pgno iKey iRead (Suc nCollide) =
     (if aHash iKey = 0 then Some iRead
      else
        let iFrame = aHash iKey + iZero;
            iRead = (if iFrame \<le> iLast \<and> aPageNumber (aHash iKey) = pgno then iFrame else iRead)
        in walRead_probe aHash aPageNumber iZero iLast pgno (walNextHash iKey) iRead nCollide)"

text \<open>The outer loop, with \<open>n\<close> the number of tables left (\<open>iHash + 1\<close>).\<close>

fun walRead_tables :: "Wal \<Rightarrow> nat \<Rightarrow> nat \<Rightarrow> nat \<Rightarrow> nat \<Rightarrow> (rc \<times> Wal \<times> nat) option" where
  "walRead_tables w pgno iLast iRead 0 = Some (SQLITE_OK, w, iRead)"
| "walRead_tables w pgno iLast iRead (Suc iHash) =
     (if iRead \<noteq> 0 then Some (SQLITE_OK, w, iRead)
      else do {
        (rc, w, iZero) \<leftarrow> walHashGet w iHash;
        if rc \<noteq> SQLITE_OK then Some (rc, w, 0)
        else do {
          p \<leftarrow> apWiData w iHash;
          iKey \<leftarrow> walHash pgno;
          (case walRead_probe (wi_hash p) (page_number iHash p) iZero iLast pgno iKey iRead HASHTABLE_NSLOT of
             None \<Rightarrow> Some (SQLITE_CORRUPT, w, 0)
           | Some iRead \<Rightarrow> walRead_tables w pgno iLast iRead iHash)
        }
      })"

text \<open>The frame \<open>sqlite3WalRead\<close> reads from; 0 when the page is not in the log.\<close>

definition walRead_frame :: "Wal \<Rightarrow> nat \<Rightarrow> (rc \<times> Wal \<times> nat) option" where
  "walRead_frame w pgno =
     (let iLast = mxFrame (hdr w) in do {
        assertion (readLock w \<ge> 0);
        if iLast = 0 \<or> readLock w = 0 then Some (SQLITE_OK, w, 0)
        else do {
          iHash \<leftarrow> walFramePage iLast;
          walRead_tables w pgno iLast 0 (iHash + 1)
        }
      })"

text \<open>
  \<open>sqlite3WalUndo\<close>: the callback \<open>xUndo\<close> has a state of its own and an error code; its loop over the
  frames from \<open>iFrame\<close> to \<open>iMax\<close> is \<open>walUndo_loop\<close>.
\<close>

function walUndo_loop :: "('c \<Rightarrow> nat \<Rightarrow> rc \<times> 'c) \<Rightarrow> Wal \<Rightarrow> nat \<Rightarrow> nat \<Rightarrow> 'c \<Rightarrow> (rc \<times> 'c) option" where
  "walUndo_loop xUndo w iFrame iMax c =
     (if iFrame \<le> iMax then do {
        pg \<leftarrow> walFramePageNumber w iFrame;
        assertion (pg \<noteq> 1);
        let (rc, c) = xUndo c pg in
        if rc = SQLITE_OK then walUndo_loop xUndo w (iFrame + 1) iMax c else Some (rc, c)
      } else Some (SQLITE_OK, c))"
  by pat_completeness auto

termination walUndo_loop
  by (relation "measure (\<lambda>(x, w, iFrame, iMax, c). iMax + 1 - iFrame)") auto

definition sqlite3WalUndo :: "('c \<Rightarrow> nat \<Rightarrow> rc \<times> 'c) \<Rightarrow> Wal \<Rightarrow> 'c \<Rightarrow> (rc \<times> Wal \<times> 'c) option" where
  "sqlite3WalUndo xUndo w c =
     (if writeLock w then do {
        let iMax = mxFrame (hdr w);
        let w = w\<lparr>hdr := shmHdr w\<rparr>;
        (rc, c) \<leftarrow> walUndo_loop xUndo w (mxFrame (hdr w) + 1) iMax c;
        w \<leftarrow> walCleanupHash w;
        assertion (rc = SQLITE_OK);
        Some (rc, w, c)
      } else Some (SQLITE_OK, w, c))"

record WalSavepoint =
  sv_mxFrame :: nat
  sv_cksum :: "uint32 \<times> uint32"
  sv_nCkpt :: nat

definition sqlite3WalSavepoint :: "Wal \<Rightarrow> WalSavepoint option" where
  "sqlite3WalSavepoint w = do {
     assertion (writeLock w);
     Some \<lparr>sv_mxFrame = mxFrame (hdr w), sv_cksum = aFrameCksum (hdr w), sv_nCkpt = nCkpt w\<rparr>
   }"

definition sqlite3WalSavepointUndo :: "Wal \<Rightarrow> WalSavepoint \<Rightarrow> (rc \<times> Wal \<times> WalSavepoint) option" where
  "sqlite3WalSavepointUndo w a = do {
     assertion (writeLock w);
     assertion (sv_nCkpt a \<noteq> nCkpt w \<or> sv_mxFrame a \<le> mxFrame (hdr w));
     let a = (if sv_nCkpt a \<noteq> nCkpt w then a\<lparr>sv_mxFrame := 0, sv_nCkpt := nCkpt w\<rparr> else a);
     if sv_mxFrame a < mxFrame (hdr w) then do {
       let w = w\<lparr>hdr := (hdr w)\<lparr>mxFrame := sv_mxFrame a, aFrameCksum := sv_cksum a\<rparr>\<rparr>;
       w \<leftarrow> walCleanupHash w;
       Some (SQLITE_OK, w, a)
     } else Some (SQLITE_OK, w, a)
   }"

text \<open>
  The last loop of \<open>WriteFrames\<close>: the page numbers of the frames just written are appended to the
  index, and then \<open>mxFrame\<close> moves.
\<close>

fun walIndexAppend_all :: "Wal \<Rightarrow> nat \<Rightarrow> nat list \<Rightarrow> (rc \<times> Wal \<times> nat) option" where
  "walIndexAppend_all w iFrame [] = Some (SQLITE_OK, w, iFrame)"
| "walIndexAppend_all w iFrame (pg # pgs) = do {
     (rc, w) \<leftarrow> walIndexAppend w (iFrame + 1) pg;
     if rc = SQLITE_OK then walIndexAppend_all w (iFrame + 1) pgs else Some (rc, w, iFrame + 1)
   }"

section \<open>The invariant\<close>

text \<open>Probe position \<open>d\<close> of page number \<open>pg\<close>.\<close>

definition slot :: "nat \<Rightarrow> nat \<Rightarrow> nat" where
  "slot pg d = (pg * HASHTABLE_HASH_1 + d) mod HASHTABLE_NSLOT"

text \<open>
  A table with page numbers \<open>f 1 .. f n\<close>: each of the first \<open>n\<close> entries is found on its probe path,
  and the path before it holds only earlier entries.
\<close>

definition table_inv :: "(nat \<Rightarrow> nat) \<Rightarrow> (nat \<Rightarrow> nat) \<Rightarrow> nat \<Rightarrow> bool" where
  "table_inv h f n \<longleftrightarrow>
     (\<forall>k<HASHTABLE_NSLOT. h k \<le> n)
   \<and> (\<forall>j<HASHTABLE_NSLOT. \<forall>k<HASHTABLE_NSLOT. h j = h k \<and> h j \<noteq> 0 \<longrightarrow> j = k)
   \<and> (\<forall>i\<in>{1..n}. f i > 0 \<and> (\<exists>d<HASHTABLE_NSLOT. h (slot (f i) d) = i
         \<and> (\<forall>e<d. 0 < h (slot (f i) e) \<and> h (slot (f i) e) < i)))"

section \<open>Hashing\<close>

declare walUndo_loop.simps [simp del]

lemmas wal_consts = WALINDEX_HDR_SIZE_def HASHTABLE_NPAGE_def HASHTABLE_HASH_1_def
  HASHTABLE_NSLOT_def HASHTABLE_NPAGE_ONE_def

lemma and_NSLOT: "x AND (HASHTABLE_NSLOT - 1) = x mod HASHTABLE_NSLOT"
  using take_bit_eq_mask [of 13 x] by (simp add: wal_consts take_bit_eq_mod mask_eq_exp_minus_1)

lemma walHash_slot: "pg > 0 \<Longrightarrow> walHash pg = Some (slot pg 0)"
  unfolding walHash_def and_NSLOT slot_def by (simp add: wal_consts mod_mod_cancel)

lemma walNextHash_slot: "walNextHash (slot pg d) = slot pg (Suc d)"
  unfolding walNextHash_def and_NSLOT slot_def by (simp add: mod_Suc_eq)

lemma slot_less: "slot pg d < HASHTABLE_NSLOT"
  by (simp add: slot_def wal_consts)

lemma slot_inj:
  assumes "slot pg d = slot pg e" "d < HASHTABLE_NSLOT" "e < HASHTABLE_NSLOT"
  shows "d = e"
proof -
  have "d mod HASHTABLE_NSLOT = e mod HASHTABLE_NSLOT"
    using assms(1) unfolding slot_def by (simp add: nat_mod_eq_iff)
  then show ?thesis using assms(2,3) by simp
qed

section \<open>One hash table\<close>

lemma probe_append:
  assumes "h (slot pg d) = 0" "\<forall>e<d. h (slot pg e) \<noteq> 0" "e \<le> d" "d \<le> e + n"
  shows "walIndexAppend_probe h (slot pg e) n = Some (slot pg d)"
  using assms(3,4)
proof (induction n arbitrary: e)
  case 0
  then show ?case using assms(1) by simp
next
  case (Suc n)
  show ?case
  proof (cases "e = d")
    case True
    then show ?thesis using assms(1) by simp
  next
    case False
    then have "h (slot pg e) \<noteq> 0" "Suc e \<le> d" "d \<le> Suc e + n" using Suc assms(2) by auto
    then show ?thesis using Suc.IH [of "Suc e"] by (simp add: walNextHash_slot)
  qed
qed

lemma free_slot:
  assumes "table_inv h f n" "n < HASHTABLE_NSLOT"
  obtains d where "d \<le> n" "h (slot pg d) = 0" "\<forall>e<d. h (slot pg e) \<noteq> 0"
proof -
  have "\<exists>d\<le>n. h (slot pg d) = 0"
  proof (rule ccontr)
    assume "\<not> ?thesis"
    then have nz: "h (slot pg d) \<noteq> 0" if "d \<le> n" for d using that by auto
    have "inj_on (\<lambda>d. h (slot pg d)) {0..n}"
    proof (rule inj_onI)
      fix d e
      assume "d \<in> {0..n}" "e \<in> {0..n}" "h (slot pg d) = h (slot pg e)"
      moreover from this have "slot pg d = slot pg e"
        using assms(1) nz [of d] slot_less unfolding table_inv_def by auto
      ultimately show "d = e" using slot_inj [of pg d e] assms(2) by auto
    qed
    moreover have "(\<lambda>d. h (slot pg d)) ` {0..n} \<subseteq> {1..n}"
      using assms(1) nz slot_less unfolding table_inv_def by fastforce
    ultimately have "card {0..n} \<le> card {1..n}" by (intro card_inj_on_le) auto
    then show False by simp
  qed
  then obtain d where "d \<le> n" "h (slot pg d) = 0" by blast
  then have "(LEAST d. h (slot pg d) = 0) \<le> n" "h (slot pg (LEAST d. h (slot pg d) = 0)) = 0"
    by (auto intro: LeastI order_trans [OF Least_le])
  then show ?thesis using that not_less_Least by blast
qed

lemma table_pos: "table_inv h f n \<Longrightarrow> i \<in> {1..n} \<Longrightarrow> f i > 0"
  unfolding table_inv_def by blast

lemma table_empty: "(\<And>k. k < HASHTABLE_NSLOT \<Longrightarrow> h k = 0) \<Longrightarrow> table_inv h f 0"
  by (simp add: table_inv_def)

lemma table_insert:
  assumes "table_inv h f n" "h (slot pg d) = 0" "\<forall>e<d. h (slot pg e) \<noteq> 0" "d < HASHTABLE_NSLOT" "pg > 0"
    and "f' (Suc n) = pg" "\<forall>i\<in>{1..n}. f' i = f i"
  shows "table_inv (h(slot pg d := Suc n)) f' (Suc n)"
proof -
  note T = assms(1)[unfolded table_inv_def]
  let ?h = "h(slot pg d := Suc n)"
  have "f' i > 0 \<and> (\<exists>d<HASHTABLE_NSLOT. ?h (slot (f' i) d) = i \<and> (\<forall>e<d. 0 < ?h (slot (f' i) e) \<and> ?h (slot (f' i) e) < i))"
    if i: "i \<in> {1..Suc n}" for i
  proof (cases "i = Suc n")
    case True
    have "?h (slot pg e) = h (slot pg e)" if "e < d" for e
      using that slot_inj [of pg e d] assms(4) by (auto simp: fun_upd_def)
    then have "\<forall>e<d. 0 < ?h (slot pg e) \<and> ?h (slot pg e) < Suc n"
      using T assms(3) slot_less by (simp add: less_Suc_eq_le)
    then show ?thesis using True assms(4,5,6) by (intro conjI exI [of _ d]) auto
  next
    case False
    then have "i \<in> {1..n}" using i by auto
    then obtain d' where d': "f i > 0" "d' < HASHTABLE_NSLOT" "h (slot (f i) d') = i"
        "\<forall>e<d'. 0 < h (slot (f i) e) \<and> h (slot (f i) e) < i"
      using T by blast
    then have "slot (f i) d' \<noteq> slot pg d" "\<forall>e<d'. slot (f i) e \<noteq> slot pg d"
      using assms(2) \<open>i \<in> {1..n}\<close> by auto
    then show ?thesis using d' assms(7) \<open>i \<in> {1..n}\<close> by (intro conjI exI [of _ d']) auto
  qed
  moreover have "\<forall>k<HASHTABLE_NSLOT. ?h k \<le> Suc n" using T by auto
  moreover have "j = k" if "j < HASHTABLE_NSLOT" "k < HASHTABLE_NSLOT" "?h j = ?h k" "?h j \<noteq> 0" for j k
  proof -
    have "h j \<le> n" "h k \<le> n" using T that by auto
    then show ?thesis using T that by (cases "j = slot pg d"; cases "k = slot pg d") auto
  qed
  ultimately show ?thesis unfolding table_inv_def by blast
qed

text \<open>Truncation to the first \<open>m\<close> entries.\<close>

lemma table_cleanup:
  assumes "table_inv h f n" "m \<le> n" "\<forall>i\<in>{1..m}. f' i = f i"
  shows "table_inv (\<lambda>i. if i < HASHTABLE_NSLOT \<and> h i > m then 0 else h i) f' m"
proof -
  note T = assms(1)[unfolded table_inv_def]
  let ?h = "\<lambda>i. if i < HASHTABLE_NSLOT \<and> h i > m then 0 else h i"
  have "f' i > 0 \<and> (\<exists>d<HASHTABLE_NSLOT. ?h (slot (f' i) d) = i \<and> (\<forall>e<d. 0 < ?h (slot (f' i) e) \<and> ?h (slot (f' i) e) < i))"
    if i: "i \<in> {1..m}" for i
  proof -
    have "i \<in> {1..n}" using i assms(2) by auto
    then obtain d where d: "f i > 0" "d < HASHTABLE_NSLOT" "h (slot (f i) d) = i"
        "\<forall>e<d. 0 < h (slot (f i) e) \<and> h (slot (f i) e) < i"
      using T by blast
    then have "?h (slot (f i) d) = i" "\<forall>e<d. ?h (slot (f i) e) = h (slot (f i) e)" using i by auto
    then show ?thesis using d assms(3) i by (intro conjI exI [of _ d]) auto
  qed
  moreover have "\<forall>k<HASHTABLE_NSLOT. ?h k \<le> m" by auto
  moreover have "\<forall>j<HASHTABLE_NSLOT. \<forall>k<HASHTABLE_NSLOT. ?h j = ?h k \<and> ?h j \<noteq> 0 \<longrightarrow> j = k" using T by auto
  ultimately show ?thesis unfolding table_inv_def by blast
qed

text \<open>The last of the positions \<open>1..m\<close> that holds \<open>pg\<close>, or 0.\<close>

fun last_idx :: "(nat \<Rightarrow> nat) \<Rightarrow> nat \<Rightarrow> nat \<Rightarrow> nat" where
  "last_idx f pg 0 = 0"
| "last_idx f pg (Suc m) = (if f (Suc m) = pg then Suc m else last_idx f pg m)"

definition is_last_idx :: "(nat \<Rightarrow> nat) \<Rightarrow> nat \<Rightarrow> nat \<Rightarrow> nat \<Rightarrow> bool" where
  "is_last_idx f pg m i \<longleftrightarrow>
     (i = 0 \<and> (\<forall>j\<in>{1..m}. f j \<noteq> pg)) \<or> (i \<in> {1..m} \<and> f i = pg \<and> (\<forall>j\<in>{1..m}. i < j \<longrightarrow> f j \<noteq> pg))"

lemma is_last_idx: "is_last_idx f pg m (last_idx f pg m)"
proof (induction m)
  case (Suc m)
  then show ?case by (cases "f (Suc m) = pg") (auto simp: is_last_idx_def le_Suc_eq)
qed (simp add: is_last_idx_def)

lemma is_last_idx_unique:
  assumes "is_last_idx f pg m i" "is_last_idx f pg m j"
  shows "i = j"
  using assms unfolding is_last_idx_def by (metis linorder_neqE_nat)

lemma last_idx_eq: "last_idx f pg m = i \<longleftrightarrow> is_last_idx f pg m i"
  using is_last_idx is_last_idx_unique by blast

lemma last_idx_bound: "last_idx f pg m \<le> m"
  by (induction m) auto

lemma fold_last:
  "(\<forall>e<D. \<not> P e) \<and> fold (\<lambda>e r. if P e then g e else r) [0..<D] r0 = r0
   \<or> (\<exists>e<D. P e \<and> (\<forall>e'<D. e < e' \<longrightarrow> \<not> P e') \<and> fold (\<lambda>e r. if P e then g e else r) [0..<D] r0 = g e)"
proof (induction D)
  case (Suc D)
  then show ?case by (cases "P D") (auto simp: less_Suc_eq)
qed simp

lemma fold_last_cases:
  obtains (none) "\<forall>e<D. \<not> P e" "fold (\<lambda>e r. if P e then g e else r) [0..<D] r0 = r0"
  | (some) e where "e < D" "P e" "\<forall>e'<D. e < e' \<longrightarrow> \<not> P e'" "fold (\<lambda>e r. if P e then g e else r) [0..<D] r0 = g e"
  using fold_last [of D P g r0] by auto

lemma probe_read:
  assumes "h (slot pg D) = 0" "\<forall>e<D. h (slot pg e) \<noteq> 0" "e \<le> D" "D \<le> e + n"
  shows "walRead_probe h f iZero iLast pg (slot pg e) r n =
    Some (fold (\<lambda>e r. if h (slot pg e) + iZero \<le> iLast \<and> f (h (slot pg e)) = pg then h (slot pg e) + iZero else r) [e..<D] r)"
  using assms(3,4)
proof (induction n arbitrary: e r)
  case 0
  then show ?case using assms(1) by simp
next
  case (Suc n)
  show ?case
  proof (cases "e = D")
    case True
    then show ?thesis using assms(1) by simp
  next
    case False
    then have "h (slot pg e) \<noteq> 0" "Suc e \<le> D" "D \<le> Suc e + n" using Suc assms(2) by auto
    then show ?thesis using Suc.IH [of "Suc e"] by (simp add: walNextHash_slot upt_conv_Cons Let_def)
  qed
qed

text \<open>The entries on the probe path of \<open>pg\<close> that hold \<open>pg\<close> are all its entries, in increasing order.\<close>

lemma path_entry:
  assumes "table_inv h f n" "h (slot pg D) = 0" "\<forall>e<D. h (slot pg e) \<noteq> 0" "D < HASHTABLE_NSLOT"
  shows "i \<in> {1..n} \<Longrightarrow> f i = pg \<Longrightarrow> \<exists>e<D. h (slot pg e) = i"
    and "e < D \<Longrightarrow> h (slot pg e) \<in> {1..n}"
    and "e < e' \<Longrightarrow> e' < D \<Longrightarrow> f (h (slot pg e')) = pg \<Longrightarrow> h (slot pg e) < h (slot pg e')"
proof -
  note T = assms(1)[unfolded table_inv_def]
  show r: "h (slot pg e) \<in> {1..n}" if "e < D" for e
    using that T assms(3) slot_less [of pg e] by (auto simp: Suc_le_eq)
  have E: "\<exists>d<D. h (slot pg d) = i \<and> (\<forall>e<d. h (slot pg e) < i)" if i: "i \<in> {1..n}" "f i = pg" for i
  proof -
    have "\<exists>d<HASHTABLE_NSLOT. h (slot (f i) d) = i \<and> (\<forall>e<d. 0 < h (slot (f i) e) \<and> h (slot (f i) e) < i)"
      using T i(1) by blast
    then obtain d where d: "d < HASHTABLE_NSLOT" "h (slot pg d) = i" "\<forall>e<d. 0 < h (slot pg e) \<and> h (slot pg e) < i"
      unfolding i(2) by blast
    have "d \<noteq> D" "\<not> D < d" using d assms(2) i(1) by auto
    then show ?thesis using d by (auto simp: not_less_iff_gr_or_eq)
  qed
  show "\<exists>e<D. h (slot pg e) = i" if "i \<in> {1..n}" "f i = pg" for i using E [OF that] by blast
  show "h (slot pg e) < h (slot pg e')" if lt: "e < e'" "e' < D" "f (h (slot pg e')) = pg" for e e'
  proof -
    obtain d where d: "d < D" "h (slot pg d) = h (slot pg e')" "\<forall>e<d. h (slot pg e) < h (slot pg e')"
      using E [OF r [OF lt(2)] lt(3)] by blast
    then have "slot pg d = slot pg e'" using T r [OF lt(2)] slot_less by force
    then have "d = e'" using slot_inj [of pg d e'] d(1) lt(2) assms(4) by simp
    then show ?thesis using d(3) lt(1) by simp
  qed
qed

lemma table_lookup:
  assumes "table_inv h f n" "n < HASHTABLE_NSLOT"
  shows "walRead_probe h f iZero iLast pg (slot pg 0) 0 HASHTABLE_NSLOT =
     Some (let i = last_idx f pg (min n (iLast - iZero)) in if i = 0 then 0 else iZero + i)"
proof -
  obtain D where D: "D \<le> n" "h (slot pg D) = 0" "\<forall>e<D. h (slot pg e) \<noteq> 0"
    using free_slot [OF assms] by blast
  have DN: "D < HASHTABLE_NSLOT" using D assms(2) by simp
  note P = path_entry [OF assms(1) D(2,3) DN]
  let ?P = "\<lambda>e. h (slot pg e) + iZero \<le> iLast \<and> f (h (slot pg e)) = pg"
  let ?F = "fold (\<lambda>e r. if ?P e then h (slot pg e) + iZero else r) [0..<D] 0"
  let ?m = "min n (iLast - iZero)"
  have in_m: "i \<in> {1..?m} \<longleftrightarrow> i \<in> {1..n} \<and> i + iZero \<le> iLast" for i by auto
  have "?F = (let i = last_idx f pg ?m in if i = 0 then 0 else iZero + i)"
  proof (cases rule: fold_last_cases [of D ?P "\<lambda>e. h (slot pg e) + iZero" 0])
    case none
    have "f j \<noteq> pg" if "j \<in> {1..?m}" for j
    proof
      assume "f j = pg"
      moreover have "j \<in> {1..n}" using that by simp
      ultimately obtain e where "e < D" "h (slot pg e) = j" using P(1) by blast
      then show False using none(1) that \<open>f j = pg\<close> unfolding in_m by auto
    qed
    then have "last_idx f pg ?m = 0" by (simp only: last_idx_eq is_last_idx_def) simp
    then show ?thesis using none(2) by simp
  next
    case e: (some e)
    have "f j \<noteq> pg" if "j \<in> {1..?m}" "h (slot pg e) < j" for j
    proof
      assume "f j = pg"
      moreover have "j \<in> {1..n}" using that(1) by simp
      ultimately obtain e' where e': "e' < D" "h (slot pg e') = j" using P(1) by blast
      then have "?P e'" using \<open>f j = pg\<close> that(1) unfolding in_m by simp
      then have "\<not> e < e'" using e(3) e'(1) by blast
      then have "e' < e \<or> e' = e" by auto
      then show False using P(3) [of e' e] e e' that(2) by auto
    qed
    moreover have "h (slot pg e) \<in> {1..?m}" using e(2) P(2) [OF e(1)] by auto
    ultimately have "last_idx f pg ?m = h (slot pg e)"
      using e(2) unfolding last_idx_eq is_last_idx_def by blast
    then show ?thesis using e(4) P(2) [OF e(1)] by simp
  qed
  then show ?thesis using probe_read [OF D(2,3), of 0 HASHTABLE_NSLOT f iZero iLast 0] DN by simp
qed

section \<open>The whole index\<close>

definition table_cap :: "nat \<Rightarrow> nat" where
  "table_cap iHash = (if iHash = 0 then HASHTABLE_NPAGE_ONE else HASHTABLE_NPAGE)"

lemma iZero_Suc: "walHash_iZero (Suc i) = walHash_iZero i + table_cap i"
  by (cases i) (simp_all add: walHash_iZero_def table_cap_def wal_consts)

lemma iZero_mono: "i < j \<Longrightarrow> walHash_iZero i + table_cap i \<le> walHash_iZero j"
proof (induction j)
  case (Suc j)
  then show ?case by (cases "i = j") (auto simp: iZero_Suc)
qed simp

lemma table_cap_bounds: "0 < table_cap i" "table_cap i < HASHTABLE_NSLOT" "wi_offset i + table_cap i = HASHTABLE_NPAGE"
  by (simp_all add: table_cap_def wi_offset_def wal_consts)

lemma walFramePage_Some:
  obtains i where "walFramePage F = Some i" "F > 0 \<Longrightarrow> walHash_iZero i < F" "F \<le> walHash_iZero i + table_cap i"
proof -
  let ?i = "(F + 33) div 4096"
  have "walFramePage F = Some ?i" by (auto simp: walFramePage_def wal_consts Let_def)
  moreover have "F > 0 \<Longrightarrow> walHash_iZero ?i < F" "F \<le> walHash_iZero ?i + table_cap ?i"
    by (auto simp: walHash_iZero_def table_cap_def wal_consts)
  ultimately show ?thesis using that by blast
qed

lemma walFramePage_eq:
  assumes "walHash_iZero i < F" "F \<le> walHash_iZero i + table_cap i"
  shows "walFramePage F = Some i"
proof -
  obtain j where j: "walFramePage F = Some j" "walHash_iZero j < F" "F \<le> walHash_iZero j + table_cap j"
    using walFramePage_Some [of F] assms(1) by (metis gr_zeroI not_less_zero)
  then have "i = j" using assms iZero_mono [of i j] iZero_mono [of j i] by (cases i j rule: linorder_cases) auto
  then show ?thesis using j by simp
qed

text \<open>What page \<open>iHash\<close> of the index holds for a log whose frames have the page numbers \<open>ps\<close>.\<close>

definition page_ok :: "nat \<Rightarrow> WiPage \<Rightarrow> nat list \<Rightarrow> bool" where
  "page_ok iHash p ps \<longleftrightarrow>
     (let n = min (table_cap iHash) (length ps - walHash_iZero iHash) in
        table_inv (wi_hash p) (page_number iHash p) n
      \<and> (\<forall>i\<in>{1..n}. page_number iHash p i = ps ! (walHash_iZero iHash + i - 1))
      \<and> (\<forall>i\<in>{n+1..table_cap iHash}. page_number iHash p i = 0))"

definition index_inv :: "Wal \<Rightarrow> nat list \<Rightarrow> bool" where
  "index_inv w ps \<longleftrightarrow>
     (\<forall>i. walHash_iZero i < length ps \<longrightarrow> i < nWiData w \<and> (\<exists>p. apWiData w i = Some p \<and> page_ok i p ps))"

text \<open>The allocations succeed and every page of the index can be mapped.\<close>

definition env_ok :: "Wal \<Rightarrow> bool" where
  "env_ok w \<longleftrightarrow> (\<forall>i. env_realloc (pDbFd w) i \<and> env_malloc (pDbFd w) i
     \<and> (\<exists>p. env_shm_map (pDbFd w) i = (SQLITE_OK, Some p)))"

lemma page_number_index: "i \<in> {1..table_cap iHash} \<Longrightarrow> wi_offset iHash + i - 1 < HASHTABLE_NPAGE"
  using table_cap_bounds(3) [of iHash] by auto

lemma page_ok_clear:
  assumes "length ps \<le> walHash_iZero iHash"
  shows "page_ok iHash (clear_page iHash p) ps"
proof -
  have "page_number iHash (clear_page iHash p) i = 0" if "i \<in> {1..table_cap iHash}" for i
    using page_number_index [OF that] that by (auto simp: page_number_def clear_page_def)
  then show ?thesis using assms by (simp add: page_ok_def clear_page_def table_empty)
qed

lemma page_ok_cleanup:
  assumes "page_ok iHash p ps" "m \<le> length ps" "walHash_iZero iHash \<le> m" "m \<le> walHash_iZero iHash + table_cap iHash"
  shows "page_ok iHash (cleanup_page iHash (m - walHash_iZero iHash) p) (take m ps)"
proof -
  let ?z = "walHash_iZero iHash" and ?p = "cleanup_page iHash (m - walHash_iZero iHash) p"
  let ?n = "min (table_cap iHash) (length ps - ?z)"
  have m: "min (table_cap iHash) (length (take m ps) - ?z) = m - ?z" "m - ?z \<le> ?n" using assms by auto
  have lo: "page_number iHash ?p i = page_number iHash p i" if "i \<in> {1..m - ?z}" for i
    using that by (auto simp: page_number_def cleanup_page_def)
  have hi: "page_number iHash ?p i = 0" if "i \<in> {m - ?z + 1..table_cap iHash}" for i
    using page_number_index [of i iHash] that by (auto simp: page_number_def cleanup_page_def)
  have "table_inv (wi_hash ?p) (page_number iHash ?p) (m - ?z)"
    using table_cleanup [OF _ m(2), of "wi_hash p" "page_number iHash p" "page_number iHash ?p"] assms(1) lo
    by (simp add: page_ok_def Let_def cleanup_page_def)
  moreover have "\<forall>i\<in>{1..m - ?z}. page_number iHash ?p i = take m ps ! (?z + i - 1)"
    using assms(1) lo m(2) by (auto simp: page_ok_def Let_def)
  ultimately show ?thesis using hi unfolding page_ok_def m(1) Let_def by blast
qed

lemma page_ok_insert:
  assumes "page_ok iHash p ps" "walHash_iZero iHash \<le> length ps" "length ps < walHash_iZero iHash + table_cap iHash" "pg > 0"
  shows "\<exists>iKey. walIndexAppend_probe (wi_hash p) (slot pg 0) (Suc (length ps) - walHash_iZero iHash) = Some iKey
    \<and> page_ok iHash \<lparr>wi_word = (wi_word p)(wi_offset iHash + (Suc (length ps) - walHash_iZero iHash) - 1 := pg),
                      wi_hash = (wi_hash p)(iKey := Suc (length ps) - walHash_iZero iHash)\<rparr> (ps @ [pg])"
proof -
  define z n where zn: "z = walHash_iZero iHash" "n = length ps - walHash_iZero iHash"
  have n: "min (table_cap iHash) (length ps - z) = n" "Suc (length ps) - z = Suc n"
      "min (table_cap iHash) (length (ps @ [pg]) - z) = Suc n" "n < HASHTABLE_NSLOT" "Suc n \<le> table_cap iHash" "z + n = length ps"
    using assms(2,3) table_cap_bounds(2) [of iHash] by (auto simp: zn)
  have ok: "table_inv (wi_hash p) (page_number iHash p) n" "\<forall>i\<in>{1..n}. page_number iHash p i = ps ! (z + i - 1)"
      "\<forall>i\<in>{n+1..table_cap iHash}. page_number iHash p i = 0"
    using assms(1) n(1) unfolding page_ok_def Let_def zn by simp_all
  obtain d where d: "d \<le> n" "wi_hash p (slot pg d) = 0" "\<forall>e<d. wi_hash p (slot pg e) \<noteq> 0"
    using free_slot [OF ok(1) n(4)] by blast
  let ?p = "\<lparr>wi_word = (wi_word p)(wi_offset iHash + Suc n - 1 := pg), wi_hash = (wi_hash p)(slot pg d := Suc n)\<rparr>"
  have pn: "page_number iHash ?p i = (if i = Suc n then pg else page_number iHash p i)" if "i \<ge> 1" for i
    using that by (auto simp: page_number_def)
  have "table_inv (wi_hash ?p) (page_number iHash ?p) (Suc n)"
    using table_insert [OF ok(1) d(2,3), of "page_number iHash ?p"] d(1) n(4) assms(4) pn by simp
  moreover have "\<forall>i\<in>{1..Suc n}. page_number iHash ?p i = (ps @ [pg]) ! (z + i - 1)"
    using ok(2) pn n(6) by (auto simp: nth_append)
  moreover have "\<forall>i\<in>{Suc n+1..table_cap iHash}. page_number iHash ?p i = 0" using ok(3) pn by auto
  ultimately have "page_ok iHash ?p (ps @ [pg])" unfolding page_ok_def zn(1) [symmetric] n(3) Let_def by blast
  moreover have "walIndexAppend_probe (wi_hash p) (slot pg 0) (Suc n) = Some (slot pg d)"
    using probe_append [of "wi_hash p" pg d 0 "Suc n"] d by simp
  ultimately show ?thesis unfolding zn(1) [symmetric] n(2) by blast
qed

lemma page_ok_full:
  assumes "page_ok j p ps" "walHash_iZero j + table_cap j \<le> m" "m \<le> length ps"
  shows "page_ok j p (take m ps @ xs)"
proof -
  have "min (table_cap j) (length ps - walHash_iZero j) = table_cap j"
    "min (table_cap j) (length (take m ps @ xs) - walHash_iZero j) = table_cap j" using assms(2,3) by auto
  moreover have "(take m ps @ xs) ! (walHash_iZero j + i - 1) = ps ! (walHash_iZero j + i - 1)"
    if "i \<in> {1..table_cap j}" for i
    using that assms(2,3) by (auto simp: nth_append)
  ultimately show ?thesis using assms(1) unfolding page_ok_def Let_def by auto
qed

subsection \<open>Mapping and writing pages\<close>

text \<open>\<open>walHashGet\<close> changes nothing but the page it makes available.\<close>

definition same_wal :: "Wal \<Rightarrow> Wal \<Rightarrow> bool" where
  "same_wal w w' \<longleftrightarrow> hdr w' = hdr w \<and> shmHdr w' = shmHdr w \<and> writeLock w' = writeLock w \<and> readLock w' = readLock w
     \<and> nCkpt w' = nCkpt w \<and> pDbFd w' = pDbFd w"

lemma same_wal_trans: "same_wal w1 w2 \<Longrightarrow> same_wal w2 w3 \<Longrightarrow> same_wal w1 w3"
  by (simp add: same_wal_def)

lemma same_wal_refl [simp]: "same_wal w w"
  by (simp add: same_wal_def)

lemma walHashGet_mapped:
  "apWiData w i = Some p \<Longrightarrow> i < nWiData w \<Longrightarrow> walHashGet w i = Some (SQLITE_OK, w, walHash_iZero i)"
  by (simp add: walHashGet_def walIndexPage_def)

lemma walHashGet_ok:
  assumes "env_ok w"
  obtains w' p where "walHashGet w i = Some (SQLITE_OK, w', walHash_iZero i)" "apWiData w' i = Some p" "i < nWiData w'"
    "same_wal w w'" "\<And>j. j < nWiData w \<Longrightarrow> j \<noteq> i \<Longrightarrow> apWiData w' j = apWiData w j" "nWiData w \<le> nWiData w'"
proof -
  obtain p where "env_shm_map (pDbFd w) i = (SQLITE_OK, Some p)" "env_realloc (pDbFd w) i" "env_malloc (pDbFd w) i"
    using assms unfolding env_ok_def by blast
  then show ?thesis
    by (cases "nWiData w \<le> i"; cases "apWiData w i"; cases "exclMode w = WAL_HEAPMEMORY_MODE")
      (auto intro!: that simp: walHashGet_def walIndexPage_def same_wal_def)
qed

lemma index_inv_update:
  assumes "index_inv w ps" "m \<le> length ps" "i < nWiData w'" "page_ok i p (take m ps @ xs)" "apWiData w' i = Some p"
    and "walHash_iZero i \<le> m" "m + length xs \<le> walHash_iZero i + table_cap i"
    and "\<And>j. j < nWiData w \<Longrightarrow> j \<noteq> i \<Longrightarrow> apWiData w' j = apWiData w j" "nWiData w \<le> nWiData w'"
  shows "index_inv w' (take m ps @ xs)"
  unfolding index_inv_def
proof (intro allI impI)
  fix j
  assume j: "walHash_iZero j < length (take m ps @ xs)"
  show "j < nWiData w' \<and> (\<exists>p. apWiData w' j = Some p \<and> page_ok j p (take m ps @ xs))"
  proof (cases "j = i")
    case True
    then show ?thesis using assms by simp
  next
    case False
    have "\<not> i < j" using iZero_mono [of i j] j assms(2,7) by auto
    then have "walHash_iZero j + table_cap j \<le> m" using iZero_mono [of j i] False assms(6) by auto
    moreover from this have "walHash_iZero j < length ps" using assms(2) table_cap_bounds(1) [of j] by linarith
    ultimately show ?thesis
      using assms(1,2,8,9) False page_ok_full [of j _ ps m xs] unfolding index_inv_def by (metis order_less_le_trans)
  qed
qed

lemma walCleanupHash_ok:
  assumes "index_inv w ps" "mxFrame (hdr w) \<le> length ps" "writeLock w"
  obtains w' where "walCleanupHash w = Some w'" "same_wal w w'" "index_inv w' (take (mxFrame (hdr w)) ps)"
    "mxFrame (hdr w) > 0 \<Longrightarrow> \<exists>i p. walFramePage (mxFrame (hdr w)) = Some i \<and> apWiData w i = Some p
       \<and> w' = put_page w i (cleanup_page i (mxFrame (hdr w) - walHash_iZero i) p)"
proof (cases "mxFrame (hdr w) = 0")
  case True
  then show ?thesis using assms that by (simp add: walCleanupHash_def index_inv_def)
next
  case False
  define m where "m = mxFrame (hdr w)"
  obtain i where i: "walFramePage m = Some i" "walHash_iZero i < m" "m \<le> walHash_iZero i + table_cap i"
    using walFramePage_Some [of m] False unfolding m_def by auto
  then obtain p where p: "apWiData w i = Some p" "page_ok i p ps" "i < nWiData w"
    using assms(1,2) unfolding index_inv_def m_def by (meson order_less_le_trans)
  let ?w = "put_page w i (cleanup_page i (m - walHash_iZero i) p)"
  have "walCleanupHash w = Some ?w"
    using False assms(3) i p walHashGet_mapped [OF p(1,3)] by (simp add: walCleanupHash_def m_def)
  moreover have "page_ok i (cleanup_page i (m - walHash_iZero i) p) (take m ps @ [])"
    using page_ok_cleanup [OF p(2)] i assms(2) by (simp add: m_def)
  then have "index_inv ?w (take m ps @ [])"
    using p(3) i assms(2) by (intro index_inv_update [OF assms(1)]) (auto simp: put_page_def m_def)
  moreover have "same_wal w ?w" by (simp add: same_wal_def put_page_def)
  ultimately show ?thesis using that i p unfolding m_def by simp
qed

lemma append_clean:
  assumes "index_inv w ps" "m \<le> length ps" "m = length ps \<or> mxFrame (hdr w) = m \<and> writeLock w"
    and i: "walHash_iZero i < Suc m" "Suc m \<le> walHash_iZero i + table_cap i"
    and w1: "walHashGet w i = Some (SQLITE_OK, w1, walHash_iZero i)" "apWiData w1 i = Some p1" "i < nWiData w1"
      "same_wal w w1" "\<And>j. j < nWiData w \<Longrightarrow> j \<noteq> i \<Longrightarrow> apWiData w1 j = apWiData w j" "nWiData w \<le> nWiData w1"
  defines "idx \<equiv> Suc m - walHash_iZero i"
  defines "p2 \<equiv> if idx = 1 then clear_page i p1 else p1"
  defines "w2 \<equiv> if idx = 1 then put_page w1 i (clear_page i p1) else w1"
  shows "\<exists>w3 p3. (if page_number i p2 idx \<noteq> 0 then do {
                w \<leftarrow> walCleanupHash w2; p \<leftarrow> apWiData w i; assertion (page_number i p idx = 0); Some w } else Some w2) = Some w3
      \<and> apWiData w3 i = Some p3 \<and> page_ok i p3 (take m ps) \<and> same_wal w w3 \<and> i < nWiData w3
      \<and> (\<forall>j. j < nWiData w \<longrightarrow> j \<noteq> i \<longrightarrow> apWiData w3 j = apWiData w j) \<and> nWiData w \<le> nWiData w3"
proof (cases "idx = 1")
  case True
  then have "page_ok i (clear_page i p1) (take m ps)" using i(1) by (intro page_ok_clear) (auto simp: idx_def)
  moreover have "page_number i (clear_page i p1) idx = 0"
    using True page_number_index [of 1 i] table_cap_bounds(1) [of i] by (simp add: page_number_def clear_page_def)
  ultimately show ?thesis using True w1(3-6) by (auto simp: p2_def w2_def put_page_def same_wal_def)
next
  case False
  then have zm: "walHash_iZero i < m" using i(1) by (auto simp: idx_def)
  then obtain p where "apWiData w i = Some p" "page_ok i p ps" "i < nWiData w"
    using assms(1,2) unfolding index_inv_def by (meson order_less_le_trans)
  then have w: "w1 = w" "p = p1" "page_ok i p1 ps" "apWiData w i = Some p1" "i < nWiData w"
    using w1(1,2) walHashGet_mapped by auto
  let ?n = "min (table_cap i) (length ps - walHash_iZero i)"
  have ok: "table_inv (wi_hash p1) (page_number i p1) ?n" "\<forall>j\<in>{?n+1..table_cap i}. page_number i p1 j = 0"
    using w(3) unfolding page_ok_def Let_def by blast+
  have idx: "idx \<in> {1..table_cap i}" using i by (auto simp: idx_def)
  show ?thesis
  proof (cases "page_number i p1 idx = 0")
    case True
    have "\<not> idx \<le> ?n" using True table_pos [OF ok(1), of idx] idx by auto
    then have "length ps = m" using assms(2) idx i unfolding idx_def by auto
    then show ?thesis using True False w by (simp add: p2_def w2_def)
  next
    case nz: False
    then have "idx \<le> ?n" using ok(2) [rule_format, of idx] idx by force
    then have "m < length ps" using zm unfolding idx_def by auto
    then have mx: "mxFrame (hdr w) = m" "writeLock w" using assms(3) by auto
    have fp: "walFramePage m = Some i" using zm i(2) by (intro walFramePage_eq) auto
    let ?p3 = "cleanup_page i (m - walHash_iZero i) p1"
    obtain w3 where w3: "walCleanupHash w = Some w3" "w3 = put_page w i ?p3"
      using walCleanupHash_ok [OF assms(1), unfolded mx, OF assms(2)] mx fp w(4) zm by auto
    have p3: "page_ok i ?p3 (take m ps)" using page_ok_cleanup [OF w(3) assms(2)] zm i(2) by simp
    then have "page_number i ?p3 idx = 0"
      using idx assms(2) zm i(2) unfolding page_ok_def Let_def idx_def by (auto simp: Suc_diff_le)
    then show ?thesis using p3 w3 w False nz by (auto simp: p2_def w2_def put_page_def same_wal_def)
  qed
qed

text \<open>
  Appending frame \<open>m + 1\<close>. The frames beyond \<open>m\<close> that the index still holds are those of a writer
  that did not commit; they are dropped.
\<close>

lemma walIndexAppend_insert:
  assumes "env_ok w" "index_inv w ps" "m \<le> length ps" "pg > 0"
    and "m = length ps \<or> mxFrame (hdr w) = m \<and> writeLock w"
  obtains w' where "walIndexAppend w (Suc m) pg = Some (SQLITE_OK, w')" "same_wal w w'" "index_inv w' (take m ps @ [pg])"
proof -
  obtain i where i: "walFramePage (Suc m) = Some i" "walHash_iZero i < Suc m" "Suc m \<le> walHash_iZero i + table_cap i"
    using walFramePage_Some [of "Suc m"] by auto
  obtain w1 p1 where w1: "walHashGet w i = Some (SQLITE_OK, w1, walHash_iZero i)" "apWiData w1 i = Some p1" "i < nWiData w1"
      "same_wal w w1" "\<And>j. j < nWiData w \<Longrightarrow> j \<noteq> i \<Longrightarrow> apWiData w1 j = apWiData w j" "nWiData w \<le> nWiData w1"
    using walHashGet_ok [OF assms(1)] by metis
  let ?idx = "Suc m - walHash_iZero i"
  let ?p2 = "if ?idx = 1 then clear_page i p1 else p1"
  let ?w2 = "if ?idx = 1 then put_page w1 i (clear_page i p1) else w1"
  let ?clean = "if page_number i ?p2 ?idx \<noteq> 0 then do {
                w \<leftarrow> walCleanupHash ?w2; p \<leftarrow> apWiData w i; assertion (page_number i p ?idx = 0); Some w } else Some ?w2"
  have "\<exists>w3 p3. ?clean = Some w3 \<and> apWiData w3 i = Some p3 \<and> page_ok i p3 (take m ps) \<and> same_wal w w3 \<and> i < nWiData w3
      \<and> (\<forall>j. j < nWiData w \<longrightarrow> j \<noteq> i \<longrightarrow> apWiData w3 j = apWiData w j) \<and> nWiData w \<le> nWiData w3"
    using append_clean [OF assms(2,3,5) i(2,3) w1] by simp
  then obtain w3 p3 where w3: "?clean = Some w3" "apWiData w3 i = Some p3" "page_ok i p3 (take m ps)" "same_wal w w3" "i < nWiData w3"
      "\<And>j. j < nWiData w \<Longrightarrow> j \<noteq> i \<Longrightarrow> apWiData w3 j = apWiData w j" "nWiData w \<le> nWiData w3"
    by blast
  have len: "length (take m ps) = m" using assms(3) by simp
  obtain iKey where K: "walIndexAppend_probe (wi_hash p3) (slot pg 0) ?idx = Some iKey"
      "page_ok i \<lparr>wi_word = (wi_word p3)(wi_offset i + ?idx - 1 := pg), wi_hash = (wi_hash p3)(iKey := ?idx)\<rparr> (take m ps @ [pg])"
    using page_ok_insert [OF w3(3), of pg] i assms(4) unfolding len by auto
  let ?w4 = "put_page w3 i \<lparr>wi_word = (wi_word p3)(wi_offset i + ?idx - 1 := pg), wi_hash = (wi_hash p3)(iKey := ?idx)\<rparr>"
  have "?idx \<le> HASHTABLE_NSLOT div 2 + 1" using i(3) by (auto simp: table_cap_def wal_consts split: if_splits)
  moreover have "apWiData ?w2 i = Some ?p2" using w1(2) by (simp add: put_page_def)
  ultimately have "walIndexAppend w (Suc m) pg = Some (SQLITE_OK, ?w4)"
    unfolding walIndexAppend_def i(1) Option.bind.simps w1(1) prod.case Let_def
    using w1(2) w3(1,2) K(1) walHash_slot [OF assms(4)] by simp
  moreover have "index_inv ?w4 (take m ps @ [pg])"
    using w3 i K(2) assms(3) by (intro index_inv_update [OF assms(2)]) (auto simp: put_page_def)
  moreover have "same_wal w ?w4" using w3(4) by (simp add: same_wal_def put_page_def)
  ultimately show ?thesis using that by blast
qed

lemma env_ok_same: "env_ok w \<Longrightarrow> same_wal w w' \<Longrightarrow> env_ok w'"
  by (simp add: env_ok_def same_wal_def)

lemma walIndexAppend_all_ok:
  assumes "env_ok w" "index_inv w ps" "m \<le> length ps" "\<forall>pg\<in>set pgs. pg > 0"
    and "m = length ps \<or> mxFrame (hdr w) = m \<and> writeLock w"
  shows "\<exists>w'. walIndexAppend_all w m pgs = Some (SQLITE_OK, w', m + length pgs) \<and> same_wal w w'
     \<and> (pgs = [] \<longrightarrow> w' = w) \<and> (pgs \<noteq> [] \<longrightarrow> index_inv w' (take m ps @ pgs))"
  using assms
proof (induction pgs arbitrary: w ps m)
  case (Cons pg pgs)
  obtain w1 where w1: "walIndexAppend w (Suc m) pg = Some (SQLITE_OK, w1)" "same_wal w w1" "index_inv w1 (take m ps @ [pg])"
    using walIndexAppend_insert [OF Cons.prems(1,2,3) _ Cons.prems(5)] Cons.prems(4) by (metis list.set_intros(1))
  have "length (take m ps @ [pg]) = Suc m" using Cons.prems(3) by simp
  then obtain w2 where w2: "walIndexAppend_all w1 (Suc m) pgs = Some (SQLITE_OK, w2, Suc m + length pgs)" "same_wal w1 w2"
      "pgs = [] \<longrightarrow> w2 = w1" "pgs \<noteq> [] \<longrightarrow> index_inv w2 (take m ps @ [pg] @ pgs)"
    using Cons.IH [OF env_ok_same [OF Cons.prems(1) w1(2)] w1(3), of "Suc m"] Cons.prems(4) by auto
  then have "index_inv w2 (take m ps @ pg # pgs)" using w1(3) by (cases "pgs = []") auto
  then show ?case using w1(1,2) w2(1,2) same_wal_trans by auto
qed simp

subsection \<open>Lookup\<close>

definition last_frame :: "nat list \<Rightarrow> nat \<Rightarrow> nat" where
  "last_frame ps pg = last_idx (\<lambda>F. ps ! (F - 1)) pg (length ps)"

lemma last_idx_cong: "(\<And>i. i \<in> {1..m} \<Longrightarrow> f i = g i) \<Longrightarrow> last_idx f pg m = last_idx g pg m"
  by (induction m) auto

lemma last_idx_add:
  "last_idx g pg (z + m) = (let i = last_idx (\<lambda>i. g (z + i)) pg m in if i = 0 then last_idx g pg z else z + i)"
  by (induction m) (auto simp: Let_def)

lemma walRead_tables_ok:
  assumes "index_inv w ps" "iLast \<le> length ps" "pg > 0" "k = 0 \<or> walHash_iZero (k - 1) < iLast"
  shows "walRead_tables w pg iLast 0 k =
     Some (SQLITE_OK, w, last_idx (\<lambda>F. ps ! (F - 1)) pg (min iLast (walHash_iZero k)))"
  using assms(4)
proof (induction k)
  case 0
  then show ?case by (simp add: walHash_iZero_def)
next
  case (Suc j)
  let ?z = "walHash_iZero j" and ?g = "\<lambda>F. ps ! (F - 1)"
  have z: "?z < iLast" using Suc.prems by simp
  then obtain p where p: "apWiData w j = Some p" "page_ok j p ps" "j < nWiData w"
    using assms(1,2) unfolding index_inv_def by (meson order_less_le_trans)
  let ?n = "min (table_cap j) (length ps - ?z)"
  let ?m = "min (table_cap j) (iLast - ?z)"
  have m: "min ?n (iLast - ?z) = ?m" "min iLast (walHash_iZero (Suc j)) = ?z + ?m" "?n < HASHTABLE_NSLOT" "?m \<le> ?n"
    using assms(2) z table_cap_bounds(2) [of j] by (auto simp: iZero_Suc)
  have ok: "table_inv (wi_hash p) (page_number j p) ?n" "\<forall>i\<in>{1..?n}. page_number j p i = ps ! (?z + i - 1)"
    using p(2) unfolding page_ok_def Let_def by blast+
  have "last_idx (page_number j p) pg ?m = last_idx (\<lambda>i. ?g (?z + i)) pg ?m"
    using ok(2) m(4) by (intro last_idx_cong) auto
  then have T: "walRead_probe (wi_hash p) (page_number j p) ?z iLast pg (slot pg 0) 0 HASHTABLE_NSLOT
      = Some (let i = last_idx (\<lambda>i. ?g (?z + i)) pg ?m in if i = 0 then 0 else ?z + i)"
    using table_lookup [OF ok(1) m(3), of ?z iLast pg] unfolding m(1) by simp
  have rest: "walRead_tables w pg iLast r j = Some (SQLITE_OK, w, r)" if "r \<noteq> 0" for r
    using that by (cases j) auto
  have "j = 0 \<or> walHash_iZero (j - 1) < iLast" using z iZero_mono [of "j - 1" j] by (cases j) auto
  then have IH: "walRead_tables w pg iLast 0 j = Some (SQLITE_OK, w, last_idx ?g pg ?z)"
    using Suc.IH z by (simp add: min_absorb2)
  show ?case
    unfolding m(2) last_idx_add
    using walHashGet_mapped [OF p(1,3)] p(1) walHash_slot [OF assms(3)] T IH rest by (simp add: Let_def)
qed

lemma walRead_frame_ok:
  assumes "index_inv w ps" "mxFrame (hdr w) \<le> length ps" "pg > 0" "readLock w > 0"
  shows "walRead_frame w pg = Some (SQLITE_OK, w, last_frame (take (mxFrame (hdr w)) ps) pg)"
proof (cases "mxFrame (hdr w) = 0")
  case True
  then show ?thesis using assms(4) by (simp add: walRead_frame_def last_frame_def)
next
  case False
  let ?m = "mxFrame (hdr w)"
  obtain i where i: "walFramePage ?m = Some i" "walHash_iZero i < ?m" "?m \<le> walHash_iZero i + table_cap i"
    using walFramePage_Some [of ?m] False by auto
  have "min ?m (walHash_iZero (Suc i)) = ?m" using i(3) by (simp add: iZero_Suc)
  moreover have "last_idx (\<lambda>F. ps ! (F - 1)) pg ?m = last_frame (take ?m ps) pg"
    unfolding last_frame_def using assms(2) by (auto intro!: last_idx_cong)
  ultimately show ?thesis
    using walRead_tables_ok [OF assms(1,2,3), of "Suc i"] i False assms(4) by (simp add: walRead_frame_def)
qed

section \<open>Write transactions\<close>

text \<open>
  The end of \<open>WriteFrames\<close>: the frames just written (with \<open>nExtra\<close> copies of the last one) are indexed, the private header moves to the last
  of them, and a commit publishes the header in the wal-index. The first page of the wal-index is always mapped in the model, so
  that the assertion of \<open>walIndexHdr\<close> cannot fail.
\<close>

definition walIndexWriteHdr :: "Wal \<Rightarrow> Wal option" where
  "walIndexWriteHdr w = do { assertion (writeLock w); Some (w\<lparr>shmHdr := hdr w\<rparr>) }"

definition WriteFrames_index :: "Wal \<Rightarrow> nat \<Rightarrow> nat list \<Rightarrow> nat \<Rightarrow> nat \<Rightarrow> bool \<Rightarrow> (rc \<times> Wal) option" where
  "WriteFrames_index w PageSize pgs nExtra nTruncate isCommit = do {
     (rc, w, iFrame) \<leftarrow> walIndexAppend_all w (mxFrame (hdr w)) pgs;
     (rc, w, iFrame) \<leftarrow> (if rc = SQLITE_OK then walIndexAppend_all w iFrame (replicate nExtra (last pgs)) else Some (rc, w, iFrame));
     if rc = SQLITE_OK then do {
       let h = (hdr w)\<lparr>hPageSize := (PageSize AND 0xff00) OR drop_bit 16 PageSize, mxFrame := iFrame\<rparr>;
       let h = (if isCommit then h\<lparr>iChange := iChange h + 1, nPage := nTruncate\<rparr> else h);
       let w = w\<lparr>hdr := h\<rparr>;
       w \<leftarrow> (if isCommit then do { w \<leftarrow> walIndexWriteHdr w; Some (w\<lparr>iCallback := iFrame\<rparr>) } else Some w);
       Some (rc, w)
     } else Some (rc, w)
   }"

text \<open>A writer's operations: write frames, roll back to the last commit, roll back to a savepoint.\<close>

datatype walop = WWrite "nat list" nat nat | WUndo | WSavepointUndo WalSavepoint

fun wal_run :: "('c \<Rightarrow> nat \<Rightarrow> rc \<times> 'c) \<Rightarrow> nat \<Rightarrow> walop list \<Rightarrow> Wal \<times> 'c \<Rightarrow> (Wal \<times> 'c) option" where
  "wal_run xUndo PageSize [] s = Some s"
| "wal_run xUndo PageSize (WWrite pgs nExtra nTruncate # ops) (w, c) = do {
     (rc, w) \<leftarrow> WriteFrames_index w PageSize pgs nExtra nTruncate (nTruncate \<noteq> 0);
     assertion (rc = SQLITE_OK);
     wal_run xUndo PageSize ops (w, c)
   }"
| "wal_run xUndo PageSize (WUndo # ops) (w, c) = do {
     (rc, w, c) \<leftarrow> sqlite3WalUndo xUndo w c;
     wal_run xUndo PageSize ops (w, c)
   }"
| "wal_run xUndo PageSize (WSavepointUndo a # ops) (w, c) = do {
     (rc, w, a) \<leftarrow> sqlite3WalSavepointUndo w a;
     wal_run xUndo PageSize ops (w, c)
   }"

text \<open>
  The specification: the page numbers of the frames of the log and the number of them that are
  committed. \<open>log_ok\<close> is what the callers promise: only positive page numbers are written, page 1 is
  not in an uncommitted frame when a transaction is rolled back, a savepoint lies between the last
  commit and the end of the log.
\<close>

fun log_step :: "walop \<Rightarrow> nat list \<times> nat \<Rightarrow> nat list \<times> nat" where
  "log_step (WWrite pgs nExtra nTruncate) (ps, c) =
     (ps @ pgs @ replicate nExtra (last pgs), if nTruncate \<noteq> 0 then length ps + length pgs + nExtra else c)"
| "log_step WUndo (ps, c) = (take c ps, c)"
| "log_step (WSavepointUndo a) (ps, c) = (take (sv_mxFrame a) ps, c)"

fun log_ok :: "nat \<Rightarrow> walop list \<Rightarrow> nat list \<times> nat \<Rightarrow> bool" where
  "log_ok ck [] s = True"
| "log_ok ck (op # ops) (ps, c) =
     ((case op of
         WWrite pgs nExtra nTruncate \<Rightarrow> pgs \<noteq> [] \<and> (\<forall>pg\<in>set pgs. pg > 0)
       | WUndo \<Rightarrow> 1 \<notin> set (drop c ps)
       | WSavepointUndo a \<Rightarrow> sv_nCkpt a = ck \<and> c \<le> sv_mxFrame a \<and> sv_mxFrame a \<le> length ps)
      \<and> log_ok ck ops (log_step op (ps, c)))"

definition wal_refines :: "Wal \<Rightarrow> nat list \<times> nat \<Rightarrow> bool" where
  "wal_refines w s \<longleftrightarrow>
     index_inv w (fst s) \<and> mxFrame (hdr w) = length (fst s) \<and> mxFrame (shmHdr w) = snd s \<and> snd s \<le> length (fst s)
   \<and> env_ok w \<and> writeLock w"

lemma index_page_number:
  assumes "index_inv w ps" "F \<in> {1..length ps}"
  shows "walFramePageNumber w F = Some (ps ! (F - 1))"
proof -
  obtain i where i: "walFramePage F = Some i" "walHash_iZero i < F" "F \<le> walHash_iZero i + table_cap i"
    using walFramePage_Some [of F] assms(2) by auto
  then obtain p where p: "apWiData w i = Some p" "page_ok i p ps"
    using assms unfolding index_inv_def by (meson atLeastAtMost_iff order_less_le_trans)
  have "F - walHash_iZero i \<in> {1..min (table_cap i) (length ps - walHash_iZero i)}" using i assms(2) by auto
  then have e: "page_number i p (F - walHash_iZero i) = ps ! (F - 1)"
    using p(2) i(2) unfolding page_ok_def Let_def by auto
  show ?thesis
  proof (cases "i = 0")
    case True
    then show ?thesis using e i p by (simp add: walFramePageNumber_def page_number_def wi_offset_def walHash_iZero_def)
  next
    case False
    have "(F - 1 - HASHTABLE_NPAGE_ONE) mod HASHTABLE_NPAGE = F - walHash_iZero i - 1"
    proof -
      have "F - 1 - HASHTABLE_NPAGE_ONE = (i - 1) * HASHTABLE_NPAGE + (F - walHash_iZero i - 1)"
        using i(2) False by (auto simp: walHash_iZero_def)
      moreover have "F - walHash_iZero i - 1 < HASHTABLE_NPAGE" using i False by (auto simp: table_cap_def)
      ultimately show ?thesis by simp
    qed
    then show ?thesis using e i p False by (simp add: walFramePageNumber_def page_number_def wi_offset_def)
  qed
qed

lemma walUndo_loop_ok:
  assumes "index_inv w ps" "iMax = length ps" "\<forall>c pg. fst (xUndo c pg) = SQLITE_OK" "iFrame \<ge> 1" "1 \<notin> set (drop (iFrame - 1) ps)"
  shows "\<exists>c'. walUndo_loop xUndo w iFrame iMax c = Some (SQLITE_OK, c')"
  using assms
proof (induction xUndo w iFrame iMax c rule: walUndo_loop.induct)
  case (1 xUndo w iFrame iMax c)
  show ?case
  proof (cases "iFrame \<le> iMax")
    case True
    then have F: "walFramePageNumber w iFrame = Some (ps ! (iFrame - 1))"
      using 1 index_page_number [OF 1(2), of iFrame] by simp
    have "drop (iFrame - 1) ps = ps ! (iFrame - 1) # drop iFrame ps"
      using True 1(3,5) by (metis Cons_nth_drop_Suc Suc_diff_le diff_Suc_1' One_nat_def Suc_le_lessD Suc_pred' less_eq_Suc_le)
    then have n1: "ps ! (iFrame - 1) \<noteq> 1" "1 \<notin> set (drop iFrame ps)" using 1(6) by auto
    obtain c1 where c1: "xUndo c (ps ! (iFrame - 1)) = (SQLITE_OK, c1)" using 1(4) by (metis prod.collapse)
    then have "\<exists>c'. walUndo_loop xUndo w (iFrame + 1) iMax c1 = Some (SQLITE_OK, c')"
      using 1(1) [OF True F, of "()" "(SQLITE_OK, c1)"] 1(2,3,4) n1 True by simp
    then show ?thesis
      using F n1 c1 True by (subst walUndo_loop.simps) simp
  next
    case False
    then show ?thesis by (subst walUndo_loop.simps) simp
  qed
qed

lemma index_inv_hdr [simp]: "index_inv (w\<lparr>hdr := h\<rparr>) ps = index_inv w ps" "index_inv (w\<lparr>shmHdr := h\<rparr>) ps = index_inv w ps"
  by (simp_all add: index_inv_def)

lemma env_ok_hdr [simp]: "env_ok (w\<lparr>hdr := h\<rparr>) = env_ok w" "env_ok (w\<lparr>shmHdr := h\<rparr>) = env_ok w"
  by (simp_all add: env_ok_def)

lemma step_write:
  assumes "wal_refines w (ps, c)" "pgs \<noteq> []" "\<forall>pg\<in>set pgs. pg > 0"
  shows "\<exists>w'. WriteFrames_index w PageSize pgs nExtra nTruncate (nTruncate \<noteq> 0) = Some (SQLITE_OK, w')
     \<and> wal_refines w' (log_step (WWrite pgs nExtra nTruncate) (ps, c)) \<and> nCkpt w' = nCkpt w \<and> readLock w' = readLock w"
proof -
  have R: "index_inv w ps" "mxFrame (hdr w) = length ps" "mxFrame (shmHdr w) = c" "c \<le> length ps" "env_ok w" "writeLock w"
    using assms(1) by (simp_all add: wal_refines_def)
  obtain w1 where w1: "walIndexAppend_all w (length ps) pgs = Some (SQLITE_OK, w1, length ps + length pgs)" "same_wal w w1"
      "index_inv w1 (ps @ pgs)"
    using walIndexAppend_all_ok [OF R(5,1), of "length ps" pgs] assms(2,3) by auto
  have "last pgs > 0" using assms(2,3) by simp
  then obtain w2 where w2: "walIndexAppend_all w1 (length ps + length pgs) (replicate nExtra (last pgs))
        = Some (SQLITE_OK, w2, length ps + length pgs + nExtra)" "same_wal w1 w2"
      "nExtra = 0 \<longrightarrow> w2 = w1" "nExtra \<noteq> 0 \<longrightarrow> index_inv w2 (ps @ pgs @ replicate nExtra (last pgs))"
    using walIndexAppend_all_ok [OF env_ok_same [OF R(5) w1(2)] w1(3), of "length (ps @ pgs)" "replicate nExtra (last pgs)"] by auto
  then have "index_inv w2 (ps @ pgs @ replicate nExtra (last pgs))" using w1(3) by (cases "nExtra = 0") auto
  moreover have "same_wal w w2" using w1(2) w2(2) same_wal_trans by blast
  moreover from this have "env_ok w2" by (rule env_ok_same [OF R(5)])
  ultimately show ?thesis
    using R w1(1) w2(1)
    by (auto simp: WriteFrames_index_def walIndexWriteHdr_def wal_refines_def Let_def same_wal_def index_inv_def env_ok_def)
qed

lemma step_undo:
  assumes "wal_refines w (ps, c)" "1 \<notin> set (drop c ps)" "\<forall>c pg. fst (xUndo c pg) = SQLITE_OK"
  shows "\<exists>w' u'. sqlite3WalUndo xUndo w u = Some (SQLITE_OK, w', u')
     \<and> wal_refines w' (log_step WUndo (ps, c)) \<and> nCkpt w' = nCkpt w \<and> readLock w' = readLock w"
proof -
  let ?w = "w\<lparr>hdr := shmHdr w\<rparr>"
  have R: "index_inv ?w ps" "mxFrame (hdr w) = length ps" "mxFrame (hdr ?w) = c" "c \<le> length ps" "env_ok ?w" "writeLock ?w"
    using assms(1) by (simp_all add: wal_refines_def)
  obtain u' where "walUndo_loop xUndo ?w (c + 1) (length ps) u = Some (SQLITE_OK, u')"
    using walUndo_loop_ok [OF R(1) refl assms(3), of "c + 1" u] assms(2) by auto
  moreover obtain w' where w': "walCleanupHash ?w = Some w'" "same_wal ?w w'" "index_inv w' (take c ps)"
    using walCleanupHash_ok [OF R(1), unfolded R(3), OF R(4,6)] by blast
  ultimately show ?thesis
    using R env_ok_same [OF R(5) w'(2)] by (auto simp: sqlite3WalUndo_def wal_refines_def same_wal_def)
qed

lemma step_savepoint:
  assumes "wal_refines w (ps, c)" "sv_nCkpt a = nCkpt w" "c \<le> sv_mxFrame a" "sv_mxFrame a \<le> length ps"
  shows "\<exists>w' a'. sqlite3WalSavepointUndo w a = Some (SQLITE_OK, w', a')
     \<and> wal_refines w' (log_step (WSavepointUndo a) (ps, c)) \<and> nCkpt w' = nCkpt w \<and> readLock w' = readLock w"
proof (cases "sv_mxFrame a < mxFrame (hdr w)")
  case True
  let ?w = "w\<lparr>hdr := (hdr w)\<lparr>mxFrame := sv_mxFrame a, aFrameCksum := sv_cksum a\<rparr>\<rparr>"
  have R: "index_inv ?w ps" "mxFrame (hdr ?w) = sv_mxFrame a" "mxFrame (shmHdr ?w) = c" "env_ok ?w" "writeLock ?w"
    using assms(1) by (simp_all add: wal_refines_def)
  obtain w' where w': "walCleanupHash ?w = Some w'" "same_wal ?w w'" "index_inv w' (take (sv_mxFrame a) ps)"
    using walCleanupHash_ok [OF R(1), unfolded R(2), OF assms(4) R(5)] by blast
  then show ?thesis
    using R assms True env_ok_same [OF R(4) w'(2)]
    by (auto simp: sqlite3WalSavepointUndo_def wal_refines_def same_wal_def)
next
  case False
  then show ?thesis using assms by (auto simp: sqlite3WalSavepointUndo_def wal_refines_def)
qed

lemma wal_run_refines:
  assumes "wal_refines w s" "log_ok (nCkpt w) ops s" "\<forall>c pg. fst (xUndo c pg) = SQLITE_OK"
  shows "\<exists>w' u'. wal_run xUndo PageSize ops (w, u) = Some (w', u') \<and> wal_refines w' (fold log_step ops s) \<and> readLock w' = readLock w"
  using assms(1,2)
proof (induction ops arbitrary: w s u)
  case (Cons op ops)
  obtain ps c where s: "s = (ps, c)" by fastforce
  show ?case
  proof (cases op)
    case (WWrite pgs nExtra nTruncate)
    then obtain w1 where "WriteFrames_index w PageSize pgs nExtra nTruncate (nTruncate \<noteq> 0) = Some (SQLITE_OK, w1)"
        "wal_refines w1 (log_step op s)" "nCkpt w1 = nCkpt w" "readLock w1 = readLock w"
      using step_write [of w ps c pgs PageSize nExtra nTruncate] Cons.prems s by auto
    then show ?thesis using Cons.IH [of w1 "log_step op s" u] Cons.prems(2) WWrite s by simp
  next
    case WUndo
    then obtain w1 u1 where "sqlite3WalUndo xUndo w u = Some (SQLITE_OK, w1, u1)"
        "wal_refines w1 (log_step op s)" "nCkpt w1 = nCkpt w" "readLock w1 = readLock w"
      using step_undo [of w ps c xUndo u] Cons.prems s assms(3) by auto
    then show ?thesis using Cons.IH [of w1 "log_step op s" u1] Cons.prems(2) WUndo s by simp
  next
    case (WSavepointUndo a)
    then obtain w1 a1 where "sqlite3WalSavepointUndo w a = Some (SQLITE_OK, w1, a1)"
        "wal_refines w1 (log_step op s)" "nCkpt w1 = nCkpt w" "readLock w1 = readLock w"
      using step_savepoint [of w ps c a] Cons.prems s by auto
    then show ?thesis using Cons.IH [of w1 "log_step op s" u] Cons.prems(2) WSavepointUndo s by simp
  qed
qed simp

section \<open>Properties\<close>

text \<open>A connection that has just opened an empty log, holds the write lock and reads the log.\<close>

definition fresh_wal :: "WalEnv \<Rightarrow> nat \<Rightarrow> Wal" where
  "fresh_wal env ck =
     (let h = \<lparr>iChange = 0, bigEndCksum = False, hPageSize = 0, mxFrame = 0, nPage = 0, aFrameCksum = (0, 0), aSalt = []\<rparr>
      in \<lparr>pDbFd = env, nWiData = 0, apWiData = (\<lambda>_. None), exclMode = WAL_NORMAL_MODE, writeLock = True,
          readLock = 1, shmReadOnly = False, hdr = h, shmHdr = h, nBackfill = 0, aReadMark = [0, 0, 0, 0, 0], nCkpt = ck, walPageSize = 0,
          truncateOnCommit = False, mxWalSize = - 1, iCallback = 0, ckptLock = False\<rparr>)"

lemma fresh_wal_refines: "env_ok (fresh_wal env ck) \<Longrightarrow> wal_refines (fresh_wal env ck) ([], 0)"
  by (simp add: wal_refines_def fresh_wal_def index_inv_def Let_def)

text \<open>
  C4. The wal-index answers from the log: after any sequence of frame writes (committing or not),
  transaction rollbacks and savepoint rollbacks, no assertion fails, no operation reports an error,
  and the search of \<open>sqlite3WalRead\<close> returns for every page number the last frame of the log that
  holds it, or 0 when there is none.
\<close>

theorem wal_lookup_correct:
  assumes "env_ok (fresh_wal env ck)" and "log_ok ck ops ([], 0)"
    and "\<forall>c pg. fst (xUndo c pg) = SQLITE_OK" and "pg > 0"
  shows "\<exists>w u'. wal_run xUndo PageSize ops (fresh_wal env ck, u) = Some (w, u')
     \<and> walRead_frame w pg = Some (SQLITE_OK, w, last_frame (fst (fold log_step ops ([], 0))) pg)"
proof -
  have "nCkpt (fresh_wal env ck) = ck" "readLock (fresh_wal env ck) = 1" by (simp_all add: fresh_wal_def Let_def)
  then obtain w u' where w: "wal_run xUndo PageSize ops (fresh_wal env ck, u) = Some (w, u')"
      "wal_refines w (fold log_step ops ([], 0))" "readLock w = 1"
    using wal_run_refines [OF fresh_wal_refines [OF assms(1)], of ops xUndo PageSize u] assms(2,3) by auto
  then have "walRead_frame w pg = Some (SQLITE_OK, w, last_frame (fst (fold log_step ops ([], 0))) pg)"
    using walRead_frame_ok [of w "fst (fold log_step ops ([], 0))" pg] assms(4) by (simp add: wal_refines_def)
  then show ?thesis using w by blast
qed

definition test_env :: WalEnv where
  "test_env = \<lparr>env_realloc = (\<lambda>_. True), env_malloc = (\<lambda>_. True), env_shm_map = (\<lambda>_. (SQLITE_OK, Some zero_page))\<rparr>"

lemma test_wal: "env_ok (fresh_wal test_env ck)" "wal_refines (fresh_wal test_env ck) ([], 0)"
proof -
  show "env_ok (fresh_wal test_env ck)" by (simp add: env_ok_def test_env_def fresh_wal_def Let_def)
  then show "wal_refines (fresh_wal test_env ck) ([], 0)" by (rule fresh_wal_refines)
qed

theorem wal_lookup_correct_witness:
  "\<exists>w u. wal_run (\<lambda>c pg. (SQLITE_OK, c + 1)) 1024 [WWrite [7, 9] 0 9, WWrite [7] 0 0, WUndo, WWrite [8, 9] 0 0] (fresh_wal test_env 3, 0 :: nat) = Some (w, u)
     \<and> walRead_frame w 9 = Some (SQLITE_OK, w, 4)"
proof -
  have l: "last_frame (fst (fold log_step [WWrite [7, 9] 0 9, WWrite [7] 0 0, WUndo, WWrite [8, 9] 0 0] ([], 0))) 9 = 4"
    by (simp add: last_frame_def numeral_eq_Suc)
  show ?thesis
    using wal_lookup_correct [OF test_wal(1) [of 3], of "[WWrite [7, 9] 0 9, WWrite [7] 0 0, WUndo, WWrite [8, 9] 0 0]" "\<lambda>(c::nat) pg. (SQLITE_OK, c + 1)" 9 1024 0]
    unfolding l by simp
qed

text \<open>
  C13. Snapshots: a reader whose copy of the header says \<open>mxFrame = k\<close> finds the last frame among the
  first \<open>k\<close>, however many frames a writer has indexed after them (committed or not).
\<close>

theorem wal_snapshot_read:
  assumes "env_ok (fresh_wal env ck)" and "log_ok ck ops ([], 0)"
    and "\<forall>c pg. fst (xUndo c pg) = SQLITE_OK" and "pg > 0"
    and "k \<le> length (fst (fold log_step ops ([], 0)))"
  shows "\<exists>w u'. wal_run xUndo PageSize ops (fresh_wal env ck, u) = Some (w, u')
     \<and> (let r = w\<lparr>hdr := (hdr w)\<lparr>mxFrame := k\<rparr>, writeLock := False\<rparr>
        in walRead_frame r pg = Some (SQLITE_OK, r, last_frame (take k (fst (fold log_step ops ([], 0)))) pg))"
proof -
  have "nCkpt (fresh_wal env ck) = ck" "readLock (fresh_wal env ck) = 1" by (simp_all add: fresh_wal_def Let_def)
  then obtain w u' where w: "wal_run xUndo PageSize ops (fresh_wal env ck, u) = Some (w, u')"
      "wal_refines w (fold log_step ops ([], 0))" "readLock w = 1"
    using wal_run_refines [OF fresh_wal_refines [OF assms(1)], of ops xUndo PageSize u] assms(2,3) by auto
  let ?r = "w\<lparr>hdr := (hdr w)\<lparr>mxFrame := k\<rparr>, writeLock := False\<rparr>"
  have "index_inv ?r (fst (fold log_step ops ([], 0)))" using w(2) by (simp add: wal_refines_def index_inv_def)
  then have "walRead_frame ?r pg = Some (SQLITE_OK, ?r, last_frame (take k (fst (fold log_step ops ([], 0)))) pg)"
    using walRead_frame_ok [of ?r "fst (fold log_step ops ([], 0))" pg] assms(4,5) w(3) by simp
  then show ?thesis using w(1) by (auto simp: Let_def)
qed

theorem wal_snapshot_read_witness:
  "\<exists>w u. wal_run (\<lambda>c pg. (SQLITE_OK, c + 1)) 1024 [WWrite [7, 9] 0 9, WWrite [8, 9] 0 0] (fresh_wal test_env 3, 0 :: nat) = Some (w, u)
     \<and> (let r = w\<lparr>hdr := (hdr w)\<lparr>mxFrame := 2\<rparr>, writeLock := False\<rparr> in walRead_frame r 9 = Some (SQLITE_OK, r, 2))"
proof -
  have l: "last_frame (take 2 (fst (fold log_step [WWrite [7, 9] 0 9, WWrite [8, 9] 0 0] ([], 0)))) 9 = 2"
    by (simp add: last_frame_def numeral_eq_Suc)
  show ?thesis
    using wal_snapshot_read [OF test_wal(1) [of 3], of "[WWrite [7, 9] 0 9, WWrite [8, 9] 0 0]" "\<lambda>(c::nat) pg. (SQLITE_OK, c + 1)" 9 2 1024 0]
    unfolding l by simp
qed

text \<open>
  C22. Crash recovery of the index: when the index still holds frames \<open>ps\<close> beyond the header's
  \<open>mxFrame\<close> (a writer died inside a transaction), the next append drops them, and the index then
  holds exactly the first \<open>mxFrame\<close> frames and the new one.
\<close>

theorem wal_append_after_crash:
  assumes "env_ok w" and "index_inv w ps" and "mxFrame (hdr w) \<le> length ps" and "writeLock w" and "pg > 0"
  shows "\<exists>w'. walIndexAppend w (mxFrame (hdr w) + 1) pg = Some (SQLITE_OK, w')
     \<and> index_inv w' (take (mxFrame (hdr w)) ps @ [pg])"
  using walIndexAppend_insert [OF assms(1,2,3,5)] assms(4) by (metis Suc_eq_plus1)

theorem wal_append_after_crash_witness:
  "\<exists>w w'. walIndexAppend w 1 8 = Some (SQLITE_OK, w') \<and> index_inv w' [8]"
proof -
  obtain w where w: "walIndexAppend (fresh_wal test_env 3) 1 7 = Some (SQLITE_OK, w)" "index_inv w [7]" "same_wal (fresh_wal test_env 3) w"
    using walIndexAppend_insert [of "fresh_wal test_env 3" "[]" 0 7] test_wal unfolding wal_refines_def by auto
  then have "mxFrame (hdr w) = 0" "writeLock w" "env_ok w"
    using test_wal env_ok_same [OF _ w(3)] unfolding wal_refines_def same_wal_def by auto
  then show ?thesis using wal_append_after_crash [of w "[7]" 8] w(2) by auto
qed

end
