(* ===== verification/WalFrame.thy ===== *)
theory WalFrame
  imports WalIndex Buffer
begin

text \<open>
  Checksums, frame headers and recovery of the write-ahead log (src/wal.go). The byte order of the
  machine is the parameter \<open>SQLITE_BIGENDIAN\<close>; \<open>word_at\<close> is a read through a \<open>uint32\<close> pointer.
  The array \<open>aFrameCksum\<close> of the header is updated in place through the pointer \<open>aCksum\<close>.
\<close>

section \<open>Checksums\<close>

definition BYTESWAP32 :: "uint32 \<Rightarrow> uint32" where
  "BYTESWAP32 x = push_bit 24 (x AND 0x000000FF) + push_bit 8 (x AND 0x0000FF00)
     + drop_bit 8 (x AND 0x00FF0000) + drop_bit 24 (x AND 0xFF000000)"

definition word_be :: "byte \<Rightarrow> byte \<Rightarrow> byte \<Rightarrow> byte \<Rightarrow> uint32" where
  "word_be a b c d = push_bit 24 (ucast a) OR push_bit 16 (ucast b) OR push_bit 8 (ucast c) OR ucast d"

definition word_at :: "bool \<Rightarrow> byte \<Rightarrow> byte \<Rightarrow> byte \<Rightarrow> byte \<Rightarrow> uint32" where
  "word_at SQLITE_BIGENDIAN a b c d = (if SQLITE_BIGENDIAN then word_be a b c d else word_be d c b a)"

text \<open>The two \<open>do\<close> loops of \<open>walChecksumBytes\<close>, eight bytes at a time.\<close>

fun walChecksum_loop :: "bool \<Rightarrow> bool \<Rightarrow> byte list \<Rightarrow> uint32 \<times> uint32 \<Rightarrow> uint32 \<times> uint32" where
  "walChecksum_loop big native (a # b # c # d # e # f # g # h # bs) (s1, s2) =
     (let x = word_at big a b c d; y = word_at big e f g h;
          x = (if native then x else BYTESWAP32 x); y = (if native then y else BYTESWAP32 y);
          s1 = s1 + (x + s2); s2 = s2 + (y + s1)
      in walChecksum_loop big native bs (s1, s2))"
| "walChecksum_loop big native _ s = s"

text \<open>\<open>aIn\<close> is \<^term>\<open>None\<close> for a null pointer.\<close>

definition walChecksumBytes :: "bool \<Rightarrow> bool \<Rightarrow> byte list \<Rightarrow> (uint32 \<times> uint32) option \<Rightarrow> (uint32 \<times> uint32) option" where
  "walChecksumBytes big nativeCksum a aIn =
     (let s = (case aIn of Some s \<Rightarrow> s | None \<Rightarrow> (0, 0)) in do {
        assertion (length a \<ge> 8);
        assertion (length a mod 8 = 0);
        Some (walChecksum_loop big nativeCksum a s)
      })"

section \<open>Frames\<close>

definition WAL_FRAME_HDRSIZE :: nat where "WAL_FRAME_HDRSIZE = 24"

text \<open>A four-byte buffer with \<open>v\<close> written into it.\<close>

definition bytes32 :: "uint32 \<Rightarrow> byte list" where
  "bytes32 v = the (WriteUint32 [0, 0, 0, 0] v)"

text \<open>
  \<open>walEncodeFrame\<close>: the result is the frame header and the checksum that \<open>pWal.hdr.aFrameCksum\<close> holds
  afterwards.
\<close>

definition walEncodeFrame :: "bool \<Rightarrow> WalIndexHdr \<Rightarrow> uint32 \<Rightarrow> uint32 \<Rightarrow> byte list \<Rightarrow> (byte list \<times> (uint32 \<times> uint32)) option" where
  "walEncodeFrame big h iPage nTruncate aData = do {
     assertion (length (aSalt h) \<ge> 8);
     let aFrame = bytes32 iPage @ bytes32 nTruncate @ take 8 (aSalt h);
     let nativeCksum = (bigEndCksum h = big);
     aCksum \<leftarrow> walChecksumBytes big nativeCksum (take 8 aFrame) (Some (aFrameCksum h));
     aCksum \<leftarrow> walChecksumBytes big nativeCksum aData (Some aCksum);
     Some (aFrame @ bytes32 (fst aCksum) @ bytes32 (snd aCksum), aCksum)
   }"

text \<open>
  \<open>walDecodeFrame\<close>: page number and database size when the frame is valid, and the checksum that
  \<open>pWal.hdr.aFrameCksum\<close> holds afterwards.
\<close>

definition walDecodeFrame :: "bool \<Rightarrow> WalIndexHdr \<Rightarrow> byte list \<Rightarrow> byte list \<Rightarrow> ((uint32 \<times> uint32) option \<times> (uint32 \<times> uint32)) option" where
  "walDecodeFrame big h aData aFrame = do {
     assertion (length aFrame \<ge> WAL_FRAME_HDRSIZE);
     if take 8 (aSalt h) \<noteq> take 8 (drop 8 aFrame) then Some (None, aFrameCksum h)
     else do {
       pgno \<leftarrow> ReadUint32 aFrame;
       if pgno = 0 then Some (None, aFrameCksum h)
       else do {
         let nativeCksum = (bigEndCksum h = big);
         aCksum \<leftarrow> walChecksumBytes big nativeCksum (take 8 aFrame) (Some (aFrameCksum h));
         aCksum \<leftarrow> walChecksumBytes big nativeCksum aData (Some aCksum);
         c0 \<leftarrow> ReadUint32 (drop 16 aFrame);
         c1 \<leftarrow> ReadUint32 (drop 20 aFrame);
         if fst aCksum \<noteq> c0 \<or> snd aCksum \<noteq> c1 then Some (None, aCksum)
         else do {
           nTruncate \<leftarrow> ReadUint32 (drop 4 aFrame);
           Some (Some (pgno, nTruncate), aCksum)
         }
       }
     }
   }"

section \<open>The checksum does not depend on the machine\<close>

text \<open>The checksum over words in the byte order \<open>be\<close>.\<close>

fun checksum :: "bool \<Rightarrow> byte list \<Rightarrow> uint32 \<times> uint32 \<Rightarrow> uint32 \<times> uint32" where
  "checksum be (a # b # c # d # e # f # g # h # bs) (s1, s2) =
     (let s1' = s1 + word_at be a b c d + s2 in checksum be bs (s1', s2 + word_at be e f g h + s1'))"
| "checksum be _ s = s"

lemma mask_bytes:
  "x AND 0x000000FF = (x AND mask 8 :: uint32)" "x AND 0x0000FF00 = (x AND push_bit 8 (mask 8))"
  "x AND 0x00FF0000 = (x AND push_bit 16 (mask 8))" "x AND 0xFF000000 = (x AND push_bit 24 (mask 8))"
  by (simp_all add: mask_eq_exp_minus_1 push_bit_eq_mult)

lemma BYTESWAP32_word: "BYTESWAP32 (word_be a b c d) = word_be d c b a"
proof -
  let ?x = "word_be a b c d"
  have 1: "push_bit 24 (?x AND 0x000000FF) = push_bit 24 (ucast d)" "push_bit 8 (?x AND 0x0000FF00) = push_bit 16 (ucast c)"
    "drop_bit 8 (?x AND 0x00FF0000) = push_bit 8 (ucast b)" "drop_bit 24 (?x AND 0xFF000000) = ucast a"
    unfolding mask_bytes word_be_def
    by (rule bit_word_eqI; auto simp: bit_simps dest: bit_imp_le_length)+
  have o: "push_bit 24 (ucast d) + push_bit 16 (ucast c) + push_bit 8 (ucast b) + ucast a
     = push_bit 24 (ucast d) OR push_bit 16 (ucast c) OR push_bit 8 (ucast b) OR (ucast a :: uint32)"
  proof -
    have "push_bit 24 (ucast d) + push_bit 16 (ucast c) = push_bit 24 (ucast d) OR (push_bit 16 (ucast c) :: uint32)"
      by (rule disjunctive_add) (auto simp: bit_simps dest: bit_imp_le_length)
    moreover have "(push_bit 24 (ucast d) OR push_bit 16 (ucast c)) + push_bit 8 (ucast b)
        = (push_bit 24 (ucast d) OR push_bit 16 (ucast c)) OR (push_bit 8 (ucast b) :: uint32)"
      by (rule disjunctive_add) (auto simp: bit_simps dest: bit_imp_le_length)
    moreover have "((push_bit 24 (ucast d) OR push_bit 16 (ucast c)) OR push_bit 8 (ucast b)) + ucast a
        = ((push_bit 24 (ucast d) OR push_bit 16 (ucast c)) OR push_bit 8 (ucast b)) OR (ucast a :: uint32)"
      by (rule disjunctive_add) (auto simp: bit_simps dest: bit_imp_le_length)
    ultimately show ?thesis by (simp only: or.assoc)
  qed
  show ?thesis unfolding BYTESWAP32_def 1 o by (simp add: word_be_def)
qed

lemma walChecksum_loop_eq: "walChecksum_loop big (be = big) bs s = checksum be bs s"
proof (induction be bs s rule: checksum.induct)
  case (1 be a b c d e f g h bs s1 s2)
  have "(if be = big then word_at big a b c d else BYTESWAP32 (word_at big a b c d)) = word_at be a b c d" for a b c d
    by (cases be; cases big) (simp_all add: word_at_def BYTESWAP32_word)
  then show ?case using 1 by (simp add: Let_def add.assoc)
qed auto

lemma walChecksumBytes_eq:
  "length a \<ge> 8 \<Longrightarrow> length a mod 8 = 0 \<Longrightarrow>
   walChecksumBytes big (be = big) a (Some s) = Some (checksum be a s)"
  by (simp add: walChecksumBytes_def walChecksum_loop_eq)

section \<open>Encoding and decoding\<close>

lemma bytes32_eq: "bytes32 v = [ucast (drop_bit 24 v), ucast (drop_bit 16 v), ucast (drop_bit 8 v), ucast v]"
  by (simp add: bytes32_def WriteUint32_def)

lemma length_bytes32 [simp]: "length (bytes32 v) = 4"
  by (simp add: bytes32_eq)

lemma ReadUint32_bytes32 [simp]: "ReadUint32 (bytes32 v @ r) = Some v"
  by (simp add: bytes32_eq ReadUint32_def uint32_round)

lemma ReadUint32_SomeD: "ReadUint32 b = Some v \<Longrightarrow> b = bytes32 v @ drop 4 b"
proof -
  assume r: "ReadUint32 b = Some v"
  then have "length b \<ge> 4" by (simp add: ReadUint32_def)
  then obtain b0 b1 b2 b3 r where b: "b = b0 # b1 # b2 # b3 # r" by (auto simp: numeral_eq_Suc Suc_le_length_iff)
  then show ?thesis using r uint32_bytes [of b0 b1 b2 b3] by (auto simp: ReadUint32_def bytes32_eq)
qed

text \<open>The checksum of a frame, and the header it is stored in.\<close>

definition frame_cksum :: "WalIndexHdr \<Rightarrow> uint32 \<Rightarrow> uint32 \<Rightarrow> byte list \<Rightarrow> uint32 \<times> uint32" where
  "frame_cksum h iPage nTruncate aData =
     checksum (bigEndCksum h) aData (checksum (bigEndCksum h) (bytes32 iPage @ bytes32 nTruncate) (aFrameCksum h))"

definition frame_bytes :: "WalIndexHdr \<Rightarrow> uint32 \<Rightarrow> uint32 \<Rightarrow> byte list \<Rightarrow> byte list" where
  "frame_bytes h iPage nTruncate aData =
     bytes32 iPage @ bytes32 nTruncate @ take 8 (aSalt h)
     @ bytes32 (fst (frame_cksum h iPage nTruncate aData)) @ bytes32 (snd (frame_cksum h iPage nTruncate aData))"

definition page_data :: "byte list \<Rightarrow> bool" where
  "page_data aData \<longleftrightarrow> length aData \<ge> 8 \<and> length aData mod 8 = 0"

lemma walEncodeFrame_eq:
  assumes "length (aSalt h) = 8" "page_data aData"
  shows "walEncodeFrame big h iPage nTruncate aData
     = Some (frame_bytes h iPage nTruncate aData, frame_cksum h iPage nTruncate aData)"
proof -
  have t: "take 8 (bytes32 iPage @ bytes32 nTruncate @ x) = bytes32 iPage @ bytes32 nTruncate" for x by simp
  have c: "walChecksumBytes big (bigEndCksum h = big) (bytes32 iPage @ bytes32 nTruncate) (Some (aFrameCksum h))
      = Some (checksum (bigEndCksum h) (bytes32 iPage @ bytes32 nTruncate) (aFrameCksum h))"
    by (rule walChecksumBytes_eq) simp_all
  show ?thesis
    unfolding walEncodeFrame_def Let_def t c Option.bind.simps
    using assms by (simp add: page_data_def walChecksumBytes_eq frame_bytes_def frame_cksum_def)
qed

lemma length_frame_bytes: "length (aSalt h) = 8 \<Longrightarrow> length (frame_bytes h iPage nTruncate aData) = 24"
  by (simp add: frame_bytes_def)

lemma bytes32_surj: "length b = 4 \<Longrightarrow> \<exists>v. b = bytes32 v"
proof -
  assume l: "length b = 4"
  then obtain v where "ReadUint32 b = Some v" by (simp add: ReadUint32_def)
  then have "b = bytes32 v @ drop 4 b" by (rule ReadUint32_SomeD)
  moreover have "drop 4 b = []" using l by simp
  ultimately show ?thesis by (metis append_Nil2)
qed

lemma bytes32_inj [simp]: "bytes32 u = bytes32 v \<longleftrightarrow> u = v"
  by (metis ReadUint32_bytes32 option.inject)

lemma split_length: "n \<le> length xs \<Longrightarrow> \<exists>a b. xs = a @ b \<and> length a = n"
  by (metis append_take_drop_id length_take min.absorb2)

text \<open>Every 24 bytes are a header with some fields.\<close>

lemma frame_fields:
  assumes "length aFrame = 24"
  obtains p t s c0 c1 where "aFrame = bytes32 p @ bytes32 t @ s @ bytes32 c0 @ bytes32 c1" "length s = 8"
proof -
  obtain x1 r1 where 1: "aFrame = x1 @ r1" "length x1 = 4" using split_length [of 4 aFrame] assms by auto
  obtain x2 r2 where 2: "r1 = x2 @ r2" "length x2 = 4" using split_length [of 4 r1] assms 1 by auto
  obtain s r3 where 3: "r2 = s @ r3" "length s = 8" using split_length [of 8 r2] assms 1 2 by auto
  obtain x3 x4 where 4: "r3 = x3 @ x4" "length x3 = 4" using split_length [of 4 r3] assms 1 2 3 by auto
  have "length x4 = 4" using assms 1 2 3 4 by simp
  then show ?thesis using that 1 2 3 4 bytes32_surj by metis
qed

text \<open>A header decodes exactly when it is the encoding of its page number and size.\<close>

lemma walDecodeFrame_fields:
  assumes "length (aSalt h) = 8" "page_data aData" "length s = 8"
  shows "walDecodeFrame big h aData (bytes32 p @ bytes32 t @ s @ bytes32 c0 @ bytes32 c1) =
     Some (if aSalt h \<noteq> s \<or> p = 0 then (None, aFrameCksum h)
           else (if frame_cksum h p t aData = (c0, c1) then Some (p, t) else None, frame_cksum h p t aData))"
proof -
  let ?F = "bytes32 p @ bytes32 t @ s @ bytes32 c0 @ bytes32 c1"
  have t: "take 8 ?F = bytes32 p @ bytes32 t" "take 8 (drop 8 ?F) = s" "drop 4 ?F = bytes32 t @ s @ bytes32 c0 @ bytes32 c1"
      "drop 16 ?F = bytes32 c0 @ bytes32 c1" "drop 20 ?F = bytes32 c1 @ []" "take 8 (aSalt h) = aSalt h" "length ?F \<ge> WAL_FRAME_HDRSIZE"
    using assms by (simp_all add: WAL_FRAME_HDRSIZE_def)
  have c: "walChecksumBytes big (bigEndCksum h = big) (bytes32 p @ bytes32 t) (Some (aFrameCksum h))
      = Some (checksum (bigEndCksum h) (bytes32 p @ bytes32 t) (aFrameCksum h))"
    by (rule walChecksumBytes_eq) simp_all
  have d: "walChecksumBytes big (bigEndCksum h = big) aData (Some x) = Some (checksum (bigEndCksum h) aData x)" for x
    using assms(2) by (intro walChecksumBytes_eq) (simp_all add: page_data_def)
  show ?thesis
    unfolding walDecodeFrame_def Let_def t c d ReadUint32_bytes32 Option.bind.simps frame_cksum_def [symmetric]
    using t(7) by (auto simp: prod_eq_iff)
qed

lemma walDecodeFrame_iff:
  assumes "length (aSalt h) = 8" "page_data aData" "length aFrame = 24"
  shows "walDecodeFrame big h aData aFrame = Some (Some (pgno, nTruncate), c) \<longleftrightarrow>
    pgno \<noteq> 0 \<and> aFrame = frame_bytes h pgno nTruncate aData \<and> c = frame_cksum h pgno nTruncate aData"
proof -
  obtain p t s c0 c1 where F: "aFrame = bytes32 p @ bytes32 t @ s @ bytes32 c0 @ bytes32 c1" "length s = 8"
    using frame_fields [OF assms(3)] by metis
  have "aFrame = frame_bytes h pgno nTruncate aData \<longleftrightarrow>
      p = pgno \<and> t = nTruncate \<and> s = aSalt h \<and> (c0, c1) = frame_cksum h pgno nTruncate aData"
    unfolding F(1) frame_bytes_def using assms(1) F(2) by (auto simp: prod_eq_iff)
  then show ?thesis unfolding F(1) walDecodeFrame_fields [OF assms(1,2) F(2)] by auto
qed

end
