(* ===== verification/WalLog.thy ===== *)
theory WalLog
  imports WalFrame
begin

text \<open>
  The log file of src/wal.go: writing frames (\<open>WriteFrames\<close>) and rebuilding the wal-index from the
  file (\<open>walIndexRecover\<close>). A file is the list of its bytes. The results of system calls are
  parameters: \<open>io off\<close> is the result code of a read or write at offset \<open>off\<close>, \<open>sync\<close> that of an
  fsync.
\<close>

definition WAL_HDRSIZE :: nat where "WAL_HDRSIZE = 32"
definition WAL_MAGIC :: uint32 where "WAL_MAGIC = 0x377f0682"
definition WAL_MAX_VERSION :: uint32 where "WAL_MAX_VERSION = 3007000"
definition SQLITE_MAX_PAGE_SIZE :: nat where "SQLITE_MAX_PAGE_SIZE = 65536"
definition READMARK_NOT_USED :: nat where "READMARK_NOT_USED = 0xffffffff"
definition WAL_NREADER :: nat where "WAL_NREADER = 5"

definition walFrameOffset :: "nat \<Rightarrow> nat \<Rightarrow> nat" where
  "walFrameOffset iFrame PageSize = WAL_HDRSIZE + (iFrame - 1) * (PageSize + WAL_FRAME_HDRSIZE)"

section \<open>Recovery\<close>

definition zero_hdr :: WalIndexHdr where
  "zero_hdr = \<lparr>iChange = 0, bigEndCksum = False, hPageSize = 0, mxFrame = 0, nPage = 0, aFrameCksum = (0, 0), aSalt = replicate 8 0\<rparr>"

text \<open>
  The loop over the frames. \<open>bytes\<close> is the rest of the file from the current offset on, \<open>saved\<close> the
  variable \<open>aFrameCksum\<close>, the checksum at the last commit.
\<close>

function walIndexRecover_loop ::
  "bool \<Rightarrow> (nat \<Rightarrow> rc) \<Rightarrow> nat \<Rightarrow> byte list \<Rightarrow> nat \<Rightarrow> Wal \<Rightarrow> uint32 \<times> uint32 \<Rightarrow> (rc \<times> Wal \<times> (uint32 \<times> uint32)) option" where
  "walIndexRecover_loop big io PageSize bytes iFrame w saved =
     (if PageSize + WAL_FRAME_HDRSIZE \<le> length bytes then
        let iFrame = iFrame + 1; rc = io (walFrameOffset iFrame PageSize) in
        if rc \<noteq> SQLITE_OK then Some (rc, w, saved)
        else do {
          let aFrame = take WAL_FRAME_HDRSIZE bytes;
          let aData = take PageSize (drop WAL_FRAME_HDRSIZE bytes);
          (valid, ck) \<leftarrow> walDecodeFrame big (hdr w) aData aFrame;
          let w = w\<lparr>hdr := (hdr w)\<lparr>aFrameCksum := ck\<rparr>\<rparr>;
          (case valid of
             None \<Rightarrow> Some (SQLITE_OK, w, saved)
           | Some (pgno, nTruncate) \<Rightarrow> do {
               (rc, w) \<leftarrow> walIndexAppend w iFrame (unat pgno);
               if rc \<noteq> SQLITE_OK then Some (rc, w, saved)
               else if nTruncate \<noteq> 0 then
                 walIndexRecover_loop big io PageSize (drop (PageSize + WAL_FRAME_HDRSIZE) bytes) iFrame
                   (w\<lparr>hdr := (hdr w)\<lparr>mxFrame := iFrame, nPage := unat nTruncate,
                        hPageSize := (PageSize AND 0xff00) OR drop_bit 16 PageSize\<rparr>\<rparr>)
                   (aFrameCksum (hdr w))
               else
                 walIndexRecover_loop big io PageSize (drop (PageSize + WAL_FRAME_HDRSIZE) bytes) iFrame w saved
             })
        }
      else Some (SQLITE_OK, w, saved))"
  by pat_completeness auto

termination walIndexRecover_loop
  by (relation "measure (\<lambda>(big, io, PageSize, bytes, iFrame, w, saved). length bytes)") (auto simp: WAL_FRAME_HDRSIZE_def)

declare walIndexRecover_loop.simps [simp del]

text \<open>The part of \<open>walIndexRecover\<close> between the locks and the label \<open>finished\<close>; \<open>mem\<close> tells whether the frame buffer can be allocated. The
  query for the size of the file succeeds.\<close>

definition walIndexRecover_read ::
  "bool \<Rightarrow> (nat \<Rightarrow> rc) \<Rightarrow> bool \<Rightarrow> byte list \<Rightarrow> Wal \<Rightarrow> (rc \<times> Wal \<times> (uint32 \<times> uint32)) option" where
  "walIndexRecover_read big io mem file w =
     (if length file \<le> WAL_HDRSIZE then Some (SQLITE_OK, w, (0, 0))
      else if io 0 \<noteq> SQLITE_OK then Some (io 0, w, (0, 0))
      else do {
        let aBuf = take WAL_HDRSIZE file;
        magic \<leftarrow> ReadUint32 aBuf;
        PageSize32 \<leftarrow> ReadUint32 (drop 8 aBuf);
        let PageSize = unat PageSize32;
        if (magic AND 0xFFFFFFFE) \<noteq> WAL_MAGIC \<or> PageSize32 AND (PageSize32 - 1) \<noteq> 0
           \<or> PageSize > SQLITE_MAX_PAGE_SIZE \<or> PageSize < 512
        then Some (SQLITE_OK, w, (0, 0))
        else do {
          ckpt \<leftarrow> ReadUint32 (drop 12 aBuf);
          let h = (hdr w)\<lparr>bigEndCksum := (magic AND 1 \<noteq> 0), aSalt := take 8 (drop 16 aBuf)\<rparr>;
          ck \<leftarrow> walChecksumBytes big (bigEndCksum h = big) (take (WAL_HDRSIZE - 8) aBuf) None;
          let w = w\<lparr>walPageSize := PageSize, nCkpt := unat ckpt, hdr := h\<lparr>aFrameCksum := ck\<rparr>\<rparr>;
          c0 \<leftarrow> ReadUint32 (drop 24 aBuf);
          c1 \<leftarrow> ReadUint32 (drop 28 aBuf);
          if fst ck \<noteq> c0 \<or> snd ck \<noteq> c1 then Some (SQLITE_OK, w, (0, 0))
          else do {
            version \<leftarrow> ReadUint32 (drop 4 aBuf);
            if version \<noteq> WAL_MAX_VERSION then Some (SQLITE_CANTOPEN, w, (0, 0))
            else if \<not> mem then Some (SQLITE_NOMEM, w, (0, 0))
            else walIndexRecover_loop big io PageSize (drop WAL_HDRSIZE file) 0 w (0, 0)
          }
        }
      })"

text \<open>\<open>lockrc\<close> is the result of locking the other connections out.\<close>

definition walIndexRecover :: "bool \<Rightarrow> rc \<Rightarrow> (nat \<Rightarrow> rc) \<Rightarrow> bool \<Rightarrow> byte list \<Rightarrow> Wal \<Rightarrow> (rc \<times> Wal) option" where
  "walIndexRecover big lockrc io mem file w = do {
     assertion (writeLock w);
     if lockrc \<noteq> SQLITE_OK then Some (lockrc, w)
     else do {
       (rc, w, saved) \<leftarrow> walIndexRecover_read big io mem file (w\<lparr>hdr := zero_hdr\<rparr>);
       if rc = SQLITE_OK then do {
         let w = w\<lparr>hdr := (hdr w)\<lparr>aFrameCksum := saved\<rparr>\<rparr>;
         w \<leftarrow> walIndexWriteHdr w;
         Some (rc, w\<lparr>nBackfill := 0, aReadMark := 0 # replicate (WAL_NREADER - 1) READMARK_NOT_USED\<rparr>)
       } else Some (rc, w)
     }
   }"

section \<open>Reading a page\<close>

text \<open>The page size from the 16 bits of the header (\<open>walPagesize\<close>).\<close>

definition walPagesize :: "Wal \<Rightarrow> nat" where
  "walPagesize w = (hPageSize (hdr w) AND 0xfe00) + push_bit 16 (hPageSize (hdr w) AND 1)"

text \<open>\<open>sqlite3OsRead\<close>: a read past the end of the file is filled with zeros and reported as short.\<close>

definition osRead :: "(nat \<Rightarrow> rc) \<Rightarrow> byte list \<Rightarrow> nat \<Rightarrow> nat \<Rightarrow> rc \<times> byte list" where
  "osRead io file n off =
     (if io off \<noteq> SQLITE_OK then (io off, [])
      else let d = take n (drop off file) in
           (if length d = n then SQLITE_OK else SQLITE_IOERR_SHORT_READ, d @ replicate (n - length d) 0))"

text \<open>\<open>sqlite3WalRead\<close>: the content of the page, or \<^term>\<open>None\<close> when the page is not in the log (\<open>*pInWal = 0\<close>).\<close>

definition sqlite3WalRead :: "(nat \<Rightarrow> rc) \<Rightarrow> byte list \<Rightarrow> Wal \<Rightarrow> nat \<Rightarrow> nat \<Rightarrow> (rc \<times> Wal \<times> byte list option) option" where
  "sqlite3WalRead io file w pgno nOut = do {
     (rc, w, iRead) \<leftarrow> walRead_frame w pgno;
     if rc \<noteq> SQLITE_OK then Some (rc, w, None)
     else if iRead \<noteq> 0 then
       let sz = walPagesize w;
           (rc, d) = osRead io file (if nOut > sz then sz else nOut) (walFrameOffset iRead sz + WAL_FRAME_HDRSIZE)
       in Some (rc, w, Some d)
     else Some (SQLITE_OK, w, None)
   }"

section \<open>Writing\<close>

text \<open>A write into a file: the gap up to \<open>off\<close> is filled with zeros; writing no bytes changes nothing.\<close>

definition osWrite :: "byte list \<Rightarrow> byte list \<Rightarrow> nat \<Rightarrow> byte list" where
  "osWrite file bs off =
     (if bs = [] then file else take off (file @ replicate (off - length file) 0) @ bs @ drop (off + length bs) file)"

text \<open>
  What the log gets from its surroundings: byte order, results of reads and writes at an offset, of a
  sync, of a truncation; sector size, random bytes, the codec; the settings \<open>sync_flags\<close> (whether it is
  non-zero, has \<open>SQLITE_SYNC_NORMAL | SQLITE_SYNC_FULL\<close>, has \<open>WAL_SYNC_TRANSACTIONS\<close>),
  \<open>padToSectorBoundary\<close> and \<open>syncHeader\<close>; and what the lock manager answers, by the number of the
  attempt and the lock.
\<close>

record WalIo =
  io_big :: bool
  io_rc :: "nat \<Rightarrow> rc"
  io_sync :: rc
  io_sector :: nat
  io_rand :: "byte list"
  io_codec :: "nat \<times> byte list \<Rightarrow> byte list option"
  io_truncate :: bool
  io_sync_flags :: bool
  io_sync_level :: bool
  io_sync_tx :: bool
  io_pad :: bool
  io_sync_header :: bool
  io_lockShared :: "nat \<Rightarrow> nat \<Rightarrow> rc"
  io_lockExclusive :: "nat \<Rightarrow> nat \<Rightarrow> nat \<Rightarrow> rc"

text \<open>\<open>walWriteToLog\<close>: a write that crosses \<open>iSyncPoint\<close> is split there and the file is synced in between.\<close>

definition walWriteToLog :: "WalIo \<Rightarrow> nat \<Rightarrow> byte list \<Rightarrow> byte list \<Rightarrow> nat \<Rightarrow> (rc \<times> byte list) option" where
  "walWriteToLog io iSyncPoint file pContent iOffset =
     (if iOffset < iSyncPoint \<and> iOffset + length pContent \<ge> iSyncPoint then
        let iFirstAmt = iSyncPoint - iOffset in
        if io_rc io iOffset \<noteq> SQLITE_OK then Some (io_rc io iOffset, file)
        else do {
          let file = osWrite file (take iFirstAmt pContent) iOffset;
          let iOffset = iOffset + iFirstAmt;
          let rest = drop iFirstAmt pContent;
          assertion (io_sync_level io);
          if rest = [] \<or> io_sync io \<noteq> SQLITE_OK then Some (io_sync io, file)
          else if io_rc io iOffset \<noteq> SQLITE_OK then Some (io_rc io iOffset, file)
          else Some (SQLITE_OK, osWrite file rest iOffset)
        }
      else if io_rc io iOffset \<noteq> SQLITE_OK then Some (io_rc io iOffset, file)
      else Some (SQLITE_OK, osWrite file pContent iOffset))"

text \<open>A dirty page is its number and its content.\<close>

definition walWriteOneFrame ::
  "WalIo \<Rightarrow> nat \<Rightarrow> byte list \<times> Wal \<Rightarrow> nat \<times> byte list \<Rightarrow> nat \<Rightarrow> nat \<Rightarrow> (rc \<times> byte list \<times> Wal) option" where
  "walWriteOneFrame io iSyncPoint s pPage nTruncate iOffset =
     (let (file, w) = s in
      case io_codec io pPage of
        None \<Rightarrow> Some (SQLITE_NOMEM, file, w)
      | Some pData \<Rightarrow> do {
          (aFrame, ck) \<leftarrow> walEncodeFrame (io_big io) (hdr w) (word_of_nat (fst pPage)) (word_of_nat nTruncate) pData;
          let w = w\<lparr>hdr := (hdr w)\<lparr>aFrameCksum := ck\<rparr>\<rparr>;
          (rc, file) \<leftarrow> walWriteToLog io iSyncPoint file aFrame iOffset;
          if rc \<noteq> SQLITE_OK then Some (rc, file, w)
          else do {
            (rc, file) \<leftarrow> walWriteToLog io iSyncPoint file pData (iOffset + length aFrame);
            Some (rc, file, w)
          }
        })"

text \<open>The first loop of \<open>WriteFrames\<close>, over the list of dirty pages.\<close>

fun WriteFrames_loop ::
  "WalIo \<Rightarrow> nat \<Rightarrow> nat \<Rightarrow> bool \<Rightarrow> byte list \<times> Wal \<Rightarrow> (nat \<times> byte list) list \<Rightarrow> nat \<Rightarrow> nat
   \<Rightarrow> (rc \<times> byte list \<times> Wal \<times> nat \<times> nat) option" where
  "WriteFrames_loop io PageSize nTruncate isCommit (file, w) [] iFrame iOffset = Some (SQLITE_OK, file, w, iFrame, iOffset)"
| "WriteFrames_loop io PageSize nTruncate isCommit s (p # ps) iFrame iOffset = do {
     let iFrame = iFrame + 1;
     assertion (iOffset = walFrameOffset iFrame PageSize);
     let nDbSize = (if isCommit \<and> ps = [] then nTruncate else 0);
     (rc, file, w) \<leftarrow> walWriteOneFrame io 0 s p nDbSize iOffset;
     if rc \<noteq> SQLITE_OK then Some (rc, file, w, iFrame, iOffset)
     else WriteFrames_loop io PageSize nTruncate isCommit (file, w) ps iFrame (iOffset + PageSize + WAL_FRAME_HDRSIZE)
   }"

text \<open>The WAL header of an empty log.\<close>

definition wal_header :: "bool \<Rightarrow> nat \<Rightarrow> nat \<Rightarrow> byte list \<Rightarrow> (byte list \<times> (uint32 \<times> uint32)) option" where
  "wal_header big PageSize ckpt salt = do {
     let a = bytes32 (WAL_MAGIC OR (if big then 1 else 0)) @ bytes32 WAL_MAX_VERSION @ bytes32 (word_of_nat PageSize) @ bytes32 (word_of_nat ckpt)
             @ take 8 salt;
     ck \<leftarrow> walChecksumBytes big True (take (WAL_HDRSIZE - 8) a) None;
     Some (a @ bytes32 (fst ck) @ bytes32 (snd ck), ck)
   }"

text \<open>The padding loop: the last frame is repeated up to the sector boundary.\<close>

function WriteFrames_pad ::
  "WalIo \<Rightarrow> nat \<Rightarrow> nat \<Rightarrow> nat \<Rightarrow> byte list \<times> Wal \<Rightarrow> nat \<times> byte list \<Rightarrow> nat \<Rightarrow> nat \<Rightarrow> (rc \<times> byte list \<times> Wal \<times> nat) option" where
  "WriteFrames_pad io PageSize nTruncate iSyncPoint s pLast iOffset nExtra =
     (if iOffset < iSyncPoint then do {
        (rc, file, w) \<leftarrow> walWriteOneFrame io iSyncPoint s pLast nTruncate iOffset;
        if rc \<noteq> SQLITE_OK then Some (rc, file, w, nExtra)
        else WriteFrames_pad io PageSize nTruncate iSyncPoint (file, w) pLast (iOffset + (PageSize + WAL_FRAME_HDRSIZE)) (nExtra + 1)
      } else Some (SQLITE_OK, fst s, snd s, nExtra))"
  by pat_completeness auto

termination WriteFrames_pad
  by (relation "measure (\<lambda>(io, PageSize, nTruncate, iSyncPoint, s, pLast, iOffset, nExtra). iSyncPoint - iOffset)")
    (auto simp: WAL_FRAME_HDRSIZE_def)

declare WriteFrames_pad.simps [simp del]

definition walLimitSize :: "WalIo \<Rightarrow> byte list \<Rightarrow> nat \<Rightarrow> byte list" where
  "walLimitSize io file nMax = (if length file > nMax \<and> io_truncate io then take nMax file else file)"

subsection \<open>Read marks and the restart of the log\<close>

definition WAL_READ_LOCK :: "nat \<Rightarrow> nat" where "WAL_READ_LOCK i = 3 + i"

definition walLockShared :: "WalIo \<Rightarrow> Wal \<Rightarrow> nat \<Rightarrow> nat \<Rightarrow> rc" where
  "walLockShared io w attempt lockIdx = (if exclMode w \<noteq> WAL_NORMAL_MODE then SQLITE_OK else io_lockShared io attempt lockIdx)"

definition walLockExclusive :: "WalIo \<Rightarrow> Wal \<Rightarrow> nat \<Rightarrow> nat \<Rightarrow> nat \<Rightarrow> rc" where
  "walLockExclusive io w attempt lockIdx n = (if exclMode w \<noteq> WAL_NORMAL_MODE then SQLITE_OK else io_lockExclusive io attempt lockIdx n)"

text \<open>
  The part of \<open>walTryBeginRead\<close> that runs with \<open>useWal = 1\<close>, when the header is already loaded. The
  first loop looks for the largest read mark not beyond \<open>mxFrame\<close>; its list holds the marks 1 to
  \<open>WAL_NREADER - 1\<close> with their numbers, and its result is \<open>(mxReadMark, mxI)\<close>.
\<close>

fun walTryBeginRead_best :: "nat \<Rightarrow> (nat \<times> nat) list \<Rightarrow> nat \<times> nat \<Rightarrow> (nat \<times> nat) option" where
  "walTryBeginRead_best mx [] best = Some best"
| "walTryBeginRead_best mx ((i, thisMark) # ms) (mxReadMark, mxI) =
     (if mxReadMark \<le> thisMark \<and> thisMark \<le> mx then do {
        assertion (thisMark \<noteq> READMARK_NOT_USED);
        walTryBeginRead_best mx ms (thisMark, i)
      } else walTryBeginRead_best mx ms (mxReadMark, mxI))"

text \<open>
  The second loop claims a mark for this snapshot. Its result says, besides \<open>rc\<close>, whether the
  function returns \<open>rc\<close> at once.
\<close>

fun walTryBeginRead_claim :: "WalIo \<Rightarrow> nat \<Rightarrow> nat list \<Rightarrow> rc \<Rightarrow> Wal \<Rightarrow> nat \<times> nat \<Rightarrow> rc \<times> bool \<times> Wal \<times> (nat \<times> nat)" where
  "walTryBeginRead_claim io cnt [] rc w best = (rc, False, w, best)"
| "walTryBeginRead_claim io cnt (i # is) rc w best =
     (let rc = walLockExclusive io w cnt (WAL_READ_LOCK i) 1 in
      if rc = SQLITE_OK then (rc, False, w\<lparr>aReadMark := (aReadMark w)[i := mxFrame (hdr w)]\<rparr>, (mxFrame (hdr w), i))
      else if rc \<noteq> SQLITE_BUSY then (rc, True, w, best)
      else walTryBeginRead_claim io cnt is rc w best)"

definition walTryBeginRead :: "WalIo \<Rightarrow> Wal \<Rightarrow> nat \<Rightarrow> (rc \<times> Wal) option" where
  "walTryBeginRead io w cnt = do {
     assertion (readLock w < 0);
     if cnt > 100 then Some (SQLITE_PROTOCOL, w)
     else do {
       (mxReadMark, mxI) \<leftarrow> walTryBeginRead_best (mxFrame (hdr w)) (zip [1..<WAL_NREADER] (tl (aReadMark w))) (0, 0);
       let (rc, ret, w, (mxReadMark, mxI)) =
         (if \<not> shmReadOnly w \<and> (mxReadMark < mxFrame (hdr w) \<or> mxI = 0)
          then walTryBeginRead_claim io cnt [1..<WAL_NREADER] SQLITE_OK w (mxReadMark, mxI)
          else (SQLITE_OK, False, w, (mxReadMark, mxI)));
       if ret then Some (rc, w)
       else if mxI = 0 then do {
         assertion (rc = SQLITE_BUSY \<or> shmReadOnly w);
         Some (if rc = SQLITE_BUSY then WAL_RETRY else SQLITE_READONLY_CANTLOCK, w)
       }
       else
         let rc = walLockShared io w cnt (WAL_READ_LOCK mxI) in
         if rc \<noteq> SQLITE_OK then Some (if rc = SQLITE_BUSY then WAL_RETRY else rc, w)
         else if aReadMark w ! mxI \<noteq> mxReadMark \<or> shmHdr w \<noteq> hdr w then Some (WAL_RETRY, w)
         else do {
           assertion (mxReadMark \<le> mxFrame (hdr w));
           Some (rc, w\<lparr>readLock := int mxI\<rparr>)
         }
     }
   }"

text \<open>The retry loop at the end of \<open>walRestartLog\<close>. It ends because attempt 101 is refused.\<close>

lemma walTryBeginRead_protocol: "walTryBeginRead io w cnt = Some (WAL_RETRY, w') \<Longrightarrow> cnt \<le> 100"
  by (rule ccontr) (simp add: walTryBeginRead_def)

function walRestartLog_retry :: "WalIo \<Rightarrow> Wal \<Rightarrow> nat \<Rightarrow> (rc \<times> Wal) option" where
  "walRestartLog_retry io w cnt = do {
     let cnt = cnt + 1;
     (rc, w') \<leftarrow> walTryBeginRead io w cnt;
     if rc = WAL_RETRY then walRestartLog_retry io w' cnt else Some (rc, w')
   }"
  by pat_completeness auto

termination walRestartLog_retry
  by (relation "measure (\<lambda>(io, w, cnt). 101 - cnt)") (auto dest: walTryBeginRead_protocol)

declare walRestartLog_retry.simps [simp del]

definition walRestartLog :: "WalIo \<Rightarrow> Wal \<Rightarrow> (rc \<times> Wal) option" where
  "walRestartLog io w =
     (if readLock w = 0 then do {
        assertion (nBackfill w = mxFrame (hdr w));
        let lrc = walLockExclusive io w 0 (WAL_READ_LOCK 1) (WAL_NREADER - 1);
        if nBackfill w > 0 \<and> lrc \<noteq> SQLITE_OK \<and> lrc \<noteq> SQLITE_BUSY then Some (lrc, w)
        else do {
          w \<leftarrow> (if nBackfill w > 0 \<and> lrc = SQLITE_OK then do {
                  salt \<leftarrow> IncrementUint32 (aSalt (hdr w)) 1;
                  let w = w\<lparr>nCkpt := nCkpt w + 1, hdr := (hdr w)\<lparr>mxFrame := 0, aSalt := take 4 salt @ take 4 (io_rand io)\<rparr>\<rparr>;
                  w \<leftarrow> walIndexWriteHdr w;
                  let w = w\<lparr>nBackfill := 0, aReadMark := take 1 (aReadMark w) @ replicate (WAL_NREADER - 1) READMARK_NOT_USED\<rparr>;
                  assertion (take 1 (aReadMark w) = [0]);
                  Some w
                } else Some w);
          (rc, w) \<leftarrow> walRestartLog_retry io (w\<lparr>readLock := - 1\<rparr>) 0;
          assertion (rc \<noteq> SQLITE_BUSY);
          Some (rc, w)
        }
      } else Some (SQLITE_OK, w))"

subsection \<open>Writing a set of frames\<close>

text \<open>The block that starts a log (\<open>mxFrame = 0\<close>).\<close>

definition WriteFrames_start :: "WalIo \<Rightarrow> nat \<Rightarrow> byte list \<Rightarrow> Wal \<Rightarrow> (rc \<times> byte list \<times> Wal) option" where
  "WriteFrames_start io PageSize file w = do {
     let salt = (if nCkpt w = 0 then take 7 (io_rand io) @ drop 7 (aSalt (hdr w)) else aSalt (hdr w));
     (aWalHdr, aCksum) \<leftarrow> wal_header (io_big io) PageSize (nCkpt w) salt;
     let w = w\<lparr>walPageSize := PageSize, truncateOnCommit := True,
                 hdr := (hdr w)\<lparr>bigEndCksum := io_big io, aSalt := salt, aFrameCksum := aCksum\<rparr>\<rparr>;
     if io_rc io 0 \<noteq> SQLITE_OK then Some (io_rc io 0, file, w)
     else Some (if io_sync_header io \<and> io_sync_flags io then io_sync io else SQLITE_OK, osWrite file aWalHdr 0, w)
   }"

text \<open>The end of a transaction: padding or a sync.\<close>

definition WriteFrames_sync ::
  "WalIo \<Rightarrow> nat \<Rightarrow> nat \<Rightarrow> bool \<Rightarrow> byte list \<times> Wal \<Rightarrow> nat \<times> byte list \<Rightarrow> nat \<Rightarrow> (rc \<times> byte list \<times> Wal \<times> nat) option" where
  "WriteFrames_sync io PageSize nTruncate isCommit s pLast iOffset =
     (if isCommit \<and> io_sync_tx io then
        if io_pad io then
          WriteFrames_pad io PageSize nTruncate (((iOffset + io_sector io - 1) div io_sector io) * io_sector io) s pLast iOffset 0
        else Some (io_sync io, fst s, snd s, 0)
      else Some (SQLITE_OK, fst s, snd s, 0))"

text \<open>The first commit after a restart cuts the file to the size limit, but not into the frame \<open>next - 1\<close>.\<close>

definition WriteFrames_limit :: "WalIo \<Rightarrow> nat \<Rightarrow> bool \<Rightarrow> byte list \<times> Wal \<Rightarrow> nat \<Rightarrow> byte list \<times> Wal" where
  "WriteFrames_limit io PageSize isCommit s next =
     (let (file, w) = s in
      if isCommit \<and> truncateOnCommit w \<and> mxWalSize w \<ge> 0
      then (walLimitSize io file (max (nat (mxWalSize w)) (walFrameOffset next PageSize)), w\<lparr>truncateOnCommit := False\<rparr>)
      else (file, w))"

text \<open>
  \<open>WriteFrames\<close>. In \<open>if iFrame := pWal.hdr.mxFrame; iFrame == 0\<close> the Go text declares a new variable
  \<open>iFrame\<close> for the \<open>if\<close> statement; the variable of the function, from which the offset of the first
  frame is computed, keeps its zero value.
\<close>

definition WriteFrames ::
  "WalIo \<Rightarrow> byte list \<Rightarrow> Wal \<Rightarrow> nat \<Rightarrow> (nat \<times> byte list) list \<Rightarrow> nat \<Rightarrow> bool \<Rightarrow> (rc \<times> byte list \<times> Wal) option" where
  "WriteFrames io file w PageSize pList nTruncate isCommit = do {
     assertion (pList \<noteq> []);
     assertion (writeLock w);
     assertion (isCommit = (nTruncate \<noteq> 0));
     (rc, w) \<leftarrow> walRestartLog io w;
     if rc \<noteq> SQLITE_OK then Some (rc, file, w)
     else do {
       (rc, file, w) \<leftarrow> (if mxFrame (hdr w) = 0 then WriteFrames_start io PageSize file w else Some (SQLITE_OK, file, w));
       if rc \<noteq> SQLITE_OK then Some (rc, file, w)
       else do {
         assertion (walPageSize w = PageSize);
         let iFrame = 0;
         (rc, file, w, iFrame, iOffset) \<leftarrow>
           WriteFrames_loop io PageSize nTruncate isCommit (file, w) pList iFrame (walFrameOffset (iFrame + 1) PageSize);
         if rc \<noteq> SQLITE_OK then Some (rc, file, w)
         else do {
           (rc, file, w, nExtra) \<leftarrow> WriteFrames_sync io PageSize nTruncate isCommit (file, w) (last pList) iOffset;
           if rc \<noteq> SQLITE_OK \<and> io_pad io then Some (rc, file, w)
           else do {
             let (file, w) = WriteFrames_limit io PageSize isCommit (file, w) (iFrame + nExtra + 1);
             if rc \<noteq> SQLITE_OK then Some (rc, file, w)
             else do {
               (rc, w) \<leftarrow> WriteFrames_index w PageSize (map fst pList) nExtra nTruncate isCommit;
               Some (rc, file, w)
             }
           }
         }
       }
     }
   }"

section \<open>The contents of a log\<close>

text \<open>A frame of the log: page number, database size (0 unless it is a commit) and page content.\<close>

type_synonym frame = "uint32 \<times> uint32 \<times> byte list"

definition next_hdr :: "WalIndexHdr \<Rightarrow> frame \<Rightarrow> WalIndexHdr" where
  "next_hdr h f = (case f of (pg, nt, d) \<Rightarrow> h\<lparr>aFrameCksum := frame_cksum h pg nt d\<rparr>)"

fun log_bytes :: "WalIndexHdr \<Rightarrow> frame list \<Rightarrow> byte list" where
  "log_bytes h [] = []"
| "log_bytes h ((pg, nt, d) # fs) = frame_bytes h pg nt d @ d @ log_bytes (next_hdr h (pg, nt, d)) fs"

definition frame_ok :: "nat \<Rightarrow> frame \<Rightarrow> bool" where
  "frame_ok PageSize f \<longleftrightarrow> fst f \<noteq> 0 \<and> length (snd (snd f)) = PageSize"

text \<open>
  What recovery has to find in a list of frames: the number of frames up to the last commit, the
  size that commit records and the checksum after it.
\<close>

fun last_commit :: "WalIndexHdr \<Rightarrow> frame list \<Rightarrow> nat \<Rightarrow> nat \<times> nat \<times> (uint32 \<times> uint32) \<Rightarrow> nat \<times> nat \<times> (uint32 \<times> uint32)" where
  "last_commit h [] n r = r"
| "last_commit h (f # fs) n r =
     last_commit (next_hdr h f) fs (n + 1)
       (if fst (snd f) \<noteq> 0 then (n + 1, unat (fst (snd f)), aFrameCksum (next_hdr h f)) else r)"

lemma next_hdr_simps [simp]:
  "aSalt (next_hdr h f) = aSalt h" "bigEndCksum (next_hdr h f) = bigEndCksum h"
  by (cases f; simp add: next_hdr_def)+

lemma frame_bytes_cong:
  "aSalt h = aSalt h' \<Longrightarrow> bigEndCksum h = bigEndCksum h' \<Longrightarrow> aFrameCksum h = aFrameCksum h' \<Longrightarrow>
   frame_bytes h pg nt d = frame_bytes h' pg nt d \<and> frame_cksum h pg nt d = frame_cksum h' pg nt d"
  by (simp add: frame_bytes_def frame_cksum_def)

lemma recover_step:
  assumes "\<forall>off. io off = SQLITE_OK" "PageSize + WAL_FRAME_HDRSIZE \<le> length bytes"
    and "take WAL_FRAME_HDRSIZE bytes = F" "take PageSize (drop WAL_FRAME_HDRSIZE bytes) = d"
    and "drop (PageSize + WAL_FRAME_HDRSIZE) bytes = rest"
    and "walDecodeFrame big (hdr w) d F = Some (Some (pg, nt), ck)"
    and "walIndexAppend (w\<lparr>hdr := (hdr w)\<lparr>aFrameCksum := ck\<rparr>\<rparr>) (Suc n) (unat pg) = Some (SQLITE_OK, w2)"
  shows "walIndexRecover_loop big io PageSize bytes n w saved =
    walIndexRecover_loop big io PageSize rest (Suc n)
      (if nt \<noteq> 0 then w2\<lparr>hdr := (hdr w2)\<lparr>mxFrame := Suc n, nPage := unat nt,
                        hPageSize := (PageSize AND 0xff00) OR drop_bit 16 PageSize\<rparr>\<rparr> else w2)
      (if nt \<noteq> 0 then aFrameCksum (hdr w2) else saved)"
  by (subst walIndexRecover_loop.simps) (use assms in \<open>simp add: Let_def\<close>)

text \<open>Recovery reads exactly the frames of the log, whatever short tail follows them.\<close>

lemma recover_loop_ok:
  assumes "PageSize \<ge> 8" "PageSize mod 8 = 0" "\<forall>f\<in>set fs. frame_ok PageSize f" "length tail < PageSize + WAL_FRAME_HDRSIZE"
    and "\<forall>off. io off = SQLITE_OK" "env_ok w" "index_inv w ps" "length (aSalt h) = 8"
    and "aSalt (hdr w) = aSalt h" "bigEndCksum (hdr w) = bigEndCksum h" "aFrameCksum (hdr w) = aFrameCksum h"
  shows "\<exists>w'. walIndexRecover_loop big io PageSize (log_bytes h fs @ tail) (length ps) w saved
       = Some (SQLITE_OK, w', snd (snd (last_commit h fs (length ps) (mxFrame (hdr w), nPage (hdr w), saved))))
     \<and> index_inv w' (ps @ map (unat \<circ> fst) fs) \<and> env_ok w' \<and> writeLock w' = writeLock w \<and> aSalt (hdr w') = aSalt h \<and> bigEndCksum (hdr w') = bigEndCksum h
     \<and> (mxFrame (hdr w'), nPage (hdr w')) = (let r = last_commit h fs (length ps) (mxFrame (hdr w), nPage (hdr w), saved) in (fst r, fst (snd r)))
     \<and> hPageSize (hdr w') = (if \<exists>f\<in>set fs. fst (snd f) \<noteq> 0 then (PageSize AND 0xff00) OR drop_bit 16 PageSize else hPageSize (hdr w))"
  using assms
proof (induction fs arbitrary: h ps w saved)
  case Nil
  then show ?case by (subst walIndexRecover_loop.simps) simp
next
  case (Cons f fs)
  obtain pg nt d where f: "f = (pg, nt, d)" by (cases f) auto
  let ?h' = "next_hdr h f" and ?rest = "log_bytes (next_hdr h f) fs @ tail"
  have pd: "page_data d" "length d = PageSize" "pg \<noteq> 0" using Cons.prems(1,2,3) f by (auto simp: page_data_def frame_ok_def)
  have fb: "length (frame_bytes h pg nt d) = 24" using Cons.prems(8) by (rule length_frame_bytes)
  have b: "log_bytes h (f # fs) @ tail = frame_bytes h pg nt d @ d @ ?rest" using f by simp
  have parts: "take WAL_FRAME_HDRSIZE (frame_bytes h pg nt d @ d @ ?rest) = frame_bytes h pg nt d"
      "take PageSize (drop WAL_FRAME_HDRSIZE (frame_bytes h pg nt d @ d @ ?rest)) = d"
      "drop (PageSize + WAL_FRAME_HDRSIZE) (frame_bytes h pg nt d @ d @ ?rest) = ?rest"
      "PageSize + WAL_FRAME_HDRSIZE \<le> length (frame_bytes h pg nt d @ d @ ?rest)"
    using fb pd by (auto simp: WAL_FRAME_HDRSIZE_def)
  have fc: "frame_bytes h pg nt d = frame_bytes (hdr w) pg nt d" "frame_cksum h pg nt d = frame_cksum (hdr w) pg nt d"
    using frame_bytes_cong [of h "hdr w" pg nt d] Cons.prems(9-11) by auto
  have D: "walDecodeFrame big (hdr w) d (frame_bytes h pg nt d) = Some (Some (pg, nt), frame_cksum h pg nt d)"
    using walDecodeFrame_iff [of "hdr w" d "frame_bytes h pg nt d" big pg nt] Cons.prems(8,9) pd fb fc by simp
  let ?w1 = "w\<lparr>hdr := (hdr w)\<lparr>aFrameCksum := frame_cksum h pg nt d\<rparr>\<rparr>"
  have "unat pg > 0" using pd(3) by (simp add: unat_gt_0)
  then obtain w2 where w2: "walIndexAppend ?w1 (Suc (length ps)) (unat pg) = Some (SQLITE_OK, w2)" "same_wal ?w1 w2" "index_inv w2 (ps @ [unat pg])"
    using walIndexAppend_insert [of ?w1 ps "length ps" "unat pg"] Cons.prems(6,7) by auto
  have e2: "env_ok w2" using env_ok_same [OF _ w2(2)] Cons.prems(6) by simp
  have ck: "frame_cksum h pg nt d = aFrameCksum ?h'" using f by (simp add: next_hdr_def)
  let ?w3 = "if nt \<noteq> 0 then w2\<lparr>hdr := (hdr w2)\<lparr>mxFrame := Suc (length ps), nPage := unat nt,
                        hPageSize := (PageSize AND 0xff00) OR drop_bit 16 PageSize\<rparr>\<rparr> else w2"
  let ?sv = "if nt \<noteq> 0 then aFrameCksum (hdr w2) else saved"
  have h3: "aSalt (hdr ?w3) = aSalt ?h'" "bigEndCksum (hdr ?w3) = bigEndCksum ?h'" "aFrameCksum (hdr ?w3) = aFrameCksum ?h'"
      "env_ok ?w3" "index_inv ?w3 (ps @ [unat pg])" "writeLock ?w3 = writeLock w"
    and h4: "hPageSize (hdr ?w3) = (if nt \<noteq> 0 then (PageSize AND 0xff00) OR drop_bit 16 PageSize else hPageSize (hdr w))"
    using w2 e2 Cons.prems(9,10) ck by (auto simp: same_wal_def)
  have step: "walIndexRecover_loop big io PageSize (log_bytes h (f # fs) @ tail) (length ps) w saved
      = walIndexRecover_loop big io PageSize ?rest (length (ps @ [unat pg])) ?w3 ?sv"
    unfolding b using recover_step [OF Cons.prems(5) parts(4,1,2,3) D, of "length ps" w2 saved] w2(1) by simp
  have lc: "last_commit h (f # fs) (length ps) (mxFrame (hdr w), nPage (hdr w), saved)
      = last_commit ?h' fs (length (ps @ [unat pg])) (mxFrame (hdr ?w3), nPage (hdr ?w3), ?sv)"
    using w2(2) ck f by (auto simp: same_wal_def)
  have "\<forall>f\<in>set fs. frame_ok PageSize f" "length (aSalt ?h') = 8" using Cons.prems(3,8) by auto
  then show ?case
    using Cons.IH [OF Cons.prems(1,2) _ Cons.prems(4,5) h3(4,5), of ?h' ?sv] h3 f h4 unfolding step lc by (auto split: if_splits)
qed

text \<open>A log cut at any byte is the log of the frames that are complete, and a short tail.\<close>

lemma log_bytes_take:
  assumes "\<forall>f\<in>set fs. frame_ok PageSize f" "length (aSalt h) = 8"
  shows "\<exists>tail. take m (log_bytes h fs) = log_bytes h (take (m div (PageSize + WAL_FRAME_HDRSIZE)) fs) @ tail
     \<and> length tail < PageSize + WAL_FRAME_HDRSIZE"
  using assms
proof (induction fs arbitrary: h m)
  case Nil
  then show ?case by (simp add: WAL_FRAME_HDRSIZE_def)
next
  case (Cons f fs)
  obtain pg nt d where f: "f = (pg, nt, d)" by (cases f) auto
  let ?sz = "PageSize + WAL_FRAME_HDRSIZE"
  have len: "length (frame_bytes h pg nt d) = WAL_FRAME_HDRSIZE" "length d = PageSize" "?sz > 0"
    using Cons.prems f length_frame_bytes [of h] by (auto simp: frame_ok_def WAL_FRAME_HDRSIZE_def)
  show ?case
  proof (cases "m < ?sz")
    case True
    then show ?thesis by (intro exI [of _ "take m (log_bytes h (f # fs))"]) simp
  next
    case False
    then have d: "m div ?sz = Suc ((m - ?sz) div ?sz)" using len(3) by (simp add: le_div_geq)
    obtain tail where t: "take (m - ?sz) (log_bytes (next_hdr h f) fs) = log_bytes (next_hdr h f) (take ((m - ?sz) div ?sz) fs) @ tail"
        "length tail < ?sz"
      using Cons.IH [of "next_hdr h f" "m - ?sz"] Cons.prems by auto
    have "take m (log_bytes h (f # fs)) = frame_bytes h pg nt d @ d @ take (m - ?sz) (log_bytes (next_hdr h f) fs)"
      using False len f by (auto simp: take_append diff_diff_add add.commute)
    also have "\<dots> = log_bytes h (take (m div ?sz) (f # fs)) @ tail" using t(1) f unfolding d by simp
    finally show ?thesis using t(2) by blast
  qed
qed

definition page_size_ok :: "nat \<Rightarrow> bool" where
  "page_size_ok n \<longleftrightarrow> n \<in> {512, 1024, 2048, 4096, 8192, 16384, 32768, 65536}"

lemma page_size_checks:
  "page_size_ok n \<Longrightarrow> unat (word_of_nat n :: uint32) = n \<and> (word_of_nat n :: uint32) AND (word_of_nat n - 1) = 0
     \<and> \<not> n > SQLITE_MAX_PAGE_SIZE \<and> \<not> n < 512 \<and> n \<ge> 8 \<and> n mod 8 = 0"
  unfolding page_size_ok_def SQLITE_MAX_PAGE_SIZE_def by (elim insertE emptyE) simp_all

text \<open>The header of the log as the writer of byte order \<open>be\<close> leaves it.\<close>

definition log_hdr :: "bool \<Rightarrow> byte list \<Rightarrow> uint32 \<times> uint32 \<Rightarrow> WalIndexHdr" where
  "log_hdr be salt ck = zero_hdr\<lparr>bigEndCksum := be, aSalt := salt, aFrameCksum := ck\<rparr>"

lemma magic_bits: "(WAL_MAGIC OR (if be then 1 else 0)) AND 0xFFFFFFFE = WAL_MAGIC"
  "((WAL_MAGIC OR (if be then 1 else 0)) AND 1 \<noteq> 0) = be"
  by (cases be; simp add: WAL_MAGIC_def)+

lemma wal_header_read:
  assumes "wal_header be PageSize ckpt salt = Some (H, ck)" "length salt = 8" "page_size_ok PageSize" "ckpt < 2 ^ 32"
    and "bytes \<noteq> []" "\<forall>off. io off = SQLITE_OK"
  shows "walIndexRecover_read big io True (H @ bytes) (w\<lparr>hdr := zero_hdr\<rparr>) =
    walIndexRecover_loop big io PageSize bytes 0
      (w\<lparr>walPageSize := PageSize, nCkpt := ckpt, hdr := log_hdr be salt ck\<rparr>) (0, 0)"
    and "length H = WAL_HDRSIZE"
proof -
  define A where "A = bytes32 (WAL_MAGIC OR (if be then 1 else 0)) @ bytes32 WAL_MAX_VERSION @ bytes32 (word_of_nat PageSize) @ bytes32 (word_of_nat ckpt) @ salt"
  have lA: "length A = 24" using assms(2) by (simp add: A_def)
  have "take 8 salt = salt" using assms(2) by simp
  then have H: "H = A @ bytes32 (fst ck) @ bytes32 (snd ck)" "walChecksumBytes be True A None = Some ck"
    using assms(1) lA unfolding wal_header_def by (auto simp: A_def WAL_HDRSIZE_def Let_def bind_eq_Some_conv)
  show lH: "length H = WAL_HDRSIZE" using lA by (simp add: H WAL_HDRSIZE_def)
  have ck: "walChecksumBytes big (be = big) A None = Some ck"
  proof -
    have "walChecksumBytes x (be = x) A None = Some (checksum be A (0, 0))" for x
      using lA by (simp add: walChecksumBytes_def walChecksum_loop_eq)
    from this [of be] this [of big] H(2) show ?thesis by simp
  qed
  have buf: "take WAL_HDRSIZE (H @ bytes) = H" "drop WAL_HDRSIZE (H @ bytes) = bytes" "\<not> length (H @ bytes) \<le> WAL_HDRSIZE"
    using lH assms(5) by auto
  have fld: "drop 8 H = bytes32 (word_of_nat PageSize) @ drop 12 H" "drop 12 H = bytes32 (word_of_nat ckpt) @ drop 16 H"
      "take 8 (drop 16 H) = salt" "take (WAL_HDRSIZE - 8) H = A" "drop 24 H = bytes32 (fst ck) @ bytes32 (snd ck)" "drop 28 H = bytes32 (snd ck) @ []"
      "drop 4 H = bytes32 WAL_MAX_VERSION @ drop 8 H" "H = bytes32 (WAL_MAGIC OR (if be then 1 else 0)) @ drop 4 H"
    using lA assms(2) unfolding H(1) by (simp_all add: WAL_HDRSIZE_def A_def)
  have rd: "ReadUint32 H = Some (WAL_MAGIC OR (if be then 1 else 0))" "ReadUint32 (drop 8 H) = Some (word_of_nat PageSize)"
      "ReadUint32 (drop 12 H) = Some (word_of_nat ckpt)" "ReadUint32 (drop 24 H) = Some (fst ck)" "ReadUint32 (drop 28 H) = Some (snd ck)"
      "ReadUint32 (drop 4 H) = Some WAL_MAX_VERSION"
    using fld ReadUint32_bytes32 by metis+
  have "unat (word_of_nat ckpt :: uint32) = ckpt" using assms(4) by (simp add: unat_of_nat take_bit_nat_eq_self)
  then show "walIndexRecover_read big io True (H @ bytes) (w\<lparr>hdr := zero_hdr\<rparr>) =
    walIndexRecover_loop big io PageSize bytes 0
      (w\<lparr>walPageSize := PageSize, nCkpt := ckpt, hdr := log_hdr be salt ck\<rparr>) (0, 0)"
    unfolding walIndexRecover_read_def buf Let_def rd Option.bind.simps
    using assms(6) page_size_checks [OF assms(3)] buf(3) fld(3,4) ck magic_bits [of be]
    by (simp add: log_hdr_def zero_hdr_def)
qed

text \<open>The frames up to the last commit.\<close>

definition committed :: "frame list \<Rightarrow> frame list" where
  "committed fs = rev (dropWhile (\<lambda>f. fst (snd f) = 0) (rev fs))"

lemma committed_take: "committed fs = take (length (committed fs)) fs"
proof -
  define P :: "frame \<Rightarrow> bool" where "P = (\<lambda>f. fst (snd f) = 0)"
  have "rev (takeWhile P (rev fs) @ dropWhile P (rev fs)) = fs" by (simp only: takeWhile_dropWhile_id rev_rev_ident)
  then have "committed fs @ rev (takeWhile P (rev fs)) = fs" unfolding committed_def P_def [symmetric] by (simp only: rev_append)
  then show ?thesis by (metis append_eq_conv_conj)
qed

lemma length_committed: "length (committed fs) \<le> length fs"
  by (metis committed_take length_take min.cobounded1)

lemma last_commit_committed:
  "fst (last_commit h fs n r) = (if committed fs = [] then fst r else n + length (committed fs))
   \<and> fst (snd (last_commit h fs n r)) = (if committed fs = [] then fst (snd r) else unat (fst (snd (last (committed fs)))))"
proof (induction fs arbitrary: h n r)
  case (Cons f fs)
  have "committed (f # fs) = (if committed fs = [] then (if fst (snd f) = 0 then [] else [f]) else f # committed fs)"
    by (auto simp: committed_def dropWhile_append)
  then show ?case using Cons.IH [of "next_hdr h f" "n + 1"] by auto
qed (simp add: committed_def)

lemma recover_ok:
  assumes "wal_header be PageSize ckpt salt = Some (H, ck)" and "length salt = 8" and "page_size_ok PageSize" and "ckpt < 2 ^ 32"
    and "\<forall>f\<in>set fs. frame_ok PageSize f" and "fs \<noteq> []" and "32 < n"
    and "\<forall>off. io off = SQLITE_OK" and "env_ok w" and "writeLock w"
  defines "done \<equiv> committed (take ((n - 32) div (PageSize + 24)) fs)"
  shows "\<exists>w' ps. walIndexRecover big SQLITE_OK io True (take n (H @ log_bytes (log_hdr be salt ck) fs)) w = Some (SQLITE_OK, w')
    \<and> mxFrame (hdr w') = length done \<and> nPage (hdr w') = (if done = [] then 0 else unat (fst (snd (last done)))) \<and> shmHdr w' = hdr w'
    \<and> index_inv w' ps \<and> length done \<le> length ps \<and> map (unat \<circ> fst) done = take (length done) ps
    \<and> (done \<noteq> [] \<longrightarrow> hPageSize (hdr w') = (PageSize AND 0xff00) OR drop_bit 16 PageSize)"
proof -
  let ?h = "log_hdr be salt ck" and ?k = "(n - 32) div (PageSize + 24)"
  let ?w0 = "w\<lparr>walPageSize := PageSize, nCkpt := ckpt, hdr := ?h\<rparr>"
  have salt: "length (aSalt ?h) = 8" using assms(2) by (simp add: log_hdr_def)
  have H: "length H = 32" using wal_header_read(2) [OF assms(1-4), of "[0]" io] assms(8) by (simp add: WAL_HDRSIZE_def)
  obtain tail where tail: "take (n - 32) (log_bytes ?h fs) = log_bytes ?h (take ?k fs) @ tail" "length tail < PageSize + WAL_FRAME_HDRSIZE"
    using log_bytes_take [OF assms(5) salt, of "n - 32"] by (auto simp: WAL_FRAME_HDRSIZE_def)
  have T: "take n (H @ log_bytes ?h fs) = H @ log_bytes ?h (take ?k fs) @ tail" using H tail(1) assms(7) by simp
  have "log_bytes ?h fs \<noteq> []" 
  proof -
    obtain pg nt d fs' where "fs = (pg, nt, d) # fs'" using assms(6) by (cases fs) auto
    then have "24 \<le> length (log_bytes ?h fs)" using length_frame_bytes [OF salt, of pg nt d] by simp
    then show ?thesis by auto
  qed
  then have ne: "log_bytes ?h (take ?k fs) @ tail \<noteq> []" unfolding tail(1) [symmetric] using assms(7) by simp
  have ps: "PageSize \<ge> 8" "PageSize mod 8 = 0" using page_size_checks [OF assms(3)] by auto
  have fk: "\<forall>f\<in>set (take ?k fs). frame_ok PageSize f" using assms(5) by (meson in_set_takeD)
  have w0: "env_ok ?w0" "index_inv ?w0 []" using assms(9) by (simp_all add: env_ok_def index_inv_def)
  obtain w1 where w1: "walIndexRecover_loop big io PageSize (log_bytes ?h (take ?k fs) @ tail) 0 ?w0 (0, 0)
        = Some (SQLITE_OK, w1, snd (snd (last_commit ?h (take ?k fs) 0 (0, 0, 0, 0))))"
      "index_inv w1 (map (unat \<circ> fst) (take ?k fs))" "writeLock w1"
      "mxFrame (hdr w1) = fst (last_commit ?h (take ?k fs) 0 (0, 0, 0, 0))"
      "nPage (hdr w1) = fst (snd (last_commit ?h (take ?k fs) 0 (0, 0, 0, 0)))"
      "(\<exists>f\<in>set (take ?k fs). fst (snd f) \<noteq> 0) \<Longrightarrow> hPageSize (hdr w1) = (PageSize AND 0xff00) OR drop_bit 16 PageSize"
    using recover_loop_ok [OF ps fk tail(2) assms(8) w0 salt, of big "(0, 0)"] assms(10)
    by (auto simp: log_hdr_def zero_hdr_def Let_def)
  let ?done = "committed (take ?k fs)"
  let ?h' = "(hdr w1)\<lparr>aFrameCksum := snd (snd (last_commit ?h (take ?k fs) 0 (0, 0, 0, 0)))\<rparr>"
  let ?w' = "w1\<lparr>hdr := ?h', shmHdr := ?h', nBackfill := 0, aReadMark := 0 # replicate (WAL_NREADER - 1) READMARK_NOT_USED\<rparr>"
  have R: "walIndexRecover big SQLITE_OK io True (take n (H @ log_bytes ?h fs)) w = Some (SQLITE_OK, ?w')"
    unfolding T walIndexRecover_def wal_header_read(1) [OF assms(1-4) ne assms(8)] w1(1)
    using assms(10) w1(3) by (simp add: walIndexWriteHdr_def Let_def)
  have mx: "mxFrame (hdr ?w') = length ?done" "nPage (hdr ?w') = (if ?done = [] then 0 else unat (fst (snd (last ?done))))"
    using w1(4,5) last_commit_committed [of ?h "take ?k fs" 0 "(0, 0, 0, 0)"] by simp_all
  have ps: "map (unat \<circ> fst) ?done = take (length ?done) (map (unat \<circ> fst) (take ?k fs))" "length ?done \<le> length (map (unat \<circ> fst) (take ?k fs))"
    using length_committed [of "take ?k fs"] by (simp_all only: take_map committed_take [symmetric] length_map)
  have "?done \<noteq> [] \<Longrightarrow> \<exists>f\<in>set (take ?k fs). fst (snd f) \<noteq> 0" by (auto simp: committed_def dropWhile_eq_Nil_conv)
  then have hp: "?done \<noteq> [] \<Longrightarrow> hPageSize (hdr ?w') = (PageSize AND 0xff00) OR drop_bit 16 PageSize" using w1(6) by simp
  have iv: "index_inv ?w' (map (unat \<circ> fst) (take ?k fs))" using w1(2) by (simp add: index_inv_def)
  show ?thesis unfolding done_def using R mx ps hp iv by (intro exI [of _ ?w'] exI [of _ "map (unat \<circ> fst) (take ?k fs)"]) simp
qed

section \<open>What the writer leaves in the file\<close>

text \<open>The environment reports no failure; the codec gives each page of the list \<open>PageSize\<close> bytes.\<close>

definition io_ok :: "WalIo \<Rightarrow> bool" where
  "io_ok io \<longleftrightarrow> (\<forall>off. io_rc io off = SQLITE_OK) \<and> io_sync io = SQLITE_OK \<and> io_sync_level io"

definition codec_ok :: "WalIo \<Rightarrow> nat \<Rightarrow> (nat \<times> byte list) list \<Rightarrow> bool" where
  "codec_ok io PageSize ps \<longleftrightarrow> (\<forall>p\<in>set ps. \<exists>d. io_codec io p = Some d \<and> length d = PageSize)"

text \<open>The frame for a dirty page, and the frames of a list of pages: only the last one carries the size.\<close>

definition page_frame :: "WalIo \<Rightarrow> nat \<Rightarrow> nat \<times> byte list \<Rightarrow> frame" where
  "page_frame io nTruncate p = (word_of_nat (fst p), word_of_nat nTruncate, the (io_codec io p))"

fun page_frames :: "WalIo \<Rightarrow> nat \<Rightarrow> (nat \<times> byte list) list \<Rightarrow> frame list" where
  "page_frames io nTruncate [] = []"
| "page_frames io nTruncate (p # ps) = page_frame io (if ps = [] then nTruncate else 0) p # page_frames io nTruncate ps"

lemma osWrite_append: "osWrite (osWrite fl a off) b (off + length a) = osWrite fl (a @ b) off"
proof (cases "a = [] \<or> b = []")
  case True
  then show ?thesis by (auto simp: osWrite_def)
next
  case False
  let ?P = "take off (fl @ replicate (off - length fl) 0)"
  have l: "length ?P = off" by simp
  have "osWrite fl a off = ?P @ a @ drop (off + length a) fl" using False by (simp add: osWrite_def)
  then have "osWrite (osWrite fl a off) b (off + length a) = ?P @ a @ b @ drop (off + length a + length b) (?P @ a @ drop (off + length a) fl)"
    unfolding osWrite_def [of _ b] using l False by simp
  also have "drop (off + length a + length b) (?P @ a @ drop (off + length a) fl) = drop (length b) (drop (off + length a) fl)"
    using l by (simp add: drop_append)
  also have "\<dots> = drop (off + length (a @ b)) fl" by (simp add: add.commute add.left_commute)
  finally show ?thesis using False by (simp add: osWrite_def)
qed

lemma osWrite_Nil_0: "osWrite [] bs 0 = bs" "osWrite a b (length a) = a @ b @ drop (length b) []"
  by (simp_all add: osWrite_def)

lemma walWriteToLog_ok: "io_ok io \<Longrightarrow> walWriteToLog io sp fl c off = Some (SQLITE_OK, osWrite fl c off)"
proof (cases "off < sp \<and> off + length c \<ge> sp")
  case True
  assume io: "io_ok io"
  let ?k = "sp - off"
  have k: "length (take ?k c) = ?k" using True by auto
  have "osWrite (osWrite fl (take ?k c) off) (drop ?k c) (off + ?k) = osWrite fl c off"
    using osWrite_append [of fl "take ?k c" off "drop ?k c"] k by simp
  moreover have "drop ?k c = [] \<Longrightarrow> osWrite fl (take ?k c) off = osWrite fl c off" using True by simp
  ultimately show ?thesis using True io by (auto simp: walWriteToLog_def io_ok_def Let_def)
qed (auto simp: walWriteToLog_def io_ok_def)

lemma walWriteOneFrame_ok:
  assumes "io_ok io" "codec_ok io PageSize [p]" "PageSize \<ge> 8" "PageSize mod 8 = 0" "length (aSalt (hdr w)) = 8"
  shows "walWriteOneFrame io sp (fl, w) p nt off =
    Some (SQLITE_OK, osWrite fl (log_bytes (hdr w) [page_frame io nt p]) off, w\<lparr>hdr := next_hdr (hdr w) (page_frame io nt p)\<rparr>)"
proof -
  obtain d where d: "io_codec io p = Some d" "length d = PageSize" using assms(2) by (auto simp: codec_ok_def)
  let ?F = "frame_bytes (hdr w) (word_of_nat (fst p)) (word_of_nat nt) d"
  have "walEncodeFrame (io_big io) (hdr w) (word_of_nat (fst p)) (word_of_nat nt) d
      = Some (?F, frame_cksum (hdr w) (word_of_nat (fst p)) (word_of_nat nt) d)"
    using assms(3-5) d by (intro walEncodeFrame_eq) (auto simp: page_data_def)
  then show ?thesis
    using d osWrite_append [of fl ?F off d]
    by (simp add: walWriteOneFrame_def walWriteToLog_ok [OF assms(1)] page_frame_def next_hdr_def)
qed

lemma log_bytes_append: "log_bytes h (fs @ gs) = log_bytes h fs @ log_bytes (foldl next_hdr h fs) gs"
  by (induction fs arbitrary: h) auto

lemma foldl_next_hdr [simp]: "aSalt (foldl next_hdr h fs) = aSalt h" "bigEndCksum (foldl next_hdr h fs) = bigEndCksum h"
  by (induction fs arbitrary: h) auto

lemma length_log_bytes:
  "\<forall>f\<in>set fs. length (snd (snd f)) = PageSize \<Longrightarrow> length (aSalt h) = 8 \<Longrightarrow> length (log_bytes h fs) = length fs * (PageSize + WAL_FRAME_HDRSIZE)"
proof (induction fs arbitrary: h)
  case (Cons f fs)
  obtain pg nt d where "f = (pg, nt, d)" by (cases f) auto
  then show ?case using Cons length_frame_bytes [of h pg nt d] by (simp add: WAL_FRAME_HDRSIZE_def)
qed simp

lemma page_frames_len: "codec_ok io PageSize ps \<Longrightarrow> \<forall>f\<in>set (page_frames io nt ps). length (snd (snd f)) = PageSize"
  by (induction ps) (auto simp: codec_ok_def page_frame_def)

lemma length_page_frames [simp]: "length (page_frames io nt ps) = length ps"
  by (induction ps) auto

lemma WriteFrames_loop_ok:
  assumes "io_ok io" "PageSize \<ge> 8" "PageSize mod 8 = 0"
    and "codec_ok io PageSize ps" "length (aSalt (hdr w)) = 8" "isCommit = (nt \<noteq> 0)" "off = walFrameOffset (n + 1) PageSize"
  shows "WriteFrames_loop io PageSize nt isCommit (fl, w) ps n off =
    Some (SQLITE_OK, osWrite fl (log_bytes (hdr w) (page_frames io nt ps)) off, w\<lparr>hdr := foldl next_hdr (hdr w) (page_frames io nt ps)\<rparr>,
      n + length ps, walFrameOffset (n + length ps + 1) PageSize)"
  using assms(4,5,7)
proof (induction ps arbitrary: fl w n off)
  case Nil
  then show ?case by (simp add: osWrite_def)
next
  case (Cons p ps)
  let ?f = "page_frame io (if ps = [] then nt else 0) p"
  let ?w = "w\<lparr>hdr := next_hdr (hdr w) ?f\<rparr>"
  have c: "codec_ok io PageSize [p]" "codec_ok io PageSize ps" using Cons.prems(1) by (auto simp: codec_ok_def)
  have nd: "(if isCommit \<and> ps = [] then nt else 0) = (if ps = [] then nt else 0)" using assms(6) by simp
  have ln: "length (log_bytes (hdr w) [?f]) = PageSize + WAL_FRAME_HDRSIZE"
    using c(1) Cons.prems(2) by (subst length_log_bytes [where PageSize = PageSize]) (auto simp: codec_ok_def page_frame_def)
  have off: "off + PageSize + WAL_FRAME_HDRSIZE = walFrameOffset (Suc n + 1) PageSize" using Cons.prems(3) by (simp add: walFrameOffset_def)
  have "WriteFrames_loop io PageSize nt isCommit (fl, w) (p # ps) n off
    = WriteFrames_loop io PageSize nt isCommit (osWrite fl (log_bytes (hdr w) [?f]) off, ?w) ps (Suc n) (off + PageSize + WAL_FRAME_HDRSIZE)"
    using Cons.prems(3) nd by (simp add: walWriteOneFrame_ok [OF assms(1) c(1) assms(2,3) Cons.prems(2)])
  also have "\<dots> = Some (SQLITE_OK, osWrite (osWrite fl (log_bytes (hdr w) [?f]) off) (log_bytes (hdr ?w) (page_frames io nt ps)) (off + PageSize + WAL_FRAME_HDRSIZE),
      ?w\<lparr>hdr := foldl next_hdr (hdr ?w) (page_frames io nt ps)\<rparr>, Suc n + length ps, walFrameOffset (Suc n + length ps + 1) PageSize)"
    using Cons.IH [OF c(2), of ?w "off + PageSize + WAL_FRAME_HDRSIZE" "Suc n"] Cons.prems(2) off by simp
  also have "osWrite (osWrite fl (log_bytes (hdr w) [?f]) off) (log_bytes (hdr ?w) (page_frames io nt ps)) (off + PageSize + WAL_FRAME_HDRSIZE)
      = osWrite fl (log_bytes (hdr w) (page_frames io nt (p # ps))) off"
    using osWrite_append [of fl "log_bytes (hdr w) [?f]" off "log_bytes (hdr ?w) (page_frames io nt ps)"] ln log_bytes_append [of "hdr w" "[?f]" "page_frames io nt ps"]
    by (simp add: add.assoc)
  finally have R: "WriteFrames_loop io PageSize nt isCommit (fl, w) (p # ps) n off = Some (SQLITE_OK,
      osWrite fl (log_bytes (hdr w) (page_frames io nt (p # ps))) off, ?w\<lparr>hdr := foldl next_hdr (hdr ?w) (page_frames io nt ps)\<rparr>,
      Suc n + length ps, walFrameOffset (Suc n + length ps + 1) PageSize)" .
  show ?case unfolding R by simp
qed

lemma WriteFrames_pad_ok:
  assumes "io_ok io" "PageSize \<ge> 8" "PageSize mod 8 = 0" "codec_ok io PageSize [p]" "length (aSalt (hdr w)) = 8"
  shows "\<exists>k. WriteFrames_pad io PageSize nt sp (fl, w) p off n =
    Some (SQLITE_OK, osWrite fl (log_bytes (hdr w) (replicate k (page_frame io nt p))) off,
      w\<lparr>hdr := foldl next_hdr (hdr w) (replicate k (page_frame io nt p))\<rparr>, n + k)"
  using assms(5)
proof (induction "sp - off" arbitrary: fl w off n rule: less_induct)
  case less
  let ?f = "page_frame io nt p"
  show ?case
  proof (cases "off < sp")
    case True
    let ?w = "w\<lparr>hdr := next_hdr (hdr w) ?f\<rparr>" and ?fl = "osWrite fl (log_bytes (hdr w) [?f]) off"
    have ln: "length (log_bytes (hdr w) [?f]) = PageSize + WAL_FRAME_HDRSIZE"
      using assms(4) less.prems by (subst length_log_bytes [where PageSize = PageSize]) (auto simp: codec_ok_def page_frame_def)
    obtain k where k: "WriteFrames_pad io PageSize nt sp (?fl, ?w) p (off + (PageSize + WAL_FRAME_HDRSIZE)) (n + 1)
        = Some (SQLITE_OK, osWrite ?fl (log_bytes (hdr ?w) (replicate k ?f)) (off + (PageSize + WAL_FRAME_HDRSIZE)),
            ?w\<lparr>hdr := foldl next_hdr (hdr ?w) (replicate k ?f)\<rparr>, n + 1 + k)"
      using less.hyps [of "off + (PageSize + WAL_FRAME_HDRSIZE)" ?w ?fl "n + 1"] less.prems True by (fastforce simp: WAL_FRAME_HDRSIZE_def)
    have "osWrite ?fl (log_bytes (hdr ?w) (replicate k ?f)) (off + (PageSize + WAL_FRAME_HDRSIZE))
        = osWrite fl (log_bytes (hdr w) (replicate (Suc k) ?f)) off"
      using osWrite_append [of fl "log_bytes (hdr w) [?f]" off "log_bytes (hdr ?w) (replicate k ?f)"] ln log_bytes_append [of "hdr w" "[?f]" "replicate k ?f"]
      by simp
    with k show ?thesis
      using True walWriteOneFrame_ok [OF assms(1,4,2,3) less.prems, of sp fl nt off]
      by (intro exI [of _ "Suc k"]) (subst WriteFrames_pad.simps, simp)
  next
    case False
    then show ?thesis by (intro exI [of _ 0]) (subst WriteFrames_pad.simps, simp add: osWrite_def)
  qed
qed

subsection \<open>Reading what was written\<close>

lemma walPagesize_ok: "page_size_ok n \<Longrightarrow> hPageSize (hdr w) = (n AND 0xff00) OR drop_bit 16 n \<Longrightarrow> walPagesize w = n"
  unfolding page_size_ok_def walPagesize_def by (elim insertE emptyE) simp_all

lemma last_idx_cong': "(\<And>k. 0 < k \<Longrightarrow> k \<le> m \<Longrightarrow> f k = g k) \<Longrightarrow> last_idx f pg m = last_idx g pg m"
  by (induction m) auto

lemma last_frame_map_of:
  "(last_frame (map fst G) pg = 0 \<and> map_of (rev G) pg = None)
   \<or> (0 < last_frame (map fst G) pg \<and> last_frame (map fst G) pg \<le> length G
      \<and> fst (G ! (last_frame (map fst G) pg - 1)) = pg \<and> map_of (rev G) pg = Some (snd (G ! (last_frame (map fst G) pg - 1))))"
proof (induction G rule: rev_induct)
  case (snoc g G)
  let ?r = "last_frame (map fst G) pg"
  have "last_frame (map fst (G @ [g])) pg = (if fst g = pg then Suc (length G) else ?r)"
    by (auto simp: last_frame_def nth_append intro!: last_idx_cong')
  then show ?case using snoc by (cases g) (auto simp: nth_append)
qed (simp add: last_frame_def)

lemma log_bytes_nth:
  assumes "\<forall>f\<in>set fs. length (snd (snd f)) = PageSize" "length (aSalt h) = 8" "k < length fs"
  shows "take PageSize (drop (k * (PageSize + WAL_FRAME_HDRSIZE) + WAL_FRAME_HDRSIZE) (log_bytes h fs)) = snd (snd (fs ! k))"
proof -
  obtain pg nt d where f: "fs ! k = (pg, nt, d)" by (cases "fs ! k") auto
  let ?h = "foldl next_hdr h (take k fs)"
  have d: "length d = PageSize" using assms(1,3) f nth_mem by fastforce
  have fs: "fs = take k fs @ (pg, nt, d) # drop (Suc k) fs" using id_take_nth_drop [OF assms(3)] f by simp
  have l: "length (log_bytes h (take k fs)) = k * (PageSize + WAL_FRAME_HDRSIZE)"
    using length_log_bytes [of "take k fs" PageSize h] assms by (auto dest: in_set_takeD)
  have "log_bytes h fs = log_bytes h (take k fs) @ frame_bytes ?h pg nt d @ d @ log_bytes (next_hdr ?h (pg, nt, d)) (drop (Suc k) fs)"
    by (subst fs) (simp only: log_bytes_append log_bytes.simps)
  moreover have "length (frame_bytes ?h pg nt d) = WAL_FRAME_HDRSIZE"
    using length_frame_bytes [of ?h pg nt d] assms(2) by (simp add: WAL_FRAME_HDRSIZE_def)
  ultimately show ?thesis using l d f by simp
qed

lemma log_bytes_cong:
  "aSalt h = aSalt h' \<Longrightarrow> bigEndCksum h = bigEndCksum h' \<Longrightarrow> aFrameCksum h = aFrameCksum h' \<Longrightarrow> log_bytes h fs = log_bytes h' fs"
proof (induction fs arbitrary: h h')
  case (Cons f fs)
  obtain pg nt d where f: "f = (pg, nt, d)" by (cases f) auto
  then show ?case using Cons.IH [of "next_hdr h f" "next_hdr h' f"] Cons.prems frame_bytes_cong [of h h' pg nt d]
    by (simp add: next_hdr_def)
qed simp

lemma wal_header_Some:
  assumes "length salt = 8"
  obtains H ck where "wal_header be PageSize ckpt salt = Some (H, ck)" "length H = WAL_HDRSIZE"
  using assms by (auto simp: wal_header_def walChecksumBytes_def Let_def WAL_HDRSIZE_def)

text \<open>The frames a commit of \<open>ps\<close> puts into the log, with \<open>k\<close> copies of the last one.\<close>

definition commit_frames :: "WalIo \<Rightarrow> nat \<Rightarrow> (nat \<times> byte list) list \<Rightarrow> nat \<Rightarrow> frame list" where
  "commit_frames io nt ps k = page_frames io nt ps @ replicate k (page_frame io nt (last ps))"

lemma length_commit_bytes:
  assumes "codec_ok io PageSize ps" "ps \<noteq> []" "length (aSalt h) = 8"
  shows "length (log_bytes h (commit_frames io nt ps k)) = (length ps + k) * (PageSize + WAL_FRAME_HDRSIZE)"
proof -
  obtain d where "io_codec io (last ps) = Some d" "length d = PageSize" using assms(1) last_in_set [OF assms(2)] by (auto simp: codec_ok_def)
  then show ?thesis
    using assms(3) page_frames_len [OF assms(1), of nt]
    by (subst length_log_bytes [where PageSize = PageSize]) (auto simp: commit_frames_def page_frame_def)
qed

lemma WriteFrames_sync_ok:
  assumes "io_ok io" "PageSize \<ge> 8" "PageSize mod 8 = 0" "codec_ok io PageSize ps" "ps \<noteq> []" "length (aSalt (hdr w)) = 8"
  shows "\<exists>k. WriteFrames_sync io PageSize nt isCommit (fl, w) (last ps) off
    = Some (SQLITE_OK, osWrite fl (log_bytes (hdr w) (replicate k (page_frame io nt (last ps)))) off,
        w\<lparr>hdr := foldl next_hdr (hdr w) (replicate k (page_frame io nt (last ps)))\<rparr>, k)"
proof (cases "isCommit \<and> io_sync_tx io \<and> io_pad io")
  case True
  have c: "codec_ok io PageSize [last ps]" using assms(4,5) by (auto simp: codec_ok_def)
  show ?thesis using True WriteFrames_pad_ok [OF assms(1-3) c assms(6), of nt _ fl off 0] by (simp add: WriteFrames_sync_def)
next
  case False
  then show ?thesis using assms(1) by (intro exI [of _ 0]) (auto simp: WriteFrames_sync_def io_ok_def osWrite_def)
qed

lemma commit_empty_log:
  assumes "io_ok io" "page_size_ok PageSize" "codec_ok io PageSize ps" "ps \<noteq> []" "\<forall>p\<in>set ps. 0 < fst p" "nt \<noteq> 0"
    and "wal_refines w ([], 0)" "readLock w > 0" "length (aSalt (hdr w)) = 8" "length (io_rand io) \<ge> 7"
  shows "\<exists>H ck salt k w'. wal_header (io_big io) PageSize (nCkpt w) salt = Some (H, ck) \<and> length salt = 8
    \<and> WriteFrames io [] w PageSize ps nt True
        = Some (SQLITE_OK, H @ log_bytes (log_hdr (io_big io) salt ck) (commit_frames io nt ps k), w')
    \<and> wal_refines w' (map fst ps @ replicate k (fst (last ps)), length ps + k)"
proof -
  define salt where "salt = (if nCkpt w = 0 then take 7 (io_rand io) @ drop 7 (aSalt (hdr w)) else aSalt (hdr w))"
  have salt: "length salt = 8" using assms(9,10) by (simp add: salt_def)
  obtain H ck where H: "wal_header (io_big io) PageSize (nCkpt w) salt = Some (H, ck)" "length H = WAL_HDRSIZE"
    using wal_header_Some [OF salt] .
  have ps: "PageSize \<ge> 8" "PageSize mod 8 = 0" using page_size_checks [OF assms(2)] by auto
  let ?h = "(hdr w)\<lparr>bigEndCksum := io_big io, aSalt := salt, aFrameCksum := ck\<rparr>"
  let ?w1 = "w\<lparr>walPageSize := PageSize, truncateOnCommit := True, hdr := ?h\<rparr>"
  have start: "WriteFrames_start io PageSize [] w = Some (SQLITE_OK, H, ?w1)"
    using H assms(1) by (auto simp: WriteFrames_start_def Let_def io_ok_def osWrite_def salt_def [symmetric])
  let ?F = "page_frames io nt ps" and ?off = "walFrameOffset (length ps + 1) PageSize"
  let ?w2 = "w\<lparr>walPageSize := PageSize, truncateOnCommit := True, hdr := foldl next_hdr ?h ?F\<rparr>" and ?f2 = "H @ log_bytes ?h ?F"
  have o1: "walFrameOffset 1 PageSize = length H" using H(2) by (simp add: walFrameOffset_def)
  have loop: "WriteFrames_loop io PageSize nt True (H, ?w1) ps 0 (walFrameOffset 1 PageSize) = Some (SQLITE_OK, ?f2, ?w2, length ps, ?off)"
    using WriteFrames_loop_ok [OF assms(1) ps assms(3), of ?w1 True nt "walFrameOffset 1 PageSize" 0 H] salt assms(6) o1
    by (simp add: osWrite_def)
  have o2: "?off = length ?f2"
    using length_commit_bytes [OF assms(3,4), of ?h nt 0] salt H(2) by (simp add: walFrameOffset_def commit_frames_def)
  obtain k where k: "WriteFrames_sync io PageSize nt True (?f2, ?w2) (last ps) ?off
    = Some (SQLITE_OK, osWrite ?f2 (log_bytes (hdr ?w2) (replicate k (page_frame io nt (last ps)))) ?off,
        w\<lparr>walPageSize := PageSize, truncateOnCommit := True, hdr := foldl next_hdr (foldl next_hdr ?h ?F) (replicate k (page_frame io nt (last ps)))\<rparr>, k)"
    using WriteFrames_sync_ok [OF assms(1) ps assms(3,4), of ?w2 nt True ?f2 ?off] salt by auto
  let ?w3 = "w\<lparr>walPageSize := PageSize, truncateOnCommit := True, hdr := foldl next_hdr (foldl next_hdr ?h ?F) (replicate k (page_frame io nt (last ps)))\<rparr>"
  let ?f3 = "H @ log_bytes ?h (commit_frames io nt ps k)"
  have f3: "osWrite ?f2 (log_bytes (hdr ?w2) (replicate k (page_frame io nt (last ps)))) ?off = ?f3"
    unfolding o2 by (simp add: osWrite_def commit_frames_def log_bytes_append)
  have l3: "length ?f3 = walFrameOffset (length ps + k + 1) PageSize"
    using length_commit_bytes [OF assms(3,4), of ?h nt k] salt H(2) by (simp add: walFrameOffset_def)
  define w4 where "w4 = (if mxWalSize w \<ge> 0 then ?w3\<lparr>truncateOnCommit := False\<rparr> else ?w3)"
  have hmx: "mxFrame (foldl next_hdr h fs) = mxFrame h" for h fs
    by (induction fs arbitrary: h) (auto simp: next_hdr_def split: prod.splits)
  have ref: "wal_refines w4 ([], 0)" using assms(7) by (auto simp: w4_def wal_refines_def index_inv_def env_ok_def hmx)
  obtain w' where w': "WriteFrames_index w4 PageSize (map fst ps) k nt True = Some (SQLITE_OK, w')"
      "wal_refines w' (map fst ps @ replicate k (fst (last ps)), length ps + k)"
    using step_write [OF ref, of "map fst ps" PageSize k nt] assms(4,5,6) by (auto simp: last_map)
  have pre: "writeLock w" "mxFrame (hdr w) = 0" using assms(7) by (simp_all add: wal_refines_def)
  have lim: "WriteFrames_limit io PageSize True (?f3, ?w3) (length ps + k + 1) = (?f3, w4)"
    using l3 by (simp add: walLimitSize_def WriteFrames_limit_def w4_def)
  have "WriteFrames io [] w PageSize ps nt True = Some (SQLITE_OK, ?f3, w')"
    unfolding WriteFrames_def walRestartLog_def
    using pre assms(4,6,8) by (simp add: start loop k [unfolded f3] lim w'(1) del: One_nat_def cong: if_cong)
  moreover have "log_bytes ?h (commit_frames io nt ps k) = log_bytes (log_hdr (io_big io) salt ck) (commit_frames io nt ps k)"
    by (rule log_bytes_cong) (simp_all add: log_hdr_def zero_hdr_def)
  ultimately show ?thesis using H(1) salt w'(2) by metis
qed

lemma page_frames_nth:
  "i < length ps \<Longrightarrow> fst (page_frames io nt ps ! i) = word_of_nat (fst (ps ! i)) \<and> snd (snd (page_frames io nt ps ! i)) = the (io_codec io (ps ! i))"
proof (induction ps arbitrary: i)
  case (Cons p ps)
  then show ?case by (cases i) (auto simp: page_frame_def)
qed simp

lemma commit_frames_nth:
  assumes "ps \<noteq> []"
  shows "length (commit_frames io nt ps k) = length (ps @ replicate k (last ps))"
    and "i < length (ps @ replicate k (last ps)) \<Longrightarrow>
      fst (commit_frames io nt ps k ! i) = word_of_nat (fst ((ps @ replicate k (last ps)) ! i))
      \<and> snd (snd (commit_frames io nt ps k ! i)) = the (io_codec io ((ps @ replicate k (last ps)) ! i))"
  using page_frames_nth [of i ps io nt] by (auto simp: commit_frames_def nth_append page_frame_def)

lemma commit_frames_pages:
  assumes "ps \<noteq> []" "\<forall>p\<in>set ps. 0 < fst p \<and> fst p < 2 ^ 32"
  shows "map (unat \<circ> fst) (commit_frames io nt ps k) = map fst (ps @ replicate k (last ps))"
proof (rule nth_equalityI)
  fix i assume "i < length (map (unat \<circ> fst) (commit_frames io nt ps k))"
  then have i: "i < length (ps @ replicate k (last ps))" using commit_frames_nth(1) [OF assms(1)] by simp
  have "(ps @ replicate k (last ps)) ! i \<in> set (ps @ replicate k (last ps))" using i by (rule nth_mem)
  then have "fst ((ps @ replicate k (last ps)) ! i) < 2 ^ 32" using assms by (auto split: if_splits)
  then have "unat (word_of_nat (fst ((ps @ replicate k (last ps)) ! i)) :: uint32) = fst ((ps @ replicate k (last ps)) ! i)"
    by (simp add: unat_of_nat take_bit_nat_eq_self)
  then show "map (unat \<circ> fst) (commit_frames io nt ps k) ! i = map fst (ps @ replicate k (last ps)) ! i"
    using i commit_frames_nth(2) [OF assms(1) i, of io nt] commit_frames_nth(1) [OF assms(1), of io nt k] 
    by (simp del: length_append map_append add: nth_map)
qed (use commit_frames_nth(1) [OF assms(1)] in simp)

lemma commit_frames_ok:
  assumes "codec_ok io PageSize ps" "ps \<noteq> []" "\<forall>p\<in>set ps. 0 < fst p \<and> fst p < 2 ^ 32"
  shows "\<forall>f\<in>set (commit_frames io nt ps k). frame_ok PageSize f"
proof
  fix f assume "f \<in> set (commit_frames io nt ps k)"
  then obtain i where i: "i < length (commit_frames io nt ps k)" "commit_frames io nt ps k ! i = f" by (auto simp: in_set_conv_nth)
  let ?p = "(ps @ replicate k (last ps)) ! i"
  have l: "i < length (ps @ replicate k (last ps))" using i(1) commit_frames_nth(1) [OF assms(2)] by simp
  then have "?p \<in> set (ps @ replicate k (last ps))" by (rule nth_mem)
  then have p: "?p \<in> set ps" using assms(2) by (auto split: if_splits)
  then obtain d where "io_codec io ?p = Some d" "length d = PageSize" using assms(1) by (auto simp: codec_ok_def)
  moreover have "(word_of_nat (fst ?p) :: uint32) \<noteq> 0"
  proof -
    have "0 < fst ?p" "fst ?p < 2 ^ 32" using p assms(3) by auto
    then have "unat (word_of_nat (fst ?p) :: uint32) = fst ?p" by (simp add: unat_of_nat take_bit_nat_eq_self)
    then show ?thesis using \<open>0 < fst ?p\<close> by (metis unat_0 less_numeral_extra(3))
  qed
  ultimately show "frame_ok PageSize f" using commit_frames_nth(2) [OF assms(2) l, of io nt] i(2) by (simp add: frame_ok_def)
qed

lemma last_page_frames: "ps \<noteq> [] \<Longrightarrow> last (page_frames io nt ps) = page_frame io nt (last ps)"
  by (induction ps) (auto simp: neq_Nil_conv)

lemma commit_frames_committed:
  assumes "ps \<noteq> []" "0 < nt" "nt < 2 ^ 32"
  shows "committed (commit_frames io nt ps k) = commit_frames io nt ps k \<and> unat (fst (snd (last (commit_frames io nt ps k)))) = nt"
proof -
  have ne: "commit_frames io nt ps k \<noteq> []" using assms(1) by (cases ps) (auto simp: commit_frames_def)
  have "last (commit_frames io nt ps k) = page_frame io nt (last ps)"
    using last_page_frames [OF assms(1)] by (cases k) (auto simp: commit_frames_def last_append)
  then have l: "fst (snd (last (commit_frames io nt ps k))) = word_of_nat nt" by (simp add: page_frame_def)
  have u: "unat (word_of_nat nt :: uint32) = nt" using assms(3) by (simp add: unat_of_nat take_bit_nat_eq_self)
  then have "(word_of_nat nt :: uint32) \<noteq> 0" using assms(2) by (metis unat_0 less_numeral_extra(3))
  moreover have "committed (xs @ [x]) = xs @ [x]" if "fst (snd x) \<noteq> 0" for xs x using that by (simp add: committed_def)
  ultimately have "committed (butlast (commit_frames io nt ps k) @ [last (commit_frames io nt ps k)]) = commit_frames io nt ps k"
    using l by (metis append_butlast_last_id ne)
  then show ?thesis using ne l u by simp
qed

lemma map_of_replicate_last:
  assumes "ps \<noteq> []"
  shows "map_of (rev (ps @ replicate k (last ps))) pg = map_of (rev ps) pg"
proof (induction k)
  case (Suc k)
  obtain qs p where "ps = qs @ [p]" using assms by (metis append_butlast_last_id)
  moreover have "rev (ps @ replicate (Suc k) (last ps)) = last ps # rev (ps @ replicate k (last ps))"
    by (simp add: replicate_append_same [symmetric] del: replicate_append_same)
  ultimately show ?case using Suc by (cases p) auto
qed simp

lemma ReadUint32_take: "length a \<ge> 4 \<Longrightarrow> length b \<ge> 4 \<Longrightarrow> take 4 a = take 4 b \<Longrightarrow> ReadUint32 a = ReadUint32 b"
proof -
  assume a: "length a \<ge> 4" "length b \<ge> 4" "take 4 a = take 4 b"
  then have "a ! i = b ! i" if "i < 4" for i using that by (metis nth_take)
  then show ?thesis using a(1,2) by (simp add: ReadUint32_def)
qed

lemma IncrementUint32_salt:
  assumes "length salt = 8"
  shows "\<exists>s. IncrementUint32 salt 1 = Some s \<and> take 4 s \<noteq> take 4 salt \<and> length s = 8"
proof -
  obtain v where v: "ReadUint32 salt = Some v" using assms by (simp add: ReadUint32_def)
  obtain s where s: "WriteUint32 salt (v + 1) = Some s" using assms by (simp add: WriteUint32_def)
  have l: "length s = 8" using s assms by (auto simp: WriteUint32_def)
  obtain b0 b1 b2 b3 r where "salt = b0 # b1 # b2 # b3 # r" using assms by (auto simp: numeral_eq_Suc length_Suc_conv)
  then have "ReadUint32 s = Some (v + 1)" using s by (auto simp: WriteUint32_def ReadUint32_def uint32_round)
  then have "take 4 s \<noteq> take 4 salt" using ReadUint32_take [of s salt] v l assms by auto
  then show ?thesis using v s l by (auto simp: IncrementUint32_def)
qed

lemma walDecodeFrame_salt:
  assumes "length old = 24" "take 4 (aSalt h) \<noteq> take 4 (take 8 (drop 8 old))"
  shows "\<exists>ck. walDecodeFrame big h d old = Some (None, ck)"
proof -
  have "take 8 (aSalt h) \<noteq> take 8 (drop 8 old)"
  proof
    assume "take 8 (aSalt h) = take 8 (drop 8 old)"
    then have "take 4 (take 8 (aSalt h)) = take 4 (take 8 (drop 8 old))" by (rule arg_cong)
    then show False using assms(2) by simp
  qed
  then show ?thesis using assms(1) by (simp add: walDecodeFrame_def WAL_FRAME_HDRSIZE_def)
qed

section \<open>Properties\<close>

text \<open>
  C21. A frame header is accepted by \<open>walDecodeFrame\<close>, on a machine of any byte order, exactly when it
  is the header that \<open>walEncodeFrame\<close> (on a machine of any byte order) writes for its page number,
  size, content and the checksum of the frames before it; the running checksum then agrees.
\<close>

theorem frame_decode_iff_encode:
  assumes "length (aSalt h) = 8" and "length aData \<ge> 8" and "length aData mod 8 = 0" and "length aFrame = 24"
  shows "walDecodeFrame big h aData aFrame = Some (Some (pgno, nTruncate), ck) \<longleftrightarrow>
    pgno \<noteq> 0 \<and> walEncodeFrame big' h pgno nTruncate aData = Some (aFrame, ck)"
  using walDecodeFrame_iff [of h aData aFrame big pgno nTruncate ck] walEncodeFrame_eq [of h aData big' pgno nTruncate] assms
  by (auto simp: page_data_def)

theorem frame_decode_iff_encode_witness:
  "\<exists>aFrame ck. length aFrame = 24
     \<and> walDecodeFrame True zero_hdr (replicate 8 7) aFrame = Some (Some (5, 0), ck)
     \<and> walEncodeFrame False zero_hdr 5 0 (replicate 8 7) = Some (aFrame, ck)"
proof -
  let ?F = "frame_bytes zero_hdr 5 0 (replicate 8 7)" and ?c = "frame_cksum zero_hdr 5 0 (replicate 8 7)"
  have "length (aSalt zero_hdr) = 8" by (simp add: zero_hdr_def)
  moreover from this have "length ?F = 24" by (rule length_frame_bytes)
  moreover have "walEncodeFrame False zero_hdr 5 0 (replicate 8 7) = Some (?F, ?c)"
    using calculation(1) by (intro walEncodeFrame_eq) (simp_all add: page_data_def)
  ultimately show ?thesis
    using frame_decode_iff_encode [of zero_hdr "replicate 8 7" ?F True 5 0 ?c False] by auto
qed

text \<open>
  C1. Crash recovery: cut a log of any frames at any byte after its header. Recovery (on a machine of
  any byte order) succeeds; a reader that starts then sees exactly the frames up to the last commit
  that is completely in the file: for every page the last such frame, with the database size of
  that commit, and the header is published.
\<close>

theorem recover_after_crash:
  assumes "wal_header be PageSize ckpt salt = Some (H, ck)" and "length salt = 8" and "page_size_ok PageSize" and "ckpt < 2 ^ 32"
    and "\<forall>f\<in>set fs. frame_ok PageSize f" and "fs \<noteq> []" and "32 < n"
    and "\<forall>off. io off = SQLITE_OK" and "env_ok w" and "writeLock w"
  shows "\<exists>w'. walIndexRecover big SQLITE_OK io True (take n (H @ log_bytes (log_hdr be salt ck) fs)) w = Some (SQLITE_OK, w')
    \<and> (let done = committed (take ((n - 32) div (PageSize + 24)) fs) in
         mxFrame (hdr w') = length done \<and> nPage (hdr w') = (if done = [] then 0 else unat (fst (snd (last done)))) \<and> shmHdr w' = hdr w'
       \<and> (\<forall>pg>0. walRead_frame (w'\<lparr>readLock := 1\<rparr>) pg
             = Some (SQLITE_OK, w'\<lparr>readLock := 1\<rparr>, last_frame (map (unat \<circ> fst) done) pg)))"
proof -
  let ?done = "committed (take ((n - 32) div (PageSize + 24)) fs)"
  obtain w' ps where w': "walIndexRecover big SQLITE_OK io True (take n (H @ log_bytes (log_hdr be salt ck) fs)) w = Some (SQLITE_OK, w')"
      "mxFrame (hdr w') = length ?done" "nPage (hdr w') = (if ?done = [] then 0 else unat (fst (snd (last ?done))))" "shmHdr w' = hdr w'"
      "index_inv w' ps" "length ?done \<le> length ps" "map (unat \<circ> fst) ?done = take (length ?done) ps"
    using recover_ok [OF assms, of big] by blast
  have "walRead_frame (w'\<lparr>readLock := 1\<rparr>) pg = Some (SQLITE_OK, w'\<lparr>readLock := 1\<rparr>, last_frame (map (unat \<circ> fst) ?done) pg)" if "pg > 0" for pg
    using walRead_frame_ok [of "w'\<lparr>readLock := 1\<rparr>" ps pg] w' that by (simp add: index_inv_def)
  then show ?thesis using w' unfolding Let_def by auto
qed

theorem recover_after_crash_witness:
  "\<exists>H ck w'. wal_header False 512 9 (replicate 8 1) = Some (H, ck)
    \<and> walIndexRecover True SQLITE_OK (\<lambda>_. SQLITE_OK) True
        (take 1103 (H @ log_bytes (log_hdr False (replicate 8 1) ck) [(5, 7, replicate 512 0), (6, 7, replicate 512 0)]))
        (fresh_wal test_env 0) = Some (SQLITE_OK, w')
    \<and> mxFrame (hdr w') = 1 \<and> walRead_frame (w'\<lparr>readLock := 1\<rparr>) 5 = Some (SQLITE_OK, w'\<lparr>readLock := 1\<rparr>, 1)"
proof -
  obtain H ck where H: "wal_header False 512 9 (replicate 8 1) = Some (H, ck)"
    by (simp add: wal_header_def walChecksumBytes_def Let_def WAL_HDRSIZE_def)
  have c: "committed [(5, 7, replicate 512 0)] = [(5, 7, replicate 512 0)]" by (simp add: committed_def)
  have l: "last_frame [5] 5 = 1" by (simp add: last_frame_def)
  have w: "writeLock (fresh_wal test_env 0)" by (simp add: fresh_wal_def Let_def)
  show ?thesis
    using recover_after_crash [OF H, of "[(5, 7, replicate 512 0), (6, 7, replicate 512 0)]" 1103 "\<lambda>_. SQLITE_OK" "fresh_wal test_env 0" True]
      test_wal(1) [of 0] w H c l
    by (auto simp: page_size_ok_def frame_ok_def Let_def)
qed

text \<open>
  C14. Commits survive a crash: a transaction committed to an empty log (with or without padding to a
  sector boundary) reports success, and when another connection, of any byte order, then recovers the
  log from the file, every read of a page answers with the content committed last for that page, or
  says that the page is not in the log; the database size is the one of the commit.
\<close>

theorem commit_then_recover:
  assumes "io_ok io" and "page_size_ok PageSize" and "codec_ok io PageSize ps" and "ps \<noteq> []"
    and "\<forall>p\<in>set ps. 0 < fst p \<and> fst p < 2 ^ 32" and "0 < nt" and "nt < 2 ^ 32"
    and "wal_refines w ([], 0)" and "readLock w > 0" and "length (aSalt (hdr w)) = 8" and "length (io_rand io) \<ge> 7" and "nCkpt w < 2 ^ 32"
    and "env_ok r" and "writeLock r" and "0 < pg"
  shows "\<exists>log w' r'. WriteFrames io [] w PageSize ps nt True = Some (SQLITE_OK, log, w')
    \<and> walIndexRecover big SQLITE_OK (io_rc io) True log r = Some (SQLITE_OK, r') \<and> nPage (hdr r') = nt
    \<and> sqlite3WalRead (io_rc io) log (r'\<lparr>readLock := 1\<rparr>) pg PageSize
        = Some (SQLITE_OK, r'\<lparr>readLock := 1\<rparr>, Option.bind (map_of (rev ps) pg) (\<lambda>d. io_codec io (pg, d)))"
proof -
  obtain H ck salt k w' where W: "wal_header (io_big io) PageSize (nCkpt w) salt = Some (H, ck)" "length salt = 8"
      "WriteFrames io [] w PageSize ps nt True = Some (SQLITE_OK, H @ log_bytes (log_hdr (io_big io) salt ck) (commit_frames io nt ps k), w')"
    using commit_empty_log [OF assms(1-4) _ _ assms(8-11), of nt] assms(5,6) by auto
  let ?fs = "commit_frames io nt ps k" and ?h = "log_hdr (io_big io) salt ck" and ?G = "ps @ replicate k (last ps)"
  let ?log = "H @ log_bytes ?h ?fs"
  have io: "\<forall>off. io_rc io off = SQLITE_OK" using assms(1) by (simp add: io_ok_def)
  have G: "set ?G = set ps" "?G \<noteq> []" using assms(4) by auto
  have fs: "length ?fs = length ?G" "\<And>i. i < length ?G \<Longrightarrow> fst (?fs ! i) = word_of_nat (fst (?G ! i)) \<and> snd (snd (?fs ! i)) = the (io_codec io (?G ! i))"
    using commit_frames_nth(1) [OF assms(4), of io nt k] commit_frames_nth(2) [OF assms(4), of _ k io nt] by auto
  have fin: "\<forall>f\<in>set ?fs. frame_ok PageSize f" using commit_frames_ok [OF assms(3,4)] assms(5) by auto
  have lH: "length H = 32" using wal_header_read(2) [OF W(1,2) assms(2,12), of "[0]" "io_rc io"] io by (simp add: WAL_HDRSIZE_def)
  have lsalt: "length (aSalt ?h) = 8" using W(2) by (simp add: log_hdr_def)
  have ll: "length (log_bytes ?h ?fs) = length ?fs * (PageSize + WAL_FRAME_HDRSIZE)"
    using fin by (intro length_log_bytes lsalt) (simp add: frame_ok_def)
  then have n: "(length ?log - 32) div (PageSize + 24) = length ?fs" "32 < length ?log" "?fs \<noteq> []"
    using lH fs(1) G(2) by (auto simp: WAL_FRAME_HDRSIZE_def)
  have cm: "committed ?fs = ?fs" "unat (fst (snd (last ?fs))) = nt" using commit_frames_committed [OF assms(4,6,7)] by auto
  obtain r' qs where r': "walIndexRecover big SQLITE_OK (io_rc io) True ?log r = Some (SQLITE_OK, r')"
      "mxFrame (hdr r') = length ?fs" "nPage (hdr r') = nt" "index_inv r' qs" "length ?fs \<le> length qs" "map (unat \<circ> fst) ?fs = take (length ?fs) qs"
      "hPageSize (hdr r') = (PageSize AND 0xff00) OR drop_bit 16 PageSize"
    using recover_ok [OF W(1,2) assms(2,12) fin n(3,2) io assms(13,14), of big] n cm by auto
  have pgs: "map (unat \<circ> fst) ?fs = map fst ?G" using commit_frames_pages [OF assms(4,5)] .
  let ?r = "r'\<lparr>readLock := 1\<rparr>" and ?i = "last_frame (map fst ?G) pg"
  have F: "walRead_frame ?r pg = Some (SQLITE_OK, ?r, ?i)"
    using walRead_frame_ok [of ?r qs pg] r'(2,4,5,6) assms(15) pgs by (simp add: index_inv_def)
  have sz: "walPagesize ?r = PageSize" using r'(7) by (intro walPagesize_ok assms(2)) simp
  have mo: "map_of (rev ?G) pg = map_of (rev ps) pg" using map_of_replicate_last [OF assms(4)] .
  have "sqlite3WalRead (io_rc io) ?log ?r pg PageSize = Some (SQLITE_OK, ?r, Option.bind (map_of (rev ps) pg) (\<lambda>d. io_codec io (pg, d)))"
  proof (cases "?i = 0")
    case True
    then show ?thesis using F last_frame_map_of [of ?G pg] mo by (simp add: sqlite3WalRead_def)
  next
    case False
    then have i: "0 < ?i" "?i \<le> length ?G" "fst (?G ! (?i - 1)) = pg" "map_of (rev ps) pg = Some (snd (?G ! (?i - 1)))"
      using last_frame_map_of [of ?G pg] mo by auto
    let ?j = "?i - 1"
    have j: "?j < length ?fs" "?j < length ?G" using i fs(1) by auto
    have pe: "(pg, snd (?G ! ?j)) = ?G ! ?j" using i(3) prod.collapse [of "?G ! ?j"] by simp
    have "?G ! ?j \<in> set ps" using j(2) G(1) nth_mem by metis
    then obtain d where d: "io_codec io (?G ! ?j) = Some d" "length d = PageSize" using assms(3) by (auto simp: codec_ok_def)
    have "take PageSize (drop (?j * (PageSize + WAL_FRAME_HDRSIZE) + WAL_FRAME_HDRSIZE) (log_bytes ?h ?fs)) = d"
      using log_bytes_nth [OF _ lsalt j(1), of PageSize] fin fs(2) [OF j(2)] d(1) by (simp add: frame_ok_def)
    then have "take PageSize (drop (walFrameOffset ?i PageSize + WAL_FRAME_HDRSIZE) ?log) = d"
      using lH by (simp add: walFrameOffset_def WAL_HDRSIZE_def)
    then have "osRead (io_rc io) ?log PageSize (walFrameOffset ?i PageSize + WAL_FRAME_HDRSIZE) = (SQLITE_OK, d)"
      using io d(2) by (simp add: osRead_def Let_def)
    then show ?thesis using F i(1,4) d(1) pe sz by (simp add: sqlite3WalRead_def Let_def)
  qed
  then show ?thesis using W(3) r'(1,3) by blast
qed


definition test_io :: WalIo where
  "test_io = \<lparr>io_big = False, io_rc = (\<lambda>_. SQLITE_OK), io_sync = SQLITE_OK, io_sector = 512, io_rand = [1, 2, 3, 4, 5, 6, 7],
     io_codec = (\<lambda>p. Some (snd p)), io_truncate = True, io_sync_flags = True, io_sync_level = True, io_sync_tx = True,
     io_pad = True, io_sync_header = True, io_lockShared = (\<lambda>_ _. SQLITE_OK), io_lockExclusive = (\<lambda>_ _ _. SQLITE_OK)\<rparr>"

definition test_log :: Wal where
  "test_log = (fresh_wal test_env 0)\<lparr>hdr := zero_hdr, shmHdr := zero_hdr\<rparr>"

lemma test_log: "wal_refines test_log ([], 0)" "readLock test_log > 0" "length (aSalt (hdr test_log)) = 8" "nCkpt test_log < 2 ^ 32"
  using test_wal(2) [of 0] by (simp_all add: test_log_def wal_refines_def index_inv_def zero_hdr_def fresh_wal_def Let_def env_ok_def test_env_def)

definition test_pages :: "(nat \<times> byte list) list" where
  "test_pages = [(5, replicate 512 1), (6, replicate 512 2), (5, replicate 512 3)]"

lemma test_io_ok: "io_ok test_io" "length (io_rand test_io) \<ge> 7" "codec_ok test_io 512 test_pages"
  by (simp_all add: io_ok_def test_io_def codec_ok_def test_pages_def)

theorem commit_then_recover_witness:
  "\<exists>log w' r'. WriteFrames test_io [] test_log 512 test_pages 6 True = Some (SQLITE_OK, log, w')
    \<and> walIndexRecover True SQLITE_OK (io_rc test_io) True log (fresh_wal test_env 0) = Some (SQLITE_OK, r') \<and> nPage (hdr r') = 6
    \<and> sqlite3WalRead (io_rc test_io) log (r'\<lparr>readLock := 1\<rparr>) 5 512 = Some (SQLITE_OK, r'\<lparr>readLock := 1\<rparr>, Some (replicate 512 3))"
proof -
  have "writeLock (fresh_wal test_env 0)" by (simp add: fresh_wal_def Let_def)
  moreover have "Option.bind (map_of (rev test_pages) 5) (\<lambda>d. io_codec test_io (5, d)) = Some (replicate 512 3)"
    by (simp add: test_io_def test_pages_def)
  moreover have "test_pages \<noteq> []" "\<forall>p\<in>set test_pages. 0 < fst p \<and> fst p < 2 ^ 32" by (simp_all add: test_pages_def)
  ultimately show ?thesis
    using commit_then_recover [OF test_io_ok(1) _ test_io_ok(3) _ _ _ _ test_log(1-3) test_io_ok(2) test_log(4) test_wal(1) [of 0], of 6 5 True]
    by (simp add: page_size_ok_def)
qed

text \<open>
  C5. Restart of the log: when the whole log has been copied into the database and no reader uses it,
  the next writer starts again at frame 1 with new salts, publishes the empty header, and reads through
  mark 1; then no frame header written under the old salts is accepted any more, whatever data follows.
\<close>

theorem restart_invalidates_frames:
  assumes "readLock w = 0" and "nBackfill w = mxFrame (hdr w)" and "0 < mxFrame (hdr w)" and "writeLock w"
    and "length (aSalt (hdr w)) = 8" and "length (io_rand io) \<ge> 4" and "length (aReadMark w) = WAL_NREADER" and "hd (aReadMark w) = 0"
    and "\<forall>n i k. io_lockExclusive io n i k = SQLITE_OK" and "\<forall>n i. io_lockShared io n i = SQLITE_OK" and "\<not> shmReadOnly w"
    and "length d \<ge> 8" and "length d mod 8 = 0" and "length old = 24" and "take 8 (drop 8 old) = aSalt (hdr w)"
  shows "\<exists>w' ck. walRestartLog io w = Some (SQLITE_OK, w') \<and> mxFrame (hdr w') = 0 \<and> shmHdr w' = hdr w'
    \<and> nBackfill w' = 0 \<and> nCkpt w' = nCkpt w + 1 \<and> readLock w' = 1 \<and> aReadMark w' = [0, 0, READMARK_NOT_USED, READMARK_NOT_USED, READMARK_NOT_USED]
    \<and> walDecodeFrame big (hdr w') d old = Some (None, ck)"
proof -
  obtain s where s: "IncrementUint32 (aSalt (hdr w)) 1 = Some s" "take 4 s \<noteq> take 4 (aSalt (hdr w))" "length s = 8"
    using IncrementUint32_salt [OF assms(5)] by blast
  let ?h = "(hdr w)\<lparr>mxFrame := 0, aSalt := take 4 s @ take 4 (io_rand io)\<rparr>"
  let ?w1 = "w\<lparr>nCkpt := nCkpt w + 1, hdr := ?h, shmHdr := ?h, nBackfill := 0, aReadMark := 0 # replicate (WAL_NREADER - 1) READMARK_NOT_USED, readLock := - 1\<rparr>"
  let ?w2 = "?w1\<lparr>aReadMark := [0, 0, READMARK_NOT_USED, READMARK_NOT_USED, READMARK_NOT_USED], readLock := 1\<rparr>"
  have lk: "walLockExclusive io v n i k = SQLITE_OK" "walLockShared io v n i = SQLITE_OK" for v n i k
    using assms(9,10) by (simp_all add: walLockExclusive_def walLockShared_def)
  have four: "[1..<WAL_NREADER] = [1, 2, 3, 4]" "replicate (WAL_NREADER - 1) x = [x, x, x, x]" for x :: nat
    by (simp_all add: WAL_NREADER_def upt_rec numeral_eq_Suc)
  have "READMARK_NOT_USED > 0" by (simp add: READMARK_NOT_USED_def)
  then have tr: "walTryBeginRead io ?w1 1 = Some (SQLITE_OK, ?w2)"
    using assms(11) lk unfolding walTryBeginRead_def four by simp
  obtain t where mark: "aReadMark w = 0 # t" using assms(7,8) by (cases "aReadMark w") (auto simp: WAL_NREADER_def)
  have "walRestartLog io w = Some (SQLITE_OK, ?w2)"
    using assms(1-4) lk s(1) mark tr by (simp add: walRestartLog_def walIndexWriteHdr_def walRestartLog_retry.simps [of _ _ 0])
  moreover have "take 4 (aSalt (hdr ?w2)) \<noteq> take 4 (take 8 (drop 8 old))" using s(2,3) assms(15) by simp
  then have "\<exists>ck. walDecodeFrame big (hdr ?w2) d old = Some (None, ck)"
    using assms(14) by (intro walDecodeFrame_salt) auto
  ultimately show ?thesis by auto
qed


theorem restart_invalidates_frames_witness:
  "\<exists>w' ck. walRestartLog (test_io\<lparr>io_rand := [9, 9, 9, 9]\<rparr>)
      ((fresh_wal test_env 4)\<lparr>readLock := 0, nBackfill := 7, hdr := zero_hdr\<lparr>mxFrame := 7\<rparr>\<rparr>) = Some (SQLITE_OK, w')
    \<and> mxFrame (hdr w') = 0 \<and> walDecodeFrame True (hdr w') (replicate 8 5) (replicate 24 0) = Some (None, ck)"
proof -
  let ?w = "(fresh_wal test_env 4)\<lparr>readLock := 0, nBackfill := 7, hdr := zero_hdr\<lparr>mxFrame := 7\<rparr>\<rparr>"
  have "take 8 (drop 8 (replicate 24 (0 :: byte))) = aSalt (hdr ?w)" by (simp add: zero_hdr_def numeral_eq_Suc)
  then show ?thesis
    using restart_invalidates_frames [of ?w "test_io\<lparr>io_rand := [9, 9, 9, 9]\<rparr>" "replicate 8 5" "replicate 24 0" True]
    by (auto simp: fresh_wal_def Let_def zero_hdr_def WAL_NREADER_def test_io_def)
qed

text \<open>
  A log that already holds frames: \<open>WriteFrames\<close> succeeds and indexes the new frames after the old ones,
  but writes them from offset 32 on, over frame 1, because its \<open>iFrame\<close> is still 0.
\<close>

lemma append_overwrites_log:
  assumes "io_ok io" "page_size_ok PageSize" "codec_ok io PageSize ps" "ps \<noteq> []" "\<forall>p\<in>set ps. 0 < fst p"
    and "wal_refines w (old, c)" "old \<noteq> []" "readLock w > 0" "length (aSalt (hdr w)) = 8" "walPageSize w = PageSize"
  shows "\<exists>w'. WriteFrames io fl w PageSize ps 0 False = Some (SQLITE_OK, osWrite fl (log_bytes (hdr w) (page_frames io 0 ps)) 32, w')
    \<and> wal_refines w' (old @ map fst ps, c)"
proof -
  have ps: "PageSize \<ge> 8" "PageSize mod 8 = 0" using page_size_checks [OF assms(2)] by auto
  let ?w2 = "w\<lparr>hdr := foldl next_hdr (hdr w) (page_frames io 0 ps)\<rparr>"
  have hmx: "mxFrame (foldl next_hdr h fs) = mxFrame h" for h fs
    by (induction fs arbitrary: h) (auto simp: next_hdr_def split: prod.splits)
  have ref: "wal_refines ?w2 (old, c)" using assms(6) by (auto simp: wal_refines_def hmx)
  obtain w' where w': "WriteFrames_index ?w2 PageSize (map fst ps) 0 0 False = Some (SQLITE_OK, w')" "wal_refines w' (old @ map fst ps, c)"
    using step_write [OF ref, of "map fst ps" PageSize 0 0] assms(4,5) by auto
  have pre: "writeLock w" "mxFrame (hdr w) > 0" using assms(6,7) by (simp_all add: wal_refines_def)
  have "walFrameOffset 1 PageSize = 32" by (simp add: walFrameOffset_def WAL_HDRSIZE_def)
  then show ?thesis
    unfolding WriteFrames_def walRestartLog_def
    using pre assms(4,8,10) w' WriteFrames_loop_ok [OF assms(1) ps assms(3,9), of False 0 32 0 fl]
    by (simp add: WriteFrames_sync_def WriteFrames_limit_def del: One_nat_def)
qed


end
