(* ===== verification/WalSort.thy ===== *)
theory WalSort
  imports Prelude
begin

text \<open>
  The sort of src/wal.go that orders the frames of one wal-index page by database page
  (\<open>walMerge\<close>, \<open>walMergesort\<close>). An element of the array is the number of a slot, its key the page
  number \<open>aContent\<close> gives it; of several slots with one key only the largest is kept. A sub-list is
  its place in the array (the pointer \<open>aList\<close>) and its elements.
\<close>

section \<open>Operations\<close>

function walMerge_loop :: "(nat \<Rightarrow> nat) \<Rightarrow> nat list \<Rightarrow> nat list \<Rightarrow> nat list option" where
  "walMerge_loop aContent aLeft aRight =
     (if aRight = [] \<and> aLeft = [] then Some []
      else
        let (logpage, aLeft', aRight') =
              (if aLeft \<noteq> [] \<and> (aRight = [] \<or> aContent (hd aLeft) < aContent (hd aRight))
               then (hd aLeft, tl aLeft, aRight)
               else (hd aRight, aLeft, tl aRight));
            dbpage = aContent logpage;
            aLeft'' = (if aLeft' \<noteq> [] \<and> aContent (hd aLeft') = dbpage then tl aLeft' else aLeft')
        in do {
          assertion (aLeft'' = [] \<or> aContent (hd aLeft'') > dbpage);
          assertion (aRight' = [] \<or> aContent (hd aRight') > dbpage);
          aTmp \<leftarrow> walMerge_loop aContent aLeft'' aRight';
          Some (logpage # aTmp)
        })"
  by pat_completeness auto

termination walMerge_loop
  by (relation "measure (\<lambda>(c, l, r). length l + length r)") (auto simp: neq_Nil_conv split: if_splits)

declare walMerge_loop.simps [simp del]

definition walMerge :: "(nat \<Rightarrow> nat) \<Rightarrow> nat \<times> nat list \<Rightarrow> nat \<times> nat list \<Rightarrow> (nat \<times> nat list) option" where
  "walMerge aContent left right = do {
     assertion (snd left \<noteq> [] \<and> snd right \<noteq> []);
     aTmp \<leftarrow> walMerge_loop aContent (snd left) (snd right);
     Some (fst left, aTmp)
   }"

text \<open>One step of both loops of \<open>walMergesort\<close>: sub-list \<open>iSub\<close> is merged in front of \<open>aMerge\<close>; \<open>m\<close> is \<open>iList\<close> or \<open>nList\<close>.\<close>

definition walMergesort_sub :: "(nat \<Rightarrow> nat) \<Rightarrow> nat \<Rightarrow> (nat \<times> nat list) option list \<Rightarrow> nat \<Rightarrow> nat \<times> nat list \<Rightarrow> (nat \<times> nat list) option" where
  "walMergesort_sub aContent m aSub iSub aMerge = do {
     assertion (iSub < length aSub);
     p \<leftarrow> aSub ! iSub;
     assertion (length (snd p) \<le> 2 ^ iSub);
     assertion (fst p = m - (m AND (2 * 2 ^ iSub - 1)));
     walMerge aContent p aMerge
   }"

lemma bit_imp_exp_le: "bit m n \<Longrightarrow> 2 ^ n \<le> (m :: nat)"
  by (metis bit_iff_odd div_less even_zero not_le)

function walMergesort_carry :: "(nat \<Rightarrow> nat) \<Rightarrow> nat \<Rightarrow> (nat \<times> nat list) option list \<Rightarrow> nat \<Rightarrow> nat \<times> nat list \<Rightarrow> (nat \<times> (nat \<times> nat list)) option" where
  "walMergesort_carry aContent iList aSub iSub aMerge =
     (if bit iList iSub then do {
        aMerge \<leftarrow> walMergesort_sub aContent iList aSub iSub aMerge;
        walMergesort_carry aContent iList aSub (iSub + 1) aMerge
      } else Some (iSub, aMerge))"
  by pat_completeness auto

termination walMergesort_carry
  by (relation "measure (\<lambda>(c, iList, aSub, iSub, aMerge). iList + 1 - 2 ^ iSub)")
    (auto dest!: bit_imp_exp_le intro!: diff_less_mono2)

declare walMergesort_carry.simps [simp del]

text \<open>The loop over the input; \<open>iList\<close> elements have been taken.\<close>

fun walMergesort_loop ::
  "(nat \<Rightarrow> nat) \<Rightarrow> nat list \<Rightarrow> nat \<Rightarrow> (nat \<times> nat list) option list \<Rightarrow> nat \<Rightarrow> nat \<times> nat list
   \<Rightarrow> ((nat \<times> nat list) option list \<times> nat \<times> (nat \<times> nat list)) option" where
  "walMergesort_loop aContent [] iList aSub iSub aMerge = Some (aSub, iSub, aMerge)"
| "walMergesort_loop aContent (x # xs) iList aSub iSub aMerge = do {
     (iSub, aMerge) \<leftarrow> walMergesort_carry aContent iList aSub 0 (iList, [x]);
     assertion (iSub < length aSub);
     walMergesort_loop aContent xs (iList + 1) (aSub[iSub := Some aMerge]) iSub aMerge
   }"

text \<open>The last loop, over the sub-lists that are left.\<close>

fun walMergesort_rest ::
  "(nat \<Rightarrow> nat) \<Rightarrow> nat \<Rightarrow> (nat \<times> nat list) option list \<Rightarrow> nat list \<Rightarrow> nat \<times> nat list \<Rightarrow> (nat \<times> nat list) option" where
  "walMergesort_rest aContent nList aSub [] aMerge = Some aMerge"
| "walMergesort_rest aContent nList aSub (iSub # is) aMerge = do {
     aMerge \<leftarrow> (if bit nList iSub then walMergesort_sub aContent nList aSub iSub aMerge else Some aMerge);
     walMergesort_rest aContent nList aSub is aMerge
   }"

definition walMergesort :: "(nat \<Rightarrow> nat) \<Rightarrow> nat list \<Rightarrow> nat list option" where
  "walMergesort aContent aList = do {
     assertion (length aList \<le> 4096 \<and> length aList > 0);
     (aSub, iSub, aMerge) \<leftarrow> walMergesort_loop aContent aList 0 (replicate 13 None) 0 (0, []);
     aMerge \<leftarrow> walMergesort_rest aContent (length aList) aSub [iSub + 1..<13] aMerge;
     assertion (fst aMerge = 0);
     Some (snd aMerge)
   }"

section \<open>What the merge keeps\<close>

text \<open>The last slot of every key in a range of slots, in the order of the keys.\<close>

definition latest :: "(nat \<Rightarrow> nat) \<Rightarrow> nat \<Rightarrow> nat \<Rightarrow> nat list \<Rightarrow> bool" where
  "latest c a b xs \<longleftrightarrow> ssorted (map c xs) \<and> set xs = {j. a \<le> j \<and> j < b \<and> (\<forall>k. j < k \<and> k < b \<longrightarrow> c k \<noteq> c j)}"

lemma latest_length: "latest c a b xs \<Longrightarrow> length xs \<le> b - a"
proof -
  assume l: "latest c a b xs"
  then have "distinct xs" by (metis latest_def strict_sorted_iff distinct_map)
  then have "length xs = card (set xs)" by (simp add: distinct_card)
  also have "\<dots> \<le> card {a..<b}" using l by (intro card_mono) (auto simp: latest_def)
  finally show ?thesis by simp
qed

lemma latest_single: "latest c n (Suc n) [n]"
proof -
  have "{j. n \<le> j \<and> j < Suc n \<and> (\<forall>k. j < k \<and> k < Suc n \<longrightarrow> c k \<noteq> c j)} = {n}" by (rule set_eqI) (simp, linarith)
  then show ?thesis by (simp add: latest_def)
qed

lemma latest_set: "latest c a b xs \<Longrightarrow> j \<in> set xs \<longleftrightarrow> a \<le> j \<and> j < b \<and> (\<forall>k. j < k \<and> k < b \<longrightarrow> c k \<noteq> c j)"
  by (simp add: latest_def)

lemma latest_nonempty:
  assumes "latest c a b xs" "a < b"
  shows "xs \<noteq> []"
proof -
  have "a \<le> b - 1 \<and> b - 1 < b \<and> (\<forall>k. b - 1 < k \<and> k < b \<longrightarrow> c k \<noteq> c (b - 1))" using assms(2) by linarith
  then have "b - 1 \<in> set xs" by (simp add: latest_set [OF assms(1)])
  then show ?thesis by auto
qed

lemma merge_take_left:
  assumes "ssorted (map c (x # l))" "ssorted (map c r)" "r = [] \<or> c x < c (hd r)"
  shows "walMerge_loop c (x # l) r = Option.bind (walMerge_loop c l r) (\<lambda>t. Some (x # t))"
    and "\<forall>y\<in>set l \<union> set r. c x < c y"
proof -
  show A: "\<forall>y\<in>set l \<union> set r. c x < c y" using assms by (cases r) auto
  have "l = [] \<or> c (hd l) > c x" "r = [] \<or> c (hd r) > c x" using A by auto
  then show "walMerge_loop c (x # l) r = Option.bind (walMerge_loop c l r) (\<lambda>t. Some (x # t))"
    using assms(3) by (subst walMerge_loop.simps) auto
qed

lemma merge_take_right:
  assumes "ssorted (map c l)" "ssorted (map c (y # r))" "l = [] \<or> c y \<le> c (hd l)"
  defines "l' \<equiv> if l \<noteq> [] \<and> c (hd l) = c y then tl l else l"
  shows "walMerge_loop c l (y # r) = Option.bind (walMerge_loop c l' r) (\<lambda>t. Some (y # t))"
    and "\<forall>z\<in>set l' \<union> set r. c y < c z" and "ssorted (map c l')"
    and "{z \<in> set l. c z \<notin> c ` set (y # r)} = {z \<in> set l'. c z \<notin> c ` set r}"
proof -
  show A: "\<forall>z\<in>set l' \<union> set r. c y < c z" using assms by (cases l) auto
  show "ssorted (map c l')" using assms(1) unfolding l'_def by (cases l) auto
  have "l' = [] \<or> c (hd l') > c y" "r = [] \<or> c (hd r) > c y" using A by auto
  then show "walMerge_loop c l (y # r) = Option.bind (walMerge_loop c l' r) (\<lambda>t. Some (y # t))"
    using assms(3) by (subst walMerge_loop.simps) (auto simp: l'_def Let_def)
  show "{z \<in> set l. c z \<notin> c ` set (y # r)} = {z \<in> set l'. c z \<notin> c ` set r}"
    using A unfolding l'_def by (cases l) (auto split: if_splits, metis UnCI less_irrefl, metis UnCI less_irrefl)
qed

lemma walMerge_loop_ok:
  assumes "ssorted (map c l)" "ssorted (map c r)"
  shows "\<exists>xs. walMerge_loop c l r = Some xs \<and> ssorted (map c xs) \<and> set xs = set r \<union> {x \<in> set l. c x \<notin> c ` set r}"
  using assms
proof (induction "length l + length r" arbitrary: l r rule: less_induct)
  case less
  consider (nil) "l = []" "r = []" | (left) x l' where "l = x # l'" "r = [] \<or> c x < c (hd r)"
    | (right) y r' where "r = y # r'" "l = [] \<or> c y \<le> c (hd l)"
    by (cases l; cases r) (auto, meson not_less)
  then show ?case
  proof cases
    case nil
    then show ?thesis by (subst walMerge_loop.simps) simp
  next
    case left
    note m = merge_take_left [OF less.prems [unfolded left(1)] left(2)]
    obtain xs where "walMerge_loop c l' r = Some xs" "ssorted (map c xs)" "set xs = set r \<union> {x \<in> set l'. c x \<notin> c ` set r}"
      using less.hyps [of l' r] less.prems left(1) by auto
    then show ?thesis using m left(1) by auto
  next
    case right
    note m = merge_take_right [OF less.prems [unfolded right(1)] right(2)]
    let ?l = "if l \<noteq> [] \<and> c (hd l) = c y then tl l else l"
    obtain xs where xs: "walMerge_loop c ?l r' = Some xs" "ssorted (map c xs)" "set xs = set r' \<union> {x \<in> set ?l. c x \<notin> c ` set r'}"
      using less.hyps [of ?l r'] m(3) less.prems(2) right(1) by (auto simp: neq_Nil_conv split: if_splits)
    have "\<forall>z\<in>set xs. c y < c z" using m(2) xs(3) by blast
    then show ?thesis using m(1,4) xs right(1) by auto
  qed
qed

lemma walMerge_latest:
  assumes "latest c a b l" "latest c b d r" "a < b" "b < d"
  shows "\<exists>xs. walMerge c (p, l) (q, r) = Some (p, xs) \<and> latest c a d xs"
proof -
  obtain xs where xs: "walMerge_loop c l r = Some xs" "ssorted (map c xs)" "set xs = set r \<union> {x \<in> set l. c x \<notin> c ` set r}"
    using walMerge_loop_ok [of c l r] assms(1,2) by (auto simp: latest_def)
  have key: "c j \<in> c ` set r \<longleftrightarrow> (\<exists>k. b \<le> k \<and> k < d \<and> c k = c j)" for j
  proof
    assume "c j \<in> c ` set r"
    then obtain k where "k \<in> set r" "c k = c j" by auto
    then show "\<exists>k. b \<le> k \<and> k < d \<and> c k = c j" using latest_set [OF assms(2)] by blast
  next
    assume "\<exists>k. b \<le> k \<and> k < d \<and> c k = c j"
    then obtain k where k: "b \<le> k" "k < d" "c k = c j" by auto
    let ?S = "{i. b \<le> i \<and> i < d \<and> c i = c j}"
    have fin: "finite ?S" by (rule finite_subset [of _ "{..<d}"]) auto
    define M where "M = Max ?S"
    have "M \<in> ?S" unfolding M_def using k fin by (intro Max_in) auto
    then have m: "b \<le> M" "M < d" "c M = c j" by auto
    have "c i \<noteq> c M" if i: "M < i \<and> i < d" for i
    proof
      assume "c i = c M"
      then have "i \<in> ?S" using m i by auto
      then have "i \<le> M" unfolding M_def using fin by (intro Max_ge)
      then show False using i by simp
    qed
    then have "M \<in> set r" using m latest_set [OF assms(2), of M] by blast
    then show "c j \<in> c ` set r" using m(3) by (metis image_eqI)
  qed
  have "j \<in> set xs \<longleftrightarrow> a \<le> j \<and> j < d \<and> (\<forall>k. j < k \<and> k < d \<longrightarrow> c k \<noteq> c j)" for j
  proof (cases "j < b")
    case True
    then have "j \<notin> set r" using latest_set [OF assms(2), of j] by linarith
    then have "j \<in> set xs \<longleftrightarrow> j \<in> set l \<and> \<not> (\<exists>k. b \<le> k \<and> k < d \<and> c k = c j)" by (simp add: xs(3) key)
    also have "\<dots> \<longleftrightarrow> a \<le> j \<and> (\<forall>k. j < k \<and> k < b \<longrightarrow> c k \<noteq> c j) \<and> (\<forall>k. b \<le> k \<and> k < d \<longrightarrow> c k \<noteq> c j)"
      using True by (simp add: latest_set [OF assms(1)]) blast
    also have "\<dots> \<longleftrightarrow> a \<le> j \<and> (\<forall>k. j < k \<and> k < d \<longrightarrow> c k \<noteq> c j)"
    proof -
      have "(j < k \<and> k < d) = ((j < k \<and> k < b) \<or> (b \<le> k \<and> k < d))" for k using True assms(4) by linarith
      then show ?thesis by blast
    qed
    finally show ?thesis using True assms(4) by simp
  next
    case False
    then have "j \<notin> set l" using latest_set [OF assms(1), of j] by linarith
    then show ?thesis using False assms(3) by (simp add: xs(3) latest_set [OF assms(2)])
  qed
  then have "set xs = {j. a \<le> j \<and> j < d \<and> (\<forall>k. j < k \<and> k < d \<longrightarrow> c k \<noteq> c j)}" by blast
  then have "latest c a d xs" using xs(2) by (simp add: latest_def)
  then show ?thesis using xs(1) latest_nonempty [OF assms(1,3)] latest_nonempty [OF assms(2,4)] by (simp add: walMerge_def)
qed

section \<open>The sort\<close>

text \<open>Element \<open>m\<close> with its \<open>s\<close> low bits cleared: where the run of \<open>2 ^ s\<close> elements around \<open>m\<close> starts.\<close>

definition low :: "nat \<Rightarrow> nat \<Rightarrow> nat" where
  "low m s = m div 2 ^ s * 2 ^ s"

lemma low_0 [simp]: "low m 0 = m" by (simp add: low_def)
lemma low_le: "low m s \<le> m" by (simp add: low_def)

lemma clear_bits: "m - (m AND (2 * 2 ^ s - 1)) = low m (Suc s)" for m :: nat
proof -
  have "m AND (2 * 2 ^ s - 1) = take_bit (Suc s) m" by (simp add: take_bit_eq_mask mask_eq_exp_minus_1)
  then show ?thesis by (simp add: low_def take_bit_eq_mod minus_mod_eq_div_mult)
qed

lemma low_Suc: "low m s = low m (Suc s) + (if bit m s then 2 ^ s else 0)"
proof -
  have "m div 2 ^ s = 2 * (m div 2 ^ Suc s) + of_bool (bit m s)"
    by (simp add: bit_iff_odd div_mult2_eq mult.commute [of 2] flip: mod_2_eq_odd)
  then show ?thesis by (simp add: low_def algebra_simps)
qed

text \<open>Adding one to a number whose \<open>t\<close> low bits are ones and whose bit \<open>t\<close> is zero.\<close>

lemma bits_Suc:
  assumes "\<forall>i<t. bit m i" "\<not> bit m t"
  shows "m + 1 = low m (Suc t) + 2 ^ t" and "bit (m + 1) j \<longleftrightarrow> j = t \<or> t < j \<and> bit m j"
    and "t \<le> j \<Longrightarrow> low (m + 1) (Suc j) = low m (Suc j)"
proof -
  define q where "q = m div 2 ^ Suc t"
  have "take_bit (Suc t) m = mask t"
    by (rule bit_eqI) (use assms in \<open>auto simp: bit_take_bit_iff bit_mask_iff less_Suc_eq\<close>)
  then have "m mod 2 ^ Suc t = 2 ^ t - 1" by (simp add: take_bit_eq_mod mask_eq_exp_minus_1)
  then have m: "m = q * 2 ^ Suc t + (2 ^ t - 1)" unfolding q_def by (metis div_mult_mod_eq)
  then have m1: "m + 1 = q * 2 ^ Suc t + 2 ^ t" by simp
  have q1: "(m + 1) div 2 ^ Suc t = q" unfolding m1 by simp
  show "m + 1 = low m (Suc t) + 2 ^ t" using m1 by (simp add: low_def q_def)
  have hi: "(m + 1) div 2 ^ Suc j = m div 2 ^ Suc j" if "t \<le> j" for j
  proof -
    have "2 ^ Suc j = (2 ^ Suc t * 2 ^ (j - t) :: nat)" using that by (simp flip: power_add)
    then show ?thesis using q1 q_def by (simp only: div_mult2_eq)
  qed
  show "t \<le> j \<Longrightarrow> low (m + 1) (Suc j) = low m (Suc j)" by (simp only: low_def hi)
  consider "j < t" | "j = t" | "t < j" by linarith
  then show "bit (m + 1) j \<longleftrightarrow> j = t \<or> t < j \<and> bit m j"
  proof cases
    case 1
    have "m + 1 = 2 ^ j * (2 * (q * 2 ^ (t - j) + 2 ^ (t - Suc j)))"
      unfolding m1 using 1 by (simp add: algebra_simps flip: power_add power_Suc)
    then show ?thesis using 1 by (simp add: bit_iff_odd)
  next
    case 2
    have "(m + 1) div 2 ^ t = 2 * q + 1" unfolding m1 by simp
    then show ?thesis using 2 by (simp add: bit_iff_odd)
  next
    case 3
    then obtain i where "j = Suc i" "t \<le> i" by (cases j) auto
    then show ?thesis using 3 hi by (simp add: bit_iff_odd)
  qed
qed

definition subs_ok :: "(nat \<Rightarrow> nat) \<Rightarrow> nat \<Rightarrow> (nat \<times> nat list) option list \<Rightarrow> bool" where
  "subs_ok c m aSub \<longleftrightarrow> length aSub = 13
     \<and> (\<forall>j. bit m j \<longrightarrow> j < 13 \<and> (\<exists>xs. aSub ! j = Some (low m (Suc j), xs) \<and> latest c (low m (Suc j)) (low m j) xs))"

lemma walMergesort_sub_ok:
  assumes "subs_ok c m aSub" "bit m s" "latest c (low m s) e r" "low m s < e"
  shows "\<exists>xs. walMergesort_sub c m aSub s (q, r) = Some (low m (Suc s), xs) \<and> latest c (low m (Suc s)) e xs"
proof -
  obtain l where l: "s < length aSub" "aSub ! s = Some (low m (Suc s), l)" "latest c (low m (Suc s)) (low m s) l"
    using assms(1,2) by (auto simp: subs_ok_def)
  have lt: "low m s = low m (Suc s) + 2 ^ s" using low_Suc [of m s] assms(2) by simp
  obtain xs where "walMerge c (low m (Suc s), l) (q, r) = Some (low m (Suc s), xs)" "latest c (low m (Suc s)) e xs"
    using walMerge_latest [OF l(3) assms(3) _ assms(4), of "low m (Suc s)" q] lt by auto
  then show ?thesis using l latest_length [OF l(3)] lt clear_bits [of m s] by (simp add: walMergesort_sub_def)
qed

lemma walMergesort_carry_ok:
  assumes "subs_ok c m aSub" "latest c (low m s) (m + 1) r" "\<forall>i < s. bit m i"
  shows "\<exists>t xs. walMergesort_carry c m aSub s (low m s, r) = Some (t, (low m t, xs))
     \<and> latest c (low m t) (m + 1) xs \<and> (\<forall>i<t. bit m i) \<and> \<not> bit m t"
  using assms
proof (induction c m aSub s "(low m s, r)" arbitrary: r rule: walMergesort_carry.induct)
  case (1 c m aSub s)
  show ?case
  proof (cases "bit m s")
    case True
    have "low m s < m + 1" using low_le [of m s] by simp
    then obtain xs where xs: "walMergesort_sub c m aSub s (low m s, r) = Some (low m (Suc s), xs)" "latest c (low m (Suc s)) (m + 1) xs"
      using walMergesort_sub_ok [OF 1(2) True 1(3)] by blast
    have "\<forall>i < s + 1. bit m i" using True 1(4) by (auto simp: less_Suc_eq)
    then obtain t ys where "walMergesort_carry c m aSub (s + 1) (low m (s + 1), xs) = Some (t, (low m t, ys))"
        "latest c (low m t) (m + 1) ys" "\<forall>i<t. bit m i" "\<not> bit m t"
      using 1(1) [OF True, of xs] 1(2) xs by auto
    then show ?thesis using xs(1) True by (subst walMergesort_carry.simps) auto
  next
    case False
    then show ?thesis using 1 by (subst walMergesort_carry.simps) auto
  qed
qed

text \<open>After \<open>m\<close> elements: the sub-lists are in place and \<open>aMerge\<close> is the smallest of them, number \<open>t\<close>.\<close>

definition sort_inv :: "(nat \<Rightarrow> nat) \<Rightarrow> nat \<Rightarrow> (nat \<times> nat list) option list \<Rightarrow> nat \<Rightarrow> nat \<times> nat list \<Rightarrow> bool" where
  "sort_inv c m aSub t aM \<longleftrightarrow> subs_ok c m aSub
     \<and> (0 < m \<longrightarrow> bit m t \<and> (\<forall>i<t. \<not> bit m i) \<and> fst aM = low m (Suc t) \<and> latest c (low m (Suc t)) m (snd aM))"

lemma sort_step:
  assumes "sort_inv c m aSub t0 aM0" "m < 4096"
  shows "\<exists>t aM. walMergesort_carry c m aSub 0 (m, [m]) = Some (t, aM) \<and> t < length aSub
     \<and> sort_inv c (m + 1) (aSub[t := Some aM]) t aM"
proof -
  have sub: "subs_ok c m aSub" using assms(1) by (simp add: sort_inv_def)
  obtain t xs where t: "walMergesort_carry c m aSub 0 (m, [m]) = Some (t, (low m t, xs))"
      "latest c (low m t) (m + 1) xs" "\<forall>i<t. bit m i" "\<not> bit m t"
    using walMergesort_carry_ok [OF sub, of 0 "[m]"] latest_single [of c m] by auto
  note b = bits_Suc [OF t(3,4)]
  have l: "low m t = low m (Suc t)" using low_Suc [of m t] t(4) by simp
  have "2 ^ t \<le> m + 1" using b(1) by simp
  then have "2 ^ t < (2 :: nat) ^ 13" using assms(2) by simp
  then have t13: "t < 13" by (simp only: power_strict_increasing_iff)
  have low1: "low (m + 1) t = m + 1"
  proof -
    have "\<not> bit (m + 1) i" if "i < t" for i using b(2) that by simp
    then have "low (m + 1) s = m + 1" if "s \<le> t" for s using that
    proof (induction s)
      case (Suc s)
      then show ?case using low_Suc [of "m + 1" s] by simp
    qed simp
    then show ?thesis by simp
  qed
  have "subs_ok c (m + 1) (aSub[t := Some (low m t, xs)])"
    unfolding subs_ok_def
  proof (intro conjI allI impI)
    show "length (aSub[t := Some (low m t, xs)]) = 13" using sub by (simp add: subs_ok_def)
    fix j assume "bit (m + 1) j"
    then have j: "j = t \<or> t < j \<and> bit m j" using b(2) by simp
    then show "j < 13" using t13 sub by (auto simp: subs_ok_def)
    show "\<exists>ys. aSub[t := Some (low m t, xs)] ! j = Some (low (m + 1) (Suc j), ys) \<and> latest c (low (m + 1) (Suc j)) (low (m + 1) j) ys"
    proof (cases "j = t")
      case True
      then show ?thesis using t13 sub t(2) l b(3) [of t] low1 by (simp add: subs_ok_def)
    next
      case False
      then obtain i where i: "j = Suc i" "t \<le> i" "bit m j" using j by (cases j) auto
      then have "low (m + 1) j = low m j" "low (m + 1) (Suc j) = low m (Suc j)" using b(3) [of i] b(3) [of j] by simp_all
      then show ?thesis using False i(3) sub by (auto simp: subs_ok_def)
    qed
  qed
  then have "sort_inv c (m + 1) (aSub[t := Some (low m t, xs)]) t (low m t, xs)"
    using b t(2) l by (auto simp: sort_inv_def)
  then show ?thesis using t(1) t13 sub by (auto simp: subs_ok_def)
qed

lemma walMergesort_loop_ok:
  assumes "sort_inv c m aSub t aM" "m + k \<le> 4096"
  shows "\<exists>aSub' t' aM'. walMergesort_loop c [m..<m + k] m aSub t aM = Some (aSub', t', aM') \<and> sort_inv c (m + k) aSub' t' aM'"
  using assms
proof (induction k arbitrary: m aSub t aM)
  case (Suc k)
  obtain t1 aM1 where s: "walMergesort_carry c m aSub 0 (m, [m]) = Some (t1, aM1)" "t1 < length aSub"
      "sort_inv c (m + 1) (aSub[t1 := Some aM1]) t1 aM1"
    using sort_step [OF Suc.prems(1)] Suc.prems(2) by auto
  obtain aSub' t' aM' where "walMergesort_loop c [m + 1..<m + 1 + k] (m + 1) (aSub[t1 := Some aM1]) t1 aM1 = Some (aSub', t', aM')"
      "sort_inv c (m + 1 + k) aSub' t' aM'"
    using Suc.IH [OF s(3)] Suc.prems(2) by auto
  moreover have "[m..<m + Suc k] = m # [m + 1..<m + 1 + k]" by (simp add: upt_rec)
  ultimately show ?case using s(1,2) by simp
qed simp

lemma walMergesort_rest_ok:
  assumes "subs_ok c n aSub" "0 < n" "latest c (low n s) n (snd aM)" "fst aM = low n s" "low n s < n" "s \<le> 13"
  shows "\<exists>xs. walMergesort_rest c n aSub [s..<13] aM = Some (low n 13, xs) \<and> latest c (low n 13) n xs"
  using assms(3-6)
proof (induction "13 - s" arbitrary: s aM)
  case 0
  then show ?case by (cases aM) auto
next
  case (Suc k)
  then have up: "[s..<13] = s # [Suc s..<13]" by (simp add: upt_rec)
  have le: "low n (Suc s) \<le> low n s" using low_Suc [of n s] by simp
  obtain xs where xs: "(if bit n s then walMergesort_sub c n aSub s aM else Some aM) = Some (low n (Suc s), xs)" "latest c (low n (Suc s)) n xs"
  proof (cases "bit n s")
    case True
    then show ?thesis using walMergesort_sub_ok [OF assms(1) True Suc.prems(1,3), of "fst aM"] that by auto
  next
    case False
    then have "low n (Suc s) = low n s" using low_Suc [of n s] by simp
    then show ?thesis using False Suc.prems that [of "snd aM"] by (cases aM) auto
  qed
  then show ?case using Suc.hyps(1) [of "Suc s" "(low n (Suc s), xs)"] Suc.hyps(2) Suc.prems le up by auto
qed

lemma walMergesort_ok:
  assumes "0 < n" "n \<le> 4096"
  shows "\<exists>xs. walMergesort c [0..<n] = Some xs \<and> latest c 0 n xs"
proof -
  have "sort_inv c 0 (replicate 13 None) 0 (0, [])" by (simp add: sort_inv_def subs_ok_def)
  then obtain aSub t aM where l: "walMergesort_loop c [0..<n] 0 (replicate 13 None) 0 (0, []) = Some (aSub, t, aM)" "sort_inv c n aSub t aM"
    using walMergesort_loop_ok [of c 0 "replicate 13 None" 0 "(0, [])" n] assms(2) by auto
  have inv: "subs_ok c n aSub" "bit n t" "fst aM = low n (Suc t)" "latest c (low n (Suc t)) n (snd aM)"
    using l(2) assms(1) by (auto simp: sort_inv_def)
  have "t < 13" using inv(1,2) by (auto simp: subs_ok_def)
  moreover have "low n (Suc t) < n" 
  proof -
    have "low n (Suc t) < low n (Suc t) + 2 ^ t" by simp
    also have "\<dots> \<le> n" using low_Suc [of n t] inv(2) low_le [of n t] by simp
    finally show ?thesis .
  qed
  moreover have "low n 13 = 0" using assms(2) by (simp add: low_def)
  ultimately obtain xs where "walMergesort_rest c n aSub [Suc t..<13] aM = Some (0, xs)" "latest c 0 n xs"
    using walMergesort_rest_ok [OF inv(1) assms(1) inv(4,3)] by auto
  then show ?thesis using l(1) assms by (simp add: walMergesort_def)
qed

section \<open>Property\<close>

text \<open>
  C23. \<open>walMergesort\<close> on the slots of a wal-index page (at most 4096): no assertion on the sub-lists or
  their places fails; the result is in strictly ascending order of page number and holds, for every
  page, exactly the last slot of that page.
\<close>

theorem mergesort_correct:
  assumes "0 < n" and "n \<le> 4096"
  shows "\<exists>xs. walMergesort aContent [0..<n] = Some xs \<and> ssorted (map aContent xs)
     \<and> set xs = {j. j < n \<and> (\<forall>k. j < k \<and> k < n \<longrightarrow> aContent k \<noteq> aContent j)}"
  using walMergesort_ok [OF assms, of aContent] by (auto simp: latest_def)

theorem mergesort_correct_witness:
  "\<exists>xs. walMergesort (\<lambda>j. [5, 3, 5, 7, 3] ! j) [0..<5] = Some xs \<and> map (\<lambda>j. [5, 3, 5, 7, 3] ! j) xs = [3, 5, 7 :: nat]"
proof -
  let ?c = "\<lambda>j. [5, 3, 5, 7, 3 :: nat] ! j"
  obtain xs where xs: "walMergesort ?c [0..<5] = Some xs" "ssorted (map ?c xs)"
      "set xs = {j. j < 5 \<and> (\<forall>k. j < k \<and> k < 5 \<longrightarrow> ?c k \<noteq> ?c j)}"
    using mergesort_correct [of 5 ?c] by auto
  have "{j. j < (5::nat) \<and> (\<forall>k. j < k \<and> k < 5 \<longrightarrow> ?c k \<noteq> ?c j)} = {j \<in> set [0..<5]. \<forall>k\<in>set [0..<5]. j < k \<longrightarrow> ?c k \<noteq> ?c j}" by auto
  also have "\<dots> = {2, 3, 4}" by code_simp
  finally have "set (map ?c xs) = set [3, 5, 7]" using xs(3) by auto
  then have "map ?c xs = [3, 5, 7]" using ssorted_unique [OF xs(2), of "[3, 5, 7]"] by simp
  then show ?thesis using xs(1) by auto
qed

end
