(* ===== verification/WalCkpt.thy ===== *)
theory WalCkpt
  imports WalLog WalSort
begin

text \<open>
  Checkpoints of src/wal.go: the iterator that visits the pages of the log in ascending order
  (\<open>walIteratorInit\<close>, \<open>walIteratorNext\<close>) and \<open>walCheckpoint\<close>, which copies frames into the database
  file as far as active readers allow.
\<close>

section \<open>The iterator\<close>

text \<open>
  The entries of a segment: \<open>aIndex\<close> is the sorted list of slots, \<open>aPageNumber\<close> gives the page of a
  slot, \<open>iZero\<close> the frame of slot 0 and \<open>iNext\<close> the next entry of \<open>aIndex\<close>.
\<close>

record WalSegment =
  iNext :: nat
  aIndex :: "nat list"
  aPageNumber :: "nat \<Rightarrow> nat"
  iZero :: nat

record WalIterator =
  iPrior :: nat
  aSegment :: "WalSegment list"

text \<open>The inner loop of \<open>walIteratorNext\<close>: skip entries up to \<open>iMin\<close>; the result is the next page and its frame.\<close>

function walIteratorNext_skip :: "nat \<Rightarrow> WalSegment \<Rightarrow> WalSegment \<times> (nat \<times> nat) option" where
  "walIteratorNext_skip iMin seg =
     (if iNext seg < length (aIndex seg) then
        let slot = aIndex seg ! iNext seg; iPg = aPageNumber seg slot in
        if iPg > iMin then (seg, Some (iPg, iZero seg + slot))
        else walIteratorNext_skip iMin (seg\<lparr>iNext := iNext seg + 1\<rparr>)
      else (seg, None))"
  by pat_completeness auto

termination walIteratorNext_skip
  by (relation "measure (\<lambda>(m, seg). length (aIndex seg) - iNext seg)") auto

declare walIteratorNext_skip.simps [simp del]

text \<open>The outer loop runs from the last segment to the first; \<open>best\<close> is \<open>(iRet, *piFrame)\<close>.\<close>

fun walIteratorNext_loop :: "nat \<Rightarrow> WalSegment list \<Rightarrow> nat \<times> nat \<Rightarrow> WalSegment list \<times> (nat \<times> nat)" where
  "walIteratorNext_loop iMin [] best = ([], best)"
| "walIteratorNext_loop iMin (seg # segs) best =
     (let (segs, best) = walIteratorNext_loop iMin segs best;
          (seg, r) = walIteratorNext_skip iMin seg
      in (seg # segs, case r of None \<Rightarrow> best | Some (iPg, f) \<Rightarrow> if iPg < fst best then (iPg, f) else best))"

text \<open>\<open>walIteratorNext\<close>: \<^term>\<open>True\<close> when there is no further page; the page and its last frame.\<close>

definition walIteratorNext :: "WalIterator \<Rightarrow> nat \<Rightarrow> (bool \<times> WalIterator \<times> nat \<times> nat) option" where
  "walIteratorNext p piFrame = do {
     assertion (iPrior p < 0xffffffff);
     let (segs, iRet, piFrame) = walIteratorNext_loop (iPrior p) (aSegment p) (0xFFFFFFFF, piFrame);
     Some (iRet = 0xFFFFFFFF, p\<lparr>iPrior := iRet, aSegment := segs\<rparr>, iRet, piFrame)
   }"

text \<open>The loop of \<open>walIteratorInit\<close> over the segments.\<close>

fun walIteratorInit_loop :: "Wal \<Rightarrow> nat \<Rightarrow> nat \<Rightarrow> nat list \<Rightarrow> (rc \<times> Wal \<times> WalSegment list) option" where
  "walIteratorInit_loop w iLast nSegment [] = Some (SQLITE_OK, w, [])"
| "walIteratorInit_loop w iLast nSegment (i # is) = do {
     (rc, w, zero) \<leftarrow> walHashGet w i;
     if rc \<noteq> SQLITE_OK then Some (rc, w, [])
     else do {
       p \<leftarrow> apWiData w i;
       let pages = (\<lambda>j. page_number i p (j + 1));
       let nEntry = (if i + 1 = nSegment then iLast - zero else HASHTABLE_NPAGE - wi_offset i);
       idx \<leftarrow> walMergesort pages [0..<nEntry];
       (rc, w, segs) \<leftarrow> walIteratorInit_loop w iLast nSegment is;
       Some (rc, w, \<lparr>iNext = 0, aIndex = idx, aPageNumber = pages, iZero = zero + 1\<rparr> # segs)
     }
   }"

text \<open>\<open>mem1\<close> and \<open>mem2\<close> tell whether the two allocations succeed.\<close>

definition walIteratorInit :: "bool \<Rightarrow> bool \<Rightarrow> Wal \<Rightarrow> (rc \<times> Wal \<times> WalIterator option) option" where
  "walIteratorInit mem1 mem2 w = do {
     assertion (ckptLock w \<and> mxFrame (hdr w) > 0);
     let iLast = mxFrame (hdr w);
     iHash \<leftarrow> walFramePage iLast;
     let nSegment = iHash + 1;
     if \<not> mem1 then Some (SQLITE_NOMEM, w, None)
     else if \<not> mem2 then Some (SQLITE_NOMEM, w, None)
     else do {
       (rc, w, segs) \<leftarrow> walIteratorInit_loop w iLast nSegment [0..<nSegment];
       Some (rc, w, if rc \<noteq> SQLITE_OK then None else Some \<lparr>iPrior = 0, aSegment = segs\<rparr>)
     }
   }"

section \<open>The checkpoint\<close>

datatype eMode = SQLITE_CHECKPOINT_PASSIVE | SQLITE_CHECKPOINT_FULL | SQLITE_CHECKPOINT_RESTART

text \<open>
  \<open>walBusyLock\<close>: the lock is tried again as long as it is busy and the busy handler, given the number of
  the attempt, agrees. It may run forever; then the result is \<^term>\<open>None\<close>.
\<close>

partial_function (option) walBusyLock_loop ::
  "WalIo \<Rightarrow> Wal \<Rightarrow> (nat \<Rightarrow> bool) option \<Rightarrow> nat \<Rightarrow> nat \<Rightarrow> nat \<Rightarrow> rc option" where
  "walBusyLock_loop io w xBusy lockIdx n attempt =
     (let rc = walLockExclusive io w attempt lockIdx n in
      if rc = SQLITE_BUSY \<and> (case xBusy of None \<Rightarrow> False | Some f \<Rightarrow> f attempt)
      then walBusyLock_loop io w xBusy lockIdx n (attempt + 1)
      else Some rc)"

definition walBusyLock :: "WalIo \<Rightarrow> Wal \<Rightarrow> (nat \<Rightarrow> bool) option \<Rightarrow> nat \<Rightarrow> nat \<Rightarrow> rc option" where
  "walBusyLock io w xBusy lockIdx n = walBusyLock_loop io w xBusy lockIdx n 0"

text \<open>
  The loop over the read marks. A mark whose lock cannot be had belongs to an active reader and
  limits the frames that may be copied. The result says whether the loop left through the \<open>goto\<close>.
\<close>

fun walCheckpoint_marks ::
  "WalIo \<Rightarrow> nat list \<Rightarrow> rc \<Rightarrow> Wal \<Rightarrow> (nat \<Rightarrow> bool) option \<Rightarrow> nat \<Rightarrow> (bool \<times> rc \<times> Wal \<times> (nat \<Rightarrow> bool) option \<times> nat) option" where
  "walCheckpoint_marks io [] rc w xBusy mxSafeFrame = Some (False, rc, w, xBusy, mxSafeFrame)"
| "walCheckpoint_marks io (i # is) rc w xBusy mxSafeFrame =
     (let y = aReadMark w ! i in
      if mxSafeFrame > y then do {
        assertion (y \<le> mxFrame (hdr w));
        rc \<leftarrow> walBusyLock io w xBusy (WAL_READ_LOCK i) 1;
        if rc = SQLITE_OK then
          walCheckpoint_marks io is rc (w\<lparr>aReadMark := (aReadMark w)[i := READMARK_NOT_USED]\<rparr>) xBusy mxSafeFrame
        else if rc = SQLITE_BUSY then walCheckpoint_marks io is rc w None y
        else Some (True, rc, w, xBusy, mxSafeFrame)
      } else walCheckpoint_marks io is rc w xBusy mxSafeFrame)"

text \<open>
  What a checkpoint gets from its surroundings besides the log's \<open>WalIo\<close>: results of database writes
  by offset, of the size request, the truncation and the sync of the database file, and of the
  allocations of the iterator.
\<close>

record CkptIo =
  ck_io :: WalIo
  ck_db :: "nat \<Rightarrow> rc"
  ck_db_size :: rc
  ck_db_truncate :: rc
  ck_db_sync :: rc
  ck_mem1 :: bool
  ck_mem2 :: bool

text \<open>The copy loop. It ends because the pages the iterator returns increase.\<close>

lemma walIteratorNext_skip_gt: "walIteratorNext_skip m seg = (seg', Some (p, f)) \<Longrightarrow> m < p"
  by (induction m seg rule: walIteratorNext_skip.induct)
    (subst (asm) walIteratorNext_skip.simps, auto simp: Let_def split: if_splits)

lemma walIteratorNext_loop_gt:
  "walIteratorNext_loop m segs best = (segs', best') \<Longrightarrow> fst best' = fst best \<or> m < fst best'"
proof (induction segs arbitrary: segs' best')
  case (Cons seg segs)
  obtain segs1 b1 where 1: "walIteratorNext_loop m segs best = (segs1, b1)" by (metis surj_pair)
  obtain seg1 r where 2: "walIteratorNext_skip m seg = (seg1, r)" by (metis surj_pair)
  show ?case using Cons.IH [OF 1] Cons.prems 1 2 walIteratorNext_skip_gt [of m seg seg1]
    by (auto split: option.splits if_splits)
qed simp

lemma walIteratorNext_increases:
  "walIteratorNext p fr = Some (False, p', pg, f) \<Longrightarrow> iPrior p < iPrior p' \<and> iPrior p < 0xffffffff"
  using walIteratorNext_loop_gt [of "iPrior p" "aSegment p" "(0xFFFFFFFF, fr)"]
  by (fastforce simp: walIteratorNext_def split: prod.splits)

function walCheckpoint_copy ::
  "CkptIo \<Rightarrow> byte list \<Rightarrow> Wal \<Rightarrow> nat \<Rightarrow> nat \<Rightarrow> nat \<Rightarrow> nat \<Rightarrow> WalIterator \<Rightarrow> nat \<Rightarrow> byte list \<Rightarrow> (rc \<times> byte list) option" where
  "walCheckpoint_copy io log w PageSize nBack mxSafeFrame mxPage pIter iFrame db = do {
     (finished, pIter', iDbpage, iFrame') \<leftarrow> walIteratorNext pIter iFrame;
     if finished then Some (SQLITE_OK, db)
     else do {
       pg \<leftarrow> walFramePageNumber w iFrame';
       assertion (pg = iDbpage);
       if iFrame' \<le> nBack \<or> iFrame' > mxSafeFrame \<or> iDbpage > mxPage
       then walCheckpoint_copy io log w PageSize nBack mxSafeFrame mxPage pIter' iFrame' db
       else
         let (rc, zBuf) = osRead (io_rc (ck_io io)) log PageSize (walFrameOffset iFrame' PageSize + WAL_FRAME_HDRSIZE) in
         if rc \<noteq> SQLITE_OK then Some (rc, db)
         else
           let iOffset = (iDbpage - 1) * PageSize in
           if ck_db io iOffset \<noteq> SQLITE_OK then Some (ck_db io iOffset, db)
           else walCheckpoint_copy io log w PageSize nBack mxSafeFrame mxPage pIter' iFrame' (osWrite db zBuf iOffset)
     }
   }"
  by pat_completeness auto

termination walCheckpoint_copy
  by (relation "measure (\<lambda>(io, log, w, PageSize, nBack, mxSafeFrame, mxPage, pIter, iFrame, db). 0xffffffff - iPrior pIter)")
    (auto dest!: walIteratorNext_increases)

declare walCheckpoint_copy.simps [simp del]

text \<open>Truncation of the database file.\<close>

definition osTruncate :: "byte list \<Rightarrow> nat \<Rightarrow> byte list" where
  "osTruncate db n = take n (db @ replicate (n - length db) 0)"

text \<open>The block that runs under \<open>WAL_READ_LOCK(0)\<close>, after the lock is taken.\<close>

definition walCheckpoint_backfill ::
  "CkptIo \<Rightarrow> byte list \<Rightarrow> Wal \<Rightarrow> nat \<Rightarrow> nat \<Rightarrow> nat \<Rightarrow> WalIterator \<Rightarrow> byte list \<Rightarrow> (rc \<times> Wal \<times> byte list) option" where
  "walCheckpoint_backfill io log w PageSize mxSafeFrame mxPage pIter db = do {
     let rc = (if io_sync_flags (ck_io io) then io_sync (ck_io io) else SQLITE_OK);
     let rc = (if rc = SQLITE_OK then ck_db_size io else rc);
     (rc, db) \<leftarrow> (if rc = SQLITE_OK then walCheckpoint_copy io log w PageSize (nBackfill w) mxSafeFrame mxPage pIter 0 db else Some (rc, db));
     if rc \<noteq> SQLITE_OK then Some (rc, w, db)
     else
       let (rc, db) =
         (if mxSafeFrame = mxFrame (shmHdr w) then
            if ck_db_truncate io \<noteq> SQLITE_OK then (ck_db_truncate io, db)
            else (if io_sync_flags (ck_io io) then ck_db_sync io else SQLITE_OK, osTruncate db (nPage (hdr w) * PageSize))
          else (SQLITE_OK, db))
       in Some (rc, if rc = SQLITE_OK then w\<lparr>nBackfill := mxSafeFrame\<rparr> else w, db)
   }"

text \<open>The block of \<open>walCheckpoint\<close> after the loop over the marks: lock 0, then the copy.\<close>

definition walCheckpoint_locked ::
  "CkptIo \<Rightarrow> byte list \<Rightarrow> nat \<Rightarrow> WalIterator \<Rightarrow> (nat \<Rightarrow> bool) option \<Rightarrow> nat \<Rightarrow> rc \<Rightarrow> Wal \<Rightarrow> byte list \<Rightarrow> (rc \<times> Wal \<times> byte list) option" where
  "walCheckpoint_locked io log PageSize pIter xBusy mxSafeFrame rc w db =
     (if nBackfill w < mxSafeFrame then do {
        rc \<leftarrow> walBusyLock (ck_io io) w xBusy (WAL_READ_LOCK 0) 1;
        if rc \<noteq> SQLITE_OK then Some (rc, w, db)
        else walCheckpoint_backfill io log w PageSize mxSafeFrame (nPage (hdr w)) pIter db
      } else Some (rc, w, db))"

text \<open>The end of \<open>walCheckpoint\<close> for the modes that wait for readers.\<close>

definition walCheckpoint_finish ::
  "CkptIo \<Rightarrow> eMode \<Rightarrow> (nat \<Rightarrow> bool) option \<Rightarrow> nat \<Rightarrow> rc \<Rightarrow> Wal \<Rightarrow> byte list \<Rightarrow> (rc \<times> Wal \<times> byte list) option" where
  "walCheckpoint_finish io mode xBusy mxSafeFrame rc w db = do {
     let rc = (if rc = SQLITE_BUSY then SQLITE_OK else rc);
     if rc = SQLITE_OK \<and> mode \<noteq> SQLITE_CHECKPOINT_PASSIVE then do {
       assertion (writeLock w);
       if nBackfill w < mxFrame (hdr w) then Some (SQLITE_BUSY, w, db)
       else if mode = SQLITE_CHECKPOINT_RESTART then do {
         assertion (mxSafeFrame = mxFrame (hdr w));
         rc \<leftarrow> walBusyLock (ck_io io) w xBusy (WAL_READ_LOCK 1) (WAL_NREADER - 1);
         Some (rc, w, db)
       } else Some (rc, w, db)
     } else Some (rc, w, db)
   }"

definition walCheckpoint ::
  "CkptIo \<Rightarrow> eMode \<Rightarrow> (nat \<Rightarrow> bool) option \<Rightarrow> byte list \<Rightarrow> Wal \<Rightarrow> byte list \<Rightarrow> (rc \<times> Wal \<times> byte list) option" where
  "walCheckpoint io mode xBusyCall log w db = do {
     let PageSize = walPagesize w;
     if nBackfill w \<ge> mxFrame (hdr w) then Some (SQLITE_OK, w, db)
     else do {
       (rc, w, it) \<leftarrow> walIteratorInit (ck_mem1 io) (ck_mem2 io) w;
       if rc \<noteq> SQLITE_OK then Some (rc, w, db)
       else do {
         pIter \<leftarrow> it;
         let xBusy = (if mode \<noteq> SQLITE_CHECKPOINT_PASSIVE then xBusyCall else None);
         (out, rc, w, xBusy, mxSafeFrame) \<leftarrow> walCheckpoint_marks (ck_io io) [1..<WAL_NREADER] rc w xBusy (mxFrame (hdr w));
         if out then Some (rc, w, db)
         else do {
           (rc, w, db) \<leftarrow> walCheckpoint_locked io log PageSize pIter xBusy mxSafeFrame rc w db;
           walCheckpoint_finish io mode xBusy mxSafeFrame rc w db
         }
       }
     }
   }"

section \<open>The iterator returns the pages in order\<close>

text \<open>The first entry of a segment beyond \<open>iMin\<close>, whatever has been skipped before.\<close>

definition first_entry :: "nat \<Rightarrow> WalSegment \<Rightarrow> (nat \<times> nat) option" where
  "first_entry iMin seg = (case filter (\<lambda>j. iMin < aPageNumber seg j) (aIndex seg) of
     [] \<Rightarrow> None | j # _ \<Rightarrow> Some (aPageNumber seg j, iZero seg + j))"

definition skipped_ok :: "nat \<Rightarrow> WalSegment \<Rightarrow> bool" where
  "skipped_ok iMin seg \<longleftrightarrow> (\<forall>j\<in>set (take (iNext seg) (aIndex seg)). aPageNumber seg j \<le> iMin)"

text \<open>Two segments that differ only in how far they have been read.\<close>

definition same_seg :: "WalSegment \<Rightarrow> WalSegment \<Rightarrow> bool" where
  "same_seg seg seg' \<longleftrightarrow> aIndex seg' = aIndex seg \<and> aPageNumber seg' = aPageNumber seg \<and> iZero seg' = iZero seg"

lemma walIteratorNext_skip_ok:
  assumes "skipped_ok iMin seg"
  shows "\<exists>seg'. walIteratorNext_skip iMin seg = (seg', first_entry iMin seg) \<and> same_seg seg seg' \<and> skipped_ok iMin seg'"
  using assms
proof (induction iMin seg rule: walIteratorNext_skip.induct)
  case (1 iMin seg)
  let ?k = "iNext seg" and ?l = "aIndex seg"
  have pre: "filter (\<lambda>j. iMin < aPageNumber seg j) (take ?k ?l) = []" using "1.prems" by (auto simp: skipped_ok_def filter_empty_conv)
  have split: "filter (\<lambda>j. iMin < aPageNumber seg j) ?l = filter (\<lambda>j. iMin < aPageNumber seg j) (drop ?k ?l)"
    using pre by (metis append_Nil append_take_drop_id filter_append)
  show ?case
  proof (cases "?k < length ?l")
    case True
    then have d: "drop ?k ?l = ?l ! ?k # drop (Suc ?k) ?l" by (simp add: Cons_nth_drop_Suc)
    show ?thesis
    proof (cases "iMin < aPageNumber seg (?l ! ?k)")
      case gt: True
      then have "first_entry iMin seg = Some (aPageNumber seg (?l ! ?k), iZero seg + ?l ! ?k)"
        unfolding first_entry_def split d by simp
      then show ?thesis using True gt "1.prems" by (subst walIteratorNext_skip.simps) (simp add: same_seg_def Let_def)
    next
      case False
      let ?seg = "seg\<lparr>iNext := ?k + 1\<rparr>"
      have "skipped_ok iMin ?seg" using "1.prems" True False by (auto simp: skipped_ok_def take_Suc_conv_app_nth)
      moreover have "first_entry iMin ?seg = first_entry iMin seg" by (simp add: first_entry_def cong: list.case_cong)
      ultimately show ?thesis
        using "1.IH" [OF True refl refl False] True False
        by (subst walIteratorNext_skip.simps) (auto simp: same_seg_def Let_def)
    qed
  next
    case False
    then have "first_entry iMin seg = None" unfolding first_entry_def split by simp
    then show ?thesis using False "1.prems" by (subst walIteratorNext_skip.simps) (simp add: same_seg_def)
  qed
qed

text \<open>
  \<open>is_next ps a n iMin (p, f)\<close>: of the pages beyond \<open>iMin\<close> in the frames \<open>a + 1\<close> to \<open>n\<close>, \<open>p\<close> is the
  smallest and \<open>f\<close> its last frame.
\<close>

definition is_next :: "nat list \<Rightarrow> nat \<Rightarrow> nat \<Rightarrow> nat \<Rightarrow> nat \<times> nat \<Rightarrow> bool" where
  "is_next ps a n iMin pf \<longleftrightarrow> (case pf of (p, f) \<Rightarrow> a < f \<and> f \<le> n \<and> ps ! (f - 1) = p \<and> iMin < p
     \<and> (\<forall>F. a < F \<and> F \<le> n \<and> iMin < ps ! (F - 1) \<longrightarrow> p \<le> ps ! (F - 1) \<and> (ps ! (F - 1) = p \<longrightarrow> F \<le> f)))"

definition no_next :: "nat list \<Rightarrow> nat \<Rightarrow> nat \<Rightarrow> nat \<Rightarrow> bool" where
  "no_next ps a n iMin \<longleftrightarrow> (\<forall>F. a < F \<and> F \<le> n \<longrightarrow> ps ! (F - 1) \<le> iMin)"

text \<open>A segment for the frames \<open>a + 1\<close> to \<open>b\<close>.\<close>

definition seg_ok :: "nat list \<Rightarrow> nat \<Rightarrow> nat \<Rightarrow> WalSegment \<Rightarrow> bool" where
  "seg_ok ps a b seg \<longleftrightarrow> a \<le> b \<and> iZero seg = a + 1 \<and> latest (aPageNumber seg) 0 (b - a) (aIndex seg)
     \<and> (\<forall>j < b - a. aPageNumber seg j = ps ! (a + j))"

lemma filter_hd_min:
  assumes "ssorted (map c l)" "filter (\<lambda>j. m < c j) l = x # xs" "j \<in> set l" "m < (c j :: nat)"
  shows "x \<in> set l \<and> m < c x \<and> (j = x \<or> c x < c j)"
proof -
  have "ssorted (map c (filter (\<lambda>j. m < c j) l))" using assms(1) by (induction l) auto
  then have "ssorted (map c (x # xs))" using assms(2) by simp
  moreover have "j \<in> set (filter (\<lambda>j. m < c j) l)" using assms(3,4) by simp
  then have "j \<in> set (x # xs)" using assms(2) by simp
  moreover have "x \<in> set (filter (\<lambda>j. m < c j) l)" using assms(2) by simp
  ultimately show ?thesis by auto
qed

lemma first_entry_ok:
  assumes "seg_ok ps a b seg"
  shows "case first_entry iMin seg of None \<Rightarrow> no_next ps a b iMin | Some pf \<Rightarrow> is_next ps a b iMin pf"
proof -
  let ?c = "aPageNumber seg" and ?l = "aIndex seg"
  have S: "a \<le> b" "iZero seg = a + 1" "latest ?c 0 (b - a) ?l" "\<And>j. j < b - a \<Longrightarrow> ?c j = ps ! (a + j)"
    using assms by (auto simp: seg_ok_def)
  have srt: "ssorted (map ?c ?l)" using S(3) by (simp add: latest_def)
  have ex: "\<exists>j\<in>set ?l. ?c j = ps ! (F - 1) \<and> F \<le> a + 1 + j" if F: "a < F" "F \<le> b" for F
  proof -
    let ?S = "{i. i < b - a \<and> ?c i = ps ! (F - 1)}"
    have fin: "finite ?S" by (rule finite_subset [of _ "{..<b - a}"]) auto
    have in0: "F - 1 - a \<in> ?S" using F S(4) [of "F - 1 - a"] by auto
    define M where "M = Max ?S"
    have M: "M \<in> ?S" unfolding M_def using fin in0 by (intro Max_in) auto
    have ge: "i \<le> M" if "i \<in> ?S" for i unfolding M_def using fin that by (intro Max_ge)
    have "?c k \<noteq> ?c M" if "M < k \<and> k < b - a" for k using ge [of k] that M by auto
    then have "M \<in> set ?l" using latest_set [OF S(3), of M] M by auto
    moreover have "F - 1 - a \<le> M" using ge in0 .
    ultimately show ?thesis using M F by (intro bexI [of _ M]) auto
  qed
  show ?thesis
  proof (cases "filter (\<lambda>j. iMin < ?c j) ?l")
    case Nil
    then have all: "\<forall>j\<in>set ?l. ?c j \<le> iMin" by (auto simp: filter_empty_conv not_less)
    have "ps ! (F - 1) \<le> iMin" if F: "a < F" "F \<le> b" for F using ex [OF F] all by metis
    then show ?thesis using Nil by (simp add: first_entry_def no_next_def)
  next
    case (Cons x xs)
    have x: "x \<in> set ?l" "iMin < ?c x" using Cons by (metis (mono_tags, lifting) filter_eq_ConsD in_set_conv_decomp)+
    then have xb: "x < b - a" "\<forall>k. x < k \<and> k < b - a \<longrightarrow> ?c k \<noteq> ?c x" using latest_set [OF S(3), of x] by auto
    have "ps ! (F - 1) \<ge> ?c x \<and> (ps ! (F - 1) = ?c x \<longrightarrow> F \<le> a + 1 + x)" if F: "a < F" "F \<le> b" "iMin < ps ! (F - 1)" for F
    proof -
      obtain j where j: "j \<in> set ?l" "?c j = ps ! (F - 1)" "F \<le> a + 1 + j" using ex [OF F(1,2)] by auto
      then have "j = x \<or> ?c x < ?c j" using filter_hd_min [OF srt Cons j(1)] F(3) by auto
      then show ?thesis using j by auto
    qed
    then show ?thesis using Cons x xb S(2) S(4) [OF xb(1)] by (auto simp: first_entry_def is_next_def)
  qed
qed

lemma is_next_combine:
  assumes "is_next ps a b iMin (p, f)" "a \<le> b" "b \<le> n"
  shows "no_next ps b n iMin \<Longrightarrow> is_next ps a n iMin (p, f)"
    and "is_next ps b n iMin (p', f') \<Longrightarrow> is_next ps a n iMin (if p < p' then (p, f) else (p', f'))"
proof -
  show "is_next ps a n iMin (p, f)" if nn: "no_next ps b n iMin"
  proof -
    have "F \<le> b" if "a < F \<and> F \<le> n \<and> iMin < ps ! (F - 1)" for F
      using nn that unfolding no_next_def by (metis not_le)
    then show ?thesis using assms unfolding is_next_def by fastforce
  qed
  show "is_next ps a n iMin (if p < p' then (p, f) else (p', f'))" if n2: "is_next ps b n iMin (p', f')"
  proof -
    have 1: "a < f \<and> f \<le> b \<and> ps ! (f - 1) = p \<and> iMin < p"
      "\<And>F. a < F \<Longrightarrow> F \<le> b \<Longrightarrow> iMin < ps ! (F - 1) \<Longrightarrow> p \<le> ps ! (F - 1) \<and> (ps ! (F - 1) = p \<longrightarrow> F \<le> f)"
      using assms(1) by (auto simp: is_next_def)
    have 2: "b < f' \<and> f' \<le> n \<and> ps ! (f' - 1) = p' \<and> iMin < p'"
      "\<And>F. b < F \<Longrightarrow> F \<le> n \<Longrightarrow> iMin < ps ! (F - 1) \<Longrightarrow> p' \<le> ps ! (F - 1) \<and> (ps ! (F - 1) = p' \<longrightarrow> F \<le> f')"
      using n2 by (auto simp: is_next_def)
    have "(if p < p' then p else p') \<le> ps ! (F - 1) \<and> (ps ! (F - 1) = (if p < p' then p else p') \<longrightarrow> F \<le> (if p < p' then f else f'))"
      if F: "a < F" "F \<le> n" "iMin < ps ! (F - 1)" for F
      using 1(2) [OF F(1) _ F(3)] 2(2) [OF _ F(2,3)] 1(1) 2(1) by (cases "F \<le> b") auto
    then show ?thesis using 1(1) 2(1) assms(2,3) by (auto simp: is_next_def)
  qed
qed

fun segs_ok :: "nat list \<Rightarrow> nat \<Rightarrow> nat \<Rightarrow> WalSegment list \<Rightarrow> bool" where
  "segs_ok ps a n [] \<longleftrightarrow> a = n"
| "segs_ok ps a n (seg # segs) \<longleftrightarrow> (\<exists>b. seg_ok ps a b seg \<and> b \<le> n \<and> segs_ok ps b n segs)"

lemma segs_ok_le: "segs_ok ps a n segs \<Longrightarrow> a \<le> n"
proof (induction segs arbitrary: a)
  case (Cons seg segs)
  then obtain b where "a \<le> b" "segs_ok ps b n segs" by (auto simp: seg_ok_def)
  then show ?case using Cons.IH [of b] by simp
qed simp

lemma seg_ok_same: "seg_ok ps a b seg \<Longrightarrow> same_seg seg seg' \<Longrightarrow> seg_ok ps a b seg'"
  by (simp add: seg_ok_def same_seg_def)

lemma walIteratorNext_loop_ok:
  assumes "segs_ok ps a n segs" "\<forall>seg\<in>set segs. skipped_ok iMin seg" "\<forall>F. a < F \<and> F \<le> n \<longrightarrow> ps ! (F - 1) < fst best"
  shows "\<exists>segs' best'. walIteratorNext_loop iMin segs best = (segs', best') \<and> segs_ok ps a n segs' \<and> (\<forall>seg\<in>set segs'. skipped_ok iMin seg)
     \<and> (no_next ps a n iMin \<and> best' = best \<or> is_next ps a n iMin best')"
  using assms
proof (induction segs arbitrary: a)
  case Nil
  then show ?case by (auto simp: no_next_def)
next
  case (Cons seg segs)
  obtain b where b: "seg_ok ps a b seg" "b \<le> n" "segs_ok ps b n segs" using Cons.prems(1) by auto
  have ab: "a \<le> b" using b(1) by (simp add: seg_ok_def)
  obtain segs' best' where L: "walIteratorNext_loop iMin segs best = (segs', best')" "segs_ok ps b n segs'" "\<forall>seg\<in>set segs'. skipped_ok iMin seg"
      "no_next ps b n iMin \<and> best' = best \<or> is_next ps b n iMin best'"
  proof -
    have "\<forall>F. b < F \<and> F \<le> n \<longrightarrow> ps ! (F - 1) < fst best" using Cons.prems(3) ab by simp
    moreover have "\<forall>seg\<in>set segs. skipped_ok iMin seg" using Cons.prems(2) by simp
    ultimately show ?thesis using Cons.IH [OF b(3)] that by blast
  qed
  obtain seg' where S: "walIteratorNext_skip iMin seg = (seg', first_entry iMin seg)" "same_seg seg seg'" "skipped_ok iMin seg'"
    using walIteratorNext_skip_ok [of iMin seg] Cons.prems(2) by auto
  let ?best = "case first_entry iMin seg of None \<Rightarrow> best' | Some (p, f) \<Rightarrow> if p < fst best' then (p, f) else best'"
  have "no_next ps a n iMin \<and> ?best = best \<or> is_next ps a n iMin ?best"
  proof (cases "first_entry iMin seg")
    case None
    then have nn: "no_next ps a b iMin" using first_entry_ok [OF b(1), of iMin] by simp
    from L(4) show ?thesis
    proof
      assume "no_next ps b n iMin \<and> best' = best"
      moreover from this nn have "no_next ps a n iMin" unfolding no_next_def by (metis not_le)
      ultimately show ?thesis using None by simp
    next
      assume x: "is_next ps b n iMin best'"
      obtain p f where pf: "best' = (p, f)" by (metis surj_pair)
      have "F > b" if "a < F \<and> F \<le> n \<and> iMin < ps ! (F - 1)" for F
        using nn that unfolding no_next_def by (metis not_le)
      then have "is_next ps a n iMin best'" using x ab unfolding pf is_next_def by fastforce
      then show ?thesis using None by simp
    qed
  next
    case (Some pf)
    obtain p f where pf: "pf = (p, f)" by (metis surj_pair)
    have nx: "is_next ps a b iMin (p, f)" using first_entry_ok [OF b(1), of iMin] Some pf by simp
    from L(4) show ?thesis
    proof
      assume x: "no_next ps b n iMin \<and> best' = best"
      have "a < f \<and> f \<le> n \<and> ps ! (f - 1) = p" using nx b(2) by (auto simp: is_next_def)
      then have "p < fst best" using Cons.prems(3) by blast
      then show ?thesis using is_next_combine(1) [OF nx ab b(2)] x Some pf by simp
    next
      assume x: "is_next ps b n iMin best'"
      obtain p' f' where pf': "best' = (p', f')" by (metis surj_pair)
      then show ?thesis using is_next_combine(2) [OF nx ab b(2), of p' f'] x Some pf by (cases "p < p'") simp_all
    qed
  qed
  moreover have "walIteratorNext_loop iMin (seg # segs) best = (seg' # segs', ?best)" using L(1) S(1) by simp
  moreover have "segs_ok ps a n (seg' # segs')" using seg_ok_same [OF b(1) S(2)] b(2) L(2) by auto
  ultimately show ?case using L(3) S(3) by auto
qed

definition pages_ok :: "nat list \<Rightarrow> bool" where
  "pages_ok ps \<longleftrightarrow> (\<forall>pg\<in>set ps. 0 < pg \<and> pg < 0xffffffff)"

definition iter_ok :: "nat list \<Rightarrow> WalIterator \<Rightarrow> bool" where
  "iter_ok ps p \<longleftrightarrow> segs_ok ps 0 (length ps) (aSegment p) \<and> (\<forall>seg\<in>set (aSegment p). skipped_ok (iPrior p) seg) \<and> iPrior p < 0xffffffff"

lemma walIteratorNext_ok:
  assumes "iter_ok ps p" "pages_ok ps"
  shows "no_next ps 0 (length ps) (iPrior p) \<and> (\<exists>p' f. walIteratorNext p fr = Some (True, p', 0xFFFFFFFF, f))
    \<or> (\<exists>p' pg f. walIteratorNext p fr = Some (False, p', pg, f) \<and> is_next ps 0 (length ps) (iPrior p) (pg, f) \<and> iPrior p' = pg \<and> iter_ok ps p')"
proof -
  have bound: "\<forall>F. 0 < F \<and> F \<le> length ps \<longrightarrow> ps ! (F - 1) < 0xFFFFFFFF" 
  proof (intro allI impI)
    fix F assume "0 < F \<and> F \<le> length ps"
    then have "ps ! (F - 1) \<in> set ps" by (intro nth_mem) auto
    then show "ps ! (F - 1) < 0xFFFFFFFF" using assms(2) by (simp add: pages_ok_def)
  qed
  obtain segs' best' where L: "walIteratorNext_loop (iPrior p) (aSegment p) (0xFFFFFFFF, fr) = (segs', best')" "segs_ok ps 0 (length ps) segs'"
      "\<forall>seg\<in>set segs'. skipped_ok (iPrior p) seg"
      "no_next ps 0 (length ps) (iPrior p) \<and> best' = (0xFFFFFFFF, fr) \<or> is_next ps 0 (length ps) (iPrior p) best'"
    using walIteratorNext_loop_ok [of ps 0 "length ps" "aSegment p" "iPrior p" "(0xFFFFFFFF, fr)"] assms(1) bound by (auto simp: iter_ok_def)
  have pr: "iPrior p < 0xffffffff" using assms(1) by (simp add: iter_ok_def)
  from L(4) show ?thesis
  proof
    assume "no_next ps 0 (length ps) (iPrior p) \<and> best' = (0xFFFFFFFF, fr)"
    then show ?thesis using L(1) pr by (simp add: walIteratorNext_def)
  next
    assume x: "is_next ps 0 (length ps) (iPrior p) best'"
    obtain pg f where pf: "best' = (pg, f)" by (metis surj_pair)
    have f: "0 < f" "f \<le> length ps" "ps ! (f - 1) = pg" "iPrior p < pg" using x pf by (auto simp: is_next_def)
    then have lt: "pg < 0xFFFFFFFF" using bound by blast
    have "iter_ok ps (p\<lparr>iPrior := pg, aSegment := segs'\<rparr>)"
      using L(2,3) lt f(4) unfolding iter_ok_def skipped_ok_def by fastforce
    then show ?thesis using L(1) pr lt x pf by (simp add: walIteratorNext_def)
  qed
qed

subsection \<open>Setting it up\<close>

lemma walIteratorInit_loop_ok:
  assumes "index_inv w ps" "walHash_iZero m < length ps" "length ps \<le> walHash_iZero m + table_cap m" "i \<le> Suc m"
  shows "\<exists>segs. walIteratorInit_loop w (length ps) (m + 1) [i..<m + 1] = Some (SQLITE_OK, w, segs)
     \<and> segs_ok ps (if i = Suc m then length ps else walHash_iZero i) (length ps) segs \<and> (\<forall>seg\<in>set segs. iNext seg = 0)"
  using assms(4)
proof (induction "Suc m - i" arbitrary: i)
  case 0
  then show ?case by simp
next
  case (Suc k)
  then have im: "i \<le> m" by simp
  then have up: "[i..<m + 1] = i # [Suc i..<m + 1]" by (simp add: upt_rec)
  obtain segs where segs: "walIteratorInit_loop w (length ps) (m + 1) [Suc i..<m + 1] = Some (SQLITE_OK, w, segs)"
      "segs_ok ps (if Suc i = Suc m then length ps else walHash_iZero (Suc i)) (length ps) segs" "\<forall>seg\<in>set segs. iNext seg = 0"
    using Suc.hyps(1) [of "Suc i"] Suc.hyps(2) im by (metis Suc_diff_Suc Suc_leI diff_Suc_Suc nat.inject le_imp_less_Suc)
  let ?z = "walHash_iZero i" and ?b = "if i = m then length ps else walHash_iZero (Suc i)"
  have z: "?z < length ps" using iZero_mono [of i m] im assms(2) by (cases "i = m") auto
  have zS: "walHash_iZero (Suc i) = ?z + table_cap i" by (simp add: iZero_Suc)
  have le: "?b \<le> length ps" using zS iZero_mono [of i m] im assms(2) by (cases "i = m") auto
  let ?n = "?b - ?z"
  have n: "0 < ?n" "?n \<le> table_cap i" "?b = ?z + ?n" using z zS im assms(3) table_cap_bounds(1) [of i] by auto
  then have n4: "?n \<le> 4096" by (auto simp: table_cap_def wal_consts split: if_splits)
  obtain p where p: "apWiData w i = Some p" "i < nWiData w" "page_ok i p ps" using assms(1) z unfolding index_inv_def by blast
  let ?c = "\<lambda>j. page_number i p (j + 1)"
  obtain idx where idx: "walMergesort ?c [0..<?n] = Some idx" "latest ?c 0 ?n idx" using walMergesort_ok [OF n(1) n4] by blast
  have ne: "(if i + 1 = m + 1 then length ps - ?z else HASHTABLE_NPAGE - wi_offset i) = ?n"
    using table_cap_bounds(3) [of i] zS by auto
  let ?seg = "\<lparr>iNext = 0, aIndex = idx, aPageNumber = ?c, iZero = ?z + 1\<rparr>"
  have "page_number i p (j + 1) = ps ! (?z + j)" if "j < ?n" for j
  proof -
    have "j + 1 \<in> {1..min (table_cap i) (length ps - ?z)}" using that n le by auto
    then have "page_number i p (j + 1) = ps ! (?z + (j + 1) - 1)" using p(3) unfolding page_ok_def Let_def by blast
    then show ?thesis by simp
  qed
  then have "seg_ok ps ?z ?b ?seg" using idx(2) n by (auto simp: seg_ok_def)
  moreover have "walIteratorInit_loop w (length ps) (m + 1) [i..<m + 1] = Some (SQLITE_OK, w, ?seg # segs)"
    unfolding up using walHashGet_mapped [OF p(1,2)] p(1) idx(1) segs(1) ne by (simp add: Let_def)
  moreover have "segs_ok ps ?b (length ps) segs" using segs(2) by (auto split: if_splits)
  ultimately show ?case using segs(3) le im by auto
qed

lemma walIteratorInit_ok:
  assumes "index_inv w ps" "mxFrame (hdr w) = length ps" "ps \<noteq> []" "ckptLock w"
  shows "\<exists>p. walIteratorInit True True w = Some (SQLITE_OK, w, Some p) \<and> iter_ok ps p \<and> iPrior p = 0"
proof -
  obtain m where m: "walFramePage (length ps) = Some m" "walHash_iZero m < length ps" "length ps \<le> walHash_iZero m + table_cap m"
    using walFramePage_Some [of "length ps"] assms(3) by auto
  obtain segs where "walIteratorInit_loop w (length ps) (m + 1) [0..<m + 1] = Some (SQLITE_OK, w, segs)"
      "segs_ok ps (walHash_iZero 0) (length ps) segs" "\<forall>seg\<in>set segs. iNext seg = 0"
    using walIteratorInit_loop_ok [OF assms(1) m(2,3), of 0] by auto
  moreover have "walHash_iZero 0 = 0" by (simp add: walHash_iZero_def)
  ultimately show ?thesis
    using m(1) assms by (simp add: walIteratorInit_def iter_ok_def skipped_ok_def del: upt_Suc)
qed

section \<open>The pages of the database file\<close>

text \<open>A byte of a file, 0 beyond its end; a page of the database, and the page image of a frame.\<close>

definition byte_at :: "byte list \<Rightarrow> nat \<Rightarrow> byte" where
  "byte_at db i = (if i < length db then db ! i else 0)"

definition db_page :: "nat \<Rightarrow> byte list \<Rightarrow> nat \<Rightarrow> byte list" where
  "db_page PageSize db pg = map (\<lambda>i. byte_at db ((pg - 1) * PageSize + i)) [0..<PageSize]"

definition frame_page :: "nat \<Rightarrow> byte list \<Rightarrow> nat \<Rightarrow> byte list" where
  "frame_page PageSize log f = take PageSize (drop (walFrameOffset f PageSize + WAL_FRAME_HDRSIZE) log)"

lemma byte_at_osWrite:
  "byte_at (osWrite db d off) i = (if off \<le> i \<and> i < off + length d then d ! (i - off) else byte_at db i)"
  by (auto simp: byte_at_def osWrite_def nth_append min_def)

lemma byte_at_osTruncate: "byte_at (osTruncate db n) i = (if i < n then byte_at db i else 0)"
  by (auto simp: byte_at_def osTruncate_def nth_append min_def)

lemma page_offset:
  fixes i PageSize pg q :: nat
  assumes "i < PageSize" "0 < pg" "0 < q"
  shows "((pg - 1) * PageSize \<le> (q - 1) * PageSize + i \<and> (q - 1) * PageSize + i < (pg - 1) * PageSize + PageSize) = (q = pg)"
proof
  assume a: "(pg - 1) * PageSize \<le> (q - 1) * PageSize + i \<and> (q - 1) * PageSize + i < (pg - 1) * PageSize + PageSize"
  have e: "q * PageSize = (q - 1) * PageSize + PageSize" "pg * PageSize = (pg - 1) * PageSize + PageSize"
    using assms(2,3) by (cases q; cases pg; simp)+
  have "(pg - 1) * PageSize < q * PageSize" "(q - 1) * PageSize < pg * PageSize" using a assms(1) unfolding e by linarith+
  then have "pg - 1 < q" "q - 1 < pg" by (metis mult_less_cancel2)+
  then show "q = pg" using assms by linarith
qed (use assms in auto)

lemma db_page_osWrite:
  assumes "length d = PageSize" "0 < pg" "0 < q"
  shows "db_page PageSize (osWrite db d ((pg - 1) * PageSize)) q = (if q = pg then d else db_page PageSize db q)"
proof (rule nth_equalityI)
  fix i assume "i < length (db_page PageSize (osWrite db d ((pg - 1) * PageSize)) q)"
  then have i: "i < PageSize" by (simp add: db_page_def)
  show "db_page PageSize (osWrite db d ((pg - 1) * PageSize)) q ! i = (if q = pg then d else db_page PageSize db q) ! i"
    using page_offset [OF i assms(2,3)] i assms(1) by (auto simp: db_page_def byte_at_osWrite)
qed (simp add: db_page_def assms(1))

lemma db_page_osTruncate:
  assumes "pg \<le> n" "0 < pg"
  shows "db_page PageSize (osTruncate db (n * PageSize)) pg = db_page PageSize db pg"
proof -
  have "(pg - 1) * PageSize + i < n * PageSize" if "i < PageSize" for i
  proof -
    have "(pg - 1) * PageSize + i < pg * PageSize" using that assms(2) by (cases pg) auto
    also have "\<dots> \<le> n * PageSize" using assms(1) by simp
    finally show ?thesis .
  qed
  then show ?thesis by (simp add: db_page_def byte_at_osTruncate)
qed

text \<open>What a reader with the snapshot of \<open>k\<close> frames sees of a page.\<close>

definition view :: "nat \<Rightarrow> byte list \<Rightarrow> nat list \<Rightarrow> nat \<Rightarrow> byte list \<Rightarrow> nat \<Rightarrow> byte list" where
  "view PageSize log ps k db pg =
     (let f = last_frame (take k ps) pg in if f = 0 then db_page PageSize db pg else frame_page PageSize log f)"

lemma last_idx_unique: "0 < f \<Longrightarrow> f \<le> n \<Longrightarrow> g f = pg \<Longrightarrow> \<forall>F. f < F \<and> F \<le> n \<longrightarrow> g F \<noteq> pg \<Longrightarrow> last_idx g pg n = f"
proof (induction n)
  case (Suc n)
  then show ?case by (cases "f = Suc n") auto
qed simp

lemma is_next_last_frame: "is_next ps 0 (length ps) m (pg, f) \<Longrightarrow> last_frame ps pg = f"
proof -
  assume n: "is_next ps 0 (length ps) m (pg, f)"
  have "ps ! (F - 1) \<noteq> pg" if F: "f < F \<and> F \<le> length ps" for F
  proof
    assume e: "ps ! (F - 1) = pg"
    have "0 < F" "m < ps ! (F - 1)" using n F e by (auto simp: is_next_def)
    then have "F \<le> f" using n F e by (auto simp: is_next_def)
    then show False using F by simp
  qed
  then show ?thesis using n unfolding last_frame_def by (intro last_idx_unique) (auto simp: is_next_def)
qed

lemma last_frame_0: "last_frame ps pg = 0 \<longleftrightarrow> pg \<notin> set ps"
proof -
  have "last_idx g pg n = 0 \<longleftrightarrow> (\<forall>F. 0 < F \<and> F \<le> n \<longrightarrow> g F \<noteq> pg)" for g n
    by (induction n) (auto simp: le_Suc_eq)
  then have "last_frame ps pg = 0 \<longleftrightarrow> (\<forall>F. 0 < F \<and> F \<le> length ps \<longrightarrow> ps ! (F - 1) \<noteq> pg)" by (simp add: last_frame_def)
  also have "\<dots> \<longleftrightarrow> (\<forall>i < length ps. ps ! i \<noteq> pg)"
  proof
    assume a: "\<forall>F. 0 < F \<and> F \<le> length ps \<longrightarrow> ps ! (F - 1) \<noteq> pg"
    show "\<forall>i < length ps. ps ! i \<noteq> pg" using a [rule_format, of "Suc _"] by simp
  next
    assume a: "\<forall>i < length ps. ps ! i \<noteq> pg"
    have "ps ! (F - 1) \<noteq> pg" if "0 < F \<and> F \<le> length ps" for F
    proof -
      have "F - 1 < length ps" using that by linarith
      then show ?thesis using a by blast
    qed
    then show "\<forall>F. 0 < F \<and> F \<le> length ps \<longrightarrow> ps ! (F - 1) \<noteq> pg" by blast
  qed
  finally show ?thesis by (auto simp: in_set_conv_nth)
qed

text \<open>A frame within the first \<open>k\<close> that is the last of its page in the whole log is the last in the prefix.\<close>

lemma last_frame_take:
  assumes "0 < last_frame ps pg" "last_frame ps pg \<le> k" "k \<le> length ps"
  shows "last_frame (take k ps) pg = last_frame ps pg"
proof -
  let ?f = "last_frame ps pg" and ?g = "\<lambda>F. ps ! (F - 1)"
  have P: "last_idx ?g pg n = last_idx ?g pg k" if "last_idx ?g pg n \<le> k" "k \<le> n" for n
    using that by (induction n) (auto simp: le_Suc_eq split: if_splits)
  have "last_frame (take k ps) pg = last_idx ?g pg k"
    unfolding last_frame_def using assms(3) by (auto intro!: last_idx_cong' simp: min_def)
  also have "\<dots> = ?f" using P [of "length ps"] assms(2,3) unfolding last_frame_def by simp
  finally show ?thesis .
qed

section \<open>The copy\<close>

definition copied :: "nat \<Rightarrow> byte list \<Rightarrow> nat list \<Rightarrow> nat \<Rightarrow> nat \<Rightarrow> nat \<Rightarrow> nat \<Rightarrow> byte list \<Rightarrow> byte list \<Rightarrow> bool" where
  "copied PageSize log ps from nb mx mp db db' \<longleftrightarrow> (\<forall>pg>0. db_page PageSize db' pg =
     (if from < pg \<and> nb < last_frame ps pg \<and> last_frame ps pg \<le> mx \<and> pg \<le> mp
      then frame_page PageSize log (last_frame ps pg) else db_page PageSize db pg))"

lemma walCheckpoint_copy_ok:
  assumes "iter_ok ps p" "pages_ok ps" "index_inv w ps" "\<forall>off. io_rc (ck_io io) off = SQLITE_OK" "\<forall>off. ck_db io off = SQLITE_OK"
    and "walFrameOffset (length ps + 1) PageSize \<le> length log"
  shows "\<exists>db'. walCheckpoint_copy io log w PageSize nb mx mp p fr db = Some (SQLITE_OK, db') \<and> copied PageSize log ps (iPrior p) nb mx mp db db'"
  using assms(1)
proof (induction "0xffffffff - iPrior p" arbitrary: p fr db rule: less_induct)
  case less
  have none: "\<not> (iPrior p < pg \<and> nb < last_frame ps pg)" if "no_next ps 0 (length ps) (iPrior p)" for pg
  proof
    assume x: "iPrior p < pg \<and> nb < last_frame ps pg"
    then have "pg \<in> set ps" using last_frame_0 [of ps pg] by auto
    then obtain i where "i < length ps" "ps ! i = pg" by (auto simp: in_set_conv_nth)
    then have "ps ! (Suc i - 1) \<le> iPrior p" using that unfolding no_next_def by (metis Suc_leI zero_less_Suc)
    then show False using \<open>ps ! i = pg\<close> x by simp
  qed
  consider (stop) p' f where "no_next ps 0 (length ps) (iPrior p)" "walIteratorNext p fr = Some (True, p', 0xFFFFFFFF, f)"
    | (go) p' pg f where "walIteratorNext p fr = Some (False, p', pg, f)" "is_next ps 0 (length ps) (iPrior p) (pg, f)" "iPrior p' = pg" "iter_ok ps p'"
    using walIteratorNext_ok [OF less.prems assms(2), of fr] by blast
  then show ?case
  proof cases
    case stop
    then show ?thesis using none by (subst walCheckpoint_copy.simps) (auto simp: copied_def)
  next
    case go
    have f: "last_frame ps pg = f" "0 < f" "f \<le> length ps" "ps ! (f - 1) = pg" "iPrior p < pg"
      "\<And>F. 0 < F \<Longrightarrow> F \<le> length ps \<Longrightarrow> iPrior p < ps ! (F - 1) \<Longrightarrow> pg \<le> ps ! (F - 1)"
      using go(2) is_next_last_frame [OF go(2)] by (auto simp: is_next_def)
    have dec: "0xffffffff - iPrior p' < 0xffffffff - iPrior p" using go(3,4) f(5) unfolding iter_ok_def by linarith
    have num: "walFramePageNumber w f = Some pg" using index_page_number [OF assms(3), of f] f by simp
    have between: "pg \<le> q" if "iPrior p < q" "nb < last_frame ps q" for q
    proof -
      have "q \<in> set ps" using that(2) last_frame_0 [of ps q] by auto
      then obtain i where "i < length ps" "ps ! i = q" by (auto simp: in_set_conv_nth)
      then show ?thesis using f(6) [of "Suc i"] that(1) by simp
    qed
    show ?thesis
    proof (cases "f \<le> nb \<or> f > mx \<or> pg > mp")
      case True
      obtain db' where db': "walCheckpoint_copy io log w PageSize nb mx mp p' f db = Some (SQLITE_OK, db')" "copied PageSize log ps pg nb mx mp db db'"
        using less.hyps [OF dec go(4)] go(3) by blast
      have "(pg < q \<and> nb < last_frame ps q \<and> last_frame ps q \<le> mx \<and> q \<le> mp) = (iPrior p < q \<and> nb < last_frame ps q \<and> last_frame ps q \<le> mx \<and> q \<le> mp)" for q
        using True f(1,5) between [of q] by (cases "q = pg") auto
      then have "copied PageSize log ps (iPrior p) nb mx mp db db'" using db'(2) unfolding copied_def by simp
      then show ?thesis using go(1) num True db'(1) by (subst walCheckpoint_copy.simps) auto
    next
      case False
      let ?d = "frame_page PageSize log f"
      have ld: "length ?d = PageSize"
      proof -
        have "walFrameOffset f PageSize + WAL_FRAME_HDRSIZE + PageSize = walFrameOffset (f + 1) PageSize"
          using f(2) by (cases f) (simp_all add: walFrameOffset_def)
        also have "\<dots> \<le> length log" using f(3) assms(6) by (simp add: walFrameOffset_def) (meson add_left_mono le_trans mult_le_mono1)
        finally show ?thesis by (simp add: frame_page_def)
      qed
      have rd: "osRead (io_rc (ck_io io)) log PageSize (walFrameOffset f PageSize + WAL_FRAME_HDRSIZE) = (SQLITE_OK, ?d)"
        using ld assms(4) by (simp add: osRead_def frame_page_def Let_def)
      let ?db = "osWrite db ?d ((pg - 1) * PageSize)"
      obtain db' where db': "walCheckpoint_copy io log w PageSize nb mx mp p' f ?db = Some (SQLITE_OK, db')" "copied PageSize log ps pg nb mx mp ?db db'"
        using less.hyps [OF dec go(4)] go(3) by blast
      have pg0: "0 < pg" using f(5) by simp
      have "db_page PageSize db' q = (if iPrior p < q \<and> nb < last_frame ps q \<and> last_frame ps q \<le> mx \<and> q \<le> mp
          then frame_page PageSize log (last_frame ps q) else db_page PageSize db q)" if q: "0 < q" for q
      proof (cases "q = pg")
        case True
        then show ?thesis using db'(2) q False f(1,5) db_page_osWrite [OF ld pg0 q] unfolding copied_def by auto
      next
        case ne: False
        then have "(pg < q \<and> nb < last_frame ps q) = (iPrior p < q \<and> nb < last_frame ps q)" using f(5) between [of q] by auto
        then show ?thesis using db'(2) q ne db_page_osWrite [OF ld pg0 q, of db] unfolding copied_def by auto
      qed
      then have "copied PageSize log ps (iPrior p) nb mx mp db db'" unfolding copied_def by blast
      then show ?thesis using go(1) num False rd assms(5) db'(1) by (subst walCheckpoint_copy.simps) auto
    qed
  qed
qed

section \<open>The whole checkpoint\<close>

text \<open>
  An active reader holds mark \<open>i\<close> throughout the checkpoint: every attempt to lock it is refused. Mark 0 belongs to the
  readers of the database file. A mark that nobody holds is locked by every attempt.
\<close>

definition reader_active :: "CkptIo \<Rightarrow> Wal \<Rightarrow> nat \<Rightarrow> bool" where
  "reader_active io w i \<longleftrightarrow> (\<forall>a. walLockExclusive (ck_io io) w a (WAL_READ_LOCK i) 1 = SQLITE_BUSY)"

definition mark_free :: "CkptIo \<Rightarrow> Wal \<Rightarrow> nat \<Rightarrow> bool" where
  "mark_free io w i \<longleftrightarrow> (\<forall>a. walLockExclusive (ck_io io) w a (WAL_READ_LOCK i) 1 = SQLITE_OK)"

text \<open>There is no busy handler, or it refuses a further attempt at some point.\<close>

definition gives_up :: "(nat \<Rightarrow> bool) option \<Rightarrow> bool" where
  "gives_up xBusy \<longleftrightarrow> (case xBusy of None \<Rightarrow> True | Some f \<Rightarrow> \<exists>n. \<not> f n)"

text \<open>The environment fails no call; a lock is granted or busy.\<close>

definition ckpt_io_ok :: "CkptIo \<Rightarrow> bool" where
  "ckpt_io_ok io \<longleftrightarrow> (\<forall>off. io_rc (ck_io io) off = SQLITE_OK) \<and> (\<forall>off. ck_db io off = SQLITE_OK) \<and> io_sync (ck_io io) = SQLITE_OK
     \<and> ck_db_size io = SQLITE_OK \<and> ck_db_truncate io = SQLITE_OK \<and> ck_db_sync io = SQLITE_OK \<and> ck_mem1 io \<and> ck_mem2 io
     \<and> (\<forall>a i n. io_lockExclusive (ck_io io) a i n \<in> {SQLITE_OK, SQLITE_BUSY})"

text \<open>The database file holds every page whose last frame is among the first \<open>nb\<close>.\<close>

definition backfilled :: "nat \<Rightarrow> byte list \<Rightarrow> nat list \<Rightarrow> nat \<Rightarrow> nat \<Rightarrow> byte list \<Rightarrow> bool" where
  "backfilled PageSize log ps mp nb db \<longleftrightarrow> (\<forall>pg. 0 < pg \<and> pg \<le> mp \<and> 0 < last_frame ps pg \<and> last_frame ps pg \<le> nb
     \<longrightarrow> db_page PageSize db pg = frame_page PageSize log (last_frame ps pg))"

lemma walBusyLock_loop_ends:
  assumes "\<not> f n" "k \<le> n"
  shows "\<exists>a. walBusyLock_loop io w (Some f) idx m k = Some (walLockExclusive io w a idx m)"
  using assms(2)
proof (induction "n - k" arbitrary: k)
  case 0
  then have "k = n" by simp
  then show ?case using assms(1) by (subst walBusyLock_loop.simps) (auto simp: Let_def)
next
  case (Suc d)
  show ?case
  proof (cases "walLockExclusive io w k idx m = SQLITE_BUSY \<and> f k")
    case True
    obtain a where "walBusyLock_loop io w (Some f) idx m (k + 1) = Some (walLockExclusive io w a idx m)" 
      using Suc.hyps(1) [of "k + 1"] Suc.hyps(2) by (metis Suc_eq_plus1 diff_Suc_Suc diff_diff_left diff_is_0_eq nat.distinct(1) not_less_eq_eq diff_Suc_1)
    then show ?thesis using True by (subst walBusyLock_loop.simps) (auto simp: Let_def)
  qed (subst walBusyLock_loop.simps, auto simp: Let_def)
qed

lemma walBusyLock_ends: "gives_up xBusy \<Longrightarrow> \<exists>a. walBusyLock io w xBusy idx m = Some (walLockExclusive io w a idx m)"
proof (cases xBusy)
  case None
  then show ?thesis by (auto simp: walBusyLock_def walBusyLock_loop.simps)
next
  case (Some f)
  assume "gives_up xBusy"
  then obtain n where "\<not> f n" by (auto simp: gives_up_def Some)
  then show ?thesis using walBusyLock_loop_ends [of f n 0] by (simp add: walBusyLock_def Some)
qed

lemma lock_cases: "ckpt_io_ok io \<Longrightarrow> walLockExclusive (ck_io io) w a idx n \<in> {SQLITE_OK, SQLITE_BUSY}"
  by (auto simp: walLockExclusive_def ckpt_io_ok_def)

lemma walLockExclusive_cong: "walLockExclusive io (w\<lparr>aReadMark := m\<rparr>) a i n = walLockExclusive io w a i n"
  by (simp add: walLockExclusive_def)

lemma mark_cong [simp]:
  "reader_active io (w\<lparr>aReadMark := m\<rparr>) i = reader_active io w i" "mark_free io (w\<lparr>aReadMark := m\<rparr>) i = mark_free io w i"
  by (simp_all add: reader_active_def mark_free_def walLockExclusive_cong)

text \<open>The attempts to lock mark \<open>i\<close>: an active reader keeps it, a free mark is locked.\<close>

lemma walBusyLock_mark:
  assumes "ckpt_io_ok io" "gives_up xBusy"
  shows "walBusyLock (ck_io io) w xBusy (WAL_READ_LOCK i) 1 = Some SQLITE_OK \<and> \<not> reader_active io w i
    \<or> walBusyLock (ck_io io) w xBusy (WAL_READ_LOCK i) 1 = Some SQLITE_BUSY \<and> \<not> mark_free io w i"
proof -
  obtain a where a: "walBusyLock (ck_io io) w xBusy (WAL_READ_LOCK i) 1 = Some (walLockExclusive (ck_io io) w a (WAL_READ_LOCK i) 1)" using walBusyLock_ends [OF assms(2)] by blast
  have "walLockExclusive (ck_io io) w a (WAL_READ_LOCK i) 1 \<in> {SQLITE_OK, SQLITE_BUSY}" using lock_cases [OF assms(1)] .
  then show ?thesis using a unfolding reader_active_def mark_free_def by (metis insertE rc.distinct(15) singletonD)
qed

lemma walCheckpoint_marks_ok:
  assumes "ckpt_io_ok io" "mx \<le> mxFrame (hdr w)" "distinct is" "rc \<in> {SQLITE_OK, SQLITE_BUSY}" "gives_up xBusy"
  shows "\<exists>rc' m mx' xBusy'. walCheckpoint_marks (ck_io io) is rc w xBusy mx = Some (False, rc', w\<lparr>aReadMark := m\<rparr>, xBusy', mx')
     \<and> gives_up xBusy' \<and> rc' \<in> {SQLITE_OK, SQLITE_BUSY} \<and> mx' \<le> mx \<and> (\<forall>i\<in>set is. reader_active io w i \<longrightarrow> mx' \<le> aReadMark w ! i)
     \<and> (mx' = mx \<or> (\<exists>i\<in>set is. \<not> mark_free io w i))"
  using assms(2-5)
proof (induction "is" arbitrary: rc w mx xBusy)
  case Nil
  then show ?case by (auto intro: exI [of _ "aReadMark w"])
next
  case (Cons i "is")
  let ?y = "aReadMark w ! i" and ?l = "walBusyLock (ck_io io) w xBusy (WAL_READ_LOCK i) 1"
  have d: "distinct is" using Cons.prems(2) by simp
  note l = walBusyLock_mark [OF assms(1) Cons.prems(4), of w i]
  consider (below) "\<not> mx > ?y" | (free) "mx > ?y" "?l = Some SQLITE_OK" "\<not> reader_active io w i" | (busy) "mx > ?y" "?l = Some SQLITE_BUSY" "\<not> mark_free io w i" using l by blast
  then show ?case
  proof cases
    case below
    obtain rc' m mx' b where r: "walCheckpoint_marks (ck_io io) is rc w xBusy mx = Some (False, rc', w\<lparr>aReadMark := m\<rparr>, b, mx')" "gives_up b"
        "rc' \<in> {SQLITE_OK, SQLITE_BUSY}" "mx' \<le> mx" "\<forall>i\<in>set is. reader_active io w i \<longrightarrow> mx' \<le> aReadMark w ! i" "mx' = mx \<or> (\<exists>i\<in>set is. \<not> mark_free io w i)"
      using Cons.IH [OF Cons.prems(1) d Cons.prems(3,4)] by blast
    have "walCheckpoint_marks (ck_io io) (i # is) rc w xBusy mx = walCheckpoint_marks (ck_io io) is rc w xBusy mx" using below by simp
    moreover have "mx' \<le> ?y" using r(4) below by simp
    ultimately show ?thesis using r by (intro exI [of _ rc'] exI [of _ m] exI [of _ mx'] exI [of _ b]) auto
  next
    case free
    let ?w = "w\<lparr>aReadMark := (aReadMark w)[i := READMARK_NOT_USED]\<rparr>"
    have h: "mx \<le> mxFrame (hdr ?w)" using Cons.prems(1) by simp
    have same: "aReadMark ?w ! j = aReadMark w ! j" if "j \<in> set is" for j using that Cons.prems(2) by (cases "i = j") simp_all
    obtain rc' m mx' b where r: "walCheckpoint_marks (ck_io io) is SQLITE_OK ?w xBusy mx = Some (False, rc', ?w\<lparr>aReadMark := m\<rparr>, b, mx')" "gives_up b"
        "rc' \<in> {SQLITE_OK, SQLITE_BUSY}" "mx' \<le> mx" "\<forall>i\<in>set is. reader_active io ?w i \<longrightarrow> mx' \<le> aReadMark ?w ! i" "mx' = mx \<or> (\<exists>i\<in>set is. \<not> mark_free io ?w i)"
      using Cons.IH [OF h d _ Cons.prems(4), of SQLITE_OK] by blast
    moreover have "walCheckpoint_marks (ck_io io) (i # is) rc w xBusy mx = walCheckpoint_marks (ck_io io) is SQLITE_OK ?w xBusy mx"
      using free Cons.prems(1) by simp
    moreover have "\<forall>j\<in>set is. reader_active io w j \<longrightarrow> mx' \<le> aReadMark w ! j" using r(5) same by simp
    ultimately show ?thesis using free(3) by (intro exI [of _ rc'] exI [of _ m] exI [of _ mx'] exI [of _ b]) auto
  next
    case busy
    have h: "?y \<le> mxFrame (hdr w)" and g: "gives_up None" using Cons.prems(1) busy(1) by (simp_all add: gives_up_def)
    obtain rc' m mx' b where "walCheckpoint_marks (ck_io io) is SQLITE_BUSY w None ?y = Some (False, rc', w\<lparr>aReadMark := m\<rparr>, b, mx')" "gives_up b"
        "rc' \<in> {SQLITE_OK, SQLITE_BUSY}" "mx' \<le> ?y" "\<forall>i\<in>set is. reader_active io w i \<longrightarrow> mx' \<le> aReadMark w ! i" "mx' = ?y \<or> (\<exists>i\<in>set is. \<not> mark_free io w i)"
      using Cons.IH [OF h d _ g, of SQLITE_BUSY] by blast
    moreover have "walCheckpoint_marks (ck_io io) (i # is) rc w xBusy mx = walCheckpoint_marks (ck_io io) is SQLITE_BUSY w None ?y"
      using busy Cons.prems(1) by simp
    ultimately show ?thesis using busy(1,3) by (intro exI [of _ rc'] exI [of _ m] exI [of _ mx'] exI [of _ b]) auto
  qed
qed

lemma copied_backfilled:
  assumes "copied PageSize log ps 0 nb mx mp db db'" "backfilled PageSize log ps mp nb db" "nb \<le> mx"
  shows "backfilled PageSize log ps mp mx db'"
  using assms unfolding backfilled_def copied_def by (auto simp: not_less)

lemma copied_view:
  assumes "copied PageSize log ps 0 nb mx mp db db'" "mx \<le> k" "k \<le> length ps" "0 < pg"
  shows "view PageSize log ps k db' pg = view PageSize log ps k db pg"
proof (cases "nb < last_frame ps pg \<and> last_frame ps pg \<le> mx")
  case True
  then have "last_frame (take k ps) pg = last_frame ps pg" using last_frame_take [of ps pg k] assms(2,3) by simp
  then show ?thesis using True by (auto simp: view_def Let_def)
next
  case False
  then have "db_page PageSize db' pg = db_page PageSize db pg" using assms(1,4) unfolding copied_def by auto
  then show ?thesis by (simp add: view_def Let_def)
qed

text \<open>The block under the lock 0: what it copies, for any limit \<open>mx\<close> between \<open>nBackfill\<close> and the end of the log.\<close>

lemma walCheckpoint_backfill_ok:
  assumes "ckpt_io_ok io" "iter_ok ps p" "iPrior p = 0" "pages_ok ps" "index_inv w ps" "walFrameOffset (length ps + 1) PageSize \<le> length log"
    and "mp = nPage (hdr w)"
  shows "\<exists>db'. walCheckpoint_backfill io log w PageSize mx mp p db = Some (SQLITE_OK, w\<lparr>nBackfill := mx\<rparr>, db')
     \<and> (\<exists>db1. copied PageSize log ps 0 (nBackfill w) mx mp db db1 \<and> (\<forall>pg. 0 < pg \<and> pg \<le> mp \<longrightarrow> db_page PageSize db' pg = db_page PageSize db1 pg))
     \<and> (mx \<noteq> mxFrame (shmHdr w) \<longrightarrow> copied PageSize log ps 0 (nBackfill w) mx mp db db') \<and> (mx = mxFrame (shmHdr w) \<longrightarrow> length db' = mp * PageSize)"
proof -
  obtain db1 where db1: "walCheckpoint_copy io log w PageSize (nBackfill w) mx mp p 0 db = Some (SQLITE_OK, db1)" "copied PageSize log ps 0 (nBackfill w) mx mp db db1"
    using walCheckpoint_copy_ok [OF assms(2,4,5) _ _ assms(6), of io "nBackfill w" mx mp 0 db] assms(1,3) by (auto simp: ckpt_io_ok_def)
  let ?db = "if mx = mxFrame (shmHdr w) then osTruncate db1 (mp * PageSize) else db1"
  have "walCheckpoint_backfill io log w PageSize mx mp p db = Some (SQLITE_OK, w\<lparr>nBackfill := mx\<rparr>, ?db)"
    using db1(1) assms(1,7) by (simp add: walCheckpoint_backfill_def ckpt_io_ok_def Let_def)
  moreover have "db_page PageSize ?db pg = db_page PageSize db1 pg" if "0 < pg \<and> pg \<le> mp" for pg
    using db_page_osTruncate [of pg mp PageSize db1] that by simp
  moreover have "length (osTruncate db1 (mp * PageSize)) = mp * PageSize" by (simp add: osTruncate_def)
  ultimately show ?thesis using db1(2) by (intro exI [of _ ?db] conjI exI [of _ db1]) auto
qed

section \<open>Properties\<close>

text \<open>
  C24. Iteration over the log: \<open>walIteratorInit\<close> succeeds on a well-formed index, and from then on each
  \<open>walIteratorNext\<close> returns the smallest page number not returned before together with the last frame
  of the log that holds it, and reports the end exactly when no larger page is left.
\<close>

theorem iterator_ascending:
  assumes "index_inv w ps" and "mxFrame (hdr w) = length ps" and "ps \<noteq> []" and "ckptLock w" and "pages_ok ps"
  shows "\<exists>p0. walIteratorInit True True w = Some (SQLITE_OK, w, Some p0) \<and> iter_ok ps p0 \<and> iPrior p0 = 0
    \<and> (\<forall>p fr. iter_ok ps p \<longrightarrow>
         (\<forall>pg\<in>set ps. pg \<le> iPrior p) \<and> (\<exists>p' f. walIteratorNext p fr = Some (True, p', 0xFFFFFFFF, f))
       \<or> (\<exists>p' pg. walIteratorNext p fr = Some (False, p', pg, last_frame ps pg) \<and> pg \<in> set ps \<and> iPrior p < pg
            \<and> (\<forall>q\<in>set ps. iPrior p < q \<longrightarrow> pg \<le> q) \<and> iPrior p' = pg \<and> iter_ok ps p'))"
proof -
  obtain p0 where p0: "walIteratorInit True True w = Some (SQLITE_OK, w, Some p0)" "iter_ok ps p0" "iPrior p0 = 0"
    using walIteratorInit_ok [OF assms(1-4)] by blast
  have nth: "(\<forall>F. 0 < F \<and> F \<le> length ps \<longrightarrow> P (ps ! (F - 1))) \<longleftrightarrow> (\<forall>q\<in>set ps. P q)" for P
  proof
    assume a: "\<forall>F. 0 < F \<and> F \<le> length ps \<longrightarrow> P (ps ! (F - 1))"
    show "\<forall>q\<in>set ps. P q"
    proof
      fix q assume "q \<in> set ps"
      then obtain i where "i < length ps" "ps ! i = q" by (auto simp: in_set_conv_nth)
      then show "P q" using a [rule_format, of "Suc i"] by simp
    qed
  next
    assume a: "\<forall>q\<in>set ps. P q"
    show "\<forall>F. 0 < F \<and> F \<le> length ps \<longrightarrow> P (ps ! (F - 1))"
    proof (intro allI impI)
      fix F assume "0 < F \<and> F \<le> length ps"
      then have "F - 1 < length ps" by linarith
      then show "P (ps ! (F - 1))" using a nth_mem by blast
    qed
  qed
  have "(\<forall>pg\<in>set ps. pg \<le> iPrior p) \<and> (\<exists>p' f. walIteratorNext p fr = Some (True, p', 0xFFFFFFFF, f))
       \<or> (\<exists>p' pg. walIteratorNext p fr = Some (False, p', pg, last_frame ps pg) \<and> pg \<in> set ps \<and> iPrior p < pg
            \<and> (\<forall>q\<in>set ps. iPrior p < q \<longrightarrow> pg \<le> q) \<and> iPrior p' = pg \<and> iter_ok ps p')" if it: "iter_ok ps p" for p fr
    using walIteratorNext_ok [OF it assms(5), of fr]
  proof
    assume "no_next ps 0 (length ps) (iPrior p) \<and> (\<exists>p' f. walIteratorNext p fr = Some (True, p', 0xFFFFFFFF, f))"
    then show ?thesis using nth [of "\<lambda>q. q \<le> iPrior p"] by (auto simp: no_next_def)
  next
    assume "\<exists>p' pg f. walIteratorNext p fr = Some (False, p', pg, f) \<and> is_next ps 0 (length ps) (iPrior p) (pg, f) \<and> iPrior p' = pg \<and> iter_ok ps p'"
    then obtain p' pg f where g: "walIteratorNext p fr = Some (False, p', pg, f)" "is_next ps 0 (length ps) (iPrior p) (pg, f)" "iPrior p' = pg" "iter_ok ps p'"
      by blast
    have "f = last_frame ps pg" using is_next_last_frame [OF g(2)] by simp
    moreover have "0 < f" "f \<le> length ps" "ps ! (f - 1) = pg" "iPrior p < pg" using g(2) by (auto simp: is_next_def)
    moreover from this have "pg \<in> set ps" by (metis One_nat_def Suc_pred' nth_mem less_eq_Suc_le)
    moreover have "\<forall>q\<in>set ps. iPrior p < q \<longrightarrow> pg \<le> q" using g(2) nth [of "\<lambda>q. iPrior p < q \<longrightarrow> pg \<le> q"] by (auto simp: is_next_def)
    ultimately show ?thesis using g by blast
  qed
  then show ?thesis using p0 by blast
qed

text \<open>A log of three frames with its index, ready for a checkpoint.\<close>

lemma test_index:
  "\<exists>w. index_inv w [8, 5, 8] \<and> mxFrame (hdr w) = 3 \<and> ckptLock w \<and> writeLock w \<and> nBackfill w = 0
     \<and> hPageSize (hdr w) = 512 \<and> nPage (hdr w) = 9 \<and> exclMode w = WAL_NORMAL_MODE"
proof -
  have r: "env_ok (fresh_wal test_env 0)" "index_inv (fresh_wal test_env 0) []"
    using test_wal [of 0] by (simp_all add: wal_refines_def)
  obtain w where "index_inv w [8, 5, 8]"
    using walIndexAppend_all_ok [OF r, of 0 "[8, 5, 8]"] by auto
  then have "index_inv (w\<lparr>hdr := zero_hdr\<lparr>mxFrame := 3, hPageSize := 512, nPage := 9\<rparr>, ckptLock := True, writeLock := True, nBackfill := 0, exclMode := WAL_NORMAL_MODE\<rparr>) [8, 5, 8]"
    by (simp add: index_inv_def)
  then show ?thesis by force
qed

theorem iterator_ascending_witness:
  "\<exists>w p0 p'. walIteratorInit True True w = Some (SQLITE_OK, w, Some p0) \<and> walIteratorNext p0 0 = Some (False, p', 5, 2)"
proof -
  obtain w where w: "index_inv w [8, 5, 8]" "mxFrame (hdr w) = length [8, 5, 8 :: nat]" "ckptLock w" using test_index by auto
  obtain p0 where p0: "walIteratorInit True True w = Some (SQLITE_OK, w, Some p0)" "iter_ok [8, 5, 8] p0" "iPrior p0 = 0"
      "(\<forall>pg\<in>set [8, 5, 8]. pg \<le> iPrior p0) \<or> (\<exists>p' pg. walIteratorNext p0 0 = Some (False, p', pg, last_frame [8, 5, 8] pg) \<and> pg \<in> set [8, 5, 8]
        \<and> (\<forall>q\<in>set [8, 5, 8]. iPrior p0 < q \<longrightarrow> pg \<le> q))"
    using iterator_ascending [OF w(1,2) _ w(3)] by (fastforce simp: pages_ok_def)
  then obtain p' where "walIteratorNext p0 0 = Some (False, p', 5, last_frame [8, 5, 8] 5)" by auto
  moreover have "last_frame [8, 5, 8] 5 = 2" by (simp add: last_frame_def numeral_eq_Suc)
  ultimately show ?thesis using p0(1) by auto
qed

text \<open>
  C3. Checkpoints and readers: a checkpoint of any mode, with no busy handler or one that gives up at some point, finishes with
  success or \<open>SQLITE_BUSY\<close>. While a reader of the database file is active, which holds mark 0, the file is not touched. No
  frame beyond the mark of an active reader is copied, and every active reader of the log whose mark is not before the
  frames already copied sees every page as before: all pages when its snapshot is older than the end of the log, and the pages
  of the database, up to \<open>nPage\<close>, when it is the newest one. The database file then holds the last image of every page
  backfilled so far, and when no mark is held the whole log is in the file.
\<close>

theorem checkpoint_preserves_views:
  assumes "index_inv w ps" and "mxFrame (hdr w) = length ps" and "ps \<noteq> []" and "ckptLock w" and "pages_ok ps"
    and "page_size_ok PageSize" and "hPageSize (hdr w) = (PageSize AND 0xff00) OR drop_bit 16 PageSize"
    and "ckpt_io_ok io" and "walFrameOffset (length ps + 1) PageSize \<le> length log"
    and "writeLock w" and "nBackfill w \<le> length ps" and "backfilled PageSize log ps (nPage (hdr w)) (nBackfill w) db" and "gives_up xBusy"
  shows "\<exists>rc w' db'. walCheckpoint io mode xBusy log w db = Some (rc, w', db') \<and> rc \<in> {SQLITE_OK, SQLITE_BUSY}
    \<and> nBackfill w \<le> nBackfill w' \<and> nBackfill w' \<le> length ps
    \<and> (reader_active io w 0 \<longrightarrow> db' = db \<and> nBackfill w' = nBackfill w)
    \<and> (\<forall>i\<in>{1..<WAL_NREADER}. reader_active io w i \<longrightarrow> nBackfill w' \<le> max (nBackfill w) (aReadMark w ! i))
    \<and> (\<forall>i\<in>{1..<WAL_NREADER}. \<forall>pg>0. reader_active io w i \<and> nBackfill w \<le> aReadMark w ! i \<and> aReadMark w ! i \<le> length ps
         \<and> (pg \<le> nPage (hdr w) \<or> aReadMark w ! i < mxFrame (shmHdr w))
         \<longrightarrow> view PageSize log ps (aReadMark w ! i) db' pg = view PageSize log ps (aReadMark w ! i) db pg)
    \<and> backfilled PageSize log ps (nPage (hdr w)) (nBackfill w') db'
    \<and> ((\<forall>i\<in>{0..<WAL_NREADER}. mark_free io w i) \<longrightarrow> nBackfill w' = length ps)"
proof (cases "nBackfill w \<ge> mxFrame (hdr w)")
  case True
  then have "walCheckpoint io mode xBusy log w db = Some (SQLITE_OK, w, db)" by (simp add: walCheckpoint_def)
  then show ?thesis using assms(2,11,12) True by (intro exI [of _ SQLITE_OK] exI [of _ w] exI [of _ db]) (auto simp: max_def)
next
  case guard: False
  let ?mp = "nPage (hdr w)"
  have sz: "walPagesize w = PageSize" using walPagesize_ok assms(6,7) by blast
  obtain p where p: "walIteratorInit True True w = Some (SQLITE_OK, w, Some p)" "iter_ok ps p" "iPrior p = 0"
    using walIteratorInit_ok [OF assms(1-4)] by blast
  have mem: "ck_mem1 io = True" "ck_mem2 io = True" using assms(8) by (simp_all add: ckpt_io_ok_def)
  let ?x = "if mode \<noteq> SQLITE_CHECKPOINT_PASSIVE then xBusy else None"
  have gx: "gives_up ?x" using assms(13) by (simp add: gives_up_def)
  obtain rc0 m mx b where M: "walCheckpoint_marks (ck_io io) [1..<WAL_NREADER] SQLITE_OK w ?x (length ps) = Some (False, rc0, w\<lparr>aReadMark := m\<rparr>, b, mx)" "gives_up b"
      "rc0 \<in> {SQLITE_OK, SQLITE_BUSY}" "mx \<le> length ps" "\<forall>i\<in>set [1..<WAL_NREADER]. reader_active io w i \<longrightarrow> mx \<le> aReadMark w ! i"
      "mx = length ps \<or> (\<exists>i\<in>set [1..<WAL_NREADER]. \<not> mark_free io w i)"
    using walCheckpoint_marks_ok [OF assms(8) _ distinct_upt [of 1 WAL_NREADER] _ gx, of "length ps" w SQLITE_OK] assms(2) by (simp only: order_refl) blast
  let ?w1 = "w\<lparr>aReadMark := m\<rparr>"
  have iv: "index_inv ?w1 ps" using assms(1) by (simp add: index_inv_def)
  let ?l0 = "walBusyLock (ck_io io) ?w1 b (WAL_READ_LOCK 0) 1"
  have l0: "?l0 = Some SQLITE_OK \<and> \<not> reader_active io w 0 \<or> ?l0 = Some SQLITE_BUSY \<and> \<not> mark_free io w 0" using walBusyLock_mark [OF assms(8) M(2), of ?w1 0] by simp
  define do_copy where "do_copy = (nBackfill w < mx \<and> ?l0 = Some SQLITE_OK)"
  obtain rc2 w2 db2 where C: "walCheckpoint_locked io log PageSize p b mx rc0 ?w1 db = Some (rc2, w2, db2)"
      "rc2 \<in> {SQLITE_OK, SQLITE_BUSY}" "hdr w2 = hdr w" "writeLock w2"
      "nBackfill w2 = (if do_copy then mx else nBackfill w)" "backfilled PageSize log ps ?mp (nBackfill w2) db2" "\<not> do_copy \<longrightarrow> db2 = db"
      "\<forall>k pg. do_copy \<and> mx \<le> k \<and> k \<le> length ps \<and> 0 < pg \<and> (pg \<le> ?mp \<or> k < mxFrame (shmHdr w)) \<longrightarrow> view PageSize log ps k db2 pg = view PageSize log ps k db pg"
  proof (cases do_copy)
    case True
    obtain db2 db1 where b: "walCheckpoint_backfill io log ?w1 PageSize mx ?mp p db = Some (SQLITE_OK, ?w1\<lparr>nBackfill := mx\<rparr>, db2)"
        "copied PageSize log ps 0 (nBackfill w) mx ?mp db db1" "\<forall>pg. 0 < pg \<and> pg \<le> ?mp \<longrightarrow> db_page PageSize db2 pg = db_page PageSize db1 pg"
        "mx \<noteq> mxFrame (shmHdr w) \<longrightarrow> copied PageSize log ps 0 (nBackfill w) mx ?mp db db2"
      using walCheckpoint_backfill_ok [OF assms(8) p(2,3) assms(5) iv assms(9), of ?mp mx db] by auto
    have bf: "backfilled PageSize log ps ?mp mx db1" using copied_backfilled [OF b(2) assms(12)] True by (simp add: do_copy_def)
    then have "backfilled PageSize log ps ?mp mx db2" using b(3) by (auto simp: backfilled_def)
    moreover have "view PageSize log ps k db2 pg = view PageSize log ps k db pg" if k: "mx \<le> k \<and> k \<le> length ps \<and> 0 < pg \<and> (pg \<le> ?mp \<or> k < mxFrame (shmHdr w))" for k pg
    proof (cases "pg \<le> ?mp")
      case True
      then show ?thesis using copied_view [OF b(2), of k pg] b(3) k by (auto simp: view_def Let_def split: if_splits)
    next
      case False
      then have "copied PageSize log ps 0 (nBackfill w) mx ?mp db db2" using b(4) k by auto
      then show ?thesis using copied_view k by blast
    qed
    ultimately show ?thesis
      using True b(1) assms(10) by (intro that [of SQLITE_OK "?w1\<lparr>nBackfill := mx\<rparr>" db2]) (auto simp: walCheckpoint_locked_def do_copy_def)
  next
    case False
    then show ?thesis
      using M(3) l0 assms(10,12)
      by (intro that [of "if nBackfill w < mx then SQLITE_BUSY else rc0" ?w1 db]) (auto simp: walCheckpoint_locked_def do_copy_def)
  qed
  obtain rl where rl: "walBusyLock (ck_io io) w2 b (WAL_READ_LOCK 1) (WAL_NREADER - 1) = Some rl" "rl \<in> {SQLITE_OK, SQLITE_BUSY}"
    using walBusyLock_ends [OF M(2)] lock_cases [OF assms(8)] by metis
  define rc3 where "rc3 = (if mode = SQLITE_CHECKPOINT_PASSIVE then SQLITE_OK else if nBackfill w2 < mxFrame (hdr w2) then SQLITE_BUSY
     else if mode = SQLITE_CHECKPOINT_RESTART then rl else SQLITE_OK)"
  have full: "\<not> nBackfill w2 < mxFrame (hdr w2) \<Longrightarrow> mx = mxFrame (hdr w2)"
    using C(3,5) assms(2) M(4) guard by (auto split: if_splits)
  have fin: "walCheckpoint_finish io mode b mx rc2 w2 db2 = Some (rc3, w2, db2)"
    using C(2,4) full rl(1) by (auto simp: walCheckpoint_finish_def rc3_def)
  have "walCheckpoint io mode xBusy log w db = Some (rc3, w2, db2)"
    unfolding walCheckpoint_def sz mem
    using guard by (simp add: p(1) M(1) assms(2) C(1) fin del: upt_Suc One_nat_def if_not_P if_P)
  moreover have "rc3 \<in> {SQLITE_OK, SQLITE_BUSY}" using rl(2) by (simp add: rc3_def)
  moreover have "(\<forall>i\<in>{0..<WAL_NREADER}. mark_free io w i) \<longrightarrow> nBackfill w2 = length ps"
    using M(6) l0 guard assms(2) C(5) by (auto simp: do_copy_def WAL_NREADER_def)
  moreover have "nBackfill w \<le> nBackfill w2" "nBackfill w2 \<le> length ps" using C(5) M(4) assms(11) by (auto simp: do_copy_def)
  moreover have "\<forall>i\<in>{1..<WAL_NREADER}. reader_active io w i \<longrightarrow> nBackfill w2 \<le> max (nBackfill w) (aReadMark w ! i)"
    using C(5) M(5) by (auto simp: max_def)
  moreover have "reader_active io w 0 \<longrightarrow> db2 = db \<and> nBackfill w2 = nBackfill w" using l0 C(5,7) by (auto simp: do_copy_def)
  moreover have "\<forall>i\<in>{1..<WAL_NREADER}. \<forall>pg>0. reader_active io w i \<and> nBackfill w \<le> aReadMark w ! i \<and> aReadMark w ! i \<le> length ps
         \<and> (pg \<le> nPage (hdr w) \<or> aReadMark w ! i < mxFrame (shmHdr w))
         \<longrightarrow> view PageSize log ps (aReadMark w ! i) db2 pg = view PageSize log ps (aReadMark w ! i) db pg"
    using C(7,8) M(5) by (cases do_copy) auto
  ultimately show ?thesis using C(6) by blast
qed

definition test_ckpt :: CkptIo where
  "test_ckpt = \<lparr>ck_io = test_io, ck_db = (\<lambda>_. SQLITE_OK), ck_db_size = SQLITE_OK, ck_db_truncate = SQLITE_OK, ck_db_sync = SQLITE_OK, ck_mem1 = True, ck_mem2 = True\<rparr>"

theorem checkpoint_preserves_views_witness:
  "\<exists>w rc w' db'. nBackfill w = 0 \<and> walCheckpoint test_ckpt SQLITE_CHECKPOINT_FULL None (replicate 4096 7) w [] = Some (rc, w', db')
    \<and> nBackfill w' = 3 \<and> db_page 512 db' 8 = replicate 512 7"
proof -
  obtain w where w: "index_inv w [8, 5, 8]" "mxFrame (hdr w) = length [8, 5, 8 :: nat]" "ckptLock w" "writeLock w" "nBackfill w = 0"
      "hPageSize (hdr w) = 512" "nPage (hdr w) = 9" "exclMode w = WAL_NORMAL_MODE" using test_index by auto
  have io: "ckpt_io_ok test_ckpt" by (simp add: ckpt_io_ok_def test_ckpt_def test_io_def)
  have na: "\<forall>i\<in>{0..<WAL_NREADER}. mark_free test_ckpt w i" "gives_up None"
    using w(8) by (simp_all add: mark_free_def gives_up_def walLockExclusive_def test_ckpt_def test_io_def)
  have bf: "backfilled 512 (replicate 4096 7) [8, 5, 8] (nPage (hdr w)) (nBackfill w) []" using w(5) by (auto simp: backfilled_def)
  have lf: "last_frame [8, 5, 8] 8 = 3" by (simp add: last_frame_def numeral_eq_Suc)
  have pre: "pages_ok [8, 5, 8]" "page_size_ok 512" "walFrameOffset (length [8, 5, 8 :: nat] + 1) 512 \<le> length (replicate 4096 (7 :: byte))"
      "hPageSize (hdr w) = (512 AND 0xff00) OR drop_bit 16 512" "nBackfill w \<le> length [8, 5, 8 :: nat]"
    using w(5,6) by (simp_all add: pages_ok_def page_size_ok_def walFrameOffset_def WAL_HDRSIZE_def WAL_FRAME_HDRSIZE_def)
  obtain rc w' db' where c: "walCheckpoint test_ckpt SQLITE_CHECKPOINT_FULL None (replicate 4096 7) w [] = Some (rc, w', db')"
      "nBackfill w' = length [8, 5, 8 :: nat]" "backfilled 512 (replicate 4096 7) [8, 5, 8] 9 (nBackfill w') db'"
    using checkpoint_preserves_views [OF w(1,2) _ w(3) pre(1,2,4) io pre(3) w(4) pre(5) bf, where mode = SQLITE_CHECKPOINT_FULL and xBusy = None] na w(7)
    by (metis list.distinct(1))
  have "db_page 512 db' 8 = frame_page 512 (replicate 4096 7) 3" using c(2,3) lf unfolding backfilled_def by force
  also have "\<dots> = replicate 512 7" by (simp add: frame_page_def walFrameOffset_def WAL_HDRSIZE_def WAL_FRAME_HDRSIZE_def)
  finally show ?thesis using c w(5) by auto
qed

end
