(* ===== verification/TokenCodes.thy ===== *)
theory TokenCodes
  imports Prelude
begin

text \<open>
  The token codes the parser is built for (src/sqliteInt.go, generated with the grammar), as the
  numbers the source gives them.
\<close>

definition TK_SEMI :: nat where "TK_SEMI = 1"
definition TK_EXPLAIN :: nat where "TK_EXPLAIN = 2"
definition TK_QUERY :: nat where "TK_QUERY = 3"
definition TK_PLAN :: nat where "TK_PLAN = 4"
definition TK_BEGIN :: nat where "TK_BEGIN = 5"
definition TK_TRANSACTION :: nat where "TK_TRANSACTION = 6"
definition TK_DEFERRED :: nat where "TK_DEFERRED = 7"
definition TK_IMMEDIATE :: nat where "TK_IMMEDIATE = 8"
definition TK_EXCLUSIVE :: nat where "TK_EXCLUSIVE = 9"
definition TK_COMMIT :: nat where "TK_COMMIT = 10"
definition TK_END :: nat where "TK_END = 11"
definition TK_ROLLBACK :: nat where "TK_ROLLBACK = 12"
definition TK_SAVEPOINT :: nat where "TK_SAVEPOINT = 13"
definition TK_RELEASE :: nat where "TK_RELEASE = 14"
definition TK_TO :: nat where "TK_TO = 15"
definition TK_TABLE :: nat where "TK_TABLE = 16"
definition TK_CREATE :: nat where "TK_CREATE = 17"
definition TK_IF :: nat where "TK_IF = 18"
definition TK_NOT :: nat where "TK_NOT = 19"
definition TK_EXISTS :: nat where "TK_EXISTS = 20"
definition TK_TEMP :: nat where "TK_TEMP = 21"
definition TK_LP :: nat where "TK_LP = 22"
definition TK_RP :: nat where "TK_RP = 23"
definition TK_AS :: nat where "TK_AS = 24"
definition TK_COMMA :: nat where "TK_COMMA = 25"
definition TK_ID :: nat where "TK_ID = 26"
definition TK_INDEXED :: nat where "TK_INDEXED = 27"
definition TK_ABORT :: nat where "TK_ABORT = 28"
definition TK_ACTION :: nat where "TK_ACTION = 29"
definition TK_AFTER :: nat where "TK_AFTER = 30"
definition TK_ANALYZE :: nat where "TK_ANALYZE = 31"
definition TK_ASC :: nat where "TK_ASC = 32"
definition TK_ATTACH :: nat where "TK_ATTACH = 33"
definition TK_BEFORE :: nat where "TK_BEFORE = 34"
definition TK_BY :: nat where "TK_BY = 35"
definition TK_CASCADE :: nat where "TK_CASCADE = 36"
definition TK_CAST :: nat where "TK_CAST = 37"
definition TK_COLUMNKW :: nat where "TK_COLUMNKW = 38"
definition TK_CONFLICT :: nat where "TK_CONFLICT = 39"
definition TK_DATABASE :: nat where "TK_DATABASE = 40"
definition TK_DESC :: nat where "TK_DESC = 41"
definition TK_DETACH :: nat where "TK_DETACH = 42"
definition TK_EACH :: nat where "TK_EACH = 43"
definition TK_FAIL :: nat where "TK_FAIL = 44"
definition TK_FOR :: nat where "TK_FOR = 45"
definition TK_IGNORE :: nat where "TK_IGNORE = 46"
definition TK_INITIALLY :: nat where "TK_INITIALLY = 47"
definition TK_INSTEAD :: nat where "TK_INSTEAD = 48"
definition TK_LIKE_KW :: nat where "TK_LIKE_KW = 49"
definition TK_MATCH :: nat where "TK_MATCH = 50"
definition TK_NO :: nat where "TK_NO = 51"
definition TK_KEY :: nat where "TK_KEY = 52"
definition TK_OF :: nat where "TK_OF = 53"
definition TK_OFFSET :: nat where "TK_OFFSET = 54"
definition TK_PRAGMA :: nat where "TK_PRAGMA = 55"
definition TK_RAISE :: nat where "TK_RAISE = 56"
definition TK_REPLACE :: nat where "TK_REPLACE = 57"
definition TK_RESTRICT :: nat where "TK_RESTRICT = 58"
definition TK_ROW :: nat where "TK_ROW = 59"
definition TK_TRIGGER :: nat where "TK_TRIGGER = 60"
definition TK_VACUUM :: nat where "TK_VACUUM = 61"
definition TK_VIEW :: nat where "TK_VIEW = 62"
definition TK_VIRTUAL :: nat where "TK_VIRTUAL = 63"
definition TK_REINDEX :: nat where "TK_REINDEX = 64"
definition TK_RENAME :: nat where "TK_RENAME = 65"
definition TK_CTIME_KW :: nat where "TK_CTIME_KW = 66"
definition TK_ANY :: nat where "TK_ANY = 67"
definition TK_OR :: nat where "TK_OR = 68"
definition TK_AND :: nat where "TK_AND = 69"
definition TK_IS :: nat where "TK_IS = 70"
definition TK_BETWEEN :: nat where "TK_BETWEEN = 71"
definition TK_IN :: nat where "TK_IN = 72"
definition TK_ISNULL :: nat where "TK_ISNULL = 73"
definition TK_NOTNULL :: nat where "TK_NOTNULL = 74"
definition TK_NE :: nat where "TK_NE = 75"
definition TK_EQ :: nat where "TK_EQ = 76"
definition TK_GT :: nat where "TK_GT = 77"
definition TK_LE :: nat where "TK_LE = 78"
definition TK_LT :: nat where "TK_LT = 79"
definition TK_GE :: nat where "TK_GE = 80"
definition TK_ESCAPE :: nat where "TK_ESCAPE = 81"
definition TK_BITAND :: nat where "TK_BITAND = 82"
definition TK_BITOR :: nat where "TK_BITOR = 83"
definition TK_LSHIFT :: nat where "TK_LSHIFT = 84"
definition TK_RSHIFT :: nat where "TK_RSHIFT = 85"
definition TK_PLUS :: nat where "TK_PLUS = 86"
definition TK_MINUS :: nat where "TK_MINUS = 87"
definition TK_STAR :: nat where "TK_STAR = 88"
definition TK_SLASH :: nat where "TK_SLASH = 89"
definition TK_REM :: nat where "TK_REM = 90"
definition TK_CONCAT :: nat where "TK_CONCAT = 91"
definition TK_COLLATE :: nat where "TK_COLLATE = 92"
definition TK_BITNOT :: nat where "TK_BITNOT = 93"
definition TK_STRING :: nat where "TK_STRING = 94"
definition TK_JOIN_KW :: nat where "TK_JOIN_KW = 95"
definition TK_CONSTRAINT :: nat where "TK_CONSTRAINT = 96"
definition TK_DEFAULT :: nat where "TK_DEFAULT = 97"
definition TK_NULL :: nat where "TK_NULL = 98"
definition TK_PRIMARY :: nat where "TK_PRIMARY = 99"
definition TK_UNIQUE :: nat where "TK_UNIQUE = 100"
definition TK_CHECK :: nat where "TK_CHECK = 101"
definition TK_REFERENCES :: nat where "TK_REFERENCES = 102"
definition TK_AUTOINCR :: nat where "TK_AUTOINCR = 103"
definition TK_ON :: nat where "TK_ON = 104"
definition TK_INSERT :: nat where "TK_INSERT = 105"
definition TK_DELETE :: nat where "TK_DELETE = 106"
definition TK_UPDATE :: nat where "TK_UPDATE = 107"
definition TK_SET :: nat where "TK_SET = 108"
definition TK_DEFERRABLE :: nat where "TK_DEFERRABLE = 109"
definition TK_FOREIGN :: nat where "TK_FOREIGN = 110"
definition TK_DROP :: nat where "TK_DROP = 111"
definition TK_UNION :: nat where "TK_UNION = 112"
definition TK_ALL :: nat where "TK_ALL = 113"
definition TK_EXCEPT :: nat where "TK_EXCEPT = 114"
definition TK_INTERSECT :: nat where "TK_INTERSECT = 115"
definition TK_SELECT :: nat where "TK_SELECT = 116"
definition TK_DISTINCT :: nat where "TK_DISTINCT = 117"
definition TK_DOT :: nat where "TK_DOT = 118"
definition TK_FROM :: nat where "TK_FROM = 119"
definition TK_JOIN :: nat where "TK_JOIN = 120"
definition TK_USING :: nat where "TK_USING = 121"
definition TK_ORDER :: nat where "TK_ORDER = 122"
definition TK_GROUP :: nat where "TK_GROUP = 123"
definition TK_HAVING :: nat where "TK_HAVING = 124"
definition TK_LIMIT :: nat where "TK_LIMIT = 125"
definition TK_WHERE :: nat where "TK_WHERE = 126"
definition TK_INTO :: nat where "TK_INTO = 127"
definition TK_VALUES :: nat where "TK_VALUES = 128"
definition TK_INTEGER :: nat where "TK_INTEGER = 129"
definition TK_FLOAT :: nat where "TK_FLOAT = 130"
definition TK_BLOB :: nat where "TK_BLOB = 131"
definition TK_REGISTER :: nat where "TK_REGISTER = 132"
definition TK_VARIABLE :: nat where "TK_VARIABLE = 133"
definition TK_CASE :: nat where "TK_CASE = 134"
definition TK_WHEN :: nat where "TK_WHEN = 135"
definition TK_THEN :: nat where "TK_THEN = 136"
definition TK_ELSE :: nat where "TK_ELSE = 137"
definition TK_INDEX :: nat where "TK_INDEX = 138"
definition TK_ALTER :: nat where "TK_ALTER = 139"
definition TK_ADD :: nat where "TK_ADD = 140"
definition TK_TO_TEXT :: nat where "TK_TO_TEXT = 141"
definition TK_TO_BLOB :: nat where "TK_TO_BLOB = 142"
definition TK_TO_NUMERIC :: nat where "TK_TO_NUMERIC = 143"
definition TK_TO_INT :: nat where "TK_TO_INT = 144"
definition TK_TO_REAL :: nat where "TK_TO_REAL = 145"
definition TK_ISNOT :: nat where "TK_ISNOT = 146"
definition TK_END_OF_FILE :: nat where "TK_END_OF_FILE = 147"
definition TK_ILLEGAL :: nat where "TK_ILLEGAL = 148"
definition TK_SPACE :: nat where "TK_SPACE = 149"
definition TK_UNCLOSED_STRING :: nat where "TK_UNCLOSED_STRING = 150"
definition TK_FUNCTION :: nat where "TK_FUNCTION = 151"
definition TK_COLUMN :: nat where "TK_COLUMN = 152"
definition TK_AGG_FUNCTION :: nat where "TK_AGG_FUNCTION = 153"
definition TK_AGG_COLUMN :: nat where "TK_AGG_COLUMN = 154"
definition TK_CONST_FUNC :: nat where "TK_CONST_FUNC = 155"
definition TK_UMINUS :: nat where "TK_UMINUS = 156"
definition TK_UPLUS :: nat where "TK_UPLUS = 157"

lemmas tk_defs =
  TK_SEMI_def TK_EXPLAIN_def TK_QUERY_def TK_PLAN_def TK_BEGIN_def TK_TRANSACTION_def TK_DEFERRED_def TK_IMMEDIATE_def
  TK_EXCLUSIVE_def TK_COMMIT_def TK_END_def TK_ROLLBACK_def TK_SAVEPOINT_def TK_RELEASE_def TK_TO_def TK_TABLE_def
  TK_CREATE_def TK_IF_def TK_NOT_def TK_EXISTS_def TK_TEMP_def TK_LP_def TK_RP_def TK_AS_def TK_COMMA_def TK_ID_def
  TK_INDEXED_def TK_ABORT_def TK_ACTION_def TK_AFTER_def TK_ANALYZE_def TK_ASC_def TK_ATTACH_def TK_BEFORE_def TK_BY_def
  TK_CASCADE_def TK_CAST_def TK_COLUMNKW_def TK_CONFLICT_def TK_DATABASE_def TK_DESC_def TK_DETACH_def TK_EACH_def
  TK_FAIL_def TK_FOR_def TK_IGNORE_def TK_INITIALLY_def TK_INSTEAD_def TK_LIKE_KW_def TK_MATCH_def TK_NO_def TK_KEY_def
  TK_OF_def TK_OFFSET_def TK_PRAGMA_def TK_RAISE_def TK_REPLACE_def TK_RESTRICT_def TK_ROW_def TK_TRIGGER_def
  TK_VACUUM_def TK_VIEW_def TK_VIRTUAL_def TK_REINDEX_def TK_RENAME_def TK_CTIME_KW_def TK_ANY_def TK_OR_def TK_AND_def
  TK_IS_def TK_BETWEEN_def TK_IN_def TK_ISNULL_def TK_NOTNULL_def TK_NE_def TK_EQ_def TK_GT_def TK_LE_def TK_LT_def
  TK_GE_def TK_ESCAPE_def TK_BITAND_def TK_BITOR_def TK_LSHIFT_def TK_RSHIFT_def TK_PLUS_def TK_MINUS_def TK_STAR_def
  TK_SLASH_def TK_REM_def TK_CONCAT_def TK_COLLATE_def TK_BITNOT_def TK_STRING_def TK_JOIN_KW_def TK_CONSTRAINT_def
  TK_DEFAULT_def TK_NULL_def TK_PRIMARY_def TK_UNIQUE_def TK_CHECK_def TK_REFERENCES_def TK_AUTOINCR_def TK_ON_def
  TK_INSERT_def TK_DELETE_def TK_UPDATE_def TK_SET_def TK_DEFERRABLE_def TK_FOREIGN_def TK_DROP_def TK_UNION_def
  TK_ALL_def TK_EXCEPT_def TK_INTERSECT_def TK_SELECT_def TK_DISTINCT_def TK_DOT_def TK_FROM_def TK_JOIN_def
  TK_USING_def TK_ORDER_def TK_GROUP_def TK_HAVING_def TK_LIMIT_def TK_WHERE_def TK_INTO_def TK_VALUES_def
  TK_INTEGER_def TK_FLOAT_def TK_BLOB_def TK_REGISTER_def TK_VARIABLE_def TK_CASE_def TK_WHEN_def TK_THEN_def
  TK_ELSE_def TK_INDEX_def TK_ALTER_def TK_ADD_def TK_TO_TEXT_def TK_TO_BLOB_def TK_TO_NUMERIC_def TK_TO_INT_def
  TK_TO_REAL_def TK_ISNOT_def TK_END_OF_FILE_def TK_ILLEGAL_def TK_SPACE_def TK_UNCLOSED_STRING_def TK_FUNCTION_def
  TK_COLUMN_def TK_AGG_FUNCTION_def TK_AGG_COLUMN_def TK_CONST_FUNC_def TK_UMINUS_def TK_UPLUS_def

end
