(* ===== verification/Keyword.thy ===== *)
theory Keyword
  imports Util TokenCodes
begin

text \<open>
  The keyword recogniser of the SQL tokenizer, src/tokenize.go: the packed keyword text, the hash and
  chain tables, and \<open>keywordCode\<close>. The main result is that the hash finds what a linear search finds.
\<close>

section \<open>Keywords\<close>

definition zText :: string where
  "zText =
    ''REINDEXEDESCAPEACHECKEYBEFOREIGNOREGEXPLAINSTEADDATABASELECTABLEFTHENDEFERRABLELSEXCEPTRAN'' @
    ''SACTIONATURALTERAISEXCLUSIVEXISTSAVEPOINTERSECTRIGGEREFERENCESCONSTRAINTOFFSETEMPORARYUNIQ'' @
    ''UERYATTACHAVINGROUPDATEBEGINNERELEASEBETWEENOTNULLIKECASCADELETECASECOLLATECREATECURRENT_D'' @
    ''ATEDETACHIMMEDIATEJOINSERTMATCHPLANALYZEPRAGMABORTVALUESVIRTUALIMITWHENWHERENAMEAFTEREPLAC'' @
    ''EANDEFAULTAUTOINCREMENTCASTCOLUMNCOMMITCONFLICTCROSSCURRENT_TIMESTAMPRIMARYDEFERREDISTINCT'' @
    ''DROPFAILFROMFULLGLOBYIFISNULLORDERESTRICTOUTERIGHTROLLBACKROWUNIONUSINGVACUUMVIEWINITIALLY''"

definition aHash :: "nat list" where
  "aHash =
    [72, 101, 114, 70, 0, 45, 0, 0, 78, 0, 73, 0, 0, 42, 12, 74,
     15, 0, 113, 81, 50, 108, 0, 19, 0, 0, 118, 0, 116, 111, 0, 22,
     89, 0, 9, 0, 0, 66, 67, 0, 65, 6, 0, 48, 86, 98, 0, 115,
     97, 0, 0, 44, 0, 99, 24, 0, 17, 0, 119, 49, 23, 0, 5, 106,
     25, 92, 0, 0, 121, 102, 56, 120, 53, 28, 51, 0, 87, 0, 96, 26,
     0, 95, 0, 0, 0, 91, 88, 93, 84, 105, 14, 39, 104, 0, 77, 0,
     18, 85, 107, 32, 0, 117, 76, 109, 58, 46, 80, 0, 0, 90, 40, 0,
     112, 0, 36, 0, 0, 29, 0, 82, 59, 60, 0, 20, 57, 0, 52]"

definition aNext :: "nat list" where
  "aNext =
    [0, 0, 0, 0, 4, 0, 0, 0, 0, 0, 0, 0, 0, 0, 2, 0,
     0, 0, 0, 0, 0, 13, 0, 0, 0, 0, 0, 7, 0, 0, 0, 0,
     0, 0, 0, 0, 0, 0, 0, 0, 0, 0, 0, 33, 0, 21, 0, 0,
     0, 43, 3, 47, 0, 0, 0, 0, 30, 0, 54, 0, 38, 0, 0, 0,
     1, 62, 0, 0, 63, 0, 41, 0, 0, 0, 0, 0, 0, 0, 61, 0,
     0, 0, 0, 31, 55, 16, 34, 10, 0, 0, 0, 0, 0, 0, 0, 11,
     68, 75, 0, 8, 0, 100, 94, 0, 103, 0, 83, 0, 71, 0, 0, 110,
     27, 37, 69, 79, 0, 35, 64, 0, 0]"

definition aLen :: "nat list" where
  "aLen =
    [7, 7, 5, 4, 6, 4, 5, 3, 6, 7, 3, 6, 6, 7, 7, 3,
     8, 2, 6, 5, 4, 4, 3, 10, 4, 6, 11, 6, 2, 7, 5, 5,
     9, 6, 9, 9, 7, 10, 10, 4, 6, 2, 3, 9, 4, 2, 6, 5,
     6, 6, 5, 6, 5, 5, 7, 7, 7, 3, 2, 4, 4, 7, 3, 6,
     4, 7, 6, 12, 6, 9, 4, 6, 5, 4, 7, 6, 5, 6, 7, 5,
     4, 5, 6, 5, 7, 3, 7, 13, 2, 2, 4, 6, 6, 8, 5, 17,
     12, 7, 8, 8, 2, 4, 4, 4, 4, 4, 2, 2, 6, 5, 8, 5,
     5, 8, 3, 5, 5, 6, 4, 9, 3]"

definition aOffset :: "nat list" where
  "aOffset =
    [0, 2, 2, 8, 9, 14, 16, 20, 23, 25, 25, 29, 33, 36, 41, 46,
     48, 53, 54, 59, 62, 65, 67, 69, 78, 81, 86, 91, 95, 96, 101, 105,
     109, 117, 122, 128, 136, 142, 152, 159, 162, 162, 165, 167, 167, 171, 176, 179,
     184, 189, 194, 197, 203, 206, 210, 217, 223, 223, 223, 226, 229, 233, 234, 238,
     244, 248, 255, 261, 273, 279, 288, 290, 296, 301, 303, 310, 315, 320, 326, 332,
     337, 341, 344, 350, 354, 361, 363, 370, 372, 374, 383, 387, 393, 399, 407, 412,
     412, 428, 435, 442, 443, 450, 454, 458, 462, 466, 469, 471, 473, 479, 483, 491,
     495, 500, 508, 511, 516, 521, 527, 531, 536]"

definition aCode :: "nat list" where
  "aCode =
    [TK_REINDEX, TK_INDEXED, TK_INDEX, TK_DESC, TK_ESCAPE, TK_EACH, TK_CHECK, TK_KEY, TK_BEFORE, TK_FOREIGN, TK_FOR, TK_IGNORE, TK_LIKE_KW, TK_EXPLAIN, TK_INSTEAD, TK_ADD,
     TK_DATABASE, TK_AS, TK_SELECT, TK_TABLE, TK_JOIN_KW, TK_THEN, TK_END, TK_DEFERRABLE, TK_ELSE, TK_EXCEPT, TK_TRANSACTION, TK_ACTION, TK_ON, TK_JOIN_KW, TK_ALTER, TK_RAISE,
     TK_EXCLUSIVE, TK_EXISTS, TK_SAVEPOINT, TK_INTERSECT, TK_TRIGGER, TK_REFERENCES, TK_CONSTRAINT, TK_INTO, TK_OFFSET, TK_OF, TK_SET, TK_TEMP, TK_TEMP, TK_OR, TK_UNIQUE, TK_QUERY,
     TK_ATTACH, TK_HAVING, TK_GROUP, TK_UPDATE, TK_BEGIN, TK_JOIN_KW, TK_RELEASE, TK_BETWEEN, TK_NOTNULL, TK_NOT, TK_NO, TK_NULL, TK_LIKE_KW, TK_CASCADE, TK_ASC, TK_DELETE,
     TK_CASE, TK_COLLATE, TK_CREATE, TK_CTIME_KW, TK_DETACH, TK_IMMEDIATE, TK_JOIN, TK_INSERT, TK_MATCH, TK_PLAN, TK_ANALYZE, TK_PRAGMA, TK_ABORT, TK_VALUES, TK_VIRTUAL, TK_LIMIT,
     TK_WHEN, TK_WHERE, TK_RENAME, TK_AFTER, TK_REPLACE, TK_AND, TK_DEFAULT, TK_AUTOINCR, TK_TO, TK_IN, TK_CAST, TK_COLUMNKW, TK_COMMIT, TK_CONFLICT, TK_JOIN_KW, TK_CTIME_KW,
     TK_CTIME_KW, TK_PRIMARY, TK_DEFERRED, TK_DISTINCT, TK_IS, TK_DROP, TK_FAIL, TK_FROM, TK_JOIN_KW, TK_LIKE_KW, TK_BY, TK_IF, TK_ISNULL, TK_ORDER, TK_RESTRICT, TK_JOIN_KW,
     TK_JOIN_KW, TK_ROLLBACK, TK_ROW, TK_UNION, TK_USING, TK_VACUUM, TK_VIEW, TK_INITIALLY, TK_ALL]"

text \<open>
  \<open>CaseInsensitiveMatchN\<close>, used here with an ASCII keyword on one side: then Go's lower-casing of equally
  long strings agrees with folding byte by byte.
\<close>

definition CaseInsensitiveMatchN :: "string \<Rightarrow> string \<Rightarrow> nat \<Rightarrow> bool" where
  "CaseInsensitiveMatchN left right n \<longleftrightarrow> map charMap (take n left) = map charMap (take n right)"

lemma aNext_decreasing: "i < 121 \<Longrightarrow> aNext ! i \<le> i"
proof -
  have "list_all (\<lambda>i. aNext ! i \<le> i) [0..<121]" by code_simp
  then show "i < 121 \<Longrightarrow> aNext ! i \<le> i" by (simp add: list_all_iff)
qed

text \<open>The loop over a hash chain; \<open>k\<close> is \<open>i + 1\<close>. An index beyond the tables is a fault.\<close>

function keywordCode_loop :: "string \<Rightarrow> nat \<Rightarrow> nat \<Rightarrow> nat option" where
  "keywordCode_loop z n k =
     (if k = 0 then Some TK_ID
      else if k > 121 then None
      else if aLen ! (k - 1) = n \<and> CaseInsensitiveMatchN (drop (aOffset ! (k - 1)) zText) z n then Some (aCode ! (k - 1))
      else keywordCode_loop z n (aNext ! (k - 1)))"
  by pat_completeness auto

termination keywordCode_loop
proof (relation "measure (\<lambda>(z, n, k). k)")
  fix z n and k :: nat
  assume "k \<noteq> 0" "\<not> k > 121"
  then have "aNext ! (k - 1) \<le> k - 1" by (intro aNext_decreasing) simp
  then show "((z, n, aNext ! (k - 1)), z, n, k) \<in> measure (\<lambda>(z, n, k). k)" using \<open>k \<noteq> 0\<close> by simp
qed simp

declare keywordCode_loop.simps [simp del]

definition keywordCode_hash :: "string \<Rightarrow> nat \<Rightarrow> nat" where
  "keywordCode_hash z n = (((charMap (zat z 0) * 4) XOR (charMap (zat z (n - 1)) * 3)) XOR n) mod 127"

definition keywordCode :: "string \<Rightarrow> nat \<Rightarrow> nat option" where
  "keywordCode z n = (if n < 2 then Some TK_ID else keywordCode_loop z n (aHash ! keywordCode_hash z n))"

section \<open>The hash finds the keywords\<close>

text \<open>The keywords that \<open>zText\<close>, \<open>aLen\<close> and \<open>aOffset\<close> encode, one by one, with their tokens.\<close>

definition keyword_list :: "(string \<times> nat) list" where
  "keyword_list =
    [(''REINDEX'', TK_REINDEX), (''INDEXED'', TK_INDEXED), (''INDEX'', TK_INDEX), (''DESC'', TK_DESC), (''ESCAPE'', TK_ESCAPE), (''EACH'', TK_EACH),
     (''CHECK'', TK_CHECK), (''KEY'', TK_KEY), (''BEFORE'', TK_BEFORE), (''FOREIGN'', TK_FOREIGN), (''FOR'', TK_FOR), (''IGNORE'', TK_IGNORE),
     (''REGEXP'', TK_LIKE_KW), (''EXPLAIN'', TK_EXPLAIN), (''INSTEAD'', TK_INSTEAD), (''ADD'', TK_ADD), (''DATABASE'', TK_DATABASE), (''AS'', TK_AS),
     (''SELECT'', TK_SELECT), (''TABLE'', TK_TABLE), (''LEFT'', TK_JOIN_KW), (''THEN'', TK_THEN), (''END'', TK_END), (''DEFERRABLE'', TK_DEFERRABLE),
     (''ELSE'', TK_ELSE), (''EXCEPT'', TK_EXCEPT), (''TRANSACTION'', TK_TRANSACTION), (''ACTION'', TK_ACTION), (''ON'', TK_ON), (''NATURAL'', TK_JOIN_KW),
     (''ALTER'', TK_ALTER), (''RAISE'', TK_RAISE), (''EXCLUSIVE'', TK_EXCLUSIVE), (''EXISTS'', TK_EXISTS), (''SAVEPOINT'', TK_SAVEPOINT), (''INTERSECT'', TK_INTERSECT),
     (''TRIGGER'', TK_TRIGGER), (''REFERENCES'', TK_REFERENCES), (''CONSTRAINT'', TK_CONSTRAINT), (''INTO'', TK_INTO), (''OFFSET'', TK_OFFSET), (''OF'', TK_OF),
     (''SET'', TK_SET), (''TEMPORARY'', TK_TEMP), (''TEMP'', TK_TEMP), (''OR'', TK_OR), (''UNIQUE'', TK_UNIQUE), (''QUERY'', TK_QUERY),
     (''ATTACH'', TK_ATTACH), (''HAVING'', TK_HAVING), (''GROUP'', TK_GROUP), (''UPDATE'', TK_UPDATE), (''BEGIN'', TK_BEGIN), (''INNER'', TK_JOIN_KW),
     (''RELEASE'', TK_RELEASE), (''BETWEEN'', TK_BETWEEN), (''NOTNULL'', TK_NOTNULL), (''NOT'', TK_NOT), (''NO'', TK_NO), (''NULL'', TK_NULL),
     (''LIKE'', TK_LIKE_KW), (''CASCADE'', TK_CASCADE), (''ASC'', TK_ASC), (''DELETE'', TK_DELETE), (''CASE'', TK_CASE), (''COLLATE'', TK_COLLATE),
     (''CREATE'', TK_CREATE), (''CURRENT_DATE'', TK_CTIME_KW), (''DETACH'', TK_DETACH), (''IMMEDIATE'', TK_IMMEDIATE), (''JOIN'', TK_JOIN), (''INSERT'', TK_INSERT),
     (''MATCH'', TK_MATCH), (''PLAN'', TK_PLAN), (''ANALYZE'', TK_ANALYZE), (''PRAGMA'', TK_PRAGMA), (''ABORT'', TK_ABORT), (''VALUES'', TK_VALUES),
     (''VIRTUAL'', TK_VIRTUAL), (''LIMIT'', TK_LIMIT), (''WHEN'', TK_WHEN), (''WHERE'', TK_WHERE), (''RENAME'', TK_RENAME), (''AFTER'', TK_AFTER),
     (''REPLACE'', TK_REPLACE), (''AND'', TK_AND), (''DEFAULT'', TK_DEFAULT), (''AUTOINCREMENT'', TK_AUTOINCR), (''TO'', TK_TO), (''IN'', TK_IN),
     (''CAST'', TK_CAST), (''COLUMN'', TK_COLUMNKW), (''COMMIT'', TK_COMMIT), (''CONFLICT'', TK_CONFLICT), (''CROSS'', TK_JOIN_KW), (''CURRENT_TIMESTAMP'', TK_CTIME_KW),
     (''CURRENT_TIME'', TK_CTIME_KW), (''PRIMARY'', TK_PRIMARY), (''DEFERRED'', TK_DEFERRED), (''DISTINCT'', TK_DISTINCT), (''IS'', TK_IS), (''DROP'', TK_DROP),
     (''FAIL'', TK_FAIL), (''FROM'', TK_FROM), (''FULL'', TK_JOIN_KW), (''GLOB'', TK_LIKE_KW), (''BY'', TK_BY), (''IF'', TK_IF),
     (''ISNULL'', TK_ISNULL), (''ORDER'', TK_ORDER), (''RESTRICT'', TK_RESTRICT), (''OUTER'', TK_JOIN_KW), (''RIGHT'', TK_JOIN_KW), (''ROLLBACK'', TK_ROLLBACK),
     (''ROW'', TK_ROW), (''UNION'', TK_UNION), (''USING'', TK_USING), (''VACUUM'', TK_VACUUM), (''VIEW'', TK_VIEW), (''INITIALLY'', TK_INITIALLY),
     (''ALL'', TK_ALL)]"


text \<open>The entries of a table given as a literal, as rewrite rules.\<close>

primrec table_from :: "'a list \<Rightarrow> num \<Rightarrow> 'a list \<Rightarrow> bool" where
  "table_from t n [] \<longleftrightarrow> True"
| "table_from t n (x # xs) \<longleftrightarrow> t ! numeral n = x \<and> table_from t (Num.inc n) xs"

lemma table_from_append: "length ys = numeral n \<Longrightarrow> table_from (ys @ xs) n xs"
proof (induction xs arbitrary: ys n)
  case (Cons x xs)
  have "length (ys @ [x]) = numeral (Num.inc n)" using Cons.prems by (simp add: numeral_inc)
  from Cons.IH [OF this] show ?case using Cons.prems by (simp add: nth_append)
qed simp

lemma table_from_eq: "t = x # xs \<Longrightarrow> t ! 0 = x \<and> table_from t Num.One xs"
  using table_from_append [of "[x]" Num.One xs] by simp

lemmas aHash_nth = table_from_eq [OF aHash_def, simplified]
lemmas aNext_nth = table_from_eq [OF aNext_def, simplified]
lemmas aLen_nth = table_from_eq [OF aLen_def, simplified]
lemmas aOffset_nth = table_from_eq [OF aOffset_def, simplified]
lemmas aCode_nth = table_from_eq [OF aCode_def, simplified]

definition keyword_search :: "string \<Rightarrow> nat" where
  "keyword_search z = (case find (\<lambda>(w, t). map charMap w = map charMap z) keyword_list of Some (w, t) \<Rightarrow> t | None \<Rightarrow> TK_ID)"

lemmas keyword_nth = table_from_eq [OF keyword_list_def, simplified]


text \<open>The keywords are read off \<open>zText\<close> in one pass, with the steps between their offsets.\<close>

primrec sums :: "nat \<Rightarrow> nat list \<Rightarrow> nat list" where
  "sums a [] = []"
| "sums a (d # ds) = (a + d) # sums (a + d) ds"

fun slices :: "'a list \<Rightarrow> (nat \<times> nat) list \<Rightarrow> 'a list list" where
  "slices z [] = []"
| "slices z ((d, n) # r) = take n (drop d z) # slices (drop d z) r"

lemma slices_eq:
  "length ds = length ns \<Longrightarrow> slices (drop a z) (zip ds ns) = map (\<lambda>(off, n). take n (drop off z)) (zip (sums a ds) ns)"
proof (induction ds ns arbitrary: a rule: list_induct2)
  case (Cons d ds n ns)
  then show ?case using Cons.IH [of "a + d"] by (simp add: add.commute)
qed simp

definition aOffset_steps :: "nat list" where
  "aOffset_steps =
    [0, 2, 0, 6, 1, 5, 2, 4, 3, 2, 0, 4, 4, 3, 5, 5, 2, 5, 1, 5, 3, 3, 2, 2,
     9, 3, 5, 5, 4, 1, 5, 4, 4, 8, 5, 6, 8, 6, 10, 7, 3, 0, 3, 2, 0, 4, 5, 3,
     5, 5, 5, 3, 6, 3, 4, 7, 6, 0, 0, 3, 3, 4, 1, 4, 6, 4, 7, 6, 12, 6, 9, 2,
     6, 5, 2, 7, 5, 5, 6, 6, 5, 4, 3, 6, 4, 7, 2, 7, 2, 2, 9, 4, 6, 6, 8, 5,
     0, 16, 7, 7, 1, 7, 4, 4, 4, 4, 3, 2, 2, 6, 4, 8, 4, 5, 8, 3, 5, 5, 6, 4,
     5]"

lemma aOffset_sums: "aOffset = sums 0 aOffset_steps"
  by (simp add: aOffset_def aOffset_steps_def)

lemma keyword_slices: "slices zText (zip aOffset_steps aLen) = map fst keyword_list"
  by code_simp

lemma table_lengths: "length aOffset_steps = 121" "length aOffset = 121" "length aLen = 121" "length aCode = 121" "length keyword_list = 121" "length aHash = 127"
  by (simp_all add: aOffset_steps_def aOffset_def aLen_def aCode_def keyword_list_def aHash_def)

lemma keyword_text: "i < 121 \<Longrightarrow> take (aLen ! i) (drop (aOffset ! i) zText) = fst (keyword_list ! i)"
  using arg_cong [OF slices_eq [of aOffset_steps aLen 0 zText], of "\<lambda>xs. xs ! i"]
  by (simp add: keyword_slices table_lengths flip: aOffset_sums)

lemma keyword_lengths: "map (length \<circ> fst) keyword_list = aLen"
  by (simp add: aLen_def keyword_list_def)

lemma keyword_codes: "map snd keyword_list = aCode"
  by (simp add: aCode_def keyword_list_def)

lemma keyword_entry:
  assumes "i < 121"
  shows "length (fst (keyword_list ! i)) = aLen ! i" "snd (keyword_list ! i) = aCode ! i"
  using assms by (simp_all add: table_lengths flip: keyword_lengths keyword_codes)

lemma CaseInsensitiveMatchN_cong: 
  assumes "map charMap (take n z) = map charMap (take n z')"
  shows "CaseInsensitiveMatchN w z n = CaseInsensitiveMatchN w z' n"
  using assms by (simp add: CaseInsensitiveMatchN_def)

lemma keywordCode_loop_cong:
  "map charMap (take n z) = map charMap (take n z') \<Longrightarrow> keywordCode_loop z n k = keywordCode_loop z' n k"
proof (induction z n k rule: keywordCode_loop.induct)
  case (1 z n k)
  then show ?case
    by (simp add: keywordCode_loop.simps [of z n k] keywordCode_loop.simps [of z' n k] CaseInsensitiveMatchN_cong [OF "1.prems"])
qed

lemma keywordCode_cong:
  assumes "map charMap (take n z) = map charMap (take n z')" "n \<le> length z" "n \<le> length z'"
  shows "keywordCode z n = keywordCode z' n"
proof -
  have c: "charMap (zat z i) = charMap (zat z' i)" if "i < n" for i
    using arg_cong [OF assms(1), of "\<lambda>xs. xs ! i"] that assms(2,3) by (simp add: zat_def)
  show ?thesis using c [of 0] c [of "n - 1"]
    by (simp add: keywordCode_def keywordCode_hash_def keywordCode_loop_cong [OF assms(1)])
qed

lemma keywordCode_loop_step:
  assumes "n \<le> length z" "k \<le> 121"
  shows "keywordCode_loop z n k =
     (if k = 0 then Some TK_ID
      else if map charMap (fst (keyword_list ! (k - 1))) = map charMap (take n z) then Some (snd (keyword_list ! (k - 1)))
      else keywordCode_loop z n (aNext ! (k - 1)))"
proof (cases "k = 0")
  case False
  then have i: "k - 1 < 121" using assms(2) by simp
  have "aLen ! (k - 1) = n \<and> CaseInsensitiveMatchN (drop (aOffset ! (k - 1)) zText) z n
    \<longleftrightarrow> map charMap (fst (keyword_list ! (k - 1))) = map charMap (take n z)" (is "?l \<longleftrightarrow> ?r")
  proof
    assume ?r
    then have "aLen ! (k - 1) = n" using keyword_entry(1) [OF i] assms(1) map_eq_imp_length_eq by fastforce
    then show ?l using \<open>?r\<close> keyword_text [OF i] by (auto simp: CaseInsensitiveMatchN_def)
  qed (use keyword_text [OF i] in \<open>auto simp: CaseInsensitiveMatchN_def\<close>)
  then show ?thesis using False assms(2) keyword_entry(2) [OF i] by (simp add: keywordCode_loop.simps [of z n k])
qed (simp add: keywordCode_loop.simps)

lemma aNext_le: "0 < k \<Longrightarrow> k \<le> 121 \<Longrightarrow> aNext ! (k - 1) \<le> 121"
  using aNext_decreasing [of "k - 1"] by linarith

lemma keywordCode_loop_sound:
  "n \<le> length z \<Longrightarrow> k \<le> 121 \<Longrightarrow> \<exists>t. keywordCode_loop z n k = Some t \<and>
     (t = TK_ID \<or> (\<exists>(w, t')\<in>set keyword_list. t' = t \<and> map charMap w = map charMap (take n z)))"
proof (induction z n k rule: keywordCode_loop.induct)
  case (1 z n k)
  consider "k = 0" | "k \<noteq> 0" "map charMap (fst (keyword_list ! (k - 1))) = map charMap (take n z)"
    | "k \<noteq> 0" "map charMap (fst (keyword_list ! (k - 1))) \<noteq> map charMap (take n z)" by blast
  then show ?case
  proof cases
    case 2
    then have "keyword_list ! (k - 1) \<in> set keyword_list" using 1(3) by (simp add: table_lengths)
    then show ?thesis using 2 keywordCode_loop_step [OF "1.prems"] by (auto simp: case_prod_beta)
  next
    case 3
    then have "\<not> 121 < k" "\<not> (aLen ! (k - 1) = n \<and> CaseInsensitiveMatchN (drop (aOffset ! (k - 1)) zText) z n)"
      using "1.prems" keyword_text [of "k - 1"] by (auto simp: CaseInsensitiveMatchN_def)
    then show ?thesis using 3 "1.IH" aNext_le [of k] "1.prems" keywordCode_loop_step [OF "1.prems"] by simp
  qed (simp add: keywordCode_loop.simps)
qed

lemma keywordCode_keywords: "list_all2 (\<lambda>(w, t) n. keywordCode w n = Some t) keyword_list aLen"
  by (subst keyword_list_def, subst aLen_def)
    (simp add: keywordCode_def keywordCode_hash_def zat_def charMap_iff aHash_nth keywordCode_loop_step keyword_nth aNext_nth)

lemma keywordCode_keyword: "(w, t) \<in> set keyword_list \<Longrightarrow> keywordCode w (length w) = Some t"
  using keywordCode_keywords by (auto simp: list_all2_conv_all_nth in_set_conv_nth table_lengths keyword_entry(1) [symmetric])

lemma aHash_bounds: "h < 127 \<Longrightarrow> aHash ! h \<le> 121"
proof -
  have "list_all (\<lambda>k. k \<le> 121) aHash" by (simp add: aHash_def)
  then show "h < 127 \<Longrightarrow> aHash ! h \<le> 121" by (simp add: list_all_length table_lengths)
qed

lemma keywordCode_loop_hash:
  "n \<le> length z \<Longrightarrow> \<exists>t. keywordCode z n = Some t \<and>
     (t = TK_ID \<or> (\<exists>(w, t')\<in>set keyword_list. t' = t \<and> map charMap w = map charMap (take n z)))"
  using keywordCode_loop_sound [of n z "aHash ! keywordCode_hash z n"] aHash_bounds [of "keywordCode_hash z n"]
  by (simp add: keywordCode_def keywordCode_hash_def)

text \<open>
  C20. The keyword hash (packed text, hash table and collision chains) agrees with a case-insensitive
  linear search in the list of the 121 keywords, on every word; it never leaves its tables.\<close>

theorem keywordCode_search:
  assumes "n \<le> length z"
  shows "keywordCode z n = Some (keyword_search (take n z))"
proof (cases "find (\<lambda>(w, t). map charMap w = map charMap (take n z)) keyword_list")
  case None
  then have "\<not> (\<exists>(w, t')\<in>set keyword_list. map charMap w = map charMap (take n z))" by (auto simp: find_None_iff)
  then show ?thesis using keywordCode_loop_hash [OF assms] None by (auto simp: keyword_search_def)
next
  case (Some p)
  obtain w t where p: "p = (w, t)" by fastforce
  with Some have m: "(w, t) \<in> set keyword_list" "map charMap w = map charMap (take n z)"
    by (auto simp: find_Some_iff in_set_conv_nth)
  then have n: "length w = n" using assms map_eq_imp_length_eq [OF m(2)] by simp
  then have "keywordCode z n = keywordCode w n" using m(2) assms by (intro keywordCode_cong) auto
  moreover have "keywordCode w n = Some t" using keywordCode_keyword [OF m(1)] n by simp
  ultimately show ?thesis using Some p by (simp add: keyword_search_def)
qed

theorem keywordCode_search_witness:
  "6 \<le> length ''selEct a'' \<and> keywordCode ''selEct a'' 6 = Some (keyword_search ''selEct'')"
  using keywordCode_search [of 6 "''selEct a''"] by simp

end
