(* ===== verification/Tokenize.thy ===== *)
theory Tokenize
  imports Keyword
begin

text \<open>
  The SQL tokenizer, src/tokenize.go: \<open>sqlite3GetToken\<close> and the loop of \<open>(*Parse).Run\<close> that feeds the
  tokens to the parser. The parser itself is generated code and a parameter. The text \<open>z\<close> is the
  NUL-terminated rest of the input.
\<close>

section \<open>Tokens\<close>

text \<open>The \<open>for\<close> and \<open>while\<close> loops that advance over a class of characters.\<close>

function scan :: "(char \<Rightarrow> bool) \<Rightarrow> string \<Rightarrow> nat \<Rightarrow> nat" where
  "scan P z i = (if i < length z \<and> P (z ! i) then scan P z (i + 1) else i)"
  by pat_completeness auto
termination scan by (relation "measure (\<lambda>(P, z, i). length z - i)") auto

declare scan.simps [simp del]

text \<open>The body of a comment: the position after the loop and the last character read.\<close>

function comment_loop :: "string \<Rightarrow> nat \<Rightarrow> char \<Rightarrow> nat \<times> char" where
  "comment_loop z i c =
     (if c \<noteq> CHR ''*'' \<or> zat z i \<noteq> CHR ''/'' then
        if zat z i \<noteq> NUL then comment_loop z (i + 1) (zat z i) else (i, NUL)
      else (i, c))"
  by pat_completeness auto

lemma zat_not_NUL: "zat z i \<noteq> NUL \<Longrightarrow> i < length z"
  by (auto simp: zat_def split: if_splits)

termination comment_loop
  by (relation "measure (\<lambda>(z, i, c). length z - i)") (auto dest!: zat_not_NUL)

declare comment_loop.simps [simp del]

text \<open>A quoted string or identifier.\<close>

function quote_loop :: "char \<Rightarrow> string \<Rightarrow> nat \<Rightarrow> nat \<times> char" where
  "quote_loop delim z i =
     (if zat z i = NUL then (i, zat z i)
      else if zat z i = delim then (if zat z (i + 1) = delim then quote_loop delim z (i + 2) else (i, zat z i))
      else quote_loop delim z (i + 1))"
  by pat_completeness auto

termination quote_loop
  by (relation "measure (\<lambda>(d, z, i). length z - i)") (auto dest!: zat_not_NUL)

declare quote_loop.simps [simp del]

text \<open>An identifier in brackets.\<close>

function bracket_loop :: "string \<Rightarrow> nat \<Rightarrow> char \<Rightarrow> nat \<times> char" where
  "bracket_loop z i c =
     (if c \<noteq> CHR '']'' then
        if zat z i \<noteq> NUL then bracket_loop z (i + 1) (zat z i) else (i, NUL)
      else (i, c))"
  by pat_completeness auto

termination bracket_loop
  by (relation "measure (\<lambda>(z, i, c). length z - i)") (auto dest!: zat_not_NUL)

declare bracket_loop.simps [simp del]

text \<open>The name of a variable: position, number of name characters, and whether it is ill-formed.\<close>

function variable_loop :: "string \<Rightarrow> nat \<Rightarrow> nat \<Rightarrow> nat \<times> nat \<times> bool" where
  "variable_loop z i n =
     (if zat z i = NUL then (i, n, False)
      else if IdChar (zat z i) then variable_loop z (i + 1) (n + 1)
      else if zat z i = CHR ''('' \<and> n > 0 then
        let i = scan (\<lambda>c. c \<noteq> NUL \<and> \<not> sqlite3Isspace c \<and> c \<noteq> CHR '')'') z (i + 1) in
        if zat z i = CHR '')'' then (i + 1, n, False) else (i, n, True)
      else if zat z i = CHR '':'' \<and> zat z (i + 1) = CHR '':'' then variable_loop z (i + 2) n
      else (i, n, False))"
  by pat_completeness auto

termination variable_loop
  by (relation "measure (\<lambda>(z, i, n). length z - i)") (auto simp: zat_def NUL_def split: if_splits)

declare variable_loop.simps [simp del]

definition variable_token :: "string \<Rightarrow> nat \<times> nat" where
  "variable_token z = (let (i, n, bad) = variable_loop z 1 0 in (i, if n = 0 \<or> bad then TK_ILLEGAL else TK_VARIABLE))"

text \<open>Numbers: digits, fraction, exponent, and identifier characters that spoil them.\<close>

definition number_token :: "string \<Rightarrow> nat \<times> nat" where
  "number_token z =
     (let i = scan sqlite3Isdigit z 0;
          (i, t) = (if zat z i = CHR ''.'' then (scan sqlite3Isdigit z (i + 1), TK_FLOAT) else (i, TK_INTEGER));
          (i, t) = (if (zat z i = CHR ''e'' \<or> zat z i = CHR ''E'')
                       \<and> (sqlite3Isdigit (zat z (i + 1))
                          \<or> (zat z (i + 1) = CHR ''+'' \<or> zat z (i + 1) = CHR ''-'') \<and> sqlite3Isdigit (zat z (i + 2)))
                    then (scan sqlite3Isdigit z (i + 2), TK_FLOAT) else (i, t));
          j = scan IdChar z i
      in (j, if j > i then TK_ILLEGAL else t))"

definition blob_token :: "string \<Rightarrow> nat \<times> nat" where
  "blob_token z =
     (let i = scan sqlite3Isxdigit z 2;
          (i, t) = (if zat z i \<noteq> CHR 0x27 \<or> i mod 2 \<noteq> 0
                    then (scan (\<lambda>c. c \<noteq> NUL \<and> c \<noteq> CHR 0x27) z i, TK_ILLEGAL) else (i, TK_BLOB))
      in (if zat z i \<noteq> NUL then i + 1 else i, t))"

definition id_token :: "string \<Rightarrow> (nat \<times> nat) option" where
  "id_token z =
     (if \<not> IdChar (zat z 0) then Some (1, TK_ILLEGAL)
      else let i = scan IdChar z 1 in do { t \<leftarrow> keywordCode z i; Some (i, t) })"

definition quoted_token :: "string \<Rightarrow> nat \<times> nat" where
  "quoted_token z =
     (let (i, c) = quote_loop (zat z 0) z 1 in
      if c = CHR 0x27 then (i + 1, TK_STRING) else if c \<noteq> NUL then (i + 1, TK_ID) else (i, TK_ILLEGAL))"

text \<open>The length of the token at the start of \<open>z\<close> and its code.\<close>

definition sqlite3GetToken :: "string \<Rightarrow> (nat \<times> nat) option" where
  "sqlite3GetToken z =
     (let c = zat z 0; c1 = zat z 1 in
      if c \<in> {CHR '' '', CHR 0x09, CHR 0x0A, CHR 0x0C, CHR 0x0D} then Some (scan sqlite3Isspace z 1, TK_SPACE)
      else if c = CHR ''-'' then
        if c1 = CHR ''-'' then Some (scan (\<lambda>c. c \<noteq> NUL \<and> c \<noteq> CHR 0x0A) z 2, TK_SPACE) else Some (1, TK_MINUS)
      else if c = CHR ''('' then Some (1, TK_LP)
      else if c = CHR '')'' then Some (1, TK_RP)
      else if c = CHR '';'' then Some (1, TK_SEMI)
      else if c = CHR ''+'' then Some (1, TK_PLUS)
      else if c = CHR ''*'' then Some (1, TK_STAR)
      else if c = CHR ''/'' then
        if c1 \<noteq> CHR ''*'' \<or> zat z 2 = NUL then Some (1, TK_SLASH)
        else let (i, c) = comment_loop z 3 (zat z 2) in Some (if c \<noteq> NUL then i + 1 else i, TK_SPACE)
      else if c = CHR ''%'' then Some (1, TK_REM)
      else if c = CHR ''='' then Some (if c1 = CHR ''='' then 2 else 1, TK_EQ)
      else if c = CHR ''<'' then
        if c1 = CHR ''='' then Some (2, TK_LE) else if c1 = CHR ''>'' then Some (2, TK_NE)
        else if c1 = CHR ''<'' then Some (2, TK_LSHIFT) else Some (1, TK_LT)
      else if c = CHR ''>'' then
        if c1 = CHR ''='' then Some (2, TK_GE) else if c1 = CHR ''>'' then Some (2, TK_RSHIFT) else Some (1, TK_GT)
      else if c = CHR ''!'' then if c1 \<noteq> CHR ''='' then Some (2, TK_ILLEGAL) else Some (2, TK_NE)
      else if c = CHR ''|'' then if c1 \<noteq> CHR ''|'' then Some (1, TK_BITOR) else Some (2, TK_CONCAT)
      else if c = CHR '','' then Some (1, TK_COMMA)
      else if c = CHR ''&'' then Some (1, TK_BITAND)
      else if c = CHR ''~'' then Some (1, TK_BITNOT)
      else if c \<in> {CHR 0x60, CHR 0x27, CHR 0x22} then Some (quoted_token z)
      else if c = CHR ''.'' \<and> \<not> sqlite3Isdigit c1 then Some (1, TK_DOT)
      else if c = CHR ''.'' \<or> sqlite3Isdigit c then Some (number_token z)
      else if c = CHR ''['' then
        let (i, c) = bracket_loop z 1 c in Some (i, if c = CHR '']'' then TK_ID else TK_ILLEGAL)
      else if c = CHR ''?'' then Some (scan sqlite3Isdigit z 1, TK_VARIABLE)
      else if c = CHR 0x23 \<and> scan sqlite3Isdigit z 1 > 1 then Some (scan sqlite3Isdigit z 1, TK_REGISTER)
      else if c \<in> {CHR 0x23, CHR ''$'', CHR ''@'', CHR '':''} then Some (variable_token z)
      else if (c = CHR ''x'' \<or> c = CHR ''X'') \<and> c1 = CHR 0x27 then Some (blob_token z)
      else id_token z)"

section \<open>Lengths\<close>

lemma scan_ge: "i \<le> scan P z i"
  by (induction P z i rule: scan.induct) (subst scan.simps, auto)

lemma scan_le: "i \<le> length z \<Longrightarrow> scan P z i \<le> length z"
  by (induction P z i rule: scan.induct) (subst scan.simps, auto)

lemma scan_P: "i \<le> j \<Longrightarrow> j < scan P z i \<Longrightarrow> P (z ! j)"
proof (induction P z i rule: scan.induct)
  case (1 P z i)
  have "i < length z \<and> P (z ! i)" using "1.prems" by (auto simp: scan.simps [of P z i] split: if_splits)
  moreover from this have "j < scan P z (i + 1)" using "1.prems"(2) by (simp add: scan.simps [of P z i])
  ultimately show ?case using 1 by (cases "j = i") auto
qed

lemma scan_stop: "i \<le> length z \<Longrightarrow> scan P z i < length z \<Longrightarrow> \<not> P (z ! scan P z i)"
proof (induction P z i rule: scan.induct)
  case (1 P z i)
  then show ?case by (cases "i < length z \<and> P (z ! i)") (auto simp: scan.simps [of P z i])
qed

lemma comment_loop_bounds:
  "i \<le> length z \<Longrightarrow> comment_loop z i c = (j, c') \<Longrightarrow> i \<le> j \<and> j \<le> length z \<and> (c' \<noteq> NUL \<longrightarrow> j < length z)"
proof (induction z i c rule: comment_loop.induct)
  case (1 z i c)
  show ?case
  proof (cases "c \<noteq> CHR ''*'' \<or> zat z i \<noteq> CHR ''/''")
    case True
    then show ?thesis
      using 1 zat_not_NUL [of z i] by (cases "zat z i = NUL") (fastforce simp: comment_loop.simps [of z i c])+
  next
    case False
    then have "i < length z" using zat_not_NUL [of z i] by (auto simp: NUL_def)
    then show ?thesis using False 1(3) by (auto simp: comment_loop.simps [of z i "CHR ''*''"])
  qed
qed

lemma quote_loop_bounds:
  "i \<le> length z \<Longrightarrow> delim \<noteq> NUL \<Longrightarrow> quote_loop delim z i = (j, c) \<Longrightarrow> i \<le> j \<and> j \<le> length z \<and> (c \<noteq> NUL \<longrightarrow> j < length z \<and> c = delim)"
proof (induction delim z i rule: quote_loop.induct)
  case (1 delim z i)
  show ?case
  proof (cases "zat z i = NUL")
    case True
    then show ?thesis using 1 by (auto simp: quote_loop.simps [of delim z i])
  next
    case False
    then have i: "i < length z" by (rule zat_not_NUL)
    consider "zat z i \<noteq> delim" | "zat z i = delim" "zat z (i + 1) = delim" | "zat z i = delim" "zat z (i + 1) \<noteq> delim" by blast
    then show ?thesis
    proof cases
      case 1
      then show ?thesis using "1.IH"(2) [OF False 1] "1.prems" i False by (auto simp: quote_loop.simps [of delim z i])
    next
      case 2
      then have "i + 1 < length z" using zat_not_NUL [of z "i + 1"] "1.prems"(2) by simp
      then show ?thesis using "1.IH"(1) [OF False 2] "1.prems" 2 False by (auto simp: quote_loop.simps [of delim z i])
    next
      case 3
      then show ?thesis using "1.prems" i False by (auto simp: quote_loop.simps [of delim z i])
    qed
  qed
qed

lemma bracket_loop_bounds: "i \<le> length z \<Longrightarrow> bracket_loop z i c = (j, c') \<Longrightarrow> i \<le> j \<and> j \<le> length z"
proof (induction z i c rule: bracket_loop.induct)
  case (1 z i c)
  show ?case
  proof (cases "c \<noteq> CHR '']'' \<and> zat z i \<noteq> NUL")
    case True
    then have "i + 1 \<le> length z" using zat_not_NUL [of z i] by simp
    then show ?thesis using 1(1) 1(3) True by (auto simp: bracket_loop.simps [of z i c])
  next
    case False
    then show ?thesis using "1.prems" by (auto simp: bracket_loop.simps [of z i c] split: if_splits)
  qed
qed

lemma variable_loop_bounds: "i \<le> length z \<Longrightarrow> variable_loop z i n = (j, r) \<Longrightarrow> i \<le> j \<and> j \<le> length z"
proof (induction z i n rule: variable_loop.induct)
  case (1 z i n)
  let ?P = "\<lambda>c. c \<noteq> NUL \<and> \<not> sqlite3Isspace c \<and> c \<noteq> CHR '')''"
  show ?case
  proof (cases "zat z i = NUL")
    case True
    then show ?thesis using 1 by (auto simp: variable_loop.simps [of z i n])
  next
    case False
    then have i: "i < length z" by (rule zat_not_NUL)
    consider (id) "IdChar (zat z i)" | (paren) "\<not> IdChar (zat z i)" "zat z i = CHR ''('' \<and> n > 0"
      | (colon) "\<not> IdChar (zat z i)" "\<not> (zat z i = CHR ''('' \<and> n > 0)" "zat z i = CHR '':'' \<and> zat z (i + 1) = CHR '':''"
      | (other) "\<not> IdChar (zat z i)" "\<not> (zat z i = CHR ''('' \<and> n > 0)" "\<not> (zat z i = CHR '':'' \<and> zat z (i + 1) = CHR '':'')" by blast
    then show ?thesis
    proof cases
      case id
      then show ?thesis using "1.IH"(1) [OF False id] "1.prems" i False by (auto simp: variable_loop.simps [of z i n])
    next
      case paren
      let ?j = "scan ?P z (i + 1)"
      have b: "i + 1 \<le> ?j" "?j \<le> length z" using scan_ge scan_le i by auto
      have "zat z ?j = CHR '')'' \<Longrightarrow> ?j < length z" using zat_not_NUL [of z ?j] by (simp add: NUL_def)
      then show ?thesis using b "1.prems" paren False by (auto simp: variable_loop.simps [of z i n] Let_def split: if_splits)
    next
      case colon
      then have "i + 1 < length z" using zat_not_NUL [of z "i + 1"] by (simp add: NUL_def)
      then show ?thesis using "1.IH"(2) [OF False colon] "1.prems" colon False by (auto simp: variable_loop.simps [of z i n])
    next
      case other
      then show ?thesis using "1.prems" i False by (auto simp: variable_loop.simps [of z i n])
    qed
  qed
qed

text \<open>Every token is non-empty and lies in the text, except that a lone exclamation mark at the end has length 2.\<close>

definition token_ok :: "string \<Rightarrow> (nat \<times> nat) option \<Rightarrow> bool" where
  "token_ok z r \<longleftrightarrow> (case r of None \<Rightarrow> False | Some (n, t) \<Rightarrow> 0 < n \<and> (n \<le> length z \<or> z = ''!'' \<and> n = 2 \<and> t = TK_ILLEGAL))"

lemma token_ok_if: "(b \<Longrightarrow> token_ok z x) \<Longrightarrow> (\<not> b \<Longrightarrow> token_ok z y) \<Longrightarrow> token_ok z (if b then x else y)"
  by simp

lemma token_ok_Some: "0 < n \<Longrightarrow> n \<le> length z \<Longrightarrow> token_ok z (Some (n, t))"
  by (simp add: token_ok_def)

lemma zat_less: "zat z i = c \<Longrightarrow> c \<noteq> NUL \<Longrightarrow> i < length z"
  using zat_not_NUL by auto

lemma scan_token: "0 < i \<Longrightarrow> i \<le> length z \<Longrightarrow> token_ok z (Some (scan P z i, t))"
  using scan_ge [of i P z] scan_le [of i z P] by (intro token_ok_Some) auto

lemma quoted_token_ok: "z \<noteq> [] \<Longrightarrow> zat z 0 \<noteq> NUL \<Longrightarrow> token_ok z (Some (quoted_token z))"
proof -
  assume z: "z \<noteq> []" "zat z 0 \<noteq> NUL"
  obtain i c where q: "quote_loop (zat z 0) z 1 = (i, c)" by fastforce
  have "1 \<le> i \<and> i \<le> length z \<and> (c \<noteq> NUL \<longrightarrow> i < length z \<and> c = zat z 0)"
    using z q by (intro quote_loop_bounds) (auto simp: Suc_le_eq)
  then show "token_ok z (Some (quoted_token z))" using q
    by (auto simp: quoted_token_def token_ok_def NUL_def)
qed

lemma isdigit_not_NUL: "sqlite3Isdigit (zat z i) \<Longrightarrow> i < length z"
  using zat_not_NUL [of z i] by (cases "zat z i = NUL") (auto simp: Isdigit_iff)

lemma number_token_ok:
  assumes "zat z 0 = CHR ''.'' \<or> sqlite3Isdigit (zat z 0)"
  shows "token_ok z (Some (number_token z))"
proof -
  define i0 where "i0 = scan sqlite3Isdigit z 0"
  define p where "p = (if zat z i0 = CHR ''.'' then (scan sqlite3Isdigit z (i0 + 1), TK_FLOAT) else (i0, TK_INTEGER))"
  define e where "e \<longleftrightarrow> (zat z (fst p) = CHR ''e'' \<or> zat z (fst p) = CHR ''E'')
                       \<and> (sqlite3Isdigit (zat z (fst p + 1))
                          \<or> (zat z (fst p + 1) = CHR ''+'' \<or> zat z (fst p + 1) = CHR ''-'') \<and> sqlite3Isdigit (zat z (fst p + 2)))"
  define q where "q = (if e then (scan sqlite3Isdigit z (fst p + 2), TK_FLOAT) else (fst p, snd p))"
  have n: "number_token z = (scan IdChar z (fst q), if scan IdChar z (fst q) > fst q then TK_ILLEGAL else snd q)"
    unfolding number_token_def Let_def case_prod_beta i0_def p_def q_def e_def by (rule refl)
  have i0: "i0 \<le> length z" unfolding i0_def by (rule scan_le) simp
  have dot: "zat z i0 = CHR ''.'' \<Longrightarrow> i0 < length z" by (erule zat_less) (simp add: NUL_def)
  have p: "0 < fst p" "fst p \<le> length z"
  proof -
    have "i0 > 0 \<or> zat z i0 = CHR ''.''"
    proof (cases "sqlite3Isdigit (zat z 0)")
      case True
      then have "0 < length z" by (rule isdigit_not_NUL)
      then have "i0 = scan sqlite3Isdigit z 1" using True by (simp add: i0_def scan.simps [of _ z 0] zat_def)
      then show ?thesis using scan_ge [of 1 sqlite3Isdigit z] by simp
    next
      case False
      then have "i0 = 0" using assms by (auto simp: i0_def scan.simps [of _ z 0] zat_def)
      then show ?thesis using assms False by simp
    qed
    then show "0 < fst p" using scan_ge [of "i0 + 1" sqlite3Isdigit z] by (auto simp: p_def)
    show "fst p \<le> length z" using scan_le [of "i0 + 1" z sqlite3Isdigit] dot i0 by (auto simp: p_def)
  qed
  have "e \<Longrightarrow> fst p + 2 \<le> length z" unfolding e_def using isdigit_not_NUL [of z "fst p + 1"] isdigit_not_NUL [of z "fst p + 2"] by auto
  then have "0 < fst q" "fst q \<le> length z"
    using p scan_ge [of "fst p + 2" sqlite3Isdigit z] scan_le [of "fst p + 2" z sqlite3Isdigit] by (auto simp: q_def)
  then show ?thesis unfolding n using scan_ge [of "fst q" IdChar z] scan_le [of "fst q" z IdChar] by (simp add: token_ok_def case_prod_beta)
qed

lemma blob_token_ok:
  assumes "2 \<le> length z"
  shows "token_ok z (Some (blob_token z))"
proof -
  define i where "i = scan sqlite3Isxdigit z 2"
  define P where "P = (\<lambda>c. c \<noteq> NUL \<and> c \<noteq> CHR 0x27)"
  define q where "q = (if zat z i \<noteq> CHR 0x27 \<or> i mod 2 \<noteq> 0 then (scan P z i, TK_ILLEGAL) else (i, TK_BLOB))"
  have "2 \<le> i" "i \<le> length z" using assms scan_ge [of 2 sqlite3Isxdigit z] scan_le [of 2 z sqlite3Isxdigit] by (auto simp: i_def)
  then have q: "2 \<le> fst q" "fst q \<le> length z" using scan_ge [of i P z] scan_le [of i z P] by (auto simp: q_def)
  have "zat z (fst q) \<noteq> NUL \<Longrightarrow> fst q < length z" by (rule zat_not_NUL)
  moreover have "blob_token z = (if zat z (fst q) \<noteq> NUL then fst q + 1 else fst q, snd q)"
    unfolding blob_token_def Let_def case_prod_beta i_def q_def P_def by (rule refl)
  ultimately show ?thesis using q by (auto simp: token_ok_def case_prod_beta)
qed

lemma variable_token_ok: "z \<noteq> [] \<Longrightarrow> token_ok z (Some (variable_token z))"
proof -
  assume z: "z \<noteq> []"
  obtain i n b where q: "variable_loop z 1 0 = (i, n, b)" by (metis prod_cases3)
  have "1 \<le> i \<and> i \<le> length z" using z q by (intro variable_loop_bounds) (auto simp: Suc_le_eq)
  then show ?thesis using q by (auto simp: variable_token_def intro!: token_ok_Some)
qed

lemma id_token_ok: "z \<noteq> [] \<Longrightarrow> token_ok z (id_token z)"
proof -
  assume z: "z \<noteq> []"
  define i where "i = scan IdChar z 1"
  have i: "1 \<le> i" "i \<le> length z" using z scan_ge [of 1 IdChar z] scan_le [of 1 z IdChar] by (auto simp: i_def Suc_le_eq)
  obtain t where t: "keywordCode z i = Some t" using keywordCode_loop_hash [OF i(2)] by blast
  have "id_token z = (if \<not> IdChar (zat z 0) then Some (1, TK_ILLEGAL) else Some (i, t))"
    unfolding id_token_def Let_def i_def [symmetric] t by simp
  then show ?thesis using z i by (simp add: Suc_le_eq token_ok_Some)
qed

lemma comment_token_ok:
  assumes "zat z 2 \<noteq> NUL"
  shows "token_ok z (let (i, c) = comment_loop z 3 (zat z 2) in Some (if c \<noteq> NUL then i + 1 else i, t))"
proof -
  obtain i c where q: "comment_loop z 3 (zat z 2) = (i, c)" by fastforce
  have "3 \<le> i \<and> i \<le> length z \<and> (c \<noteq> NUL \<longrightarrow> i < length z)"
    using q zat_not_NUL [OF assms] by (intro comment_loop_bounds) auto
  then show ?thesis using q by (auto intro!: token_ok_Some)
qed

lemma bracket_token_ok:
  assumes "z \<noteq> []"
  shows "token_ok z (let (i, c) = bracket_loop z 1 c in Some (i, if c = CHR '']'' then TK_ID else TK_ILLEGAL))"
proof -
  obtain i c' where q: "bracket_loop z 1 c = (i, c')" by fastforce
  have "1 \<le> i \<and> i \<le> length z" using q assms by (intro bracket_loop_bounds) (auto simp: Suc_le_eq)
  then show ?thesis using q by (auto intro!: token_ok_Some)
qed

lemma bang_token_ok: "zat z 0 = CHR ''!'' \<Longrightarrow> zat z 1 \<noteq> CHR ''='' \<Longrightarrow> token_ok z (Some (2, TK_ILLEGAL))"
  by (cases z; cases "tl z") (auto simp: token_ok_def NUL_def)

lemma GetToken_ok: "z \<noteq> [] \<Longrightarrow> token_ok z (sqlite3GetToken z)"
  unfolding sqlite3GetToken_def Let_def [of "zat z 0"] Let_def [of "zat z 1"]
  using zat_less [of z 1]
  by (intro token_ok_if scan_token quoted_token_ok number_token_ok bracket_token_ok variable_token_ok id_token_ok comment_token_ok
      bang_token_ok blob_token_ok token_ok_Some) (auto simp: Suc_le_eq NUL_def)

text \<open>
  C35. On any non-empty text the tokenizer returns a token, the token is not empty and it ends within
  the text, so the scan over the input makes progress and reads no character past the terminating
  NUL. The only exception is a final exclamation mark, which is reported as an illegal token of
  length 2.\<close>

theorem GetToken_progress:
  assumes "z \<noteq> []"
  shows "\<exists>n t. sqlite3GetToken z = Some (n, t) \<and> 0 < n \<and> (n \<le> length z \<or> z = ''!'' \<and> n = 2 \<and> t = TK_ILLEGAL)"
  using GetToken_ok [OF assms] by (auto simp: token_ok_def split: option.splits)

theorem GetToken_progress_witness:
  "''a'' \<noteq> [] \<and> (\<exists>n t. sqlite3GetToken ''a'' = Some (n, t) \<and> 0 < n \<and> (n \<le> length ''a'' \<or> ''a'' = ''!'' \<and> n = 2 \<and> t = TK_ILLEGAL))"
  using GetToken_progress [of "''a''"] by simp

lemma GetToken_SomeD: "z \<noteq> [] \<Longrightarrow> sqlite3GetToken z = Some (n, t) \<Longrightarrow> 0 < n \<and> (n \<le> length z \<or> t = TK_ILLEGAL)"
  using GetToken_ok [of z] by (auto simp: token_ok_def)

lemma GetToken_Some: "z \<noteq> [] \<Longrightarrow> \<exists>n t. sqlite3GetToken z = Some (n, t)"
  using GetToken_ok [of z] by (auto simp: token_ok_def split: option.splits)

section \<open>Quoted literals\<close>

lemma quote_loop_doubled:
  assumes "q \<noteq> NUL" "NUL \<notin> set s" "zat rest 0 \<noteq> q" "z = pre @ double_quotes q s @ q # rest" "i = length pre"
  shows "quote_loop q z i = (i + length (double_quotes q s), q)"
  using assms(2,4,5)
proof (induction s arbitrary: pre i)
  case Nil
  then have "zat z i = q" "zat z (i + 1) = zat rest 0" by (simp_all add: zat_def nth_append)
  then show ?case using assms(1,3) by (simp add: quote_loop.simps [of q z i])
next
  case (Cons c s)
  show ?case
  proof (cases "c = q")
    case True
    then have "zat z i = q" "zat z (i + 1) = q" using Cons.prems by (simp_all add: zat_def nth_append)
    moreover have "quote_loop q z (i + 2) = (i + 2 + length (double_quotes q s), q)"
      using True Cons.prems by (intro Cons.IH [of "pre @ [q, q]"]) simp_all
    ultimately show ?thesis using True assms(1) by (simp add: quote_loop.simps [of q z i])
  next
    case False
    then have "zat z i = c" using Cons.prems by (simp add: zat_def nth_append)
    moreover have "quote_loop q z (i + 1) = (i + 1 + length (double_quotes q s), q)"
      using False Cons.prems by (intro Cons.IH [of "pre @ [c]"]) simp_all
    ultimately show ?thesis using False Cons.prems(1) by (subst quote_loop.simps) auto
  qed
qed

lemma GetToken_quote: "zat z 0 \<in> {CHR 0x60, CHR 0x27, CHR 0x22} \<Longrightarrow> sqlite3GetToken z = Some (quoted_token z)"
  unfolding sqlite3GetToken_def Let_def by (elim insertE emptyE) simp_all

text \<open>
  A literal whose inner quotes are doubled is one token: exactly the literal, a string when it is
  quoted by apostrophes and an identifier when it is quoted by double quotes or grave accents,
  whatever follows it other than the quote itself.\<close>

theorem GetToken_quoted:
  assumes "q \<in> {CHR 0x60, CHR 0x27, CHR 0x22}" "NUL \<notin> set s" "zat rest 0 \<noteq> q"
  shows "sqlite3GetToken (q # double_quotes q s @ q # rest) =
    Some (length (double_quotes q s) + 2, if q = CHR 0x27 then TK_STRING else TK_ID)"
proof -
  let ?z = "q # double_quotes q s @ q # rest"
  have "quote_loop q ?z 1 = (1 + length (double_quotes q s), q)"
    using assms by (intro quote_loop_doubled [of q s rest _ "[q]"]) (auto simp: NUL_def)
  then have "quoted_token ?z = (length (double_quotes q s) + 2, if q = CHR 0x27 then TK_STRING else TK_ID)"
    using assms(1) by (auto simp: quoted_token_def NUL_def)
  then show ?thesis using assms(1) by (simp add: GetToken_quote)
qed

theorem GetToken_quoted_witness:
  "CHR 0x27 \<in> {CHR 0x60, CHR 0x27, CHR 0x22} \<and> NUL \<notin> set [CHR ''a'', CHR 0x27] \<and> zat '';'' 0 \<noteq> CHR 0x27 \<and>
   sqlite3GetToken (CHR 0x27 # double_quotes (CHR 0x27) [CHR ''a'', CHR 0x27] @ CHR 0x27 # '';'') = Some (5, TK_STRING)"
  using GetToken_quoted [of "CHR 0x27" "[CHR ''a'', CHR 0x27]" "'';''"] by (simp add: NUL_def zat_def)

end
