(* ===== verification/ParseRun.thy ===== *)
theory ParseRun
  imports Tokenize "HOL-Library.Sublist"
begin

text \<open>
  The loop that feeds the tokens of an SQL text to the parser: \<open>(*Parse).Run\<close> of src/tokenize.go,
  with \<open>SetErrorMsg\<close> of src/util.go and \<open>sqlite3ErrStr\<close> of src/main.go. The generated parser,
  \<open>sqlite3Parser\<close>, is a parameter \<open>P\<close>: it may change every field of the parse object, and the field
  \<open>engine\<close> stands for its own state and for the fields that only its actions use.
\<close>

section \<open>Result codes and messages\<close>

fun rc_code :: "rc \<Rightarrow> int" where
  "rc_code SQLITE_OK = 0"
| "rc_code SQLITE_ERROR = 1"
| "rc_code SQLITE_INTERNAL = 2"
| "rc_code SQLITE_PERM = 3"
| "rc_code SQLITE_ABORT = 4"
| "rc_code SQLITE_BUSY = 5"
| "rc_code SQLITE_LOCKED = 6"
| "rc_code SQLITE_NOMEM = 7"
| "rc_code SQLITE_READONLY = 8"
| "rc_code SQLITE_INTERRUPT = 9"
| "rc_code SQLITE_IOERR = 10"
| "rc_code SQLITE_CORRUPT = 11"
| "rc_code SQLITE_NOTFOUND = 12"
| "rc_code SQLITE_FULL = 13"
| "rc_code SQLITE_CANTOPEN = 14"
| "rc_code SQLITE_PROTOCOL = 15"
| "rc_code SQLITE_EMPTY = 16"
| "rc_code SQLITE_SCHEMA = 17"
| "rc_code SQLITE_TOOBIG = 18"
| "rc_code SQLITE_CONSTRAINT = 19"
| "rc_code SQLITE_MISMATCH = 20"
| "rc_code SQLITE_MISUSE = 21"
| "rc_code SQLITE_NOLFS = 22"
| "rc_code SQLITE_AUTH = 23"
| "rc_code SQLITE_FORMAT = 24"
| "rc_code SQLITE_RANGE = 25"
| "rc_code SQLITE_NOTADB = 26"
| "rc_code SQLITE_ROW = 100"
| "rc_code SQLITE_DONE = 101"
| "rc_code SQLITE_IOERR_SHORT_READ = 10 OR 2 * 256"
| "rc_code SQLITE_IOERR_NOMEM = 10 OR 12 * 256"
| "rc_code SQLITE_LOCKED_SHAREDCACHE = 6 OR 1 * 256"
| "rc_code SQLITE_BUSY_RECOVERY = 5 OR 1 * 256"
| "rc_code SQLITE_READONLY_RECOVERY = 8 OR 1 * 256"
| "rc_code SQLITE_READONLY_CANTLOCK = 8 OR 2 * 256"
| "rc_code WAL_RETRY = -1"

definition aMsg :: "string option list" where
  "aMsg =
     [Some ''not an error'', Some ''SQL logic error or missing database'', None, Some ''access permission denied'',
      Some ''callback requested query abort'', Some ''database is locked'', Some ''database table is locked'',
      Some ''out of memory'', Some ''attempt to write a readonly database'', Some ''interrupted'', Some ''disk I/O error'',
      Some ''database disk image is malformed'', Some ''unknown operation'', Some ''database or disk is full'',
      Some ''unable to open database file'', Some ''locking protocol'', Some ''table contains no data'',
      Some ''database schema has changed'', Some ''string or blob too big'', Some ''constraint failed'',
      Some ''datatype mismatch'', Some ''library routine called out of sequence'', Some ''large file support is disabled'',
      Some ''authorization denied'', Some ''auxiliary database format error'', Some ''bind or column index out of range'',
      Some ''file is encrypted or is not a database'']"

definition sqlite3ErrStr :: "int \<Rightarrow> string" where
  "sqlite3ErrStr rc =
     (if rc = (4 OR 2 * 256) then ''abort due to ROLLBACK''
      else let rc = rc AND 0xff in
        if rc \<ge> 0 \<and> rc < int (length aMsg) then case aMsg ! nat rc of Some m \<Rightarrow> m | None \<Rightarrow> ''unknown error''
        else ''unknown error'')"

section \<open>The parse object\<close>

text \<open>
  The fields of \<open>Parse\<close> and of its database connection that \<open>Run\<close> reads or writes. Pointers to
  objects are identifiers; lists of objects are lists of identifiers; \<open>zTail\<close> is an offset in the
  SQL text. \<open>deletedTables\<close> and \<open>deletedTriggers\<close> record the calls of \<open>DeleteTable\<close> and
  \<open>DeleteTrigger\<close> with a non-nil argument.
\<close>

record 'e Parse =
  rc :: rc
  zErrMsg :: string
  nErr :: nat
  zTail :: nat
  sLastToken :: string
  nested :: bool
  declareVtab :: bool
  pVdbe :: "nat option"
  aTableLock :: "nat list"
  nTableLock :: nat
  apVtabLock :: "nat list"
  nVar :: nat
  azVar :: "string list"
  aAlias :: "nat list"
  pAinc :: "nat list"
  pZombieTab :: "nat list"
  pNewTable :: "nat option"
  pNewTrigger :: "nat option"
  mallocFailed :: bool
  isInterrupted :: bool
  suppressErr :: bool
  activeVdbeCnt :: nat
  lookaside_bEnabled :: bool
  lookaside_pStart :: bool
  deletedTables :: "nat list"
  deletedTriggers :: "nat list"
  engine :: 'e

type_synonym 'e parser = "nat \<Rightarrow> string \<Rightarrow> 'e Parse \<Rightarrow> 'e Parse"

definition SetErrorMsg :: "string \<Rightarrow> 'e Parse \<Rightarrow> 'e Parse" where
  "SetErrorMsg zMsg p =
     (if \<not> suppressErr p then p\<lparr>nErr := nErr p + 1, zErrMsg := zMsg, rc := SQLITE_ERROR\<rparr> else p)"

section \<open>Run\<close>

text \<open>The local variables of the loop.\<close>

record 'e Run =
  pos :: nat
  lastTokenParsed :: int
  ErrMsg :: string
  runErr :: nat
  pParse :: "'e Parse"

text \<open>
  One iteration; the flag says whether it jumps to \<open>abort_parse\<close>. The test for a negative position
  is never true: a Go string is shorter than the largest integer.
\<close>

definition Run_step :: "'e parser \<Rightarrow> string \<Rightarrow> 'e Run \<Rightarrow> (bool \<times> 'e Run) option" where
  "Run_step P zSql s =
     do { (n, tokenType) \<leftarrow> sqlite3GetToken (drop (pos s) zSql);
          let p = (pParse s)\<lparr>sLastToken := take n (drop (pos s) zSql)\<rparr>;
          let i = pos s + n;
          if tokenType = TK_SPACE then
            (if isInterrupted p
             then Some (True, s\<lparr>pos := i, pParse := (SetErrorMsg ''interrupt'' p)\<lparr>rc := SQLITE_INTERRUPT\<rparr>\<rparr>)
             else Some (False, s\<lparr>pos := i, pParse := p\<rparr>))
          else if tokenType = TK_ILLEGAL then
            Some (True, s\<lparr>pos := i, ErrMsg := ''unrecognized token: '' @ CHR 0x22 # sLastToken p @ [CHR 0x22],
                          runErr := runErr s + 1, pParse := p\<rparr>)
          else
            (let p = (if tokenType = TK_SEMI then p\<lparr>zTail := i\<rparr> else p);
                 p = P tokenType (sLastToken p) p
             in Some (rc p \<noteq> SQLITE_OK, s\<lparr>pos := i, lastTokenParsed := int tokenType, pParse := p\<rparr>)) }"

lemma Run_step_cases:
  assumes "pos s < length zSql" "Run_step P zSql s = Some (b, s')"
  obtains n t where "sqlite3GetToken (drop (pos s) zSql) = Some (n, t)" "pos s' = pos s + n" "0 < n"
    "pos s + n \<le> length zSql \<or> t = TK_ILLEGAL"
proof -
  from assms(2) obtain n t where g: "sqlite3GetToken (drop (pos s) zSql) = Some (n, t)"
    by (auto simp: Run_step_def bind_eq_Some_conv)
  then have "pos s' = pos s + n" using assms(2) by (auto simp: Run_step_def Let_def split: if_splits)
  moreover have "0 < n" "n \<le> length zSql - pos s \<or> t = TK_ILLEGAL"
    using GetToken_SomeD [of "drop (pos s) zSql" n t] assms(1) g by auto
  ultimately show thesis using g assms(1) by (intro that [of n t]) auto
qed

lemma Run_step_progress: "pos s < length zSql \<Longrightarrow> Run_step P zSql s = Some (b, s') \<Longrightarrow> length zSql - pos s' < length zSql - pos s"
proof -
  assume "pos s < length zSql" "Run_step P zSql s = Some (b, s')"
  moreover from this obtain n where "pos s' = pos s + n" "0 < n" by (rule Run_step_cases)
  ultimately show ?thesis by linarith
qed

function Run_loop :: "'e parser \<Rightarrow> string \<Rightarrow> 'e Run \<Rightarrow> 'e Run option" where
  "Run_loop P zSql s =
     (if \<not> mallocFailed (pParse s) \<and> pos s < length zSql then
        case Run_step P zSql s of None \<Rightarrow> None
        | Some (abort, s') \<Rightarrow> if abort then Some s' else Run_loop P zSql s'
      else Some s)"
  by pat_completeness auto
termination Run_loop
  by (relation "measure (\<lambda>(P, zSql, s). length zSql - pos s)") (auto intro: Run_step_progress)

declare Run_loop.simps [simp del]

text \<open>The code after \<open>abort_parse\<close> up to the release of the parser.\<close>

definition Run_flush :: "'e parser \<Rightarrow> string \<Rightarrow> 'e Run \<Rightarrow> 'e Parse" where
  "Run_flush P zSql s =
     (let p = pParse s in
      if pos s = length zSql \<and> runErr s = 0 \<and> rc p = SQLITE_OK then
        let p = (if lastTokenParsed s \<noteq> int TK_SEMI then (P TK_SEMI (sLastToken p) p)\<lparr>zTail := pos s\<rparr> else p)
        in P 0 (sLastToken p) p
      else p)"

text \<open>The result code and the error message.\<close>

definition Run_report :: "string \<Rightarrow> nat \<Rightarrow> 'e Parse \<Rightarrow> string \<times> nat \<times> 'e Parse" where
  "Run_report msg n p =
     (let p = (if mallocFailed p then p\<lparr>rc := SQLITE_NOMEM\<rparr> else p);
          p = (if rc p \<noteq> SQLITE_OK \<and> rc p \<noteq> SQLITE_DONE \<and> zErrMsg p = [] then p\<lparr>zErrMsg := sqlite3ErrStr (rc_code (rc p))\<rparr> else p)
      in if zErrMsg p \<noteq> [] then (zErrMsg p, n + 1, p\<lparr>zErrMsg := []\<rparr>) else (msg, n, p))"

text \<open>The objects that the parse leaves behind.\<close>

definition Run_cleanup :: "'e Parse \<Rightarrow> 'e Parse" where
  "Run_cleanup p =
     (let p = (if pVdbe p \<noteq> None \<and> nErr p > 0 \<and> \<not> nested p then p\<lparr>pVdbe := None\<rparr> else p);
          p = (if \<not> nested p then p\<lparr>aTableLock := [], nTableLock := 0\<rparr> else p);
          p = p\<lparr>apVtabLock := []\<rparr>;
          p = (if \<not> declareVtab p then p\<lparr>deletedTables := deletedTables p @ (case pNewTable p of None \<Rightarrow> [] | Some t \<Rightarrow> [t])\<rparr> else p);
          p = p\<lparr>deletedTriggers := deletedTriggers p @ (case pNewTrigger p of None \<Rightarrow> [] | Some t \<Rightarrow> [t])\<rparr>;
          p = p\<lparr>azVar := [], aAlias := [], pAinc := []\<rparr>
      in p\<lparr>deletedTables := deletedTables p @ pZombieTab p, pZombieTab := []\<rparr>)"

text \<open>The code before the loop: the parse object and the local variables.\<close>

definition Run_init :: "'e Parse \<Rightarrow> 'e Parse" where
  "Run_init p = (if activeVdbeCnt p = 0 then p\<lparr>isInterrupted := False\<rparr> else p)\<lparr>rc := SQLITE_OK, zTail := 0\<rparr>"

definition Run_start :: "'e Parse \<Rightarrow> 'e Run" where
  "Run_start p = \<lparr>pos = 0, lastTokenParsed = -1, ErrMsg = [], runErr = 0,
     pParse = (if lookaside_pStart p then p\<lparr>lookaside_bEnabled := True\<rparr> else p)\<rparr>"

definition Run :: "'e parser \<Rightarrow> bool \<Rightarrow> string \<Rightarrow> 'e Parse \<Rightarrow> (string \<times> nat \<times> 'e Parse) option" where
  "Run P allocOk zSql p =
     (let p = Run_init p
      in if \<not> allocOk then Some ([], 7, p\<lparr>mallocFailed := True\<rparr>)
      else if \<not> (pNewTable p = None \<and> pNewTrigger p = None \<and> nVar p = 0 \<and> azVar p = []) then None
      else
        let enableLookaside = lookaside_bEnabled p
        in do { s \<leftarrow> Run_loop P zSql (Run_start p);
                let p = (Run_flush P zSql s)\<lparr>lookaside_bEnabled := enableLookaside\<rparr>;
                let (msg, n, p) = Run_report (ErrMsg s) (runErr s) p;
                let p = Run_cleanup p;
                let p = (if n > 0 \<and> rc p = SQLITE_OK then p\<lparr>rc := SQLITE_ERROR\<rparr> else p);
                Some (msg, n, p) })"

text \<open>A fresh parse object.\<close>

definition empty_parse :: "'e \<Rightarrow> 'e Parse" where
  "empty_parse e = \<lparr>rc = SQLITE_OK, zErrMsg = [], nErr = 0, zTail = 0, sLastToken = [], nested = False, declareVtab = False,
     pVdbe = None, aTableLock = [], nTableLock = 0, apVtabLock = [], nVar = 0, azVar = [], aAlias = [], pAinc = [], pZombieTab = [],
     pNewTable = None, pNewTrigger = None, mallocFailed = False, isInterrupted = False, suppressErr = False, activeVdbeCnt = 0,
     lookaside_bEnabled = False, lookaside_pStart = False, deletedTables = [], deletedTriggers = [], engine = e\<rparr>"

section \<open>What the parser receives\<close>

text \<open>The tokens of a text with their codes, up to the first illegal one, where the loop of \<open>Run\<close> stops.\<close>

function tokens :: "string \<Rightarrow> (nat \<times> string) list" where
  "tokens z = (if z = [] then [] else case sqlite3GetToken z of None \<Rightarrow> []
     | Some (n, t) \<Rightarrow> (t, take n z) # (if t = TK_ILLEGAL then [] else tokens (drop n z)))"
  by pat_completeness auto
termination tokens by (relation "measure length") (use GetToken_SomeD in \<open>force intro!: diff_less\<close>)+

declare tokens.simps [simp del]

lemma tokens_Nil [simp]: "tokens [] = []"
  by (simp add: tokens.simps)

lemma tokens_Cons:
  "z \<noteq> [] \<Longrightarrow> sqlite3GetToken z = Some (n, t) \<Longrightarrow> tokens z = (t, take n z) # (if t = TK_ILLEGAL then [] else tokens (drop n z))"
  by (subst tokens.simps) simp

text \<open>
  The tokens other than white space, then a semicolon unless the text ends with one, then the end
  marker 0; the last two carry the text of the last token read (\<open>l\<close> if there is none).
\<close>

definition fed :: "string \<Rightarrow> (nat \<times> string) list" where
  "fed z = filter (\<lambda>x. fst x \<noteq> TK_SPACE) (tokens z)"

definition last_text :: "string \<Rightarrow> (nat \<times> string) list \<Rightarrow> string" where
  "last_text l ts = (if ts = [] then l else snd (last ts))"

definition last_code :: "int \<Rightarrow> (nat \<times> string) list \<Rightarrow> int" where
  "last_code c ts = (if ts = [] then c else int (fst (last ts)))"

definition parser_input :: "string \<Rightarrow> string \<Rightarrow> (nat \<times> string) list" where
  "parser_input z l =
     fed z @ (if last_code (-1) (fed z) = int TK_SEMI then [] else [(TK_SEMI, last_text l (tokens z))])
       @ [(0, last_text l (tokens z))]"

lemma last_Cons_simps [simp]:
  "last_text l [] = l" "last_text l (x # ts) = last_text (snd x) ts"
  "last_code c [] = c" "last_code c (x # ts) = last_code (int (fst x)) ts"
  by (simp_all add: last_text_def last_code_def)

lemma fed_Nil [simp]: "fed [] = []"
  by (simp add: fed_def)

lemma fed_Cons:
  "z \<noteq> [] \<Longrightarrow> sqlite3GetToken z = Some (n, t) \<Longrightarrow> fed z = (if t = TK_SPACE then [] else [(t, take n z)]) @ (if t = TK_ILLEGAL then [] else fed (drop n z))"
  by (simp add: fed_def tokens_Cons)

lemma Run_step_Some: "pos s < length z \<Longrightarrow> \<exists>b s'. Run_step P z s = Some (b, s')"
  using GetToken_Some [of "drop (pos s) z"] by (auto simp: Run_step_def Let_def)

lemma Run_loop_Some: "\<exists>s'. Run_loop P z s = Some s'"
proof (induction P z s rule: Run_loop.induct)
  case (1 P z s)
  show ?case
  proof (cases "\<not> mallocFailed (pParse s) \<and> pos s < length z")
    case True
    then obtain b s' where "Run_step P z s = Some (b, s')" using Run_step_Some by blast
    then show ?thesis using 1 True by (cases b) (auto simp: Run_loop.simps [of P z s])
  qed (auto simp: Run_loop.simps [of P z s])
qed

text \<open>
  The parser as seen by the loop: it logs its calls and the result code each of them leaves in
  \<open>engine\<close>, and leaves the last token alone.
\<close>

type_synonym call = "(nat \<times> string) \<times> rc"

definition logging :: "call list parser \<Rightarrow> bool" where
  "logging P \<longleftrightarrow> (\<forall>t x p. engine (P t x p) = engine p @ [((t, x), rc (P t x p))] \<and> sLastToken (P t x p) = sLastToken p)"

lemma loggingD:
  assumes "logging P"
  shows "engine (P t x p) = engine p @ [((t, x), rc (P t x p))]" "sLastToken (P t x p) = sLastToken p"
  using assms by (auto simp: logging_def)

text \<open>
  After the loop: the tokens of the calls \<open>xs\<close> are the first ones of the rest of the text, none of
  them is illegal, no call but the last one left an error, and unless an error stopped the loop or
  memory ran out they are all of them.
\<close>

definition loop_post :: "string \<Rightarrow> call list Run \<Rightarrow> call list Run \<Rightarrow> bool" where
  "loop_post z s s' \<longleftrightarrow>
     (\<exists>xs. engine (pParse s') = engine (pParse s) @ xs \<and> prefix (map fst xs) (fed (drop (pos s) z)) \<and> (\<forall>x\<in>set xs. fst (fst x) \<noteq> TK_ILLEGAL)
        \<and> (\<forall>x\<in>set (butlast xs). snd x = SQLITE_OK) \<and> (rc (pParse s') = SQLITE_OK \<longrightarrow> (\<forall>x\<in>set xs. snd x = SQLITE_OK))
        \<and> runErr s \<le> runErr s'
        \<and> (runErr s' = runErr s \<and> rc (pParse s') = SQLITE_OK \<longrightarrow>
             (pos s' < length z \<longrightarrow> mallocFailed (pParse s')) \<and>
             (pos s' = length z \<longrightarrow> map fst xs = fed (drop (pos s) z) \<and> lastTokenParsed s' = last_code (lastTokenParsed s) (map fst xs)
                \<and> sLastToken (pParse s') = last_text (sLastToken (pParse s)) (tokens (drop (pos s) z))) \<and>
             pos s' \<le> length z))"

lemma loop_post_refl:
  "pos s \<le> length z \<Longrightarrow> \<not> (\<not> mallocFailed (pParse s) \<and> pos s < length z) \<Longrightarrow> loop_post z s s"
  by (auto simp: loop_post_def)

lemma loop_post_abort:
  assumes P: "logging P" and i: "pos s < length z" and st: "Run_step P z s = Some (True, s')"
  shows "loop_post z s s'"
proof -
  obtain n t where g: "sqlite3GetToken (drop (pos s) z) = Some (n, t)" using i st by (rule Run_step_cases)
  have f: "fed (drop (pos s) z) = (if t = TK_SPACE then [] else [(t, take n (drop (pos s) z))]) @ (if t = TK_ILLEGAL then [] else fed (drop n (drop (pos s) z)))"
    using g i by (intro fed_Cons) auto
  consider "t = TK_SPACE" | "t = TK_ILLEGAL" | "t \<noteq> TK_SPACE" "t \<noteq> TK_ILLEGAL" by blast
  then show ?thesis
  proof cases
    case 3
    then show ?thesis using g st f
      by (auto simp: Run_step_def Let_def loop_post_def loggingD [OF P] split: if_splits)
  qed (use g st in \<open>auto simp: Run_step_def Let_def loop_post_def SetErrorMsg_def tk_defs split: if_splits\<close>)
qed

lemma loop_post_continue:
  assumes P: "logging P" and i: "pos s < length z" and st: "Run_step P z s = Some (False, s')"
    and post: "loop_post z s' s''"
  shows "loop_post z s s''"
proof -
  obtain n t where g: "sqlite3GetToken (drop (pos s) z) = Some (n, t)" and n: "pos s' = pos s + n"
    using i st by (rule Run_step_cases)
  let ?x = "(t, take n (drop (pos s) z))"
  have t: "t \<noteq> TK_ILLEGAL" "runErr s' = runErr s"
    "engine (pParse s') = engine (pParse s) @ (if t = TK_SPACE then [] else [(?x, SQLITE_OK)])"
    "lastTokenParsed s' = (if t = TK_SPACE then lastTokenParsed s else int t)"
    "sLastToken (pParse s') = take n (drop (pos s) z)"
    using g st by (auto simp: Run_step_def Let_def loggingD [OF P] tk_defs split: if_splits)
  have f: "fed (drop (pos s) z) = (if t = TK_SPACE then [] else [?x]) @ fed (drop (pos s') z)"
    and ts: "tokens (drop (pos s) z) = ?x # tokens (drop (pos s') z)"
    using g i n t(1) fed_Cons [of "drop (pos s) z" n t] tokens_Cons [of "drop (pos s) z" n t] by (auto simp: add.commute)
  obtain xs where xs: "engine (pParse s'') = engine (pParse s') @ xs" "prefix (map fst xs) (fed (drop (pos s') z))"
    "\<forall>x\<in>set xs. fst (fst x) \<noteq> TK_ILLEGAL" "\<forall>x\<in>set (butlast xs). snd x = SQLITE_OK"
    "rc (pParse s'') = SQLITE_OK \<longrightarrow> (\<forall>x\<in>set xs. snd x = SQLITE_OK)" "runErr s' \<le> runErr s''"
    "runErr s'' = runErr s' \<and> rc (pParse s'') = SQLITE_OK \<longrightarrow>
       (pos s'' < length z \<longrightarrow> mallocFailed (pParse s'')) \<and>
       (pos s'' = length z \<longrightarrow> map fst xs = fed (drop (pos s') z) \<and> lastTokenParsed s'' = last_code (lastTokenParsed s') (map fst xs)
          \<and> sLastToken (pParse s'') = last_text (sLastToken (pParse s')) (tokens (drop (pos s') z))) \<and>
       pos s'' \<le> length z"
    using post unfolding loop_post_def by blast
  show ?thesis unfolding loop_post_def
    by (intro exI [of _ "(if t = TK_SPACE then [] else [(?x, SQLITE_OK)]) @ xs"]) (use xs t in \<open>auto simp: f ts\<close>)
qed

lemma Run_loop_post:
  assumes "logging P"
  shows "Run_loop P z s = Some s' \<Longrightarrow> pos s \<le> length z \<Longrightarrow> loop_post z s s'"
  using assms
proof (induction P z s rule: Run_loop.induct)
  case (1 P z s)
  show ?case
  proof (cases "\<not> mallocFailed (pParse s) \<and> pos s < length z")
    case True
    then obtain b s1 where st: "Run_step P z s = Some (b, s1)" using Run_step_Some by blast
    show ?thesis
    proof (cases b)
      case True
      then have "s' = s1" using \<open>\<not> mallocFailed (pParse s) \<and> pos s < length z\<close> st "1.prems"(1) by (simp add: Run_loop.simps [of P z s])
      then show ?thesis using loop_post_abort [of P s z s1] st True \<open>\<not> mallocFailed (pParse s) \<and> pos s < length z\<close> "1.prems"(3) by simp
    next
      case b: False
      obtain n t where "sqlite3GetToken (drop (pos s) z) = Some (n, t)" "pos s1 = pos s + n" "pos s + n \<le> length z \<or> t = TK_ILLEGAL"
        using True st by (blast elim: Run_step_cases)
      then have "pos s1 \<le> length z" using st b by (auto simp: Run_step_def Let_def tk_defs split: if_splits)
      moreover have "Run_loop P z s1 = Some s'" using True st b "1.prems"(1) by (simp add: Run_loop.simps [of P z s])
      ultimately have "loop_post z s1 s'" using "1.IH" [OF True st refl b] "1.prems"(3) by simp
      then show ?thesis using loop_post_continue [of P s z s1 s'] True st b "1.prems"(3) by simp
    qed
  next
    case False
    then have "s' = s" using "1.prems"(1) by (auto simp: Run_loop.simps [of P z s])
    then show ?thesis using loop_post_refl False "1.prems"(2) by blast
  qed
qed

lemma Run_cleanup_simps [simp]:
  "engine (Run_cleanup p) = engine p" "rc (Run_cleanup p) = rc p" "zTail (Run_cleanup p) = zTail p"
  "lookaside_bEnabled (Run_cleanup p) = lookaside_bEnabled p"
  by (simp_all add: Run_cleanup_def Let_def)

lemma Run_report_engine: "Run_report m n p = (m', n', p') \<Longrightarrow> engine p' = engine p \<and> lookaside_bEnabled p' = lookaside_bEnabled p"
  by (auto simp: Run_report_def Let_def split: if_splits)

lemma Run_report_OK: "Run_report m n p = (m', n', p') \<Longrightarrow> rc p' = SQLITE_OK \<Longrightarrow> rc p = SQLITE_OK \<and> \<not> mallocFailed p \<and> n \<le> n'"
  by (auto simp: Run_report_def Let_def split: if_splits)

definition ready :: "'e Parse \<Rightarrow> bool" where
  "ready p \<longleftrightarrow> pNewTable p = None \<and> pNewTrigger p = None \<and> nVar p = 0 \<and> azVar p = []"

lemma Run_init_simps [simp]:
  "rc (Run_init p) = SQLITE_OK" "zTail (Run_init p) = 0" "sLastToken (Run_init p) = sLastToken p" "engine (Run_init p) = engine p"
  "lookaside_bEnabled (Run_init p) = lookaside_bEnabled p" "mallocFailed (Run_init p) = mallocFailed p"
  "activeVdbeCnt p = 0 \<Longrightarrow> \<not> isInterrupted (Run_init p)" "ready (Run_init p) = ready p"
  by (simp_all add: Run_init_def ready_def)

lemma Run_start_simps [simp]:
  "pos (Run_start p) = 0" "lastTokenParsed (Run_start p) = -1" "ErrMsg (Run_start p) = []" "runErr (Run_start p) = 0"
  "sLastToken (pParse (Run_start p)) = sLastToken p" "engine (pParse (Run_start p)) = engine p"
  "mallocFailed (pParse (Run_start p)) = mallocFailed p" "isInterrupted (pParse (Run_start p)) = isInterrupted p"
  by (simp_all add: Run_start_def)

lemma Run_eq:
  assumes "ready p" "Run_loop P z (Run_start (Run_init p)) = Some s'"
    and "Run_report (ErrMsg s') (runErr s') ((Run_flush P z s')\<lparr>lookaside_bEnabled := lookaside_bEnabled p\<rparr>) = (msg, n, p2)"
  shows "Run P True z p = Some (msg, n, if n > 0 \<and> rc p2 = SQLITE_OK then (Run_cleanup p2)\<lparr>rc := SQLITE_ERROR\<rparr> else Run_cleanup p2)"
proof -
  have "ready (Run_init p)" using assms(1) by simp
  then show ?thesis using assms(2,3) by (simp add: Run_def Let_def ready_def)
qed

text \<open>
  Where the calls stop: an error ends them, except that the end marker still follows the semicolon
  that is added behind the text.
\<close>

definition stops_at_error :: "call list \<Rightarrow> bool" where
  "stops_at_error e \<longleftrightarrow> (\<forall>xs x r ys. e = xs @ (x, r) # ys \<and> r \<noteq> SQLITE_OK \<longrightarrow>
     ys = [] \<or> fst x = TK_SEMI \<and> (\<exists>y. ys = [y] \<and> fst (fst y) = 0))"

lemma stops_at_errorI:
  assumes "\<forall>x\<in>set (butlast xs). snd x = SQLITE_OK"
  shows "stops_at_error xs"
  using assms by (auto simp: stops_at_error_def butlast_append split: if_splits)

lemma stops_at_error_flush:
  assumes "\<forall>x\<in>set xs. snd x = SQLITE_OK"
  shows "stops_at_error (xs @ [((TK_SEMI, l), r), ((0, l), r')])" "stops_at_error (xs @ [((0, l), r')])"
proof -
  have "us @ (x, r0) # vs = xs @ ((TK_SEMI, l), r) # [((0, l), r')] \<Longrightarrow> r0 \<noteq> SQLITE_OK \<Longrightarrow>
    vs = [] \<or> fst x = TK_SEMI \<and> (\<exists>y. vs = [y] \<and> fst (fst y) = 0)" for us x r0 vs
    using assms by (auto simp: append_eq_append_conv2 append_eq_Cons_conv Cons_eq_append_conv)
  then show "stops_at_error (xs @ [((TK_SEMI, l), r), ((0, l), r')])" unfolding stops_at_error_def by metis
  show "stops_at_error (xs @ [((0, l), r')])" using assms by (intro stops_at_errorI) simp
qed

lemma Run_flush_post:
  assumes P: "logging P" and s: "engine (pParse s) = []" "sLastToken (pParse s) = l" "pos s = 0" "runErr s = 0" "lastTokenParsed s = - 1"
    and l: "loop_post z s s'"
  shows "prefix (map fst (engine (Run_flush P z s'))) (parser_input z l) \<and> (\<forall>x\<in>set (engine (Run_flush P z s')). fst (fst x) \<noteq> TK_ILLEGAL)
     \<and> stops_at_error (engine (Run_flush P z s'))
     \<and> (rc (Run_flush P z s') = SQLITE_OK \<and> \<not> mallocFailed (Run_flush P z s') \<and> runErr s' = 0 \<longrightarrow> map fst (engine (Run_flush P z s')) = parser_input z l)"
proof -
  obtain xs where xs: "engine (pParse s') = xs" "prefix (map fst xs) (fed z)" "\<forall>x\<in>set xs. fst (fst x) \<noteq> TK_ILLEGAL"
    "\<forall>x\<in>set (butlast xs). snd x = SQLITE_OK" "rc (pParse s') = SQLITE_OK \<longrightarrow> (\<forall>x\<in>set xs. snd x = SQLITE_OK)"
    "runErr s' = 0 \<and> rc (pParse s') = SQLITE_OK \<longrightarrow>
       (pos s' < length z \<longrightarrow> mallocFailed (pParse s')) \<and>
       (pos s' = length z \<longrightarrow> map fst xs = fed z \<and> lastTokenParsed s' = last_code (-1) (map fst xs)
          \<and> sLastToken (pParse s') = last_text l (tokens z)) \<and> pos s' \<le> length z"
    using l unfolding loop_post_def s by auto
  show ?thesis
  proof (cases "pos s' = length z \<and> runErr s' = 0 \<and> rc (pParse s') = SQLITE_OK")
    case True
    then have e: "map fst xs = fed z" "lastTokenParsed s' = last_code (-1) (map fst xs)" "sLastToken (pParse s') = last_text l (tokens z)"
      and ok: "\<forall>x\<in>set xs. snd x = SQLITE_OK" using xs(5,6) by auto
    have m: "map fst (engine (Run_flush P z s')) = parser_input z l"
      using True e xs(1) by (simp add: Run_flush_def Let_def parser_input_def loggingD [OF P])
    have "\<forall>x\<in>set (fed z). fst x \<noteq> TK_ILLEGAL" using xs(3) e(1) [symmetric] by auto
    then have "\<forall>x\<in>set (parser_input z l). fst x \<noteq> TK_ILLEGAL" by (auto simp: parser_input_def tk_defs)
    moreover have "stops_at_error (engine (Run_flush P z s'))"
      using True e xs(1) stops_at_error_flush [OF ok] by (simp add: Run_flush_def Let_def loggingD [OF P])
    moreover have "fst ` set (engine (Run_flush P z s')) = set (parser_input z l)" by (simp flip: m)
    ultimately show ?thesis using m by (metis image_eqI prefix_order.refl)
  next
    case False
    then have r: "Run_flush P z s' = pParse s'" by (auto simp: Run_flush_def Let_def)
    have "prefix (map fst xs) (parser_input z l)" using xs(2) by (auto simp: parser_input_def)
    then show ?thesis using xs False stops_at_errorI [OF xs(4)] by (auto simp: r)
  qed
qed

text \<open>
  C18. \<open>Run\<close> always returns, and what it hands to the parser, whatever the parser does with the parse
  object, is an initial part of: the tokens of the text other than white space, in order, then a
  semicolon unless the text ends with one, then the end marker. No illegal token is among them. The
  first call that leaves an error in the result code is the last one, except that an error on the
  added semicolon is still followed by the end marker. If the result code is \<open>SQLITE_OK\<close> the
  parser has received the whole sequence. The lookaside setting is restored.\<close>

theorem Run_feeds_parser:
  assumes P: "logging P" and p: "ready p" "engine p = []"
  shows "\<exists>msg n p'. Run P True zSql p = Some (msg, n, p')
    \<and> prefix (map fst (engine p')) (parser_input zSql (sLastToken p)) \<and> (\<forall>x\<in>set (engine p'). fst (fst x) \<noteq> TK_ILLEGAL)
    \<and> stops_at_error (engine p')
    \<and> (rc p' = SQLITE_OK \<longrightarrow> map fst (engine p') = parser_input zSql (sLastToken p))
    \<and> lookaside_bEnabled p' = lookaside_bEnabled p"
proof -
  define s0 where "s0 = Run_start (Run_init p)"
  obtain s' where s': "Run_loop P zSql s0 = Some s'" using Run_loop_Some by blast
  then have "loop_post zSql s0 s'" by (rule Run_loop_post [OF P]) (simp add: s0_def)
  note f = Run_flush_post [OF P _ _ _ _ _ this, where l = "sLastToken p"]
  define p1 where "p1 = (Run_flush P zSql s')\<lparr>lookaside_bEnabled := lookaside_bEnabled p\<rparr>"
  obtain msg n p2 where r: "Run_report (ErrMsg s') (runErr s') p1 = (msg, n, p2)" by (metis prod_cases3)
  define p3 where "p3 = (if n > 0 \<and> rc p2 = SQLITE_OK then (Run_cleanup p2)\<lparr>rc := SQLITE_ERROR\<rparr> else Run_cleanup p2)"
  have "Run P True zSql p = Some (msg, n, p3)"
    using Run_eq [OF p(1) s' [unfolded s0_def] r [unfolded p1_def]] by (simp add: p3_def)
  moreover have "engine p3 = engine (Run_flush P zSql s')"
    using Run_report_engine [OF r] by (simp add: p3_def p1_def)
  moreover have "lookaside_bEnabled p3 = lookaside_bEnabled p"
    using Run_report_engine [OF r] by (simp add: p3_def p1_def)
  moreover have "rc p3 = SQLITE_OK \<Longrightarrow> rc (Run_flush P zSql s') = SQLITE_OK \<and> \<not> mallocFailed (Run_flush P zSql s') \<and> runErr s' = 0"
    using Run_report_OK [OF r] by (auto simp: p3_def p1_def split: if_splits)
  ultimately show ?thesis using f p(2) by (simp add: s0_def)
qed

text \<open>A parser that logs its calls and rejects the token of code \<open>bad\<close>.\<close>

definition ex_parser :: "nat \<Rightarrow> call list parser" where
  "ex_parser bad t x p = (let r = (if t = bad then SQLITE_ERROR else rc p) in p\<lparr>engine := engine p @ [((t, x), r)], rc := r\<rparr>)"

theorem Run_feeds_parser_witness:
  "logging (ex_parser TK_INTEGER) \<and> ready (empty_parse ([] :: call list)) \<and>
     (\<exists>msg n p'. Run (ex_parser TK_INTEGER) True ''SELECT 1'' (empty_parse []) = Some (msg, n, p')
    \<and> prefix (map fst (engine p')) (parser_input ''SELECT 1'' []) \<and> stops_at_error (engine p'))"
proof -
  have "logging (ex_parser TK_INTEGER)" "ready (empty_parse ([] :: call list))" "engine (empty_parse ([] :: call list)) = []"
    "sLastToken (empty_parse ([] :: call list)) = []"
    by (simp_all add: logging_def ready_def empty_parse_def ex_parser_def Let_def)
  then show ?thesis using Run_feeds_parser [of "ex_parser TK_INTEGER" "empty_parse []" "''SELECT 1''"] by auto
qed

section \<open>One statement at a time\<close>

text \<open>
  A parser that finishes a statement at each semicolon and otherwise accepts, and does not touch
  what the loop looks at.
\<close>

definition finishing :: "'e parser \<Rightarrow> bool" where
  "finishing P \<longleftrightarrow> (\<forall>t x p. rc (P t x p) = (if t = TK_SEMI then SQLITE_DONE else SQLITE_OK) \<and> zTail (P t x p) = zTail p
     \<and> mallocFailed (P t x p) = mallocFailed p \<and> isInterrupted (P t x p) = isInterrupted p)"

lemma finishingD:
  assumes "finishing P"
  shows "rc (P t x p) = (if t = TK_SEMI then SQLITE_DONE else SQLITE_OK)" "zTail (P t x p) = zTail p"
    "mallocFailed (P t x p) = mallocFailed p" "isInterrupted (P t x p) = isInterrupted p"
  using assms by (auto simp: finishing_def)

lemma tokens_ConsD:
  assumes "tokens z = x # ts"
  obtains n where "z \<noteq> []" "sqlite3GetToken z = Some (n, fst x)" "snd x = take n z" "fst x \<noteq> TK_ILLEGAL \<Longrightarrow> ts = tokens (drop n z)"
proof -
  have z: "z \<noteq> []" using assms by auto
  obtain n t where g: "sqlite3GetToken z = Some (n, t)" using GetToken_Some [OF z] by blast
  show thesis using that [of n] z g tokens_Cons [OF z g] assms by auto
qed

lemma tokens_prefix:
  "tokens z = xs @ ys \<Longrightarrow> \<forall>x\<in>set xs. fst x \<noteq> TK_ILLEGAL \<Longrightarrow> prefix (concat (map snd xs)) z"
proof (induction xs arbitrary: z)
  case (Cons x xs)
  then obtain n where n: "snd x = take n z" "xs @ ys = tokens (drop n z)" by (auto elim: tokens_ConsD)
  then have "prefix (concat (map snd xs)) (drop n z)" using Cons.IH [of "drop n z"] Cons.prems(2) by simp
  then have "prefix (take n z @ concat (map snd xs)) (take n z @ drop n z)" unfolding same_prefix_prefix .
  then show ?case using n(1) by simp
qed simp

lemma Run_loop_statement:
  assumes P: "finishing P"
  shows "tokens (drop (pos s) z) = xs @ (TK_SEMI, x) # ys \<Longrightarrow> \<forall>y\<in>set xs. fst y \<noteq> TK_SEMI \<and> fst y \<noteq> TK_ILLEGAL \<Longrightarrow>
    \<not> mallocFailed (pParse s) \<Longrightarrow> \<not> isInterrupted (pParse s) \<Longrightarrow> Run_loop P z s = Some s' \<Longrightarrow>
    zTail (pParse s') = pos s + length (concat (map snd xs)) + length x \<and> rc (pParse s') = SQLITE_DONE \<and> \<not> mallocFailed (pParse s')"
proof (induction xs arbitrary: s)
  case Nil
  then obtain n where n: "drop (pos s) z \<noteq> []" "sqlite3GetToken (drop (pos s) z) = Some (n, TK_SEMI)" "x = take n (drop (pos s) z)"
    by (auto elim: tokens_ConsD)
  then have "n \<le> length (drop (pos s) z)" using GetToken_SomeD [OF n(1,2)] by (simp add: tk_defs)
  moreover have "s' = snd (the (Run_step P z s))"
    using n Nil.prems by (auto simp: Run_loop.simps [of P z s] Run_step_def Let_def finishingD [OF P] tk_defs)
  ultimately show ?case using n Nil.prems by (simp add: Run_step_def Let_def finishingD [OF P] tk_defs)
next
  case (Cons y xs)
  then obtain n where n: "drop (pos s) z \<noteq> []" "sqlite3GetToken (drop (pos s) z) = Some (n, fst y)" "snd y = take n (drop (pos s) z)"
    "tokens (drop n (drop (pos s) z)) = xs @ (TK_SEMI, x) # ys"
    by (auto elim: tokens_ConsD)
  have t: "fst y \<noteq> TK_SEMI" "fst y \<noteq> TK_ILLEGAL" using Cons.prems(2) by auto
  then have len: "length (snd y) = n" using GetToken_SomeD [OF n(1,2)] n(3) by auto
  obtain s1 where s1: "Run_step P z s = Some (False, s1)" "pos s1 = pos s + n" "\<not> mallocFailed (pParse s1)" "\<not> isInterrupted (pParse s1)"
    using n(2) t Cons.prems(3,4) that by (cases "fst y = TK_SPACE") (simp_all add: Run_step_def Let_def finishingD [OF P])
  have "Run_loop P z s1 = Some s'" using s1(1) n(1) Cons.prems(3,5) by (simp add: Run_loop.simps [of P z s])
  then show ?case using Cons.IH [of s1] s1 n(4) Cons.prems(2) len by (simp add: add.commute add.left_commute)
qed

text \<open>
  \<open>Run\<close> compiles one statement: if the parser completes a statement at its semicolon
  (\<open>SQLITE_DONE\<close>), then after a text whose first semicolon token is preceded by legal tokens only,
  \<open>zTail\<close> points just behind that semicolon, and no error is reported as result code.\<close>

theorem Run_stops_after_statement:
  assumes P: "finishing P" and p: "ready p" "\<not> mallocFailed p" "activeVdbeCnt p = 0"
    and ts: "tokens z = xs @ (TK_SEMI, x) # ys" "\<forall>y\<in>set xs. fst y \<noteq> TK_SEMI \<and> fst y \<noteq> TK_ILLEGAL"
  shows "\<exists>msg n p'. Run P True z p = Some (msg, n, p') \<and> rc p' = SQLITE_DONE \<and> zTail p' = length (concat (map snd xs)) + length x
    \<and> take (zTail p') z = concat (map snd xs) @ x"
proof -
  define s0 where "s0 = Run_start (Run_init p)"
  obtain s' where s': "Run_loop P z s0 = Some s'" using Run_loop_Some by blast
  have l: "zTail (pParse s') = length (concat (map snd xs)) + length x \<and> rc (pParse s') = SQLITE_DONE \<and> \<not> mallocFailed (pParse s')"
    using Run_loop_statement [OF P, of s0 z xs x ys s'] ts s' p by (simp add: s0_def)
  then have f: "Run_flush P z s' = pParse s'" by (simp add: Run_flush_def Let_def)
  obtain msg n p2 where r: "Run_report (ErrMsg s') (runErr s') ((pParse s')\<lparr>lookaside_bEnabled := lookaside_bEnabled p\<rparr>) = (msg, n, p2)"
    by (metis prod_cases3)
  have p2: "rc p2 = SQLITE_DONE" "zTail p2 = zTail (pParse s')" using r l by (auto simp: Run_report_def Let_def split: if_splits)
  have e: "Run P True z p = Some (msg, n, Run_cleanup p2)"
    using Run_eq [OF p(1) s' [unfolded s0_def]] r p2 by (simp add: f)
  have "prefix (concat (map snd (xs @ [(TK_SEMI, x)]))) z" using ts by (intro tokens_prefix [of _ _ ys]) (auto simp: TK_SEMI_def TK_ILLEGAL_def)
  then have "take (zTail (Run_cleanup p2)) z = concat (map snd xs) @ x" using p2 l by (auto elim!: prefixE)
  then show ?thesis using e p2 l by auto
qed

theorem Run_stops_after_statement_witness:
  "\<exists>(P :: unit parser) p. finishing P \<and> ready p \<and> \<not> mallocFailed p \<and> activeVdbeCnt p = 0 \<and>
     tokens '';+'' = [] @ (TK_SEMI, '';'') # [(TK_PLUS, ''+'')] \<and>
     (\<exists>msg n p'. Run P True '';+'' p = Some (msg, n, p') \<and> rc p' = SQLITE_DONE \<and> zTail p' = 1 \<and> take (zTail p') '';+'' = '';'')"
proof -
  let ?P = "\<lambda>t x p. p\<lparr>rc := if t = TK_SEMI then SQLITE_DONE else SQLITE_OK\<rparr>"
  have "finishing ?P" "ready (empty_parse ())" "\<not> mallocFailed (empty_parse ())" "activeVdbeCnt (empty_parse ()) = 0"
    by (simp_all add: finishing_def ready_def empty_parse_def)
  moreover have "tokens '';+'' = [] @ (TK_SEMI, '';'') # [(TK_PLUS, ''+'')]"
    by (simp add: tokens.simps sqlite3GetToken_def Let_def TK_SEMI_def TK_ILLEGAL_def)
  ultimately show ?thesis using Run_stops_after_statement [of ?P "empty_parse ()" "'';+''" "[]" "'';''" "[(TK_PLUS, ''+'')]"] by fastforce
qed

end
