(* ===== verification/Complete.thy ===== *)
theory Complete
  imports Tokenize
begin

text \<open>
  \<open>sqlite3_complete\<close>, src/complete.go: does a text consist of complete SQL statements? The state
  machine is compared with a description of statements: a plain statement ends at its first
  semicolon, a trigger definition at the first \<open>;END;\<close>.
\<close>

section \<open>The state machine\<close>

definition tkSEMI :: nat where "tkSEMI = 0"
definition tkWS :: nat where "tkWS = 1"
definition tkOTHER :: nat where "tkOTHER = 2"
definition tkEXPLAIN :: nat where "tkEXPLAIN = 3"
definition tkCREATE :: nat where "tkCREATE = 4"
definition tkTEMP :: nat where "tkTEMP = 5"
definition tkTRIGGER :: nat where "tkTRIGGER = 6"
definition tkEND :: nat where "tkEND = 7"

lemmas kind_defs = tkSEMI_def tkWS_def tkOTHER_def tkEXPLAIN_def tkCREATE_def tkTEMP_def tkTRIGGER_def tkEND_def

definition trans_table :: "nat list list" where
  "trans_table =
     [[1, 0, 2, 3, 4, 2, 2, 2],
      [1, 1, 2, 3, 4, 2, 2, 2],
      [1, 2, 2, 2, 2, 2, 2, 2],
      [1, 3, 3, 2, 4, 2, 2, 2],
      [1, 4, 2, 2, 2, 4, 5, 2],
      [6, 5, 5, 5, 5, 5, 5, 5],
      [6, 6, 5, 5, 5, 5, 5, 7],
      [1, 7, 5, 5, 5, 5, 5, 5]]"

definition trans_state :: "nat \<Rightarrow> nat \<Rightarrow> nat" where
  "trans_state state token = trans_table ! state ! token"

text \<open>
  One pass of the loop: \<open>Inr (token, n)\<close> is the token at the start of a non-empty text and the number
  of characters consumed, \<open>Inl True\<close> is the early \<open>return state==1\<close> of a comment that ends the text
  and \<open>Inl False\<close> the early \<open>return 0\<close> of an unterminated comment or quotation.
\<close>

function comment_end :: "string \<Rightarrow> nat \<Rightarrow> nat" where
  "comment_end z i = (if zat z i \<noteq> NUL \<and> (zat z i \<noteq> CHR ''*'' \<or> zat z (i + 1) \<noteq> CHR ''/'') then comment_end z (i + 1) else i)"
  by pat_completeness auto
termination comment_end by (relation "measure (\<lambda>(z, i). length z - i)") (auto dest!: zat_not_NUL)

declare comment_end.simps [simp del]

definition complete_id :: "string \<Rightarrow> nat \<Rightarrow> nat" where
  "complete_id z nId =
     (if zat z 0 = CHR ''c'' \<or> zat z 0 = CHR ''C'' then
        if nId = 6 \<and> CaseInsensitiveMatchN z ''create'' 6 then tkCREATE else tkOTHER
      else if zat z 0 = CHR ''t'' \<or> zat z 0 = CHR ''T'' then
        if nId = 7 \<and> CaseInsensitiveMatchN z ''trigger'' 7 then tkTRIGGER
        else if nId = 4 \<and> CaseInsensitiveMatchN z ''temp'' 4 then tkTEMP
        else if nId = 9 \<and> CaseInsensitiveMatchN z ''temporary'' 9 then tkTEMP
        else tkOTHER
      else if zat z 0 = CHR ''e'' \<or> zat z 0 = CHR ''E'' then
        if nId = 3 \<and> CaseInsensitiveMatchN z ''end'' 3 then tkEND
        else if nId = 7 \<and> CaseInsensitiveMatchN z ''explain'' 7 then tkEXPLAIN
        else tkOTHER
      else tkOTHER)"

definition complete_token :: "string \<Rightarrow> bool + nat \<times> nat" where
  "complete_token z =
     (let c = zat z 0 in
      if c = CHR '';'' then Inr (tkSEMI, 1)
      else if c \<in> {CHR '' '', CHR 0x0D, CHR 0x09, CHR 0x0A, CHR 0x0C} then Inr (tkWS, 1)
      else if c = CHR ''/'' then
        if zat z 1 \<noteq> CHR ''*'' then Inr (tkOTHER, 1)
        else let i = comment_end z 2 in if zat z i = NUL then Inl False else Inr (tkWS, i + 2)
      else if c = CHR ''-'' then
        if zat z 1 \<noteq> CHR ''-'' then Inr (tkOTHER, 1)
        else let i = scan (\<lambda>c. c \<noteq> NUL \<and> c \<noteq> CHR 0x0A) z 0 in if zat z i = NUL then Inl True else Inr (tkWS, i + 1)
      else if c = CHR ''['' then
        let i = scan (\<lambda>c. c \<noteq> NUL \<and> c \<noteq> CHR '']'') z 1 in if zat z i = NUL then Inl False else Inr (tkOTHER, i + 1)
      else if c \<in> {CHR 0x60, CHR 0x22, CHR 0x27} then
        let i = scan (\<lambda>x. x \<noteq> NUL \<and> x \<noteq> c) z 1 in if zat z i = NUL then Inl False else Inr (tkOTHER, i + 1)
      else if IdChar c then let nId = scan IdChar z 1 in Inr (complete_id z nId, nId)
      else Inr (tkOTHER, 1))"

lemma complete_token_pos: "complete_token z = Inr (t, n) \<Longrightarrow> 0 < n"
  using scan_ge [of 1 IdChar z] by (auto simp: complete_token_def Let_def split: if_splits)

function complete_loop :: "nat \<Rightarrow> string \<Rightarrow> bool" where
  "complete_loop state z =
     (if zat z 0 = NUL then state = 1
      else case complete_token z of
        Inl b \<Rightarrow> b \<and> state = 1
      | Inr (token, n) \<Rightarrow> complete_loop (trans_state state token) (drop n z))"
  by pat_completeness auto
termination complete_loop
  by (relation "measure (\<lambda>(q, z). length z)") (auto dest!: complete_token_pos zat_not_NUL)

declare complete_loop.simps [simp del]

definition sqlite3_complete :: "string \<Rightarrow> bool" where
  "sqlite3_complete zSql = complete_loop 0 zSql"

section \<open>Complete statements\<close>

text \<open>
  The kinds of the tokens of a text, white space left out; None if a comment or quotation is not
  terminated.
\<close>

function kinds :: "string \<Rightarrow> nat list option" where
  "kinds z =
     (if zat z 0 = NUL then Some []
      else case complete_token z of
        Inl b \<Rightarrow> if b then Some [] else None
      | Inr (token, n) \<Rightarrow> map_option (\<lambda>ks. if token = tkWS then ks else token # ks) (kinds (drop n z)))"
  by pat_completeness auto
termination kinds by (relation "measure length") (auto dest!: complete_token_pos zat_not_NUL)

declare kinds.simps [simp del]

text \<open>
  A trigger definition begins with CREATE and TRIGGER, with only TEMP between them, possibly after
  EXPLAIN and other words (as in EXPLAIN QUERY PLAN).
\<close>

fun create_trigger :: "nat list \<Rightarrow> bool" where
  "create_trigger ks =
     (case dropWhile ((=) tkTEMP) ks of [] \<Rightarrow> False | k # _ \<Rightarrow> k = tkTRIGGER)"

definition trigger_start :: "nat list \<Rightarrow> bool" where
  "trigger_start ks =
     (let ks' = (if ks \<noteq> [] \<and> hd ks = tkEXPLAIN then dropWhile ((=) tkOTHER) (tl ks) else ks)
      in ks' \<noteq> [] \<and> hd ks' = tkCREATE \<and> create_trigger (tl ks'))"

definition statement :: "nat list \<Rightarrow> bool" where
  "statement ks \<longleftrightarrow>
     (if trigger_start (takeWhile ((\<noteq>) tkSEMI) ks)
      then \<exists>b. ks = b @ [tkSEMI, tkEND, tkSEMI]
      else \<exists>b. ks = b @ [tkSEMI] \<and> tkSEMI \<notin> set b)"

definition run :: "nat \<Rightarrow> nat list \<Rightarrow> nat" where
  "run q ks = foldl trans_state q ks"

lemma run_simps [simp]: "run q [] = q" "run q (k # ks) = run (trans_state q k) ks" "run q (xs @ ys) = run (run q xs) ys"
  by (simp_all add: run_def)

definition valid :: "nat list \<Rightarrow> bool" where
  "valid ks \<longleftrightarrow> set ks \<subseteq> {tkSEMI, tkOTHER, tkEXPLAIN, tkCREATE, tkTEMP, tkTRIGGER, tkEND}"

lemma valid_simps [simp]:
  "valid []" "valid (k # ks) \<longleftrightarrow> k \<in> {tkSEMI, tkOTHER, tkEXPLAIN, tkCREATE, tkTEMP, tkTRIGGER, tkEND} \<and> valid ks"
  "valid (xs @ ys) \<longleftrightarrow> valid xs \<and> valid ys"
  by (auto simp: valid_def)

lemma complete_token_kind: "complete_token z = Inr (t, n) \<Longrightarrow> t \<in> {tkSEMI, tkWS, tkOTHER, tkEXPLAIN, tkCREATE, tkTEMP, tkTRIGGER, tkEND}"
  by (auto simp: complete_token_def complete_id_def Let_def split: if_splits)

lemma kinds_valid: "kinds z = Some ks \<Longrightarrow> valid ks"
proof (induction z arbitrary: ks rule: kinds.induct)
  case (1 z)
  show ?case
  proof (cases "zat z 0 = NUL")
    case False
    show ?thesis
    proof (cases "complete_token z")
      case (Inr p)
      obtain t n where p: "p = (t, n)" by fastforce
      obtain ks' where k: "kinds (drop n z) = Some ks'" "ks = (if t = tkWS then ks' else t # ks')"
        using "1.prems" Inr p False by (auto simp: kinds.simps [of z])
      then have "valid ks'" using "1.IH" [OF False Inr p [symmetric]] by simp
      then show ?thesis using k complete_token_kind [of z t n] Inr p by auto
    qed (use 1 False in \<open>auto simp: kinds.simps [of z] split: if_splits\<close>)
  qed (use 1 in \<open>simp add: kinds.simps [of z]\<close>)
qed

lemma trans_values [simp]:
  "trans_state 0 tkSEMI = 1" "trans_state 0 tkWS = 0" "trans_state 0 tkOTHER = 2" "trans_state 0 tkEXPLAIN = 3" "trans_state 0 tkCREATE = 4" "trans_state 0 tkTEMP = 2" "trans_state 0 tkTRIGGER = 2" "trans_state 0 tkEND = 2"
  "trans_state 1 tkSEMI = 1" "trans_state 1 tkWS = 1" "trans_state 1 tkOTHER = 2" "trans_state 1 tkEXPLAIN = 3" "trans_state 1 tkCREATE = 4" "trans_state 1 tkTEMP = 2" "trans_state 1 tkTRIGGER = 2" "trans_state 1 tkEND = 2"
  "trans_state 2 tkSEMI = 1" "trans_state 2 tkWS = 2" "trans_state 2 tkOTHER = 2" "trans_state 2 tkEXPLAIN = 2" "trans_state 2 tkCREATE = 2" "trans_state 2 tkTEMP = 2" "trans_state 2 tkTRIGGER = 2" "trans_state 2 tkEND = 2"
  "trans_state 3 tkSEMI = 1" "trans_state 3 tkWS = 3" "trans_state 3 tkOTHER = 3" "trans_state 3 tkEXPLAIN = 2" "trans_state 3 tkCREATE = 4" "trans_state 3 tkTEMP = 2" "trans_state 3 tkTRIGGER = 2" "trans_state 3 tkEND = 2"
  "trans_state 4 tkSEMI = 1" "trans_state 4 tkWS = 4" "trans_state 4 tkOTHER = 2" "trans_state 4 tkEXPLAIN = 2" "trans_state 4 tkCREATE = 2" "trans_state 4 tkTEMP = 4" "trans_state 4 tkTRIGGER = 5" "trans_state 4 tkEND = 2"
  "trans_state 5 tkSEMI = 6" "trans_state 5 tkWS = 5" "trans_state 5 tkOTHER = 5" "trans_state 5 tkEXPLAIN = 5" "trans_state 5 tkCREATE = 5" "trans_state 5 tkTEMP = 5" "trans_state 5 tkTRIGGER = 5" "trans_state 5 tkEND = 5"
  "trans_state 6 tkSEMI = 6" "trans_state 6 tkWS = 6" "trans_state 6 tkOTHER = 5" "trans_state 6 tkEXPLAIN = 5" "trans_state 6 tkCREATE = 5" "trans_state 6 tkTEMP = 5" "trans_state 6 tkTRIGGER = 5" "trans_state 6 tkEND = 7"
  "trans_state 7 tkSEMI = 1" "trans_state 7 tkWS = 7" "trans_state 7 tkOTHER = 5" "trans_state 7 tkEXPLAIN = 5" "trans_state 7 tkCREATE = 5" "trans_state 7 tkTEMP = 5" "trans_state 7 tkTRIGGER = 5" "trans_state 7 tkEND = 5"
  by (simp_all add: trans_state_def trans_table_def kind_defs)

lemma kind_distinct:
  "distinct [tkSEMI, tkWS, tkOTHER, tkEXPLAIN, tkCREATE, tkTEMP, tkTRIGGER, tkEND]"
  "distinct [tkEND, tkTRIGGER, tkTEMP, tkCREATE, tkEXPLAIN, tkOTHER, tkWS, tkSEMI]"
  by (simp_all add: kind_defs)

lemmas kind_neq [simp] = kind_distinct [simplified]

lemma state_cases:
  assumes "(q :: nat) < 8"
  obtains "q = 0" | "q = 1" | "q = 2" | "q = 3" | "q = 4" | "q = 5" | "q = 6" | "q = 7"
  using assms by linarith

lemma trans_WS: "q < 8 \<Longrightarrow> trans_state q tkWS = q"
  by (erule state_cases) (simp_all del: One_nat_def)

lemma trans_less: "q < 8 \<Longrightarrow> k \<in> {tkSEMI, tkWS, tkOTHER, tkEXPLAIN, tkCREATE, tkTEMP, tkTRIGGER, tkEND} \<Longrightarrow> trans_state q k < 8"
  by (erule state_cases) (auto simp del: One_nat_def)

lemma complete_loop_kinds: "q < 8 \<Longrightarrow> complete_loop q z \<longleftrightarrow> (\<exists>ks. kinds z = Some ks \<and> run q ks = 1)"
proof (induction q z rule: complete_loop.induct)
  case (1 q z)
  show ?case
  proof (cases "zat z 0 = NUL")
    case False
    show ?thesis
    proof (cases "complete_token z")
      case (Inr p)
      obtain t n where p: "p = (t, n)" by fastforce
      have t: "t \<in> {tkSEMI, tkWS, tkOTHER, tkEXPLAIN, tkCREATE, tkTEMP, tkTRIGGER, tkEND}"
        using complete_token_kind [of z t n] Inr p by simp
      have "complete_loop (trans_state q t) (drop n z) \<longleftrightarrow> (\<exists>ks. kinds (drop n z) = Some ks \<and> run (trans_state q t) ks = 1)"
        using "1.IH" [OF False Inr p [symmetric]] trans_less [OF "1.prems" t] by simp
      then show ?thesis using False Inr p trans_WS [OF "1.prems"]
        by (cases "t = tkWS") (auto simp: complete_loop.simps [of q z] kinds.simps [of z])
    qed (use False in \<open>auto simp: complete_loop.simps [of q z] kinds.simps [of z]\<close>)
  qed (simp add: complete_loop.simps [of q z] kinds.simps [of z])
qed

section \<open>The machine recognises statements\<close>

declare One_nat_def [simp del]

lemma takeWhile_semi: "tkSEMI \<notin> set w \<Longrightarrow> takeWhile ((\<noteq>) tkSEMI) (w @ tkSEMI # y) = w"
  by (subst takeWhile_append2) auto

lemma run_2: "valid ks \<Longrightarrow> tkSEMI \<notin> set ks \<Longrightarrow> run 2 ks = 2"
  by (induction ks) auto

lemma run_5: "valid ks \<Longrightarrow> tkSEMI \<notin> set ks \<Longrightarrow> run 5 ks = 5"
  by (induction ks) auto

lemma run_4:
  "valid ks \<Longrightarrow> tkSEMI \<notin> set ks \<Longrightarrow> run 4 ks \<in> {2, 4, 5} \<and> (run 4 ks = 5 \<longleftrightarrow> create_trigger ks)"
proof (induction ks)
  case (Cons k ks)
  then show ?case using run_2 [of ks] run_5 [of ks] by auto
qed simp

lemma run_3:
  "valid ks \<Longrightarrow> tkSEMI \<notin> set ks \<Longrightarrow> run 3 ks \<in> {2, 3, 4, 5} \<and>
     (run 3 ks = 5 \<longleftrightarrow> (let ks' = dropWhile ((=) tkOTHER) ks in ks' \<noteq> [] \<and> hd ks' = tkCREATE \<and> create_trigger (tl ks')))"
proof (induction ks)
  case (Cons k ks)
  then have v: "valid ks" "tkSEMI \<notin> set ks" by auto
  consider "k = tkOTHER" | "k = tkCREATE" | "k \<noteq> tkOTHER" "k \<noteq> tkCREATE" "trans_state 3 k = 2" using Cons.prems by auto
  then show ?case
  proof cases
    case 1
    then show ?thesis using Cons.IH [OF v] by (auto simp: Let_def simp del: create_trigger.simps)
  next
    case 2
    then show ?thesis using run_4 [OF v] by (auto simp del: create_trigger.simps)
  next
    case 3
    then show ?thesis using run_2 [OF v] by simp
  qed
qed simp

lemma run_1: "valid ks \<Longrightarrow> tkSEMI \<notin> set ks \<Longrightarrow> run 1 ks \<in> {1, 2, 3, 4, 5} \<and> (run 1 ks = 5 \<longleftrightarrow> trigger_start ks) \<and> (run 1 ks = 1 \<longleftrightarrow> ks = [])"
proof (cases ks)
  case (Cons k ks')
  assume ks: "valid ks" "tkSEMI \<notin> set ks"
  then have v: "valid ks'" "tkSEMI \<notin> set ks'" using Cons by auto
  consider "k = tkEXPLAIN" | "k = tkCREATE" | "k \<noteq> tkEXPLAIN" "k \<noteq> tkCREATE" "trans_state 1 k = 2" using ks Cons by auto
  then show ?thesis
  proof cases
    case 1
    then show ?thesis using run_3 [OF v] Cons by (auto simp: trigger_start_def Let_def simp del: create_trigger.simps)
  next
    case 2
    then show ?thesis using run_4 [OF v] Cons by (auto simp: trigger_start_def simp del: create_trigger.simps)
  next
    case 3
    then show ?thesis using run_2 [OF v] Cons by (simp add: trigger_start_def)
  qed
qed (simp add: trigger_start_def)

lemma run_less: "valid ks \<Longrightarrow> q < 8 \<Longrightarrow> run q ks < 8"
  by (induction ks arbitrary: q) (auto intro!: trans_less)

lemma run_semi_end_semi: "q < 8 \<Longrightarrow> run q [tkSEMI, tkEND, tkSEMI] = 1"
  by (erule state_cases) simp_all

lemma run_statement:
  assumes "valid ks" "statement ks"
  shows "run 1 ks = 1"
proof (cases "trigger_start (takeWhile ((\<noteq>) tkSEMI) ks)")
  case True
  then obtain b where b: "ks = b @ [tkSEMI, tkEND, tkSEMI]" using assms(2) by (auto simp: statement_def)
  have "run 1 b < 8" using assms(1) b by (intro run_less) auto
  then show ?thesis using run_semi_end_semi [of "run 1 b"] b by simp
next
  case False
  then obtain b where b: "ks = b @ [tkSEMI]" "tkSEMI \<notin> set b" using assms(2) by (auto simp: statement_def)
  then have "takeWhile ((\<noteq>) tkSEMI) ks = b" using takeWhile_semi by simp
  then show ?thesis using b False assms(1) run_1 [of b] by auto
qed

lemma run_statements: "valid (concat ss) \<Longrightarrow> list_all statement ss \<Longrightarrow> run 1 (concat ss) = 1"
  by (induction ss) (auto simp: run_statement)

text \<open>Inside a trigger the machine leaves at the first \<open>;END;\<close>; what it has seen of it decides the state.\<close>

definition seen :: "nat \<Rightarrow> nat list" where
  "seen q = (if q = 6 then [tkSEMI] else if q = 7 then [tkSEMI, tkEND] else [])"

lemma run_trigger_split:
  "valid r \<Longrightarrow> q \<in> {5, 6, 7} \<Longrightarrow> run q r = 1 \<Longrightarrow>
     \<exists>r1 r2 b. r = r1 @ r2 \<and> run 1 r2 = 1 \<and> seen q @ r1 = b @ [tkSEMI, tkEND, tkSEMI]"
proof (induction r arbitrary: q)
  case (Cons x r)
  show ?case
  proof (cases "trans_state q x = 1")
    case True
    then have q: "q = 7" "x = tkSEMI" using Cons.prems(1,2) by auto
    have "run 1 r = 1" using Cons.prems(3) True by simp
    then show ?thesis using q by (intro exI [of _ "[x]"] exI [of _ r] exI [of _ "[]"]) (simp add: seen_def)
  next
    case False
    then have q': "trans_state q x \<in> {5, 6, 7}" using Cons.prems(1,2) by auto
    obtain c where c: "seen q @ [x] = c @ seen (trans_state q x)"
    proof -
      have "\<exists>c. seen q @ [x] = c @ seen (trans_state q x)"
        using False Cons.prems(1,2) by (auto simp: seen_def)
      then show thesis using that by blast
    qed
    obtain r1 r2 b where r: "r = r1 @ r2" "run 1 r2 = 1" "seen (trans_state q x) @ r1 = b @ [tkSEMI, tkEND, tkSEMI]"
      using Cons.IH [OF _ q'] Cons.prems by auto
    have "seen q @ x # r1 = c @ b @ [tkSEMI, tkEND, tkSEMI]" using c r(3) by (metis append.assoc append_Cons append_Nil)
    then show ?thesis using r by (intro exI [of _ "x # r1"] exI [of _ r2] exI [of _ "c @ b"]) simp
  qed
qed simp

lemma statements_complete: "valid ks \<Longrightarrow> run 1 ks = 1 \<Longrightarrow> \<exists>ss. ks = concat ss \<and> list_all statement ss"
proof (induction ks rule: length_induct)
  case (1 ks)
  define w where "w = takeWhile ((\<noteq>) tkSEMI) ks"
  define r where "r = dropWhile ((\<noteq>) tkSEMI) ks"
  have ks: "ks = w @ r" by (simp add: w_def r_def)
  have w: "tkSEMI \<notin> set w" unfolding w_def by (auto dest: set_takeWhileD)
  show ?case
  proof (cases r)
    case Nil
    then have "ks = []" using run_1 [of ks] 1 ks w by auto
    then show ?thesis by (intro exI [of _ "[]"]) simp
  next
    case (Cons x r')
    then have x: "x = tkSEMI" unfolding r_def by (metis (mono_tags, lifting) dropWhile_eq_Cons_conv)
    have v: "valid w" "valid r'" using 1(2) ks Cons by auto
    have q: "run 1 w \<in> {1, 2, 3, 4, 5}" "run 1 w = 5 \<longleftrightarrow> trigger_start w" using run_1 [OF v(1) w] by auto
    note tw = takeWhile_semi [OF w]
    have "\<exists>s r2. ks = s @ r2 \<and> statement s \<and> run 1 r2 = 1"
    proof (cases "trigger_start w")
      case False
      then have "statement (w @ [tkSEMI])" using tw [of "[]"] w by (simp add: statement_def)
      moreover have "run 1 (w @ [tkSEMI]) = 1" using q False by auto
      ultimately show ?thesis using 1(3) ks Cons x by (intro exI [of _ "w @ [tkSEMI]"] exI [of _ r']) simp
    next
      case True
      then have "run 6 r' = 1" using q 1(3) ks Cons x by simp
      then obtain r1 r2 b where r: "r' = r1 @ r2" "run 1 r2 = 1" "tkSEMI # r1 = b @ [tkSEMI, tkEND, tkSEMI]"
        using run_trigger_split [of r' 6] v by (auto simp: seen_def)
      have "statement (w @ tkSEMI # r1)"
        unfolding statement_def tw using True r(3) by (auto intro: exI [of _ "w @ b"])
      then show ?thesis using r ks Cons x by (intro exI [of _ "w @ tkSEMI # r1"] exI [of _ r2]) simp
    qed
    then obtain s r2 where s: "ks = s @ r2" "statement s" "run 1 r2 = 1" by blast
    then have "s \<noteq> []" by (auto simp: statement_def split: if_splits)
    then have "length r2 < length ks" "valid r2" using s(1) 1(2) by auto
    then obtain ss where "r2 = concat ss" "list_all statement ss" using 1(1) s(3) by blast
    then show ?thesis using s by (intro exI [of _ "s # ss"]) simp
  qed
qed

lemma run_0: "valid ks \<Longrightarrow> run 0 ks = 1 \<longleftrightarrow> ks \<noteq> [] \<and> run 1 ks = 1"
  by (cases ks) auto

text \<open>
  C19. \<open>sqlite3_complete\<close> answers yes exactly on texts whose comments and quotations are terminated
  and whose tokens, white space left out, are a non-empty sequence of complete statements: a
  statement that does not begin a trigger definition ends at its first semicolon, one that does ends
  at a semicolon, END and a semicolon.\<close>

theorem complete_iff_statements:
  "sqlite3_complete z \<longleftrightarrow> (\<exists>ss. ss \<noteq> [] \<and> list_all statement ss \<and> kinds z = Some (concat ss))"
proof -
  have "(\<exists>ks. kinds z = Some ks \<and> run 0 ks = 1) \<longleftrightarrow> (\<exists>ss. ss \<noteq> [] \<and> list_all statement ss \<and> kinds z = Some (concat ss))"
  proof
    assume "\<exists>ks. kinds z = Some ks \<and> run 0 ks = 1"
    then obtain ks where k: "kinds z = Some ks" "ks \<noteq> []" "run 1 ks = 1" using run_0 kinds_valid by blast
    then obtain ss where "ks = concat ss" "list_all statement ss" using statements_complete kinds_valid by blast
    then show "\<exists>ss. ss \<noteq> [] \<and> list_all statement ss \<and> kinds z = Some (concat ss)" using k by (intro exI [of _ ss]) auto
  next
    assume "\<exists>ss. ss \<noteq> [] \<and> list_all statement ss \<and> kinds z = Some (concat ss)"
    then obtain ss where s: "ss \<noteq> []" "list_all statement ss" "kinds z = Some (concat ss)" by blast
    have v: "valid (concat ss)" using s(3) by (rule kinds_valid)
    have "concat ss \<noteq> []" using s(1,2) by (cases ss) (auto simp: statement_def split: if_splits)
    then show "\<exists>ks. kinds z = Some ks \<and> run 0 ks = 1" using run_statements [OF v s(2)] run_0 [OF v] s(3) by blast
  qed
  then show ?thesis by (simp add: sqlite3_complete_def complete_loop_kinds)
qed

end
