(* ===== verification/Pcache.thy ===== *)
theory Pcache
  imports Prelude
begin

text \<open>
  The page cache, src/pagecache/pcache.go and cache.go: the doubly linked list of dirty pages in
  order of their last use, reference counts, the choice of a page to write out, and the list of
  dirty pages sorted for writing. Page headers live in a store indexed by address; the pluggable
  cache behind the page cache is the argument \<open>m\<close>, its state the type \<open>'c\<close>.
\<close>

section \<open>Pages and caches\<close>

definition PGHDR_DIRTY :: "16 word" where "PGHDR_DIRTY = 0x002"
definition PGHDR_NEED_SYNC :: "16 word" where "PGHDR_NEED_SYNC = 0x004"
definition PGHDR_DONT_WRITE :: "16 word" where "PGHDR_DONT_WRITE = 0x020"

text \<open>
  \<open>hasPage\<close> says that \<open>pPage\<close> is not nil; \<open>owned\<close> that \<open>pCache\<close>, \<open>pData\<close> and \<open>pExtra\<close> have the values
  \<open>Fetch\<close> gives them.
\<close>

record PgHdr =
  hasPage :: bool
  owned :: bool
  pgno :: nat
  flags :: "16 word"
  nRef :: int
  pDirty :: "nat option"
  pDirtyNext :: "nat option"
  pDirtyPrev :: "nat option"

record 'c PCache =
  pDirtyHead :: "nat option"
  pDirtyTail :: "nat option"
  pSynced :: "nat option"
  nRefSum :: int
  size :: int
  PageSize :: int
  ExtraBytes :: int
  Purgeable :: bool
  pCache :: "'c option"
  pPage1 :: "nat option"
  pages :: "nat \<Rightarrow> PgHdr"

text \<open>The methods of the pluggable cache; a page is named by the address of its header.\<close>

record 'c pcache_methods2 =
  xCreate :: "int \<Rightarrow> int \<Rightarrow> bool \<Rightarrow> 'c option"
  xCachesize :: "'c \<Rightarrow> int \<Rightarrow> 'c"
  xPagecount :: "'c \<Rightarrow> int"
  xFetch :: "'c \<Rightarrow> nat \<Rightarrow> nat \<Rightarrow> 'c \<times> nat option"
  xUnpin :: "'c \<Rightarrow> nat \<Rightarrow> bool \<Rightarrow> 'c"
  xRekey :: "'c \<Rightarrow> nat \<Rightarrow> nat \<Rightarrow> nat \<Rightarrow> 'c"
  xShrink :: "'c \<Rightarrow> 'c"

definition upd :: "nat \<Rightarrow> (PgHdr \<Rightarrow> PgHdr) \<Rightarrow> 'c PCache \<Rightarrow> 'c PCache" where
  "upd a f s = s\<lparr>pages := (pages s)(a := f (pages s a))\<rparr>"

definition needSync :: "PgHdr \<Rightarrow> bool" where
  "needSync p \<longleftrightarrow> flags p AND PGHDR_NEED_SYNC \<noteq> 0"

definition dirty :: "PgHdr \<Rightarrow> bool" where
  "dirty p \<longleftrightarrow> flags p AND PGHDR_DIRTY \<noteq> 0"

section \<open>The list of dirty pages\<close>

text \<open>The search backwards for a page that needs no sync; it does not end on a cyclic list.\<close>

partial_function (option) synced_scan :: "(nat \<Rightarrow> PgHdr) \<Rightarrow> nat option \<Rightarrow> nat option option" where
  "synced_scan h p =
     (case p of None \<Rightarrow> Some None
      | Some a \<Rightarrow> if needSync (h a) then synced_scan h (pDirtyPrev (h a)) else Some (Some a))"

definition pcacheRemoveFromDirtyList :: "nat \<Rightarrow> 'c PCache \<Rightarrow> 'c PCache option" where
  "pcacheRemoveFromDirtyList a s =
     (let p = pages s a in
      if \<not> ((pDirtyNext p \<noteq> None \<or> pDirtyTail s = Some a) \<and> (pDirtyPrev p \<noteq> None \<or> pDirtyHead s = Some a)) then None
      else do {
        s \<leftarrow> (if pSynced s = Some a then do { q \<leftarrow> synced_scan (pages s) (pDirtyPrev p); Some (s\<lparr>pSynced := q\<rparr>) } else Some s);
        s \<leftarrow> (case pDirtyNext p of
               Some b \<Rightarrow> Some (upd b (\<lambda>x. x\<lparr>pDirtyPrev := pDirtyPrev p\<rparr>) s)
             | None \<Rightarrow> if pDirtyTail s = Some a then Some (s\<lparr>pDirtyTail := pDirtyPrev p\<rparr>) else None);
        s \<leftarrow> (case pDirtyPrev p of
               Some b \<Rightarrow> Some (upd b (\<lambda>x. x\<lparr>pDirtyNext := pDirtyNext p\<rparr>) s)
             | None \<Rightarrow> if pDirtyHead s = Some a then Some (s\<lparr>pDirtyHead := pDirtyNext p\<rparr>) else None);
        Some (upd a (\<lambda>x. x\<lparr>pDirtyNext := None, pDirtyPrev := None\<rparr>) s) })"

definition pcacheAddToDirtyList :: "nat \<Rightarrow> 'c PCache \<Rightarrow> 'c PCache option" where
  "pcacheAddToDirtyList a s =
     (let p = pages s a in
      if \<not> (pDirtyNext p = None \<and> pDirtyPrev p = None \<and> pDirtyHead s \<noteq> Some a) then None
      else do {
        let s = upd a (\<lambda>x. x\<lparr>pDirtyNext := pDirtyHead s\<rparr>) s;
        s \<leftarrow> (case pDirtyHead s of
               Some b \<Rightarrow> if pDirtyPrev (pages s b) = None then Some (upd b (\<lambda>x. x\<lparr>pDirtyPrev := Some a\<rparr>) s) else None
             | None \<Rightarrow> Some s);
        let s = s\<lparr>pDirtyHead := Some a\<rparr>;
        let s = (if pDirtyTail s = None then s\<lparr>pDirtyTail := Some a\<rparr> else s);
        Some (if pSynced s = None \<and> \<not> needSync (pages s a) then s\<lparr>pSynced := Some a\<rparr> else s) })"

text \<open>The pluggable cache is not nil when a page of it is unpinned.\<close>

definition pcacheUnpin :: "'c pcache_methods2 \<Rightarrow> nat \<Rightarrow> 'c PCache \<Rightarrow> 'c PCache option" where
  "pcacheUnpin m a s =
     (if Purgeable s then
        let s = (if pgno (pages s a) = 1 then s\<lparr>pPage1 := None\<rparr> else s)
        in do { c \<leftarrow> pCache s; Some (s\<lparr>pCache := Some (xUnpin m c a False)\<rparr>) }
      else Some s)"

section \<open>References and flags\<close>

definition CacheRelease :: "'c pcache_methods2 \<Rightarrow> nat \<Rightarrow> 'c PCache \<Rightarrow> 'c PCache option" where
  "CacheRelease m a s =
     (if \<not> nRef (pages s a) > 0 then None
      else
        let s = upd a (\<lambda>x. x\<lparr>nRef := nRef x - 1\<rparr>) s in
        if nRef (pages s a) = 0 then
          let s = s\<lparr>nRefSum := nRefSum s - 1\<rparr> in
          if \<not> dirty (pages s a) then pcacheUnpin m a s
          else do { s \<leftarrow> pcacheRemoveFromDirtyList a s; pcacheAddToDirtyList a s }
        else Some s)"

text \<open>The body of \<open>sqlite3PcacheRef\<close> mentions a field where the count should be incremented.\<close>

definition sqlite3PcacheRef :: "nat \<Rightarrow> 'c PCache \<Rightarrow> 'c PCache option" where
  "sqlite3PcacheRef a s = (if \<not> nRef (pages s a) > 0 then None else Some s)"

definition sqlite3PcacheDrop :: "'c pcache_methods2 \<Rightarrow> nat \<Rightarrow> 'c PCache \<Rightarrow> 'c PCache option" where
  "sqlite3PcacheDrop m a s =
     (if nRef (pages s a) \<noteq> 1 then None
      else do {
        s \<leftarrow> (if dirty (pages s a) then pcacheRemoveFromDirtyList a s else Some s);
        let s = s\<lparr>nRefSum := nRefSum s - 1\<rparr>;
        let s = (if pgno (pages s a) = 1 then s\<lparr>pPage1 := None\<rparr> else s);
        c \<leftarrow> pCache s;
        Some (s\<lparr>pCache := Some (xUnpin m c a True)\<rparr>) })"

definition sqlite3PcacheMakeDirty :: "nat \<Rightarrow> 'c PCache \<Rightarrow> 'c PCache option" where
  "sqlite3PcacheMakeDirty a s =
     (let s = upd a (\<lambda>x. x\<lparr>flags := flags x AND NOT PGHDR_DONT_WRITE\<rparr>) s in
      if \<not> nRef (pages s a) > 0 then None
      else if \<not> dirty (pages s a)
      then pcacheAddToDirtyList a (upd a (\<lambda>x. x\<lparr>flags := flags x OR PGHDR_DIRTY\<rparr>) s)
      else Some s)"

definition sqlite3PcacheMakeClean :: "'c pcache_methods2 \<Rightarrow> nat \<Rightarrow> 'c PCache \<Rightarrow> 'c PCache option" where
  "sqlite3PcacheMakeClean m a s =
     (if dirty (pages s a) then
        do { s \<leftarrow> pcacheRemoveFromDirtyList a s;
             let s = upd a (\<lambda>x. x\<lparr>flags := flags x AND NOT (PGHDR_DIRTY OR PGHDR_NEED_SYNC)\<rparr>) s;
             if nRef (pages s a) = 0 then pcacheUnpin m a s else Some s }
      else Some s)"

definition sqlite3PcacheMove :: "'c pcache_methods2 \<Rightarrow> nat \<Rightarrow> nat \<Rightarrow> 'c PCache \<Rightarrow> 'c PCache option" where
  "sqlite3PcacheMove m a newPageNumber s =
     (if \<not> (nRef (pages s a) > 0 \<and> newPageNumber > 0) then None
      else do {
        c \<leftarrow> pCache s;
        let s = s\<lparr>pCache := Some (xRekey m c a (pgno (pages s a)) newPageNumber)\<rparr>;
        let s = upd a (\<lambda>x. x\<lparr>pgno := newPageNumber\<rparr>) s;
        if dirty (pages s a) \<and> needSync (pages s a)
        then do { s \<leftarrow> pcacheRemoveFromDirtyList a s; pcacheAddToDirtyList a s }
        else Some s })"

definition sqlite3PcachePageRefcount :: "nat \<Rightarrow> 'c PCache \<Rightarrow> int" where
  "sqlite3PcachePageRefcount a s = nRef (pages s a)"

section \<open>The sorted list of dirty pages\<close>

fun pcacheMergeDirtyList :: "(nat \<Rightarrow> PgHdr) \<Rightarrow> nat list \<Rightarrow> nat list \<Rightarrow> nat list" where
  "pcacheMergeDirtyList h (a # pA) (b # pB) =
     (if pgno (h a) < pgno (h b) then a # pcacheMergeDirtyList h pA (b # pB) else b # pcacheMergeDirtyList h (a # pA) pB)"
| "pcacheMergeDirtyList h pA [] = pA"
| "pcacheMergeDirtyList h [] pB = pB"

definition N_SORT_BUCKET :: nat where "N_SORT_BUCKET = 32"

text \<open>The array without its last bucket, and the last bucket.\<close>

fun pcacheSortDirtyList_loop :: "(nat \<Rightarrow> PgHdr) \<Rightarrow> nat list list \<Rightarrow> nat list \<Rightarrow> nat list \<Rightarrow> nat list list \<times> nat list" where
  "pcacheSortDirtyList_loop h a overflow [] = (a, overflow)"
| "pcacheSortDirtyList_loop h a overflow (p # pIn) =
     (let (a', q) = carry (pcacheMergeDirtyList h) a [p]
      in pcacheSortDirtyList_loop h a' (if q = [] then overflow else pcacheMergeDirtyList h overflow q) pIn)"

definition pcacheSortDirtyList :: "(nat \<Rightarrow> PgHdr) \<Rightarrow> nat list \<Rightarrow> nat list" where
  "pcacheSortDirtyList h pIn =
     (let (a, overflow) = pcacheSortDirtyList_loop h (replicate (N_SORT_BUCKET - 1) []) [] pIn; bs = a @ [overflow]
      in fold (\<lambda>b p. pcacheMergeDirtyList h p b) (tl bs) (hd bs))"

text \<open>
  \<open>DirtyList\<close> returns the chain of pages linked by \<open>pDirty\<close> as the list of their addresses: callers
  walk the list instead of the link, and the headers of the model keep the link as it was.
\<close>

text \<open>The walk along \<open>pDirtyNext\<close>, which the loop over the dirty pages makes; it does not end on a cyclic list.\<close>

partial_function (option) dirty_walk :: "(nat \<Rightarrow> PgHdr) \<Rightarrow> nat option \<Rightarrow> nat list option" where
  "dirty_walk h p = (case p of None \<Rightarrow> Some [] | Some a \<Rightarrow> do { xs \<leftarrow> dirty_walk h (pDirtyNext (h a)); Some (a # xs) })"

definition DirtyList :: "'c PCache \<Rightarrow> nat list option" where
  "DirtyList s = map_option (pcacheSortDirtyList (pages s)) (dirty_walk (pages s) (pDirtyHead s))"

section \<open>Cleaning, fetching and sizes\<close>

partial_function (option) CleanAll :: "'c pcache_methods2 \<Rightarrow> 'c PCache \<Rightarrow> 'c PCache option" where
  "CleanAll m s = (case pDirtyHead s of None \<Rightarrow> Some s | Some a \<Rightarrow> do { s \<leftarrow> sqlite3PcacheMakeClean m a s; CleanAll m s })"

definition ReferenceCount :: "'c PCache \<Rightarrow> int" where
  "ReferenceCount s = nRefSum s"

text \<open>\<open>SetPageSize\<close> stores its argument in \<open>size\<close>.\<close>

definition SetPageSize :: "int \<Rightarrow> 'c PCache \<Rightarrow> 'c PCache option" where
  "SetPageSize sz s =
     (if \<not> (nRefSum s = 0 \<and> pDirtyHead s = None) then None
      else let s = (if pCache s \<noteq> None then s\<lparr>pCache := None, pPage1 := None\<rparr> else s) in Some (s\<lparr>size := sz\<rparr>))"

definition NumberOfCachePages :: "'c PCache \<Rightarrow> int option" where
  "NumberOfCachePages s =
     (if size s \<ge> 0 then Some (size s)
      else if PageSize s + ExtraBytes s = 0 then None
      else Some ((-1024 * size s) div (PageSize s + ExtraBytes s)))"

definition SetCachesize :: "'c pcache_methods2 \<Rightarrow> int \<Rightarrow> 'c PCache \<Rightarrow> 'c PCache option" where
  "SetCachesize m sz s =
     (let s = s\<lparr>size := sz\<rparr> in
      case pCache s of None \<Rightarrow> Some s
      | Some c \<Rightarrow> do { n \<leftarrow> NumberOfCachePages s; Some (s\<lparr>pCache := Some (xCachesize m c n)\<rparr>) })"

definition Shrink :: "'c pcache_methods2 \<Rightarrow> 'c PCache \<Rightarrow> 'c PCache" where
  "Shrink m s = s\<lparr>pCache := map_option (xShrink m) (pCache s)\<rparr>"

text \<open>
  The choice of a page to write out: from \<open>pSynced\<close> backwards a page that is not in use and needs no
  sync, else from the tail any page that is not in use. In the condition of the first loop the
  parenthesis that closes twice is taken to open before \<open>pPg.nRef\<close>.
\<close>

partial_function (option) backwards :: "(PgHdr \<Rightarrow> bool) \<Rightarrow> (nat \<Rightarrow> PgHdr) \<Rightarrow> nat option \<Rightarrow> nat option option" where
  "backwards skip h p =
     (case p of None \<Rightarrow> Some None | Some a \<Rightarrow> if skip (h a) then backwards skip h (pDirtyPrev (h a)) else Some (Some a))"

definition Fetch_victim :: "'c PCache \<Rightarrow> (nat option \<times> 'c PCache) option" where
  "Fetch_victim s =
     do { v \<leftarrow> backwards (\<lambda>p. nRef p \<noteq> 0 \<or> needSync p) (pages s) (pSynced s);
          let s = s\<lparr>pSynced := v\<rparr>;
          v \<leftarrow> (if v = None then backwards (\<lambda>p. nRef p \<noteq> 0) (pages s) (pDirtyTail s) else Some v);
          Some (v, s) }"

text \<open>
  The header of a page that \<open>xFetch\<close> returns: reset if its \<open>pPage\<close> is not nil, then checked. The
  statements \<open>pCache.PageSize\<close> and \<open>pPgHdr.PageSize\<close>, which stand where the counts should be
  incremented, have no effect.
\<close>

definition Fetch_header :: "nat \<Rightarrow> nat \<Rightarrow> 'c PCache \<Rightarrow> 'c PCache option" where
  "Fetch_header n a s =
     (let s = (if hasPage (pages s a)
               then upd a (\<lambda>_. \<lparr>hasPage = True, owned = True, pgno = n, flags = 0, nRef = 0, pDirty = None, pDirtyNext = None, pDirtyPrev = None\<rparr>) s
               else s)
      in if \<not> (owned (pages s a) \<and> pgno (pages s a) = n) then None
      else Some (if n = 1 then s\<lparr>pPage1 := Some a\<rparr> else s))"

definition Fetch :: "'c pcache_methods2 \<Rightarrow> int \<Rightarrow> ('c PCache \<Rightarrow> nat \<Rightarrow> 'c PCache \<times> rc) \<Rightarrow> nat \<Rightarrow> bool \<Rightarrow> 'c PCache
    \<Rightarrow> (nat option \<times> rc \<times> 'c PCache) option" where
  "Fetch m sizeof_PgHdr xStress n createFlag s =
     (if n = 0 then None
      else if pCache s = None \<and> createFlag \<and> xCreate m (PageSize s) (ExtraBytes s + sizeof_PgHdr) (Purgeable s) = None
      then Some (None, SQLITE_NOMEM, s)
      else do {
        s \<leftarrow> (if pCache s = None \<and> createFlag
             then do { c \<leftarrow> xCreate m (PageSize s) (ExtraBytes s + sizeof_PgHdr) (Purgeable s);
                       k \<leftarrow> NumberOfCachePages s; Some (s\<lparr>pCache := Some (xCachesize m c k)\<rparr>) }
             else Some s);
        let eCreate = (if createFlag then if \<not> Purgeable s \<or> pDirtyHead s = None then 2 else 1 else (0::nat));
        let (s, page) = (case pCache s of None \<Rightarrow> (s, None)
                         | Some c \<Rightarrow> let (c, p) = xFetch m c n eCreate in (s\<lparr>pCache := Some c\<rparr>, p));
        (s, page, failed) \<leftarrow>
          (if page = None \<and> eCreate = 1 then do {
             (v, s) \<leftarrow> Fetch_victim s;
             let (s, rc) = (case v of None \<Rightarrow> (s, SQLITE_OK) | Some a \<Rightarrow> xStress s a);
             if rc \<noteq> SQLITE_OK \<and> rc \<noteq> SQLITE_BUSY then Some (s, None, Some rc)
             else do { c \<leftarrow> pCache s; let (c, p) = xFetch m c n 2; Some (s\<lparr>pCache := Some c\<rparr>, p, None) } }
           else Some (s, page, None));
        case failed of Some rc \<Rightarrow> Some (None, rc, s)
        | None \<Rightarrow> do {
            s \<leftarrow> (case page of None \<Rightarrow> Some s | Some a \<Rightarrow> Fetch_header n a s);
            Some (page, if page = None \<and> eCreate \<noteq> 0 then SQLITE_NOMEM else SQLITE_OK, s) } })"

section \<open>Well-formed caches\<close>

text \<open>
  \<open>links h p xs q\<close>: the pages \<open>xs\<close> are chained in both directions, \<open>p\<close> before the first and \<open>q\<close> after
  the last one.
\<close>

definition first :: "nat list \<Rightarrow> nat option \<Rightarrow> nat option" where
  "first xs q = (case xs of [] \<Rightarrow> q | x # _ \<Rightarrow> Some x)"

definition final :: "nat option \<Rightarrow> nat list \<Rightarrow> nat option" where
  "final p xs = (if xs = [] then p else Some (last xs))"

primrec links :: "(nat \<Rightarrow> PgHdr) \<Rightarrow> nat option \<Rightarrow> nat list \<Rightarrow> nat option \<Rightarrow> bool" where
  "links h p [] q \<longleftrightarrow> True"
| "links h p (a # xs) q \<longleftrightarrow> pDirtyPrev (h a) = p \<and> pDirtyNext (h a) = first xs q \<and> links h (Some a) xs q"

lemma first_final_simps [simp]:
  "first [] q = q" "first (x # xs) q = Some x" "first (xs @ ys) q = first xs (first ys q)"
  "final p [] = p" "final p (x # xs) = final (Some x) xs" "final p (xs @ ys) = final (final p xs) ys"
  by (auto simp: first_def final_def split: list.splits)

lemma links_append [simp]: "links h p (xs @ ys) q \<longleftrightarrow> links h p xs (first ys q) \<and> links h (final p xs) ys q"
  by (induction xs arbitrary: p) auto

lemma links_cong:
  assumes "\<And>x. x \<in> set xs \<Longrightarrow> pDirtyNext (h' x) = pDirtyNext (h x) \<and> pDirtyPrev (h' x) = pDirtyPrev (h x)"
  shows "links h' p xs q = links h p xs q"
  using assms by (induction xs arbitrary: p) auto

definition erase :: "PgHdr \<Rightarrow> PgHdr" where
  "erase p = p\<lparr>pDirtyNext := None, pDirtyPrev := None\<rparr>"

text \<open>What the list operations leave alone.\<close>

definition frame :: "'c PCache \<Rightarrow> 'c PCache \<Rightarrow> bool" where
  "frame s s' \<longleftrightarrow> (\<forall>a. erase (pages s' a) = erase (pages s a)) \<and> nRefSum s' = nRefSum s \<and> Purgeable s' = Purgeable s
     \<and> pCache s' = pCache s \<and> pPage1 s' = pPage1 s"

lemma eraseD:
  assumes "erase p = erase q"
  shows "flags p = flags q" "nRef p = nRef q" "pgno p = pgno q" "dirty p = dirty q" "needSync p = needSync q"
proof -
  show f: "flags p = flags q" "nRef p = nRef q" "pgno p = pgno q"
    using arg_cong [OF assms, of flags] arg_cong [OF assms, of nRef] arg_cong [OF assms, of pgno] by (simp_all add: erase_def)
  then show "dirty p = dirty q" "needSync p = needSync q" by (simp_all add: dirty_def needSync_def)
qed

lemma frameD:
  assumes "frame s s'"
  shows "flags (pages s' a) = flags (pages s a)" "nRef (pages s' a) = nRef (pages s a)" "pgno (pages s' a) = pgno (pages s a)"
    "dirty (pages s' a) = dirty (pages s a)" "needSync (pages s' a) = needSync (pages s a)"
    "nRefSum s' = nRefSum s" "Purgeable s' = Purgeable s" "pCache s' = pCache s" "pPage1 s' = pPage1 s"
  using assms eraseD [of "pages s' a" "pages s a"] by (auto simp: frame_def)

lemma frame_refl: "frame s s"
  by (simp add: frame_def)

lemma frame_trans: "frame s s' \<Longrightarrow> frame s' s'' \<Longrightarrow> frame s s''"
  by (simp add: frame_def)

text \<open>The chain of the dirty pages \<open>xs\<close> among the live pages \<open>L\<close>.\<close>

definition chain :: "'c PCache \<Rightarrow> nat set \<Rightarrow> nat list \<Rightarrow> bool" where
  "chain s L xs \<longleftrightarrow> distinct xs \<and> set xs \<subseteq> L \<and> links (pages s) None xs None \<and> pDirtyHead s = first xs None \<and> pDirtyTail s = final None xs
     \<and> (\<forall>a\<in>L - set xs. pDirtyNext (pages s a) = None \<and> pDirtyPrev (pages s a) = None)"

text \<open>
  Behind \<open>pSynced\<close>, every page other than those in \<open>E\<close> needs a sync or is in use: a page that could be
  written out without a sync is found from \<open>pSynced\<close> backwards.
\<close>

definition synced :: "'c PCache \<Rightarrow> nat list \<Rightarrow> nat set \<Rightarrow> bool" where
  "synced s xs E \<longleftrightarrow> (\<exists>us vs. xs = us @ vs \<and> pSynced s = final None us
     \<and> (\<forall>v\<in>set vs - E. needSync (pages s v) \<or> nRef (pages s v) > 0))"

definition wf_cache :: "'c PCache \<Rightarrow> nat set \<Rightarrow> nat list \<Rightarrow> bool" where
  "wf_cache s L xs \<longleftrightarrow> chain s L xs \<and> synced s xs {} \<and> (\<forall>a\<in>L. dirty (pages s a) \<longleftrightarrow> a \<in> set xs) \<and> pCache s \<noteq> None"

section \<open>The list operations\<close>

lemma synced_scan_links:
  "links h None us q \<Longrightarrow>
     \<exists>us' ws. us = us' @ ws \<and> synced_scan h (final None us) = Some (final None us') \<and> (\<forall>w\<in>set ws. needSync (h w))"
proof (induction us arbitrary: q rule: rev_induct)
  case Nil
  then show ?case by (simp add: synced_scan.simps)
next
  case (snoc x us)
  show ?case
  proof (cases "needSync (h x)")
    case True
    have "links h None us (Some x)" using snoc.prems by simp
    from snoc.IH [OF this] obtain us' ws
      where "us = us' @ ws" "synced_scan h (final None us) = Some (final None us')" "\<forall>w\<in>set ws. needSync (h w)" by blast
    moreover have "synced_scan h (final None (us @ [x])) = synced_scan h (final None us)"
      using True snoc.prems by (subst synced_scan.simps) simp
    ultimately show ?thesis using True by (intro exI [of _ us'] exI [of _ "ws @ [x]"]) simp
  next
    case False
    then show ?thesis by (intro exI [of _ "us @ [x]"] exI [of _ "[]"]) (subst synced_scan.simps, simp)
  qed
qed

lemma final_eq_Some: "final None us = Some a \<longleftrightarrow> us \<noteq> [] \<and> last us = a"
  by (auto simp: final_def)

lemma remove_synced:
  assumes c: "chain s L xs" and xs: "xs = as @ a # bs" and sy: "synced s xs {a}"
  obtains ps us vs where "(if pSynced s = Some a then synced_scan (pages s) (pDirtyPrev (pages s a)) else Some (pSynced s)) = Some ps"
    "as @ bs = us @ vs" "ps = final None us" "\<forall>v\<in>set vs. needSync (pages s v) \<or> nRef (pages s v) > 0"
proof -
  have d: "a \<notin> set as" "a \<notin> set bs" using c xs by (auto simp: chain_def)
  obtain us vs where u: "xs = us @ vs" "pSynced s = final None us" "\<forall>v\<in>set vs - {a}. needSync (pages s v) \<or> nRef (pages s v) > 0"
    using sy by (auto simp: synced_def)
  show thesis
  proof (cases "pSynced s = Some a")
    case True
    then obtain us' where "us = us' @ [a]" using u(2) by (cases us rule: rev_cases) auto
    then have us: "us' = as" "vs = bs" using u(1) xs d by (auto simp: append_eq_append_conv2 Cons_eq_append_conv append_eq_Cons_conv)
    have l: "links (pages s) None as (Some a)" "pDirtyPrev (pages s a) = final None as" using c xs by (auto simp: chain_def)
    obtain us1 ws where w: "as = us1 @ ws" "synced_scan (pages s) (final None as) = Some (final None us1)" "\<forall>w\<in>set ws. needSync (pages s w)"
      using synced_scan_links [OF l(1)] by blast
    show thesis by (rule that [of "final None us1" us1 "ws @ bs"]) (use True l w u(3) us d in auto)
  next
    case False
    show thesis
    proof (cases "a \<in> set us")
      case True
      then obtain as' cs where "us = as' @ a # cs" by (auto dest: split_list)
      then have cs: "us = as @ a # cs" "bs = cs @ vs" using u(1) xs append_Cons_eq_iff [OF d, of as' "cs @ vs"] by auto
      then have "cs \<noteq> []" using u(2) False by auto
      then have "final None us = final None (as @ cs)" using cs by (cases cs rule: rev_cases) auto
      moreover have "a \<notin> set vs" using cs d by auto
      ultimately show thesis by (intro that [of "pSynced s" "as @ cs" vs]) (use False u cs in auto)
    next
      case a: False
      then obtain cs where cs: "as = us @ cs" "vs = cs @ a # bs"
        using u(1) xs by (auto simp: append_eq_append_conv2 Cons_eq_append_conv append_eq_Cons_conv)
      show thesis by (rule that [of "pSynced s" us "cs @ bs"]) (use False u cs d in auto)
    qed
  qed
qed

text \<open>The pointers after a page between \<open>as\<close> and \<open>bs\<close> is unlinked.\<close>

definition relink :: "nat list \<Rightarrow> nat \<Rightarrow> nat list \<Rightarrow> (nat \<Rightarrow> PgHdr) \<Rightarrow> nat \<Rightarrow> PgHdr" where
  "relink as a bs h x =
     (if x = a then (h a)\<lparr>pDirtyNext := None, pDirtyPrev := None\<rparr>
      else let y = (if first bs None = Some x then (h x)\<lparr>pDirtyPrev := final None as\<rparr> else h x)
        in if final None as = Some x then y\<lparr>pDirtyNext := first bs None\<rparr> else y)"

lemma links_set_next:
  "links h p xs q \<Longrightarrow> distinct xs \<Longrightarrow> (\<And>x. x \<in> set xs \<Longrightarrow> pDirtyPrev (h' x) = pDirtyPrev (h x)) \<Longrightarrow>
   (\<And>x. x \<in> set xs \<Longrightarrow> pDirtyNext (h' x) = (if x = last xs then q' else pDirtyNext (h x))) \<Longrightarrow> links h' p xs q'"
proof (induction xs arbitrary: p)
  case (Cons x xs)
  show ?case
  proof (cases xs)
    case Nil
    then show ?thesis using Cons.prems by simp
  next
    case (Cons y ys)
    then have "x \<noteq> last xs" using Cons.prems(2) by (metis distinct.simps(2) last_in_set list.distinct(1))
    moreover have "links h' (Some x) xs q'" using Cons.prems Cons by (intro Cons.IH) auto
    ultimately show ?thesis using Cons.prems Cons by auto
  qed
qed simp

lemma links_set_prev:
  "links h p xs q \<Longrightarrow> distinct xs \<Longrightarrow> (\<And>x. x \<in> set xs \<Longrightarrow> pDirtyNext (h' x) = pDirtyNext (h x)) \<Longrightarrow>
   (\<And>x. x \<in> set xs \<Longrightarrow> pDirtyPrev (h' x) = (if x = hd xs then p' else pDirtyPrev (h x))) \<Longrightarrow> links h' p' xs q"
proof (cases xs)
  case (Cons x ys)
  assume a: "links h p xs q" "distinct xs" "\<And>x. x \<in> set xs \<Longrightarrow> pDirtyNext (h' x) = pDirtyNext (h x)"
    "\<And>x. x \<in> set xs \<Longrightarrow> pDirtyPrev (h' x) = (if x = hd xs then p' else pDirtyPrev (h x))"
  have "links h' (Some x) ys q = links h (Some x) ys q" using a(2,3,4) Cons by (intro links_cong) auto
  then show ?thesis using a Cons by auto
qed simp

lemma relink_links:
  assumes "links h None (as @ a # bs) None" "distinct (as @ a # bs)"
  shows "links (relink as a bs h) None (as @ bs) None"
proof -
  have "links (relink as a bs h) None as (first bs None)"
  proof (rule links_set_next)
    show "links h None as (Some a)" "distinct as" using assms by auto
    show "pDirtyPrev (relink as a bs h x) = pDirtyPrev (h x)" if "x \<in> set as" for x
      using that assms(2) by (auto simp: relink_def Let_def first_def split: list.splits)
    show "pDirtyNext (relink as a bs h x) = (if x = last as then first bs None else pDirtyNext (h x))" if "x \<in> set as" for x
      using that assms(2) by (auto simp: relink_def Let_def final_def)
  qed
  moreover have "links (relink as a bs h) (final None as) bs None"
  proof (rule links_set_prev)
    show "links h (Some a) bs None" "distinct bs" using assms by auto
    show "pDirtyNext (relink as a bs h x) = pDirtyNext (h x)" if "x \<in> set bs" for x
    proof -
      have "final None as \<noteq> Some x" "x \<noteq> a" using that assms(2) by (cases as rule: rev_cases; auto)+
      then show ?thesis by (simp add: relink_def Let_def)
    qed
    show "pDirtyPrev (relink as a bs h x) = (if x = hd bs then final None as else pDirtyPrev (h x))" if "x \<in> set bs" for x
      using that assms(2) by (auto simp: relink_def Let_def first_def final_def split: list.splits if_splits)
  qed
  ultimately show ?thesis by simp
qed

lemma remove_eq:
  assumes c: "chain s L (as @ a # bs)"
    and ps: "(if pSynced s = Some a then synced_scan (pages s) (pDirtyPrev (pages s a)) else Some (pSynced s)) = Some ps"
  shows "pcacheRemoveFromDirtyList a s = Some (s\<lparr>pSynced := ps, pDirtyHead := first as (first bs None), pDirtyTail := final (final None as) bs,
     pages := relink as a bs (pages s)\<rparr>)"
proof -
  have l: "pDirtyPrev (pages s a) = final None as" "pDirtyNext (pages s a) = first bs None" "a \<notin> set as" "a \<notin> set bs"
    "pDirtyHead s = first as (Some a)" "pDirtyTail s = final (Some a) bs" "distinct (as @ a # bs)" using c by (auto simp: chain_def)
  have s1: "(if pSynced s = Some a then do { q \<leftarrow> synced_scan (pages s) (pDirtyPrev (pages s a)); Some (s\<lparr>pSynced := q\<rparr>) } else Some s)
    = Some (s\<lparr>pSynced := ps\<rparr>)"
    using ps by (auto split: if_splits)
  show ?thesis
  proof (cases as rule: rev_cases)
    case as: Nil
    show ?thesis
    proof (cases bs)
      case Nil
      then show ?thesis unfolding pcacheRemoveFromDirtyList_def Let_def s1 using as l
        by (auto simp: upd_def relink_def fun_eq_iff)
    next
      case (Cons b bs')
      then show ?thesis unfolding pcacheRemoveFromDirtyList_def Let_def s1 using as l
        by (auto simp: upd_def relink_def fun_eq_iff final_def)
    qed
  next
    case as: (snoc as' c)
    show ?thesis
    proof (cases bs)
      case Nil
      then show ?thesis unfolding pcacheRemoveFromDirtyList_def Let_def s1 using as l
        by (auto simp: upd_def relink_def fun_eq_iff first_def split: list.splits)
    next
      case (Cons b bs')
      then show ?thesis unfolding pcacheRemoveFromDirtyList_def Let_def s1 using as l
        by (auto simp: upd_def relink_def fun_eq_iff first_def final_def split: list.splits)
    qed
  qed
qed

lemma erase_relink: "erase (relink as a bs h x) = erase (h x)"
  by (simp add: erase_def relink_def Let_def)

lemma remove_chain:
  assumes c: "chain s L xs" and a: "a \<in> set xs" and sy: "synced s xs {a}"
  obtains s' where "pcacheRemoveFromDirtyList a s = Some s'" "chain s' L (remove1 a xs)" "synced s' (remove1 a xs) {}" "frame s s'"
proof -
  obtain as bs where xs: "xs = as @ a # bs" "a \<notin> set as" using a by (auto dest: split_list_first)
  obtain ps us vs where ps: "(if pSynced s = Some a then synced_scan (pages s) (pDirtyPrev (pages s a)) else Some (pSynced s)) = Some ps"
    "as @ bs = us @ vs" "ps = final None us" "\<forall>v\<in>set vs. needSync (pages s v) \<or> nRef (pages s v) > 0"
    using c xs(1) sy by (rule remove_synced)
  define s' where "s' = s\<lparr>pSynced := ps, pDirtyHead := first as (first bs None), pDirtyTail := final (final None as) bs,
     pages := relink as a bs (pages s)\<rparr>"
  have r: "remove1 a xs = as @ bs" using xs by (simp add: remove1_append)
  have f: "frame s s'" by (simp add: frame_def s'_def erase_relink)
  have d: "distinct (as @ a # bs)" "set (as @ a # bs) \<subseteq> L" "links (pages s) None (as @ a # bs) None" using c xs by (auto simp: chain_def)
  have "pDirtyNext (relink as a bs (pages s) x) = None \<and> pDirtyPrev (relink as a bs (pages s) x) = None" if "x \<in> L - set (as @ bs)" for x
  proof (cases "x = a")
    case False
    then have "first bs None \<noteq> Some x" "final None as \<noteq> Some x" using that by (auto simp: first_def final_def split: list.splits if_splits)
    then show ?thesis using False that c xs by (auto simp: relink_def chain_def)
  qed (simp add: relink_def)
  then have "chain s' L (as @ bs)" using relink_links [OF d(3,1)] d by (auto simp: chain_def s'_def)
  moreover have "synced s' (as @ bs) {}"
    unfolding synced_def by (rule exI [of _ us], rule exI [of _ vs]) (use ps frameD [OF f] in \<open>auto simp: s'_def\<close>)
  ultimately show thesis using that [of s'] remove_eq [OF c [unfolded xs(1)] ps(1)] r f by (simp add: s'_def)
qed

text \<open>Linking a page in at the head.\<close>

definition enlink :: "nat \<Rightarrow> nat list \<Rightarrow> (nat \<Rightarrow> PgHdr) \<Rightarrow> nat \<Rightarrow> PgHdr" where
  "enlink a xs h x =
     (if x = a then (h a)\<lparr>pDirtyNext := first xs None\<rparr>
      else if first xs None = Some x then (h x)\<lparr>pDirtyPrev := Some a\<rparr> else h x)"

lemma erase_enlink: "erase (enlink a xs h x) = erase (h x)"
  by (simp add: erase_def enlink_def)

lemma add_eq:
  assumes "chain s L xs" "a \<in> L" "a \<notin> set xs"
  shows "pcacheAddToDirtyList a s = Some (s\<lparr>pages := enlink a xs (pages s), pDirtyHead := Some a,
     pDirtyTail := (if xs = [] then Some a else pDirtyTail s),
     pSynced := (if pSynced s = None \<and> \<not> needSync (pages s a) then Some a else pSynced s)\<rparr>)"
proof -
  have l: "pDirtyNext (pages s a) = None" "pDirtyPrev (pages s a) = None" "pDirtyHead s = first xs None" "pDirtyTail s = final None xs"
    "links (pages s) None xs None" using assms by (auto simp: chain_def)
  show ?thesis
  proof (cases xs)
    case Nil
    then show ?thesis using l
      by (auto simp: pcacheAddToDirtyList_def Let_def upd_def enlink_def fun_eq_iff needSync_def)
  next
    case (Cons b ys)
    moreover have "\<exists>z. final (Some b) ys = Some z" by (auto simp: final_def)
    ultimately show ?thesis using l assms(3)
      by (auto simp: pcacheAddToDirtyList_def Let_def upd_def enlink_def fun_eq_iff needSync_def)
  qed
qed

lemma add_chain:
  assumes c: "chain s L xs" and a: "a \<in> L" "a \<notin> set xs" and sy: "synced s xs {}"
  obtains s' where "pcacheAddToDirtyList a s = Some s'" "chain s' L (a # xs)" "synced s' (a # xs) {}" "frame s s'"
proof -
  define s' where "s' = s\<lparr>pages := enlink a xs (pages s), pDirtyHead := Some a,
     pDirtyTail := (if xs = [] then Some a else pDirtyTail s),
     pSynced := (if pSynced s = None \<and> \<not> needSync (pages s a) then Some a else pSynced s)\<rparr>"
  have f: "frame s s'" by (simp add: frame_def s'_def erase_enlink)
  have d: "distinct xs" "set xs \<subseteq> L" "links (pages s) None xs None" "pDirtyTail s = final None xs"
    "pDirtyPrev (pages s a) = None" "\<forall>x\<in>L - set xs. pDirtyNext (pages s x) = None \<and> pDirtyPrev (pages s x) = None"
    using c a by (auto simp: chain_def)
  have "links (enlink a xs (pages s)) (Some a) xs None"
  proof (rule links_set_prev [OF d(3,1)])
    show "pDirtyNext (enlink a xs (pages s) x) = pDirtyNext (pages s x)" if "x \<in> set xs" for x
      using that a(2) by (auto simp: enlink_def)
    show "pDirtyPrev (enlink a xs (pages s) x) = (if x = hd xs then Some a else pDirtyPrev (pages s x))" if "x \<in> set xs" for x
      using that a(2) by (auto simp: enlink_def first_def split: list.splits)
  qed
  moreover have "pDirtyNext (enlink a xs (pages s) x) = None \<and> pDirtyPrev (enlink a xs (pages s) x) = None" if "x \<in> L - set (a # xs)" for x
    using that d(6) by (auto simp: enlink_def first_def split: list.splits)
  ultimately have "chain s' L (a # xs)"
    using d a by (auto simp: chain_def s'_def enlink_def final_def)
  moreover have "synced s' (a # xs) {}"
  proof -
    obtain us vs where u: "xs = us @ vs" "pSynced s = final None us" "\<forall>v\<in>set vs. needSync (pages s v) \<or> nRef (pages s v) > 0"
      using sy by (auto simp: synced_def)
    show ?thesis
    proof (cases "us = [] \<and> needSync (pages s a)")
      case True
      then show ?thesis unfolding synced_def
        by (intro exI [of _ "[]"] exI [of _ "a # xs"]) (use u frameD [OF f] in \<open>auto simp: s'_def\<close>)
    next
      case False
      then have "pSynced s' = final None (a # us)" using u(2) by (auto simp: s'_def final_def)
      then show ?thesis unfolding synced_def
        by (intro exI [of _ "a # us"] exI [of _ vs]) (use u frameD [OF f] in auto)
    qed
  qed
  ultimately show thesis using that [of s'] add_eq [OF c a] f by (simp add: s'_def)
qed

section \<open>The operations keep the cache well-formed\<close>

lemma flag_values [simp]: "PGHDR_DIRTY AND PGHDR_NEED_SYNC = 0" "NOT PGHDR_DONT_WRITE AND PGHDR_NEED_SYNC = PGHDR_NEED_SYNC"
  "NOT PGHDR_DONT_WRITE AND PGHDR_DIRTY = PGHDR_DIRTY" "NOT PGHDR_DIRTY AND (NOT PGHDR_NEED_SYNC AND PGHDR_DIRTY) = 0"
  "NOT PGHDR_DIRTY AND (NOT PGHDR_NEED_SYNC AND PGHDR_NEED_SYNC) = 0" "PGHDR_DIRTY \<noteq> 0"
  by (simp_all add: PGHDR_DIRTY_def PGHDR_NEED_SYNC_def PGHDR_DONT_WRITE_def)

lemma flag_updates [simp]:
  "dirty (p\<lparr>flags := flags p OR PGHDR_DIRTY\<rparr>)"
  "needSync (p\<lparr>flags := flags p OR PGHDR_DIRTY\<rparr>) = needSync p"
  "dirty (p\<lparr>flags := flags p AND NOT PGHDR_DONT_WRITE\<rparr>) = dirty p"
  "needSync (p\<lparr>flags := flags p AND NOT PGHDR_DONT_WRITE\<rparr>) = needSync p"
  "\<not> dirty (p\<lparr>flags := flags p AND NOT PGHDR_DIRTY AND NOT PGHDR_NEED_SYNC\<rparr>)"
  "\<not> needSync (p\<lparr>flags := flags p AND NOT PGHDR_DIRTY AND NOT PGHDR_NEED_SYNC\<rparr>)"
  "dirty (p\<lparr>nRef := r\<rparr>) = dirty p" "needSync (p\<lparr>nRef := r\<rparr>) = needSync p"
  "dirty (p\<lparr>pgno := n\<rparr>) = dirty p" "needSync (p\<lparr>pgno := n\<rparr>) = needSync p"
  by (simp_all add: dirty_def needSync_def and.assoc bit.conj_disj_distrib2)

text \<open>An update of a page that leaves the pointers alone keeps the chain.\<close>

lemma upd_sel [simp]:
  "pages (upd a f s) x = (if x = a then f (pages s a) else pages s x)"
  "pDirtyHead (upd a f s) = pDirtyHead s" "pDirtyTail (upd a f s) = pDirtyTail s" "pSynced (upd a f s) = pSynced s"
  "nRefSum (upd a f s) = nRefSum s" "Purgeable (upd a f s) = Purgeable s" "pCache (upd a f s) = pCache s" "pPage1 (upd a f s) = pPage1 s"
  by (simp_all add: upd_def)

lemma chain_upd:
  assumes "chain s L xs" "pDirtyNext (f (pages s a)) = pDirtyNext (pages s a)" "pDirtyPrev (f (pages s a)) = pDirtyPrev (pages s a)"
  shows "chain (upd a f s) L xs"
proof -
  have "links (pages (upd a f s)) None xs None = links (pages s) None xs None"
    using assms(2,3) by (intro links_cong) simp
  then show ?thesis using assms by (auto simp: chain_def)
qed

lemma synced_upd:
  assumes "synced s xs E" "a \<in> set xs \<Longrightarrow> a \<notin> E \<Longrightarrow> (needSync (pages s a) \<or> nRef (pages s a) > 0) \<Longrightarrow> needSync (f (pages s a)) \<or> nRef (f (pages s a)) > 0"
  shows "synced (upd a f s) xs E"
proof -
  obtain us vs where u: "xs = us @ vs" "pSynced s = final None us" "\<forall>v\<in>set vs - E. needSync (pages s v) \<or> nRef (pages s v) > 0"
    using assms(1) unfolding synced_def by blast
  then have "\<forall>v\<in>set vs - E. needSync (pages (upd a f s) v) \<or> nRef (pages (upd a f s) v) > 0" using assms(2) by auto
  then show ?thesis using u unfolding synced_def by (metis upd_sel(4))
qed

lemma synced_mono: "synced s xs E \<Longrightarrow> E \<subseteq> E' \<Longrightarrow> synced s xs E'"
  unfolding synced_def by blast

lemma chain_fields:
  "chain (s\<lparr>nRefSum := n\<rparr>) L xs = chain s L xs" "chain (s\<lparr>pCache := c\<rparr>) L xs = chain s L xs" "chain (s\<lparr>pPage1 := q\<rparr>) L xs = chain s L xs"
  "synced (s\<lparr>nRefSum := n\<rparr>) xs E = synced s xs E" "synced (s\<lparr>pCache := c\<rparr>) xs E = synced s xs E" "synced (s\<lparr>pPage1 := q\<rparr>) xs E = synced s xs E"
  by (simp_all add: chain_def synced_def)

lemma unpin_ok:
  assumes "pCache s \<noteq> None"
  obtains c p1 where "pcacheUnpin m a s = Some (s\<lparr>pCache := Some c, pPage1 := p1\<rparr>)"
proof (cases "Purgeable s")
  case True
  then show thesis using assms that [of "if pgno (pages s a) = 1 then None else pPage1 s" "xUnpin m (the (pCache s)) a False"]
    by (auto simp: pcacheUnpin_def)
next
  case False
  obtain c where "pCache s = Some c" using assms by blast
  then have "s\<lparr>pCache := Some c, pPage1 := pPage1 s\<rparr> = s" by simp
  then show thesis using False that [of "pPage1 s" c] by (simp add: pcacheUnpin_def)
qed

text \<open>Moving a page to the head of the list.\<close>

lemma remove_add_chain:
  assumes c: "chain s L xs" and a: "a \<in> set xs" and sy: "synced s xs {a}"
  obtains s' where "do { s \<leftarrow> pcacheRemoveFromDirtyList a s; pcacheAddToDirtyList a s } = Some s'"
    "chain s' L (a # remove1 a xs)" "synced s' (a # remove1 a xs) {}" "frame s s'"
proof -
  obtain s1 where s1: "pcacheRemoveFromDirtyList a s = Some s1" "chain s1 L (remove1 a xs)" "synced s1 (remove1 a xs) {}" "frame s s1"
    using c a sy by (rule remove_chain)
  have "a \<in> L" "a \<notin> set (remove1 a xs)" using c a by (auto simp: chain_def)
  then obtain s2 where "pcacheAddToDirtyList a s1 = Some s2" "chain s2 L (a # remove1 a xs)" "synced s2 (a # remove1 a xs) {}" "frame s1 s2"
    using add_chain [OF s1(2) _ _ s1(3)] by blast
  then show thesis using that [of s2] s1 frame_trans by auto
qed

section \<open>Refinement\<close>

text \<open>
  The abstract cache: the live pages, the dirty ones in order of use, most recent first, reference
  counts, and which pages wait for a sync of the journal. An operation that the caller may not use
  is None.
\<close>

record acache =
  live :: "nat set"
  order :: "nat list"
  refs :: "nat \<Rightarrow> int"
  sync :: "nat \<Rightarrow> bool"

datatype page_op = Release nat | Ref nat | Drop nat | MakeDirty nat | MakeClean nat | Move nat nat

definition to_front :: "nat \<Rightarrow> nat list \<Rightarrow> nat list" where
  "to_front a xs = (if a \<in> set xs then a # remove1 a xs else xs)"

fun astep :: "page_op \<Rightarrow> acache \<Rightarrow> acache option" where
  "astep (Release a) A =
     (if a \<in> live A \<and> refs A a > 0
      then Some (A\<lparr>refs := (refs A)(a := refs A a - 1), order := if refs A a = 1 then to_front a (order A) else order A\<rparr>) else None)"
| "astep (Ref a) A =
     (if a \<in> live A \<and> refs A a > 0 then Some (A\<lparr>refs := (refs A)(a := refs A a + 1)\<rparr>) else None)"
| "astep (Drop a) A = (if a \<in> live A \<and> refs A a = 1 then Some (A\<lparr>live := live A - {a}, order := remove1 a (order A)\<rparr>) else None)"
| "astep (MakeDirty a) A =
     (if a \<in> live A \<and> refs A a > 0 then Some (A\<lparr>order := if a \<in> set (order A) then order A else a # order A\<rparr>) else None)"
| "astep (MakeClean a) A =
     (if a \<in> live A then
        Some (if a \<in> set (order A) then A\<lparr>order := remove1 a (order A), sync := (sync A)(a := False)\<rparr> else A) else None)"
| "astep (Move a n) A =
     (if a \<in> live A \<and> refs A a > 0 \<and> n > 0 then Some (A\<lparr>order := if sync A a then to_front a (order A) else order A\<rparr>) else None)"

fun pstep :: "'c pcache_methods2 \<Rightarrow> page_op \<Rightarrow> 'c PCache \<Rightarrow> 'c PCache option" where
  "pstep m (Release a) s = CacheRelease m a s"
| "pstep m (Ref a) s = sqlite3PcacheRef a s"
| "pstep m (Drop a) s = sqlite3PcacheDrop m a s"
| "pstep m (MakeDirty a) s = sqlite3PcacheMakeDirty a s"
| "pstep m (MakeClean a) s = sqlite3PcacheMakeClean m a s"
| "pstep m (Move a n) s = sqlite3PcacheMove m a n s"

fun arun :: "page_op list \<Rightarrow> acache \<Rightarrow> acache option" where
  "arun [] A = Some A"
| "arun (op # ops) A = do { A \<leftarrow> astep op A; arun ops A }"

fun prun :: "'c pcache_methods2 \<Rightarrow> page_op list \<Rightarrow> 'c PCache \<Rightarrow> 'c PCache option" where
  "prun m [] s = Some s"
| "prun m (op # ops) s = do { s \<leftarrow> pstep m op s; prun m ops s }"

definition refines :: "'c PCache \<Rightarrow> acache \<Rightarrow> bool" where
  "refines s A \<longleftrightarrow> wf_cache s (live A) (order A)
     \<and> (\<forall>a\<in>live A. nRef (pages s a) = refs A a \<and> needSync (pages s a) = sync A a)"

lemma refinesI:
  assumes "chain s (live A) (order A)" "synced s (order A) {}" "pCache s \<noteq> None"
    and "\<And>a. a \<in> live A \<Longrightarrow> (dirty (pages s a) \<longleftrightarrow> a \<in> set (order A)) \<and> nRef (pages s a) = refs A a \<and> needSync (pages s a) = sync A a"
  shows "refines s A"
  using assms by (auto simp: refines_def wf_cache_def)

lemma refinesD:
  assumes "refines s A"
  shows "chain s (live A) (order A)" "synced s (order A) {}" "pCache s \<noteq> None"
    and "a \<in> live A \<Longrightarrow> dirty (pages s a) \<longleftrightarrow> a \<in> set (order A)" "a \<in> live A \<Longrightarrow> nRef (pages s a) = refs A a"
    and "a \<in> live A \<Longrightarrow> needSync (pages s a) = sync A a"
  using assms by (auto simp: refines_def wf_cache_def)

lemma refines_unpin: "refines (s\<lparr>pCache := Some c, pPage1 := q\<rparr>) A = refines s A \<or> pCache s = None"
  by (auto simp: refines_def wf_cache_def chain_fields)

lemma chain_distinct: "chain s L xs \<Longrightarrow> distinct xs" "chain s L xs \<Longrightarrow> set xs \<subseteq> L"
  by (auto simp: chain_def)

lemma release_refines:
  assumes R: "refines s A" and st: "astep (Release a) A = Some A'"
  shows "\<exists>s'. CacheRelease m a s = Some s' \<and> refines s' A'"
proof -
  note d = refinesD [OF R]
  have a: "a \<in> live A" "refs A a > 0" and A': "A' = A\<lparr>refs := (refs A)(a := refs A a - 1), order := if refs A a = 1 then to_front a (order A) else order A\<rparr>"
    using st by (auto split: if_splits)
  define s1 where "s1 = upd a (\<lambda>x. x\<lparr>nRef := nRef x - 1\<rparr>) s"
  have c1: "chain s1 (live A) (order A)" unfolding s1_def using d(1) by (rule chain_upd) simp_all
  have p1: "nRef (pages s1 a) = refs A a - 1" "pCache s1 = pCache s" using d(5) a by (simp_all add: s1_def)
  have q1: "(dirty (pages s1 x) \<longleftrightarrow> x \<in> set (order A)) \<and> nRef (pages s1 x) = ((refs A)(a := refs A a - 1)) x \<and> needSync (pages s1 x) = sync A x"
    if "x \<in> live A" for x using that d(4-6) by (auto simp: s1_def)
  show ?thesis
  proof (cases "refs A a = 1")
    case False
    have "synced s1 (order A) {}" unfolding s1_def using d(2)
      by (rule synced_upd) (use False a d(5) in auto)
    then have "refines s1 A'" using c1 q1 d(3) p1 False by (intro refinesI) (auto simp: A')
    then show ?thesis using False a d(5) p1 by (auto simp: CacheRelease_def Let_def s1_def)
  next
    case one: True
    define s2 where "s2 = s1\<lparr>nRefSum := nRefSum s1 - 1\<rparr>"
    have c2: "chain s2 (live A) (order A)" using c1 by (simp add: s2_def chain_fields)
    have r: "CacheRelease m a s = (if \<not> dirty (pages s2 a) then pcacheUnpin m a s2
        else do { s \<leftarrow> pcacheRemoveFromDirtyList a s2; pcacheAddToDirtyList a s })"
      using a d(5) p1 one by (simp add: CacheRelease_def Let_def s1_def s2_def)
    have "synced s1 (order A) {a}" unfolding s1_def using synced_mono [OF d(2)] by (rule synced_upd) auto
    then have y2: "synced s2 (order A) {a}" by (simp add: s2_def chain_fields)
    show ?thesis
    proof (cases "a \<in> set (order A)")
      case True
      obtain s3 where s3: "do { s \<leftarrow> pcacheRemoveFromDirtyList a s2; pcacheAddToDirtyList a s } = Some s3"
        "chain s3 (live A) (a # remove1 a (order A))" "synced s3 (a # remove1 a (order A)) {}" "frame s2 s3"
        using c2 True y2 by (rule remove_add_chain)
      have "refines s3 A'"
        by (rule refinesI)
          (use s3 frameD [OF s3(4)] q1 d(3) p1 one True chain_distinct [OF c2] in \<open>auto simp: A' to_front_def s2_def\<close>)
      then show ?thesis using r s3(1) q1 a True by (auto simp: s2_def)
    next
      case False
      obtain c p where u: "pcacheUnpin m a s2 = Some (s2\<lparr>pCache := Some c, pPage1 := p\<rparr>)"
      proof -
        have "pCache s2 \<noteq> None" using d(3) p1 by (simp add: s2_def)
        then show thesis by (rule unpin_ok [of s2 m a]) (rule that)
      qed
      have "synced s2 (order A) {}" using y2 False unfolding synced_def by (metis Diff_empty Diff_insert0 Un_iff set_append)
      then have "refines s2 A'" using c2 q1 d(3) p1 one False by (intro refinesI) (auto simp: A' to_front_def s2_def)
      then have "refines (s2\<lparr>pCache := Some c, pPage1 := p\<rparr>) A'" using refines_unpin [where s = s2 and c = c and q = p and A = A'] by (auto simp: refines_def wf_cache_def)
      then show ?thesis using r u q1 a False by (auto simp: s2_def)
    qed
  qed
qed

lemma drop_refines:
  assumes R: "refines s A" and st: "astep (Drop a) A = Some A'"
  shows "\<exists>s'. sqlite3PcacheDrop m a s = Some s' \<and> refines s' A'"
proof -
  note d = refinesD [OF R]
  have a: "a \<in> live A" "refs A a = 1" and A': "A' = A\<lparr>live := live A - {a}, order := remove1 a (order A)\<rparr>"
    using st by (auto split: if_splits)
  obtain s1 where s1: "(if dirty (pages s a) then pcacheRemoveFromDirtyList a s else Some s) = Some s1"
    "chain s1 (live A) (remove1 a (order A))" "synced s1 (remove1 a (order A)) {}" "frame s s1"
  proof (cases "dirty (pages s a)")
    case True
    then show thesis using that remove_chain [OF d(1) _ synced_mono [OF d(2)]] d(4) a by auto
  next
    case False
    then show thesis using that [of s] d a frame_refl [of s] by (simp add: remove1_idem)
  qed
  obtain c where c: "pCache s1 = Some c" using d(3) frameD(8) [OF s1(4)] by auto
  define s2 where "s2 = (if pgno (pages s1 a) = 1 then s1\<lparr>nRefSum := nRefSum s1 - 1, pPage1 := None\<rparr> else s1\<lparr>nRefSum := nRefSum s1 - 1\<rparr>)\<lparr>pCache := Some (xUnpin m c a True)\<rparr>"
  have "sqlite3PcacheDrop m a s = Some s2"
    using a d(5) s1(1) c by (simp add: sqlite3PcacheDrop_def s2_def)
  moreover have "chain s2 (live A - {a}) (remove1 a (order A))" "synced s2 (remove1 a (order A)) {}"
    using s1(2,3) chain_distinct [OF d(1)] by (auto simp: s2_def chain_fields chain_def synced_def)
  then have "refines s2 A'"
    by (intro refinesI) (use d(4-6) frameD [OF s1(4)] in \<open>auto simp: A' s2_def in_set_remove1\<close>)
  ultimately show ?thesis by blast
qed

lemma make_dirty_refines:
  assumes R: "refines s A" and st: "astep (MakeDirty a) A = Some A'"
  shows "\<exists>s'. sqlite3PcacheMakeDirty a s = Some s' \<and> refines s' A'"
proof -
  note d = refinesD [OF R]
  have a: "a \<in> live A" "refs A a > 0" and A': "A' = A\<lparr>order := if a \<in> set (order A) then order A else a # order A\<rparr>"
    using st by (auto split: if_splits)
  define s1 where "s1 = upd a (\<lambda>x. x\<lparr>flags := flags x AND NOT PGHDR_DONT_WRITE\<rparr>) s"
  have c1: "chain s1 (live A) (order A)" unfolding s1_def using d(1) by (rule chain_upd) simp_all
  have y1: "synced s1 (order A) {}" unfolding s1_def using d(2) by (rule synced_upd) simp
  have q1: "(dirty (pages s1 x) \<longleftrightarrow> x \<in> set (order A)) \<and> nRef (pages s1 x) = refs A x \<and> needSync (pages s1 x) = sync A x"
    if "x \<in> live A" for x using that d(4-6) by (auto simp: s1_def)
  have p1: "pCache s1 \<noteq> None" using d(3) by (simp add: s1_def)
  show ?thesis
  proof (cases "a \<in> set (order A)")
    case True
    then have "refines s1 A'" using c1 y1 q1 p1 by (intro refinesI) (auto simp: A')
    then show ?thesis using True q1 a by (auto simp: sqlite3PcacheMakeDirty_def Let_def s1_def [symmetric])
  next
    case False
    define s2 where "s2 = upd a (\<lambda>x. x\<lparr>flags := flags x OR PGHDR_DIRTY\<rparr>) s1"
    have c2: "chain s2 (live A) (order A)" unfolding s2_def using c1 by (rule chain_upd) simp_all
    have y2: "synced s2 (order A) {}" unfolding s2_def using y1 by (rule synced_upd) simp
    obtain s3 where s3: "pcacheAddToDirtyList a s2 = Some s3" "chain s3 (live A) (a # order A)" "synced s3 (a # order A) {}" "frame s2 s3"
      using c2 a(1) False y2 by (rule add_chain)
    have "refines s3 A'"
      by (intro refinesI) (use s3(2,3) frameD [OF s3(4)] q1 p1 False a in \<open>auto simp: A' s2_def\<close>)
    then show ?thesis using False q1 a s3(1) by (auto simp: sqlite3PcacheMakeDirty_def Let_def s1_def [symmetric] s2_def [symmetric])
  qed
qed

lemma make_clean_refines:
  assumes R: "refines s A" and st: "astep (MakeClean a) A = Some A'"
  shows "\<exists>s'. sqlite3PcacheMakeClean m a s = Some s' \<and> refines s' A'"
proof -
  note d = refinesD [OF R]
  have a: "a \<in> live A" and A': "A' = (if a \<in> set (order A) then A\<lparr>order := remove1 a (order A), sync := (sync A)(a := False)\<rparr> else A)"
    using st by (auto split: if_splits)
  show ?thesis
  proof (cases "a \<in> set (order A)")
    case True
    obtain s1 where s1: "pcacheRemoveFromDirtyList a s = Some s1" "chain s1 (live A) (remove1 a (order A))" "synced s1 (remove1 a (order A)) {}" "frame s s1"
      using d(1) True synced_mono [OF d(2)] by (rule remove_chain) auto
    define s2 where "s2 = upd a (\<lambda>x. x\<lparr>flags := flags x AND NOT (PGHDR_DIRTY OR PGHDR_NEED_SYNC)\<rparr>) s1"
    have c2: "chain s2 (live A) (remove1 a (order A))" unfolding s2_def using s1(2) by (rule chain_upd) simp_all
    have n: "a \<notin> set (remove1 a (order A))" using chain_distinct [OF d(1)] by simp
    have y2: "synced s2 (remove1 a (order A)) {}" unfolding s2_def using s1(3) by (rule synced_upd) (use n in simp)
    have p2: "pCache s2 \<noteq> None" using d(3) frameD [OF s1(4)] by (simp add: s2_def)
    have f2: "\<not> dirty (pages s2 a)" "\<not> needSync (pages s2 a)" "nRef (pages s2 a) = nRef (pages s1 a)" "x \<noteq> a \<Longrightarrow> pages s2 x = pages s1 x" for x
      by (simp_all add: s2_def)
    have "(dirty (pages s2 x) \<longleftrightarrow> x \<in> set (remove1 a (order A))) \<and> nRef (pages s2 x) = refs A x \<and> needSync (pages s2 x) = ((sync A)(a := False)) x"
      if "x \<in> live A" for x
      using that f2 d(4-6) frameD [OF s1(4)] chain_distinct(1) [OF d(1)] by (cases "x = a") auto
    then have r: "refines s2 A'"
      by (intro refinesI) (use c2 y2 p2 True in \<open>auto simp: A'\<close>)
    obtain c p where u: "pcacheUnpin m a s2 = Some (s2\<lparr>pCache := Some c, pPage1 := p\<rparr>)" using unpin_ok [OF p2] by blast
    have "refines (s2\<lparr>pCache := Some c, pPage1 := p\<rparr>) A'" using refines_unpin [where s = s2 and c = c and q = p and A = A'] r p2 by auto
    moreover have "sqlite3PcacheMakeClean m a s = (if nRef (pages s2 a) = 0 then pcacheUnpin m a s2 else Some s2)"
      using True d(4) a s1(1) by (simp add: sqlite3PcacheMakeClean_def Let_def s2_def)
    ultimately show ?thesis using r u by (cases "nRef (pages s2 a) = 0") auto
  next
    case False
    then show ?thesis using R d(4) a by (auto simp: sqlite3PcacheMakeClean_def A')
  qed
qed

lemma move_refines:
  assumes R: "refines s A" and st: "astep (Move a n) A = Some A'"
  shows "\<exists>s'. sqlite3PcacheMove m a n s = Some s' \<and> refines s' A'"
proof -
  note d = refinesD [OF R]
  have a: "a \<in> live A" "refs A a > 0" "n > 0" and A': "A' = A\<lparr>order := if sync A a then to_front a (order A) else order A\<rparr>"
    using st by (auto split: if_splits)
  obtain c where c: "pCache s = Some c" using d(3) by blast
  define s1 where "s1 = upd a (\<lambda>x. x\<lparr>pgno := n\<rparr>) (s\<lparr>pCache := Some (xRekey m c a (pgno (pages s a)) n)\<rparr>)"
  have c1: "chain s1 (live A) (order A)" unfolding s1_def by (rule chain_upd) (use d(1) in \<open>simp_all add: chain_fields\<close>)
  have y1: "synced s1 (order A) {}" unfolding s1_def by (rule synced_upd) (use d(2) in \<open>simp_all add: chain_fields\<close>)
  have q1: "(dirty (pages s1 x) \<longleftrightarrow> x \<in> set (order A)) \<and> nRef (pages s1 x) = refs A x \<and> needSync (pages s1 x) = sync A x"
    if "x \<in> live A" for x using that d(4-6) by (auto simp: s1_def)
  have m: "sqlite3PcacheMove m a n s = (if dirty (pages s1 a) \<and> needSync (pages s1 a)
      then do { s \<leftarrow> pcacheRemoveFromDirtyList a s1; pcacheAddToDirtyList a s } else Some s1)"
    using a c d(5) by (simp add: sqlite3PcacheMove_def Let_def s1_def)
  show ?thesis
  proof (cases "a \<in> set (order A) \<and> sync A a")
    case True
    obtain s3 where s3: "do { s \<leftarrow> pcacheRemoveFromDirtyList a s1; pcacheAddToDirtyList a s } = Some s3"
      "chain s3 (live A) (a # remove1 a (order A))" "synced s3 (a # remove1 a (order A)) {}" "frame s1 s3"
      using c1 conjunct1 [OF True] synced_mono [OF y1] by (rule remove_add_chain) auto
    have "refines s3 A'"
      by (intro refinesI) (use s3(2,3) frameD [OF s3(4)] q1 True chain_distinct [OF c1] in \<open>auto simp: A' to_front_def s1_def\<close>)
    then show ?thesis using m s3(1) True q1 a by auto
  next
    case False
    then have "refines s1 A'" by (intro refinesI) (use c1 y1 q1 in \<open>auto simp: A' to_front_def s1_def\<close>)
    then show ?thesis using m False q1 a by auto
  qed
qed

lemma pstep_refines:
  assumes "refines s A" "astep op A = Some A'" "\<forall>a. op \<noteq> Ref a"
  shows "\<exists>s'. pstep m op s = Some s' \<and> refines s' A'"
  using assms release_refines drop_refines make_dirty_refines make_clean_refines move_refines by (cases op) auto

text \<open>
  \<open>sqlite3PcacheRef\<close> is not part of the refinement: it loses the reference, and the cache it leaves never
  refines what the operation promises.
\<close>

lemma pcache_ref_lost:
  assumes "refines s A" "astep (Ref a) A = Some A'"
  shows "pstep m (Ref a) s = Some s" "\<not> refines s A'"
  using assms refinesD(5) [OF assms(1), of a] refinesD(5) [of s A' a]
  by (auto simp: sqlite3PcacheRef_def split: if_splits)

text \<open>A cache with two dirty pages, the page at 1 not in use.\<close>

definition ex_cache :: "unit PCache" where
  "ex_cache = \<lparr>pDirtyHead = Some 2, pDirtyTail = Some 1, pSynced = Some 1, nRefSum = 1, size = 100, PageSize = 1024, ExtraBytes = 8,
     Purgeable = True, pCache = Some (), pPage1 = None,
     pages = (\<lambda>a. \<lparr>hasPage = True, owned = True, pgno = 9 - a, flags = PGHDR_DIRTY, nRef = if a = 2 then 1 else 0, pDirty = None,
       pDirtyNext = if a = 2 then Some 1 else None, pDirtyPrev = if a = 1 then Some 2 else None\<rparr>)\<rparr>"

definition ex_abs :: acache where
  "ex_abs = \<lparr>live = {1, 2}, order = [2, 1], refs = (\<lambda>a. if a = 2 then 1 else 0), sync = (\<lambda>_. False)\<rparr>"

definition ex_methods :: "unit pcache_methods2" where
  "ex_methods = \<lparr>xCreate = \<lambda>_ _ _. Some (), xCachesize = \<lambda>_ _. (), xPagecount = \<lambda>_. 0, xFetch = \<lambda>_ _ _. ((), None),
     xUnpin = \<lambda>_ _ _. (), xRekey = \<lambda>_ _ _ _. (), xShrink = \<lambda>_. ()\<rparr>"

lemma ex_refines: "refines ex_cache ex_abs"
proof (rule refinesI)
  show "synced ex_cache (order ex_abs) {}"
    unfolding synced_def by (rule exI [of _ "[2, 1]"], rule exI [of _ "[]"]) (simp add: ex_cache_def ex_abs_def)
qed (auto simp: chain_def ex_cache_def ex_abs_def dirty_def needSync_def)

text \<open>
  C15. The page cache refines its abstract description under any sequence of releases, drops, changes of
  page number and changes between dirty and clean: no assertion of these operations fails as long as the
  caller holds the references it must hold, the doubly linked list of dirty pages (both directions,
  head and tail) is the list of dirty pages in order of use, and every page behind \<open>pSynced\<close> is in use
  or waits for a sync. Outside of it are \<open>sqlite3PcacheRef\<close>, which does not count the reference it is
  to add, and \<open>Fetch\<close>, whose assertions fail on a fresh header.\<close>

theorem pcache_refines:
  assumes "refines s A" "arun ops A = Some A'" "\<forall>a. Ref a \<notin> set ops"
  shows "\<exists>s'. prun m ops s = Some s' \<and> refines s' A'"
  using assms
proof (induction ops arbitrary: s A)
  case (Cons op ops)
  then obtain A1 where A1: "astep op A = Some A1" "arun ops A1 = Some A'" by (auto simp: bind_eq_Some_conv)
  moreover have "\<forall>a. op \<noteq> Ref a" "\<forall>a. Ref a \<notin> set ops" using Cons.prems(3) by auto
  ultimately obtain s1 where "pstep m op s = Some s1" "refines s1 A1" using pstep_refines Cons.prems(1) by blast
  then show ?case using Cons.IH A1(2) \<open>\<forall>a. Ref a \<notin> set ops\<close> by auto
qed simp

theorem pcache_refines_witness:
  "refines ex_cache ex_abs \<and> (\<exists>A'. arun [Release 2, Move 1 0, MakeClean 1] ex_abs = None \<and> arun [Release 2, MakeClean 1] ex_abs = Some A' \<and>
     (\<exists>s'. prun ex_methods [Release 2, MakeClean 1] ex_cache = Some s' \<and> refines s' A'))"
  using pcache_refines [OF ex_refines, of "[Release 2, MakeClean 1]" _ ex_methods] ex_refines
  by (auto simp: ex_abs_def to_front_def)

section \<open>The sorted list\<close>

definition by_pgno :: "(nat \<Rightarrow> PgHdr) \<Rightarrow> nat list \<Rightarrow> bool" where
  "by_pgno h xs \<longleftrightarrow> sorted (map (\<lambda>a. pgno (h a)) xs)"

lemma by_pgno_simps [simp]: "by_pgno h []" "by_pgno h [x]"
  by (simp_all add: by_pgno_def)

lemma mset_merge [simp]: "mset (pcacheMergeDirtyList h xs ys) = mset xs + mset ys"
  by (induction h xs ys rule: pcacheMergeDirtyList.induct) auto

lemma set_merge [simp]: "set (pcacheMergeDirtyList h xs ys) = set xs \<union> set ys"
  by (metis mset_merge set_mset_mset set_mset_union)

lemma merge_by_pgno: "by_pgno h xs \<Longrightarrow> by_pgno h ys \<Longrightarrow> by_pgno h (pcacheMergeDirtyList h xs ys)"
  by (induction h xs ys rule: pcacheMergeDirtyList.induct) (auto simp: by_pgno_def)

interpretation pc: bucket_merge "(+)" "{#}" "pcacheMergeDirtyList h" "by_pgno h" mset for h
proof unfold_locales
  fix xs ys :: "nat list"
  assume "ys \<noteq> []"
  then show "pcacheMergeDirtyList h xs ys \<noteq> []" by (metis mset_merge mset_zero_iff_right union_eq_empty)
qed (auto simp: merge_by_pgno)

lemma sort_loop:
  "\<forall>b\<in>set a. by_pgno h b \<Longrightarrow> by_pgno h ov \<Longrightarrow> pcacheSortDirtyList_loop h a ov xs = (a', ov') \<Longrightarrow>
     (\<forall>b\<in>set a'. by_pgno h b) \<and> by_pgno h ov' \<and> length a' = length a \<and> pc.total a' + mset ov' = pc.total a + mset ov + mset xs"
proof (induction xs arbitrary: a ov)
  case (Cons x xs)
  obtain a1 q where c: "carry (pcacheMergeDirtyList h) a [x] = (a1, q)" by fastforce
  have x: "by_pgno h [x]" by simp
  have ok: "\<forall>b\<in>set a1. by_pgno h b" "by_pgno h q" using pc.carry_ok [OF Cons.prems(1) x] c by auto
  have t: "pc.total a1 + mset q = pc.total a + {#x#}" using pc.carry_total [OF Cons.prems(1) x] c by simp
  let ?ov = "if q = [] then ov else pcacheMergeDirtyList h ov q"
  have "by_pgno h ?ov" using ok Cons.prems(2) merge_by_pgno by auto
  moreover have "pcacheSortDirtyList_loop h a1 ?ov xs = (a', ov')" using Cons.prems(3) c by simp
  ultimately have "(\<forall>b\<in>set a'. by_pgno h b) \<and> by_pgno h ov' \<and> length a' = length a1 \<and> pc.total a' + mset ov' = pc.total a1 + mset ?ov + mset xs"
    using ok(1) by (intro Cons.IH)
  moreover have "mset ?ov = mset ov + mset q" by simp
  moreover have "length a1 = length a" using length_carry [of "pcacheMergeDirtyList h" a "[x]"] c by simp
  ultimately show ?case using t by (simp add: ac_simps)
qed simp

lemma sort_dirty: "mset (pcacheSortDirtyList h xs) = mset xs \<and> by_pgno h (pcacheSortDirtyList h xs)"
proof -
  define e where "e = (replicate (N_SORT_BUCKET - 1) [] :: nat list list)"
  obtain a ov where l: "pcacheSortDirtyList_loop h e [] xs = (a, ov)" by fastforce
  have "\<forall>b\<in>set e. by_pgno h b" "by_pgno h []" by (auto simp: e_def by_pgno_def)
  from sort_loop [OF this l] have a: "\<forall>b\<in>set a. by_pgno h b" "by_pgno h ov" "length a = 31" "pc.total a + mset ov = mset xs"
    by (auto simp: e_def N_SORT_BUCKET_def)
  define bs where "bs = a @ [ov]"
  have bs: "bs = hd bs # tl bs" "\<forall>b\<in>set bs. by_pgno h b" using a by (auto simp: bs_def)
  have "pc.total (a @ [ov]) = pc.total a + mset ov" by (induction a) (simp_all add: ac_simps)
  then have "pc.total bs = mset xs" using a(4) by (simp add: bs_def)
  then have t: "mset (hd bs) + pc.total (tl bs) = mset xs" using pc.total_simps(2) [of "hd bs" "tl bs"] bs(1) by simp
  have o: "\<forall>b\<in>set (tl bs). by_pgno h b" "by_pgno h (hd bs)" using bs by (metis list.set_intros)+
  have "pcacheSortDirtyList h xs = fold (\<lambda>b p. pcacheMergeDirtyList h p b) (tl bs) (hd bs)"
    using l by (simp add: pcacheSortDirtyList_def e_def bs_def Let_def)
  then show ?thesis using pc.fold_merge [OF o] t by simp
qed

lemma dirty_walk_links: "links h p xs None \<Longrightarrow> dirty_walk h (first xs None) = Some xs"
proof (induction xs arbitrary: p)
  case Nil
  then show ?case by (subst dirty_walk.simps) simp
next
  case (Cons x xs)
  then have "dirty_walk h (first xs None) = Some xs" by (intro Cons.IH [of "Some x"]) simp
  then show ?case using Cons.prems by (subst dirty_walk.simps) simp
qed

text \<open>
  C36. On a well-formed cache \<open>DirtyList\<close> returns the dirty pages, each once, in ascending order of
  their page numbers, whatever their number (the last bucket of the sort takes the overflow).\<close>

theorem dirty_list_sorted:
  assumes "wf_cache s L xs"
  shows "\<exists>ys. DirtyList s = Some ys \<and> mset ys = mset xs \<and> distinct ys \<and> sorted (map (\<lambda>a. pgno (pages s a)) ys)
    \<and> set ys = {a\<in>L. dirty (pages s a)}"
proof -
  have c: "chain s L xs" and d: "\<forall>a\<in>L. dirty (pages s a) \<longleftrightarrow> a \<in> set xs" using assms by (auto simp: wf_cache_def)
  have "DirtyList s = Some (pcacheSortDirtyList (pages s) xs)"
    using c dirty_walk_links [of "pages s" None xs] by (simp add: DirtyList_def chain_def)
  moreover have m: "mset (pcacheSortDirtyList (pages s) xs) = mset xs" using sort_dirty by blast
  moreover have "set (pcacheSortDirtyList (pages s) xs) = set xs" "distinct (pcacheSortDirtyList (pages s) xs)"
    using m c by (metis set_mset_mset, metis chain_distinct(1) mset_eq_imp_distinct_iff)
  moreover have "set xs = {a\<in>L. dirty (pages s a)}" using d chain_distinct(2) [OF c] by auto
  ultimately show ?thesis using sort_dirty [of "pages s" xs] by (auto simp: by_pgno_def)
qed

theorem dirty_list_sorted_witness:
  "wf_cache ex_cache {1, 2} [2, 1] \<and>
   (\<exists>ys. DirtyList ex_cache = Some ys \<and> mset ys = mset [2, 1] \<and> distinct ys \<and> sorted (map (\<lambda>a. pgno (pages ex_cache a)) ys)
    \<and> set ys = {a\<in>{1, 2}. dirty (pages ex_cache a)})"
proof -
  have "wf_cache ex_cache {1, 2} [2, 1]" using ex_refines by (simp add: refines_def ex_abs_def)
  then show ?thesis using dirty_list_sorted by blast
qed

section \<open>Cleaning all pages\<close>

text \<open>
  C37. \<open>CleanAll\<close> ends on every well-formed cache and leaves no dirty page and an empty list; the live
  pages and their reference counts are unchanged.\<close>

theorem clean_all_terminates:
  assumes "refines s A"
  shows "\<exists>s' A'. CleanAll m s = Some s' \<and> refines s' A' \<and> order A' = [] \<and> live A' = live A \<and> refs A' = refs A \<and> pDirtyHead s' = None"
  using assms
proof (induction "length (order A)" arbitrary: s A)
  case 0
  then have "pDirtyHead s = None" using refinesD(1) [OF 0(2)] by (simp add: chain_def)
  then show ?case using 0 by (subst CleanAll.simps) auto
next
  case (Suc n)
  then obtain a xs where o: "order A = a # xs" by (cases "order A") auto
  have h: "pDirtyHead s = Some a" "a \<in> live A" using refinesD(1) [OF Suc(3)] o by (auto simp: chain_def)
  define A1 where "A1 = A\<lparr>order := xs, sync := (sync A)(a := False)\<rparr>"
  have "astep (MakeClean a) A = Some A1" using h o by (simp add: A1_def)
  then obtain s1 where s1: "sqlite3PcacheMakeClean m a s = Some s1" "refines s1 A1" using make_clean_refines [OF Suc(3)] by blast
  have "n = length (order A1)" using Suc(2) o by (simp add: A1_def)
  from Suc(1) [OF this s1(2)] obtain s' A' where r: "CleanAll m s1 = Some s'" "refines s' A'" "order A' = []" "live A' = live A"
    "refs A' = refs A" "pDirtyHead s' = None" by (auto simp: A1_def)
  have "CleanAll m s = Some s'" using h s1(1) r(1) by (subst CleanAll.simps) simp
  then show ?case using r by blast
qed

theorem clean_all_terminates_witness:
  "refines ex_cache ex_abs \<and> (\<exists>s' A'. CleanAll ex_methods ex_cache = Some s' \<and> refines s' A' \<and> order A' = [] \<and> live A' = live ex_abs
     \<and> refs A' = refs ex_abs \<and> pDirtyHead s' = None)"
  using clean_all_terminates [OF ex_refines] ex_refines by blast

section \<open>The page to write out\<close>

definition last_such :: "('a \<Rightarrow> bool) \<Rightarrow> 'a list \<Rightarrow> 'a option" where
  "last_such P xs = (if filter P xs = [] then None else Some (last (filter P xs)))"

lemma last_such_simps [simp]:
  "last_such P [] = None" "last_such P (xs @ [x]) = (if P x then Some x else last_such P xs)"
  by (simp_all add: last_such_def)

lemma last_such_append: "\<forall>v\<in>set vs. \<not> P v \<Longrightarrow> last_such P (us @ vs) = last_such P us"
  by (simp add: last_such_def filter_empty_conv [THEN iffD2])

lemma backwards_links:
  "links h None us q \<Longrightarrow> backwards skip h (final None us) = Some (last_such (\<lambda>a. \<not> skip (h a)) us)"
proof (induction us arbitrary: q rule: rev_induct)
  case Nil
  then show ?case by (subst backwards.simps) simp
next
  case (snoc x us)
  then have "links h None us (Some x)" "pDirtyPrev (h x) = final None us" by auto
  then show ?case using snoc.IH [of "Some x"] by (subst backwards.simps) simp
qed

lemma last_such_split:
  assumes "last_such P us = v"
  obtains us1 ws where "us = us1 @ ws" "v = final None us1" "\<forall>w\<in>set ws. \<not> P w"
proof -
  have "\<exists>us1 ws. us = us1 @ ws \<and> last_such P us = final None us1 \<and> (\<forall>w\<in>set ws. \<not> P w)"
  proof (induction us rule: rev_induct)
    case (snoc x us)
    show ?case
    proof (cases "P x")
      case True
      then show ?thesis by (intro exI [of _ "us @ [x]"] exI [of _ "[]"]) simp
    next
      case False
      then have e: "last_such P (us @ [x]) = last_such P us" by simp
      obtain us1 ws where "us = us1 @ ws" "last_such P us = final None us1" "\<forall>w\<in>set ws. \<not> P w" using snoc by blast
      then have "us @ [x] = us1 @ (ws @ [x]) \<and> last_such P (us @ [x]) = final None us1 \<and> (\<forall>w\<in>set (ws @ [x]). \<not> P w)"
        using False e by auto
      then show ?thesis by blast
    qed
  qed simp
  then show thesis using that assms by blast
qed

text \<open>
  The page that \<open>Fetch\<close> picks to be written out is the least recently used dirty page that is not
  in use and needs no sync of the journal, if there is one, and otherwise the least recently used
  one that is not in use; the search ends, and it moves \<open>pSynced\<close> without breaking the cache.\<close>

theorem fetch_victim_lru:
  assumes R: "refines s A" and nonneg: "\<forall>a\<in>live A. refs A a \<ge> 0"
  shows "\<exists>v s'. Fetch_victim s = Some (v, s') \<and> refines s' A \<and>
    v = (case last_such (\<lambda>a. refs A a = 0 \<and> \<not> sync A a) (order A) of Some a \<Rightarrow> Some a
         | None \<Rightarrow> last_such (\<lambda>a. refs A a = 0) (order A))"
proof -
  note d = refinesD [OF R]
  let ?P = "\<lambda>a. \<not> (nRef (pages s a) \<noteq> 0 \<or> needSync (pages s a))"
  have L: "x \<in> set (order A) \<Longrightarrow> x \<in> live A" for x using chain_distinct(2) [OF d(1)] by auto
  obtain us vs where u: "order A = us @ vs" "pSynced s = final None us" "\<forall>v\<in>set vs. needSync (pages s v) \<or> nRef (pages s v) > 0"
    using d(2) by (auto simp: synced_def)
  have l: "links (pages s) None us (first vs None)" "links (pages s) None (order A) None" "pDirtyTail s = final None (order A)"
    using d(1) u(1) by (auto simp: chain_def)
  have P: "last_such ?P us = last_such (\<lambda>a. refs A a = 0 \<and> \<not> sync A a) (order A)"
  proof -
    have "last_such ?P us = last_such ?P (order A)" unfolding u(1) by (rule last_such_append [symmetric]) (use u(3) in auto)
    moreover have "filter ?P (order A) = filter (\<lambda>a. refs A a = 0 \<and> \<not> sync A a) (order A)"
      using d(5,6) L by (intro filter_cong) auto
    ultimately show ?thesis by (simp add: last_such_def)
  qed
  define v where "v = last_such ?P us"
  have b: "backwards (\<lambda>p. nRef p \<noteq> 0 \<or> needSync p) (pages s) (pSynced s) = Some v"
    unfolding u(2) v_def by (rule backwards_links [OF l(1)])
  have t: "backwards (\<lambda>p. nRef p \<noteq> 0) (pages s) (pDirtyTail s) = Some (last_such (\<lambda>a. refs A a = 0) (order A))"
  proof -
    have "filter (\<lambda>a. \<not> nRef (pages s a) \<noteq> 0) (order A) = filter (\<lambda>a. refs A a = 0) (order A)" using d(5) L by (intro filter_cong) auto
    then show ?thesis unfolding l(3) using backwards_links [OF l(2), of "\<lambda>p. nRef p \<noteq> 0"] by (simp add: last_such_def)
  qed
  obtain us1 ws where w: "us = us1 @ ws" "v = final None us1" "\<forall>w\<in>set ws. \<not> ?P w" by (rule last_such_split [OF v_def [symmetric]])
  have "\<forall>x\<in>set (ws @ vs). needSync (pages s x) \<or> nRef (pages s x) > 0"
  proof
    fix x
    assume x: "x \<in> set (ws @ vs)"
    then have "x \<in> live A" using L u(1) w(1) by auto
    then have "nRef (pages s x) \<ge> 0" using nonneg d(5) by auto
    then show "needSync (pages s x) \<or> nRef (pages s x) > 0" using x u(3) w(3) by (cases "x \<in> set ws") auto
  qed
  then have "synced (s\<lparr>pSynced := v\<rparr>) (order A) {}"
    unfolding synced_def by (intro exI [of _ us1] exI [of _ "ws @ vs"]) (use u(1) w in auto)
  then have "refines (s\<lparr>pSynced := v\<rparr>) A" by (intro refinesI) (use d in \<open>auto simp: chain_def\<close>)
  then show ?thesis using b t P v_def by (auto simp: Fetch_victim_def split: option.splits)
qed

theorem fetch_victim_lru_witness:
  "refines ex_cache ex_abs \<and> list_all (\<lambda>a. refs ex_abs a \<ge> 0) [1, 2] \<and>
   (\<exists>s'. Fetch_victim ex_cache = Some (Some 1, s') \<and> refines s' ex_abs)"
  using fetch_victim_lru [OF ex_refines] ex_refines by (auto simp: ex_abs_def last_such_def)

section \<open>What Fetch does to headers\<close>

text \<open>
  The test of \<open>pPage\<close> is the wrong way round: a header that has never been set up fails the assertions,
  and one that is in use is reset. Neither \<open>Fetch\<close> nor \<open>sqlite3PcacheRef\<close> counts a reference.
\<close>

lemma fetch_header_fresh: "\<not> hasPage (pages s a) \<Longrightarrow> \<not> owned (pages s a) \<Longrightarrow> Fetch_header n a s = None"
  by (simp add: Fetch_header_def)

lemma fetch_header_resets:
  "hasPage (pages s a) \<Longrightarrow> \<exists>s'. Fetch_header n a s = Some s' \<and> flags (pages s' a) = 0 \<and> nRef (pages s' a) = 0 \<and> pDirtyNext (pages s' a) = None"
  by (simp add: Fetch_header_def Let_def)

lemma make_dirty_unreferenced: "nRef (pages s a) = 0 \<Longrightarrow> sqlite3PcacheMakeDirty a s = None"
  by (simp add: sqlite3PcacheMakeDirty_def Let_def)

lemma pcache_ref_no_effect: "sqlite3PcacheRef a s = Some s' \<Longrightarrow> s' = s"
  by (simp add: sqlite3PcacheRef_def split: if_splits)

lemma set_page_size_keeps_page_size: "SetPageSize n s = Some s' \<Longrightarrow> PageSize s' = PageSize s \<and> size s' = n"
  by (auto simp: SetPageSize_def Let_def split: if_splits)

end
