(* ===== verification/Memjournal.thy ===== *)
theory Memjournal
  imports Prelude
begin

text \<open>
  The in-memory rollback journal, src/memjournal.go: a chain of chunks of fixed size with an end
  point, where writes go, and a read point, which remembers where the last read ended. The chain is
  the list of the chunks' contents; a pointer to a chunk is its position in the chain and the
  \<open>Next\<close> chunk the following position. The n-th call of \<open>sqlite3_malloc\<close> returns \<open>malloc n\<close>: None if
  it fails, else a chunk with arbitrary contents.
\<close>

section \<open>The journal\<close>

text \<open>A pointer has eight bytes.\<close>

definition JOURNAL_CHUNKSIZE :: nat where "JOURNAL_CHUNKSIZE = 1024 - 8"

record MemJournal =
  pFirst :: "byte list list"
  endpoint_iOffset :: nat
  endpoint_pChunk :: "nat option"
  readpoint_iOffset :: nat
  readpoint_pChunk :: "nat option"
  nMalloc :: nat

type_synonym chunk_malloc = "nat \<Rightarrow> byte list option"

definition sqlite3MemJournalOpen :: "MemJournal \<Rightarrow> MemJournal" where
  "sqlite3MemJournalOpen p = \<lparr>pFirst = [], endpoint_iOffset = 0, endpoint_pChunk = None,
     readpoint_iOffset = 0, readpoint_pChunk = None, nMalloc = nMalloc p\<rparr>"

text \<open>The chunk that holds an offset, found from the start of the chain.\<close>

fun chunk_seek :: "nat \<Rightarrow> nat \<Rightarrow> nat \<Rightarrow> nat \<Rightarrow> nat option" where
  "chunk_seek 0 i iOff iOfst = None"
| "chunk_seek (Suc n) i iOff iOfst =
     (if iOff + JOURNAL_CHUNKSIZE \<le> iOfst then chunk_seek n (i + 1) (iOff + JOURNAL_CHUNKSIZE) iOfst else Some i)"

definition next_chunk :: "byte list list \<Rightarrow> nat \<Rightarrow> nat option" where
  "next_chunk cs i = (if i + 1 < length cs then Some (i + 1) else None)"

text \<open>
  The loop that copies out of the chunks: the bytes read and the last value of \<open>pChunk\<close>. Reading
  through a nil chunk is a fault. \<open>nRead\<close> may become negative.
\<close>

function memjrnlRead_loop :: "byte list list \<Rightarrow> nat option \<Rightarrow> nat \<Rightarrow> int \<Rightarrow> (byte list \<times> nat option) option" where
  "memjrnlRead_loop cs pChunk iChunkOffset nRead =
     (case pChunk of None \<Rightarrow> None
      | Some i \<Rightarrow>
        if i < length cs then
          let iSpace = JOURNAL_CHUNKSIZE - iChunkOffset;
              nCopy = min (nat nRead) (JOURNAL_CHUNKSIZE - iChunkOffset);
              out = take nCopy (drop iChunkOffset (cs ! i));
              n = nRead - int iSpace
          in if n \<ge> 0 then
               case next_chunk cs i of None \<Rightarrow> Some (out, None)
               | Some j \<Rightarrow>
                 if n > 0 then map_option (\<lambda>(r, q). (out @ r, q)) (memjrnlRead_loop cs (Some j) 0 n)
                 else Some (out, Some j)
             else Some (out, Some i)
        else None)"
  by pat_completeness auto
termination memjrnlRead_loop
  by (relation "measure (\<lambda>(cs, p, off, n). case p of None \<Rightarrow> 0 | Some i \<Rightarrow> length cs - i)") (auto simp: next_chunk_def split: if_splits)

declare memjrnlRead_loop.simps [simp del]

definition memjrnlRead :: "nat \<Rightarrow> nat \<Rightarrow> MemJournal \<Rightarrow> (byte list \<times> rc \<times> MemJournal) option" where
  "memjrnlRead iAmt iOfst p =
     (if \<not> iOfst + iAmt \<le> endpoint_iOffset p then None
      else
        let pChunk = (if readpoint_iOffset p \<noteq> iOfst \<or> iOfst = 0 then chunk_seek (length (pFirst p)) 0 0 iOfst
                      else readpoint_pChunk p)
        in do { (zBuf, pChunk) \<leftarrow> memjrnlRead_loop (pFirst p) pChunk (iOfst mod JOURNAL_CHUNKSIZE) (int iAmt);
                Some (zBuf, SQLITE_OK, p\<lparr>readpoint_iOffset := iOfst + iAmt, readpoint_pChunk := pChunk\<rparr>) })"

text \<open>
  The loop that appends: if the end of the file is the end of a chunk a new chunk is linked in
  behind \<open>endpoint.pChunk\<close>.
\<close>

definition add_chunk :: "byte list \<Rightarrow> MemJournal \<Rightarrow> MemJournal option" where
  "add_chunk pNew p =
     (case endpoint_pChunk p of
        Some i \<Rightarrow> if pFirst p \<noteq> [] \<and> i < length (pFirst p)
                  then Some (p\<lparr>pFirst := take (i + 1) (pFirst p) @ [pNew], endpoint_pChunk := Some (i + 1)\<rparr>) else None
      | None \<Rightarrow> if pFirst p = [] then Some (p\<lparr>pFirst := [pNew], endpoint_pChunk := Some 0\<rparr>) else None)"

definition put_bytes_at :: "nat \<Rightarrow> byte list \<Rightarrow> byte list \<Rightarrow> byte list" where
  "put_bytes_at i bs chunk = take i chunk @ bs @ drop (i + length bs) chunk"

lemma chunksize_pos: "0 < JOURNAL_CHUNKSIZE"
  by (simp add: JOURNAL_CHUNKSIZE_def)

function memjrnlWrite_loop :: "chunk_malloc \<Rightarrow> byte list \<Rightarrow> MemJournal \<Rightarrow> (rc \<times> MemJournal) option" where
  "memjrnlWrite_loop malloc zWrite p =
     (if zWrite = [] then Some (SQLITE_OK, p)
      else if endpoint_iOffset p mod JOURNAL_CHUNKSIZE = 0 \<and> malloc (nMalloc p) = None
      then Some (SQLITE_IOERR_NOMEM, p\<lparr>nMalloc := nMalloc p + 1\<rparr>)
      else
        case (if endpoint_iOffset p mod JOURNAL_CHUNKSIZE = 0 then add_chunk (the (malloc (nMalloc p))) (p\<lparr>nMalloc := nMalloc p + 1\<rparr>) else Some p) of
          None \<Rightarrow> None
        | Some p' \<Rightarrow>
          (case endpoint_pChunk p' of None \<Rightarrow> None
           | Some i \<Rightarrow>
             memjrnlWrite_loop malloc (drop (min (length zWrite) (JOURNAL_CHUNKSIZE - endpoint_iOffset p mod JOURNAL_CHUNKSIZE)) zWrite)
               (p'\<lparr>pFirst := (pFirst p')[i := put_bytes_at (endpoint_iOffset p mod JOURNAL_CHUNKSIZE)
                      (take (min (length zWrite) (JOURNAL_CHUNKSIZE - endpoint_iOffset p mod JOURNAL_CHUNKSIZE)) zWrite) (pFirst p' ! i)],
                   endpoint_iOffset := endpoint_iOffset p + min (length zWrite) (JOURNAL_CHUNKSIZE - endpoint_iOffset p mod JOURNAL_CHUNKSIZE)\<rparr>)))"
  by pat_completeness auto
termination memjrnlWrite_loop
  by (relation "measure (\<lambda>(m, z, p). length z)") (auto simp: chunksize_pos)

declare memjrnlWrite_loop.simps [simp del]

definition memjrnlWrite :: "chunk_malloc \<Rightarrow> byte list \<Rightarrow> nat \<Rightarrow> MemJournal \<Rightarrow> (rc \<times> MemJournal) option" where
  "memjrnlWrite malloc zBuf iOfst p =
     (if iOfst \<noteq> endpoint_iOffset p then None else memjrnlWrite_loop malloc zBuf p)"

definition memjrnlTruncate :: "nat \<Rightarrow> MemJournal \<Rightarrow> (rc \<times> MemJournal) option" where
  "memjrnlTruncate sz p = (if sz \<noteq> 0 then None else Some (SQLITE_OK, sqlite3MemJournalOpen p))"

definition memjrnlClose :: "MemJournal \<Rightarrow> (rc \<times> MemJournal) option" where
  "memjrnlClose p = do { (_, p) \<leftarrow> memjrnlTruncate 0 p; Some (SQLITE_OK, p) }"

definition memjrnlSync :: "MemJournal \<Rightarrow> rc" where
  "memjrnlSync p = SQLITE_OK"

definition memjrnlFileSize :: "MemJournal \<Rightarrow> nat \<times> rc" where
  "memjrnlFileSize p = (endpoint_iOffset p, SQLITE_OK)"

section \<open>The contents of a journal\<close>

text \<open>
  The journal holds the bytes \<open>f\<close>: the chunks, read one after the other, are \<open>f\<close> and less than a chunk
  of unused bytes.
\<close>

definition uniform :: "byte list list \<Rightarrow> bool" where
  "uniform cs \<longleftrightarrow> (\<forall>c\<in>set cs. length c = JOURNAL_CHUNKSIZE)"

definition holds :: "MemJournal \<Rightarrow> byte list \<Rightarrow> bool" where
  "holds p f \<longleftrightarrow>
     endpoint_iOffset p = length f \<and> uniform (pFirst p)
     \<and> (\<exists>g. concat (pFirst p) = f @ g \<and> length g < JOURNAL_CHUNKSIZE)
     \<and> endpoint_pChunk p = (if pFirst p = [] then None else Some (length (pFirst p) - 1))"

lemma length_concat_uniform: "uniform cs \<Longrightarrow> length (concat cs) = JOURNAL_CHUNKSIZE * length cs"
  by (induction cs) (auto simp: uniform_def)

lemma drop_concat_uniform: "uniform cs \<Longrightarrow> drop (i * JOURNAL_CHUNKSIZE) (concat cs) = concat (drop i cs)"
proof (induction i arbitrary: cs)
  case (Suc i)
  show ?case
  proof (cases cs)
    case (Cons c cs')
    then have "uniform cs'" "length c = JOURNAL_CHUNKSIZE" using Suc.prems by (auto simp: uniform_def)
    then show ?thesis using Suc.IH [of cs'] Cons by simp
  qed simp
qed simp

lemma chunk_seek_eq:
  "iOff = i * JOURNAL_CHUNKSIZE \<Longrightarrow> iOff \<le> iOfst \<Longrightarrow>
     chunk_seek n i iOff iOfst = (if iOfst div JOURNAL_CHUNKSIZE < i + n then Some (iOfst div JOURNAL_CHUNKSIZE) else None)"
proof (induction n arbitrary: i iOff)
  case 0
  then show ?case using chunksize_pos by (simp add: less_eq_div_iff_mult_less_eq not_less)
next
  case (Suc n)
  show ?case
  proof (cases "iOff + JOURNAL_CHUNKSIZE \<le> iOfst")
    case True
    then show ?thesis using Suc.IH [of "iOff + JOURNAL_CHUNKSIZE" "i + 1"] Suc.prems by simp
  next
    case False
    then have "iOfst div JOURNAL_CHUNKSIZE = i" using Suc.prems by (intro div_nat_eqI) (auto simp: mult.commute)
    then show ?thesis using False by simp
  qed
qed

lemma memjrnlRead_loop_eq:
  "uniform cs \<Longrightarrow> i < length cs \<Longrightarrow> off < JOURNAL_CHUNKSIZE \<Longrightarrow> 0 < n \<Longrightarrow> i * JOURNAL_CHUNKSIZE + off + n \<le> length (concat cs) \<Longrightarrow>
   memjrnlRead_loop cs (Some i) off (int n) =
     Some (take n (drop (i * JOURNAL_CHUNKSIZE + off) (concat cs)),
       if (i * JOURNAL_CHUNKSIZE + off + n) div JOURNAL_CHUNKSIZE < length cs
       then Some ((i * JOURNAL_CHUNKSIZE + off + n) div JOURNAL_CHUNKSIZE) else None)"
proof (induction "length cs - i" arbitrary: i off n)
  case 0
  then show ?case by simp
next
  case (Suc k)
  note C = chunksize_pos
  let ?C = JOURNAL_CHUNKSIZE
  define m where "m = ?C - off"
  have m: "0 < m" "off + m = ?C" using Suc.prems(3) by (auto simp: m_def)
  have ci: "length (cs ! i) = ?C" using Suc.prems(1,2) by (auto simp: uniform_def)
  have d: "drop (i * ?C + off) (concat cs) = drop off (cs ! i) @ concat (drop (i + 1) cs)"
  proof -
    have "drop (i * ?C + off) (concat cs) = drop off (concat (drop i cs))"
      using drop_concat_uniform [OF Suc.prems(1)] by (simp add: add.commute flip: drop_drop)
    also have "drop i cs = cs ! i # drop (i + 1) cs" using Suc.prems(2) by (simp add: Cons_nth_drop_Suc)
    finally show ?thesis using ci Suc.prems(3) by simp
  qed
  have ld: "length (drop off (cs ! i)) = m" using ci by (simp add: m_def)
  show ?case
  proof (cases "n < m")
    case True
    then have "(i * ?C + off + n) div ?C = i" using m by (intro div_nat_eqI) (auto simp: algebra_simps)
    then show ?thesis using True Suc.prems(2) d ld by (simp add: memjrnlRead_loop.simps [of cs "Some i"] Let_def m_def [symmetric])
  next
    case False
    have q: "i * ?C + off + n = (i + 1) * ?C + (n - m)" using False m by (simp add: algebra_simps)
    have t: "take n (drop (i * ?C + off) (concat cs)) = drop off (cs ! i) @ take (n - m) (concat (drop (i + 1) cs))"
      using d ld False by simp
    have tk: "take m (drop off (cs ! i)) = drop off (cs ! i)" using ld by (simp del: length_drop)
    have sub: "int n - int m = int (n - m)" "0 < int n - int m \<longleftrightarrow> m < n" using False by auto
    have s: "memjrnlRead_loop cs (Some i) off (int n) =
      (case next_chunk cs i of None \<Rightarrow> Some (drop off (cs ! i), None)
       | Some j \<Rightarrow> if n > m then map_option (\<lambda>(r, q). (drop off (cs ! i) @ r, q)) (memjrnlRead_loop cs (Some j) 0 (int (n - m)))
                   else Some (drop off (cs ! i), Some j))"
      using Suc.prems(2) False ld
      by (cases "next_chunk cs i") (simp_all add: memjrnlRead_loop.simps [of cs "Some i"] Let_def m_def [symmetric] tk sub del: of_nat_diff)
    show ?thesis
    proof (cases "i + 1 < length cs")
      case True
      show ?thesis
      proof (cases "n = m")
        case True
        then have "(i * ?C + off + n) div ?C = i + 1" unfolding q using C by simp
        then show ?thesis using s t True \<open>i + 1 < length cs\<close> by (simp add: next_chunk_def)
      next
        case n: False
        then have "memjrnlRead_loop cs (Some (i + 1)) 0 (int (n - m)) =
          Some (take (n - m) (drop ((i + 1) * ?C + 0) (concat cs)),
            if ((i + 1) * ?C + 0 + (n - m)) div ?C < length cs then Some (((i + 1) * ?C + 0 + (n - m)) div ?C) else None)"
          using Suc(1) [of "i + 1" 0 "n - m"] Suc(2) Suc.prems(1,5) True False C q by simp
        then show ?thesis unfolding s t q using n False True drop_concat_uniform [OF Suc.prems(1), of "i + 1"] by (simp add: next_chunk_def)
      qed
    next
      case last: False
      then have "i * ?C + off + n \<le> (i + 1) * ?C" using Suc.prems(2,5) length_concat_uniform [OF Suc.prems(1)]
        by (metis Suc_eq_plus1 Suc_leI le_antisym linorder_not_less mult.commute)
      then have n: "n = m" using q False by simp
      then have "(i * ?C + off + n) div ?C = i + 1" unfolding q using C by simp
      then show ?thesis using s t n last by (simp add: next_chunk_def)
    qed
  qed
qed

section \<open>Writing\<close>

definition malloc_ok :: "chunk_malloc \<Rightarrow> bool" where
  "malloc_ok malloc \<longleftrightarrow> (\<forall>n g. malloc n = Some g \<longrightarrow> length g = JOURNAL_CHUNKSIZE)"

text \<open>One turn of the loop, after the chunk for the next byte is there.\<close>

lemma put_last_chunk:
  assumes u: "uniform cs" and cs: "cs \<noteq> []" and g: "concat cs = f @ g" "length g = JOURNAL_CHUNKSIZE - off"
    and off: "off = length f mod JOURNAL_CHUNKSIZE" and bs: "length bs \<le> JOURNAL_CHUNKSIZE - off"
  shows "uniform (cs[length cs - 1 := put_bytes_at off bs (last cs)])"
    and "concat (cs[length cs - 1 := put_bytes_at off bs (last cs)]) = (f @ bs) @ drop (length bs) g"
proof -
  let ?C = JOURNAL_CHUNKSIZE
  obtain init c where i: "cs = init @ [c]" using cs by (cases cs rule: rev_cases) auto
  have ui: "uniform init" and c: "length c = ?C" using u i by (auto simp: uniform_def)
  have off_less: "off < ?C" using off chunksize_pos by simp
  have li: "length (concat init) = ?C * length init" using length_concat_uniform [OF ui] .
  have "length f + length g = ?C * length init + ?C" using arg_cong [OF g(1), of length] li c i by simp
  then have lf: "length f = length (concat init) + off" using g(2) off_less li by simp
  have "f = take (length f) (concat cs)" "g = drop (length f) (concat cs)" using g(1) by simp_all
  then have f: "f = concat init @ take off c" and gc: "g = drop off c" using i lf by simp_all
  have p: "put_bytes_at off bs c = take off c @ bs @ drop (length bs) g" by (simp add: put_bytes_at_def gc add.commute)
  have upd: "cs[length cs - 1 := put_bytes_at off bs (last cs)] = init @ [put_bytes_at off bs c]" using i by simp
  have "length (put_bytes_at off bs c) = ?C" using bs off_less c by (simp add: put_bytes_at_def)
  then show "uniform (cs[length cs - 1 := put_bytes_at off bs (last cs)])" using ui upd by (auto simp: uniform_def)
  show "concat (cs[length cs - 1 := put_bytes_at off bs (last cs)]) = (f @ bs) @ drop (length bs) g"
    unfolding upd using p f by simp
qed

text \<open>The chunk for the next byte.\<close>

lemma gap_arith:
  fixes a b C :: nat
  assumes "(a + b) mod C = 0" "a < C" "b < C"
  shows "b = (if a = 0 then 0 else C - a)"
proof (cases "a + b < C")
  case True
  then show ?thesis using assms by simp
next
  case False
  then have "(a + b - C) mod C = 0" using assms(1) by (simp add: mod_if [of "a + b"] split: if_splits)
  moreover have "a + b - C < C" using assms by linarith
  ultimately have "a + b = C" using False by simp
  then show ?thesis using assms by auto
qed

lemma holds_gap:
  assumes "holds p f"
  obtains g where "concat (pFirst p) = f @ g" "length g = (if length f mod JOURNAL_CHUNKSIZE = 0 then 0 else JOURNAL_CHUNKSIZE - length f mod JOURNAL_CHUNKSIZE)"
proof -
  let ?C = JOURNAL_CHUNKSIZE
  obtain g where g: "concat (pFirst p) = f @ g" "length g < ?C" and u: "uniform (pFirst p)" using assms by (auto simp: holds_def)
  have "length f + length g = ?C * length (pFirst p)" using arg_cong [OF g(1), of length] length_concat_uniform [OF u] by simp
  then have "(length f mod ?C + length g) mod ?C = 0" by (metis mod_add_left_eq mod_mult_self1_is_0)
  moreover have "length f mod ?C < ?C" using chunksize_pos by simp
  ultimately have "length g = (if length f mod ?C = 0 then 0 else ?C - length f mod ?C)"
    using g(2) by (intro gap_arith)
  then show thesis using that g(1) by blast
qed

lemma next_byte_chunk:
  assumes h: "holds p f" and new: "length new = JOURNAL_CHUNKSIZE"
  obtains p' g where "(if endpoint_iOffset p mod JOURNAL_CHUNKSIZE = 0 then add_chunk new (p\<lparr>nMalloc := nMalloc p + 1\<rparr>) else Some p) = Some p'"
    "uniform (pFirst p')" "pFirst p' \<noteq> []" "concat (pFirst p') = f @ g" "length g = JOURNAL_CHUNKSIZE - length f mod JOURNAL_CHUNKSIZE"
    "endpoint_pChunk p' = Some (length (pFirst p') - 1)" "endpoint_iOffset p' = length f"
    "readpoint_iOffset p' = readpoint_iOffset p" "readpoint_pChunk p' = readpoint_pChunk p"
proof -
  let ?C = JOURNAL_CHUNKSIZE
  obtain g where g: "concat (pFirst p) = f @ g" "length g = (if length f mod ?C = 0 then 0 else ?C - length f mod ?C)"
    using h by (rule holds_gap)
  have e: "endpoint_iOffset p = length f" "uniform (pFirst p)" "endpoint_pChunk p = (if pFirst p = [] then None else Some (length (pFirst p) - 1))"
    using h by (auto simp: holds_def)
  show thesis
  proof (cases "length f mod ?C = 0")
    case True
    define p' where "p' = p\<lparr>nMalloc := nMalloc p + 1, pFirst := pFirst p @ [new], endpoint_pChunk := Some (length (pFirst p))\<rparr>"
    have "add_chunk new (p\<lparr>nMalloc := nMalloc p + 1\<rparr>) = Some p'" using e(3) by (cases "pFirst p = []") (auto simp: add_chunk_def p'_def)
    then show thesis using that [of p' new] True e g new by (auto simp: p'_def uniform_def)
  next
    case False
    then have "f \<noteq> []" by auto
    then have "pFirst p \<noteq> []" using g(1) by auto
    then show thesis using that [of p g] False e g by auto
  qed
qed

lemma memjrnlWrite_loop_holds:
  "holds p f \<Longrightarrow> malloc_ok malloc \<Longrightarrow>
     \<exists>rc p' k. memjrnlWrite_loop malloc z p = Some (rc, p') \<and> holds p' (f @ take k z) \<and> k \<le> length z
       \<and> (rc = SQLITE_OK \<and> k = length z \<or> rc = SQLITE_IOERR_NOMEM \<and> k < length z \<and> (\<exists>n. malloc n = None))
       \<and> readpoint_iOffset p' = readpoint_iOffset p \<and> readpoint_pChunk p' = readpoint_pChunk p"
proof (induction "length z" arbitrary: p f z rule: less_induct)
  case less
  let ?C = JOURNAL_CHUNKSIZE
  let ?o = "endpoint_iOffset p mod ?C"
  have e: "endpoint_iOffset p = length f" using less.prems(1) by (simp add: holds_def)
  consider "z = []" | "z \<noteq> []" "?o = 0 \<and> malloc (nMalloc p) = None" | "z \<noteq> []" "\<not> (?o = 0 \<and> malloc (nMalloc p) = None)" by blast
  then show ?case
  proof cases
    case 1
    then show ?thesis using less.prems by (auto simp: memjrnlWrite_loop.simps intro!: exI [of _ 0])
  next
    case 2
    then have "memjrnlWrite_loop malloc z p = Some (SQLITE_IOERR_NOMEM, p\<lparr>nMalloc := nMalloc p + 1\<rparr>)"
      by (simp add: memjrnlWrite_loop.simps [of malloc z p])
    moreover have "holds (p\<lparr>nMalloc := nMalloc p + 1\<rparr>) (f @ take 0 z)" using less.prems(1) by (simp add: holds_def)
    ultimately show ?thesis using 2 by fastforce
  next
    case 3
    define new where "new = (if ?o = 0 then the (malloc (nMalloc p)) else replicate ?C 0)"
    have "length new = ?C" using 3(2) less.prems(2) by (auto simp: new_def malloc_ok_def)
    then obtain p1 g where p1: "(if ?o = 0 then add_chunk new (p\<lparr>nMalloc := nMalloc p + 1\<rparr>) else Some p) = Some p1"
      "uniform (pFirst p1)" "pFirst p1 \<noteq> []" "concat (pFirst p1) = f @ g" "length g = ?C - length f mod ?C"
      "endpoint_pChunk p1 = Some (length (pFirst p1) - 1)" "endpoint_iOffset p1 = length f"
      "readpoint_iOffset p1 = readpoint_iOffset p" "readpoint_pChunk p1 = readpoint_pChunk p"
      using next_byte_chunk [OF less.prems(1)] by blast
    define k where "k = min (length z) (?C - ?o)"
    have k: "0 < k" "k \<le> length z" "k \<le> ?C - ?o" using 3(1) chunksize_pos by (auto simp: k_def)
    define p2 where "p2 = p1\<lparr>pFirst := (pFirst p1)[length (pFirst p1) - 1 := put_bytes_at ?o (take k z) (pFirst p1 ! (length (pFirst p1) - 1))],
      endpoint_iOffset := endpoint_iOffset p + k\<rparr>"
    have s: "memjrnlWrite_loop malloc z p = memjrnlWrite_loop malloc (drop k z) p2"
      using 3 p1(1,6) by (subst memjrnlWrite_loop.simps) (auto simp: p2_def k_def new_def split: if_splits)
    have "length (take k z) \<le> ?C - length f mod ?C" using k e by simp
    note put = put_last_chunk [OF p1(2,3,4,5) refl this]
    have "length (drop k g) < ?C" using p1(5) k chunksize_pos e by simp
    then have "holds p2 (f @ take k z)"
      using put p1(3,6,7) k e by (auto simp: holds_def p2_def last_conv_nth)
    moreover have "length (drop k z) < length z" using k by simp
    ultimately obtain rc p' j where "memjrnlWrite_loop malloc (drop k z) p2 = Some (rc, p')" "holds p' ((f @ take k z) @ take j (drop k z))"
      "j \<le> length (drop k z)" "rc = SQLITE_OK \<and> j = length (drop k z) \<or> rc = SQLITE_IOERR_NOMEM \<and> j < length (drop k z) \<and> (\<exists>n. malloc n = None)"
      "readpoint_iOffset p' = readpoint_iOffset p2" "readpoint_pChunk p' = readpoint_pChunk p2"
      using less.hyps [of "drop k z" p2 "f @ take k z"] less.prems(2) by blast
    moreover have "take k z @ take j (drop k z) = take (k + j) z" by (simp add: take_add)
    ultimately show ?thesis using s p1(8,9) k by (intro exI [of _ rc], intro exI [of _ p'], intro exI [of _ "k + j"]) (auto simp: p2_def)
  qed
qed

section \<open>A journal is a file\<close>

text \<open>
  The file a journal stands for: its bytes, the position after the last read, and whether that read
  ended at the end of the last chunk, when the journal remembers a nil chunk.
\<close>

record jfile =
  bytes :: "byte list"
  rpos :: nat
  rnil :: bool

datatype jop = JWrite "byte list" | JRead nat nat | JTruncate

fun fstep :: "jop \<Rightarrow> jfile \<Rightarrow> (byte list \<times> jfile) option" where
  "fstep (JWrite z) F = Some ([], F\<lparr>bytes := bytes F @ z\<rparr>)"
| "fstep (JRead off n) F =
     (if off + n > length (bytes F) \<or> off = rpos F \<and> off \<noteq> 0 \<and> rnil F then None
      else Some (take n (drop off (bytes F)), F\<lparr>rpos := off + n, rnil := off + n = length (bytes F) \<and> JOURNAL_CHUNKSIZE dvd off + n\<rparr>))"
| "fstep JTruncate F = Some ([], \<lparr>bytes = [], rpos = 0, rnil = False\<rparr>)"

fun jstep :: "chunk_malloc \<Rightarrow> jop \<Rightarrow> MemJournal \<Rightarrow> (byte list \<times> MemJournal) option" where
  "jstep malloc (JWrite z) p = do { (rc, p) \<leftarrow> memjrnlWrite malloc z (fst (memjrnlFileSize p)) p; Some ([], p) }"
| "jstep malloc (JRead off n) p = do { (z, rc, p) \<leftarrow> memjrnlRead n off p; Some (z, p) }"
| "jstep malloc JTruncate p = do { (rc, p) \<leftarrow> memjrnlTruncate 0 p; Some ([], p) }"

fun frun :: "jop list \<Rightarrow> jfile \<Rightarrow> byte list list option" where
  "frun [] F = Some []"
| "frun (op # ops) F = do { (z, F) \<leftarrow> fstep op F; zs \<leftarrow> frun ops F; Some (z # zs) }"

fun jrun :: "chunk_malloc \<Rightarrow> jop list \<Rightarrow> MemJournal \<Rightarrow> byte list list option" where
  "jrun malloc [] p = Some []"
| "jrun malloc (op # ops) p = do { (z, p) \<leftarrow> jstep malloc op p; zs \<leftarrow> jrun malloc ops p; Some (z # zs) }"

fun reads_something :: "jop \<Rightarrow> bool" where
  "reads_something (JRead off n) = (n > 0)"
| "reads_something _ = True"

definition is_file :: "MemJournal \<Rightarrow> jfile \<Rightarrow> bool" where
  "is_file p F \<longleftrightarrow> holds p (bytes F) \<and> readpoint_iOffset p = rpos F
     \<and> (rpos F \<noteq> 0 \<longrightarrow> readpoint_pChunk p = (if rnil F then None else Some (rpos F div JOURNAL_CHUNKSIZE)))"

lemma read_is_file:
  assumes i: "is_file p F" and n: "n > 0"
  shows "case fstep (JRead off n) F of None \<Rightarrow> memjrnlRead n off p = None
    | Some (z, F') \<Rightarrow> \<exists>p'. memjrnlRead n off p = Some (z, SQLITE_OK, p') \<and> is_file p' F'"
proof -
  let ?C = JOURNAL_CHUNKSIZE and ?f = "bytes F"
  have e: "endpoint_iOffset p = length ?f" "uniform (pFirst p)" "readpoint_iOffset p = rpos F"
    "rpos F \<noteq> 0 \<longrightarrow> readpoint_pChunk p = (if rnil F then None else Some (rpos F div ?C))"
    using i by (auto simp: is_file_def holds_def)
  obtain g where g: "concat (pFirst p) = ?f @ g" "length g = (if length ?f mod ?C = 0 then 0 else ?C - length ?f mod ?C)"
    using holds_gap [of p ?f] i by (auto simp: is_file_def)
  have lc: "?C * length (pFirst p) = length ?f + length g" using length_concat_uniform [OF e(2)] g(1) by simp
  consider "off + n > length ?f" | "off + n \<le> length ?f" "off = rpos F \<and> off \<noteq> 0 \<and> rnil F"
    | "off + n \<le> length ?f" "\<not> (off = rpos F \<and> off \<noteq> 0 \<and> rnil F)" by linarith
  then show ?thesis
  proof cases
    case 1
    then show ?thesis using e(1) by (simp add: memjrnlRead_def)
  next
    case 2
    then show ?thesis using e by (simp add: memjrnlRead_def memjrnlRead_loop.simps)
  next
    case 3
    have less: "off div ?C < length (pFirst p)"
    proof -
      have "off < length (pFirst p) * ?C" using 3(1) n lc by (simp add: mult.commute)
      then show ?thesis by (rule less_mult_imp_div_less)
    qed
    have p: "(if readpoint_iOffset p \<noteq> off \<or> off = 0 then chunk_seek (length (pFirst p)) 0 0 off else readpoint_pChunk p) = Some (off div ?C)"
      using 3(2) e less chunk_seek_eq [of 0 0 off "length (pFirst p)"] by auto
    have "memjrnlRead_loop (pFirst p) (Some (off div ?C)) (off mod ?C) (int n) =
       Some (take n (drop (off div ?C * ?C + off mod ?C) (concat (pFirst p))),
         if (off div ?C * ?C + off mod ?C + n) div ?C < length (pFirst p) then Some ((off div ?C * ?C + off mod ?C + n) div ?C) else None)"
      using e(2) less n chunksize_pos 3(1) g(1) by (intro memjrnlRead_loop_eq) auto
    then have l: "memjrnlRead_loop (pFirst p) (Some (off div ?C)) (off mod ?C) (int n) =
       Some (take n (drop off ?f), if (off + n) div ?C < length (pFirst p) then Some ((off + n) div ?C) else None)"
      using 3(1) g(1) by simp
    have q: "(off + n) div ?C < length (pFirst p) \<longleftrightarrow> \<not> (off + n = length ?f \<and> ?C dvd off + n)"
    proof -
      have "(off + n) div ?C < length (pFirst p) \<longleftrightarrow> off + n < length (pFirst p) * ?C"
        by (rule div_less_iff_less_mult [OF chunksize_pos])
      moreover have "off + n < length (pFirst p) * ?C \<longleftrightarrow> off + n \<noteq> ?C * length (pFirst p)"
        using 3(1) lc by (simp add: mult.commute) linarith
      moreover have "off + n = ?C * length (pFirst p) \<longleftrightarrow> off + n = length ?f \<and> ?C dvd off + n"
      proof
        assume a: "off + n = ?C * length (pFirst p)"
        then have "off + n = length ?f" using 3(1) lc by simp
        then show "off + n = length ?f \<and> ?C dvd off + n" using a by (metis dvd_triv_left)
      next
        assume a: "off + n = length ?f \<and> ?C dvd off + n"
        then have "?C dvd length ?f" by metis
        then have "length g = 0" using g(2) by simp
        then show "off + n = ?C * length (pFirst p)" using lc a by simp
      qed
      ultimately show ?thesis by blast
    qed
    show ?thesis using 3 e p l q i by (auto simp: memjrnlRead_def is_file_def holds_def)
  qed
qed

lemma step_is_file:
  assumes i: "is_file p F" and m: "malloc_ok malloc" "\<And>n. malloc n \<noteq> None" and r: "reads_something op"
  shows "case fstep op F of None \<Rightarrow> jstep malloc op p = None | Some (z, F') \<Rightarrow> \<exists>p'. jstep malloc op p = Some (z, p') \<and> is_file p' F'"
proof (cases op)
  case (JWrite z)
  have h: "holds p (bytes F)" using i by (simp add: is_file_def)
  obtain rc p' k where w: "memjrnlWrite_loop malloc z p = Some (rc, p')" "holds p' (bytes F @ take k z)" "k = length z"
    "readpoint_iOffset p' = readpoint_iOffset p" "readpoint_pChunk p' = readpoint_pChunk p"
    using memjrnlWrite_loop_holds [OF h m(1), of z] m(2) by blast
  then have "is_file p' (F\<lparr>bytes := bytes F @ z\<rparr>)" using i by (simp add: is_file_def)
  then show ?thesis using JWrite w(1) by (simp add: memjrnlWrite_def memjrnlFileSize_def)
next
  case (JRead off n)
  then show ?thesis using read_is_file [OF i, of n off] r by (cases "fstep (JRead off n) F") auto
next
  case JTruncate
  then show ?thesis
    by (simp add: memjrnlTruncate_def sqlite3MemJournalOpen_def is_file_def holds_def uniform_def chunksize_pos)
qed

lemma run_is_file:
  "is_file p F \<Longrightarrow> malloc_ok malloc \<Longrightarrow> (\<And>n. malloc n \<noteq> None) \<Longrightarrow> list_all reads_something ops \<Longrightarrow> jrun malloc ops p = frun ops F"
proof (induction ops arbitrary: p F)
  case (Cons op ops)
  then have c: "case fstep op F of None \<Rightarrow> jstep malloc op p = None | Some (z, F') \<Rightarrow> \<exists>p'. jstep malloc op p = Some (z, p') \<and> is_file p' F'"
    by (intro step_is_file) auto
  show ?case
  proof (cases "fstep op F")
    case None
    then show ?thesis using c by simp
  next
    case (Some x)
    then obtain z F' p' where "x = (z, F')" "jstep malloc op p = Some (z, p')" "is_file p' F'" using c by (cases x) auto
    then show ?thesis using Cons Some by simp
  qed
qed simp

text \<open>
  C26. An in-memory journal behaves as a file that is only appended to: after \<open>sqlite3MemJournalOpen\<close>
  and any sequence of writes, reads and truncations, with allocations that succeed, every read
  returns the bytes of the file at its offset, and an assertion or a nil chunk stops the program
  exactly when a read goes past the end, or when it continues a read that had ended at the end of
  the file and of a chunk.\<close>

theorem memjournal_is_file:
  assumes "malloc_ok malloc" "\<forall>n. malloc n \<noteq> None" "list_all reads_something ops"
  shows "jrun malloc ops (sqlite3MemJournalOpen p) = frun ops \<lparr>bytes = [], rpos = 0, rnil = False\<rparr>"
  using assms by (intro run_is_file)
    (auto simp: sqlite3MemJournalOpen_def is_file_def holds_def uniform_def chunksize_pos)

theorem memjournal_is_file_witness:
  "malloc_ok (\<lambda>n. Some (replicate JOURNAL_CHUNKSIZE 0)) \<and> list_all reads_something [JWrite [1, 2, 3], JRead 1 2] \<and>
   jrun (\<lambda>n. Some (replicate JOURNAL_CHUNKSIZE 0)) [JWrite [1, 2, 3], JRead 1 2]
     (sqlite3MemJournalOpen \<lparr>pFirst = [], endpoint_iOffset = 0, endpoint_pChunk = None, readpoint_iOffset = 0, readpoint_pChunk = None, nMalloc = 0\<rparr>)
   = Some [[], [2, 3]]"
proof -
  have m: "malloc_ok (\<lambda>n. Some (replicate JOURNAL_CHUNKSIZE 0))" by (simp add: malloc_ok_def)
  then show ?thesis using memjournal_is_file [OF m, of "[JWrite [1, 2, 3], JRead 1 2]"] by simp
qed

text \<open>A read that continues behind such a read dereferences a nil chunk although the bytes are there.\<close>

lemma memjournal_stale_read:
  assumes "malloc_ok malloc" "\<forall>n. malloc n \<noteq> None"
  shows "jrun malloc [JWrite (replicate JOURNAL_CHUNKSIZE 1), JRead 0 JOURNAL_CHUNKSIZE, JWrite [2], JRead JOURNAL_CHUNKSIZE 1]
    (sqlite3MemJournalOpen p) = None"
  using assms chunksize_pos
  by (subst run_is_file [where F = "\<lparr>bytes = [], rpos = 0, rnil = False\<rparr>"])
    (auto simp: sqlite3MemJournalOpen_def is_file_def holds_def uniform_def)

end
