(* ===== verification/Journal.thy ===== *)
theory Journal
  imports WalLog
begin

text \<open>
  The journal file of the atomic-write optimisation, src/journal.go: a file that is kept in a buffer
  until the buffer is too small or \<open>sqlite3JournalCreate\<close> asks for the file on disk. Files are lists
  of bytes; what the operating system answers is the argument \<open>io\<close>.
\<close>

section \<open>The operations\<close>

record jio =
  jio_open :: rc
  jio_write :: "nat \<Rightarrow> rc"
  jio_read :: "nat \<Rightarrow> rc"
  jio_truncate :: rc
  jio_sync :: rc
  jio_size :: rc
  jio_partial :: "byte list \<Rightarrow> byte list"

record JournalFile =
  jrnlMethods :: bool
  nBuf :: nat
  zBuf :: "byte list"
  iSize :: nat
  pReal :: "byte list option"

text \<open>A write to the real file; a failed one may have changed it.\<close>

definition real_write :: "jio \<Rightarrow> byte list \<Rightarrow> nat \<Rightarrow> byte list \<Rightarrow> rc \<times> byte list" where
  "real_write io z off f = (if jio_write io off = SQLITE_OK then (SQLITE_OK, osWrite f z off) else (jio_write io off, jio_partial io f))"

definition createFile :: "jio \<Rightarrow> byte list \<Rightarrow> JournalFile \<Rightarrow> (rc \<times> JournalFile) option" where
  "createFile io disk p =
     (if pReal p \<noteq> None then Some (SQLITE_OK, p)
      else if jio_open io \<noteq> SQLITE_OK then Some (jio_open io, p)
      else
        let p = p\<lparr>pReal := Some disk\<rparr> in
        if iSize p > 0 then
          if \<not> iSize p \<le> nBuf p then None
          else let (rc, f) = real_write io (take (iSize p) (zBuf p)) 0 disk in Some (rc, p\<lparr>pReal := Some f\<rparr>)
        else Some (SQLITE_OK, p))"

definition jrnlClose :: "JournalFile \<Rightarrow> rc \<times> JournalFile" where
  "jrnlClose p = (SQLITE_OK, p\<lparr>zBuf := []\<rparr>)"

definition jrnlRead :: "jio \<Rightarrow> nat \<Rightarrow> nat \<Rightarrow> JournalFile \<Rightarrow> rc \<times> byte list" where
  "jrnlRead io iAmt iOfst p =
     (case pReal p of Some f \<Rightarrow> osRead (jio_read io) f iAmt iOfst
      | None \<Rightarrow> if iAmt + iOfst > iSize p then (SQLITE_IOERR_SHORT_READ, []) else (SQLITE_OK, take iAmt (drop iOfst (zBuf p))))"

definition jrnlWrite :: "jio \<Rightarrow> byte list \<Rightarrow> byte list \<Rightarrow> nat \<Rightarrow> JournalFile \<Rightarrow> (rc \<times> JournalFile) option" where
  "jrnlWrite io disk z iOfst p =
     do { (rc, p) \<leftarrow> (if pReal p = None \<and> iOfst + length z > nBuf p then createFile io disk p else Some (SQLITE_OK, p));
          if rc = SQLITE_OK then
            case pReal p of
              Some f \<Rightarrow> let (rc, f) = real_write io z iOfst f in Some (rc, p\<lparr>pReal := Some f\<rparr>)
            | None \<Rightarrow>
                let p = p\<lparr>zBuf := take iOfst (zBuf p) @ z @ drop (iOfst + length z) (zBuf p)\<rparr>
                in Some (SQLITE_OK, if iSize p < iOfst + length z then p\<lparr>iSize := iOfst + length z\<rparr> else p)
          else Some (rc, p) }"

definition jrnlTruncate :: "jio \<Rightarrow> nat \<Rightarrow> JournalFile \<Rightarrow> rc \<times> JournalFile" where
  "jrnlTruncate io sz p =
     (case pReal p of
        Some f \<Rightarrow> (jio_truncate io, if jio_truncate io = SQLITE_OK then p\<lparr>pReal := Some (take sz f @ replicate (sz - length f) 0)\<rparr> else p)
      | None \<Rightarrow> (SQLITE_OK, if sz < iSize p then p\<lparr>iSize := sz\<rparr> else p))"

definition jrnlSync :: "jio \<Rightarrow> JournalFile \<Rightarrow> rc" where
  "jrnlSync io p = (if pReal p \<noteq> None then jio_sync io else SQLITE_OK)"

definition jrnlFileSize :: "jio \<Rightarrow> JournalFile \<Rightarrow> rc \<times> nat" where
  "jrnlFileSize io p = (case pReal p of Some f \<Rightarrow> (jio_size io, length f) | None \<Rightarrow> (SQLITE_OK, iSize p))"

text \<open>
  \<open>allocOk\<close> is the success of the allocation of the zeroed buffer. Without a buffer the file itself is
  opened and the handle does not have the methods above.
\<close>

definition sqlite3JournalOpen :: "jio \<Rightarrow> bool \<Rightarrow> byte list \<Rightarrow> nat \<Rightarrow> rc \<times> JournalFile" where
  "sqlite3JournalOpen io allocOk disk n =
     (let p = \<lparr>jrnlMethods = False, nBuf = 0, zBuf = [], iSize = 0, pReal = None\<rparr> in
      if n > 0 then
        if \<not> allocOk then (SQLITE_NOMEM, p)
        else (SQLITE_OK, p\<lparr>zBuf := replicate n 0, jrnlMethods := True, nBuf := n\<rparr>)
      else (jio_open io, p))"

definition sqlite3JournalCreate :: "jio \<Rightarrow> byte list \<Rightarrow> JournalFile \<Rightarrow> (rc \<times> JournalFile) option" where
  "sqlite3JournalCreate io disk p = (if \<not> jrnlMethods p then Some (SQLITE_OK, p) else createFile io disk p)"

section \<open>A journal file is a file\<close>

definition contents :: "JournalFile \<Rightarrow> byte list" where
  "contents p = (case pReal p of Some f \<Rightarrow> f | None \<Rightarrow> take (iSize p) (zBuf p))"

definition wf_journal :: "JournalFile \<Rightarrow> bool" where
  "wf_journal p \<longleftrightarrow> jrnlMethods p \<and> length (zBuf p) = nBuf p \<and> iSize p \<le> nBuf p"

definition io_ok :: "jio \<Rightarrow> bool" where
  "io_ok io \<longleftrightarrow> jio_open io = SQLITE_OK \<and> (\<forall>off. jio_write io off = SQLITE_OK) \<and> (\<forall>off. jio_read io off = SQLITE_OK)
     \<and> jio_truncate io = SQLITE_OK \<and> jio_sync io = SQLITE_OK \<and> jio_size io = SQLITE_OK"

datatype file_op = FWrite "byte list" nat | FRead nat nat | FTruncate nat | FSync | FSize | FCreate

type_synonym file_result = "rc \<times> byte list \<times> nat"

text \<open>An ordinary file: gaps and extensions are filled with zeros.\<close>

fun file_step :: "file_op \<Rightarrow> byte list \<Rightarrow> file_result \<times> byte list" where
  "file_step (FWrite z off) f = ((SQLITE_OK, [], 0), osWrite f z off)"
| "file_step (FRead n off) f =
     (if off + n > length f then (SQLITE_IOERR_SHORT_READ, [], 0) else (SQLITE_OK, take n (drop off f), 0), f)"
| "file_step (FTruncate sz) f = ((SQLITE_OK, [], 0), take sz f @ replicate (sz - length f) 0)"
| "file_step FSync f = ((SQLITE_OK, [], 0), f)"
| "file_step FSize f = ((SQLITE_OK, [], length f), f)"
| "file_step FCreate f = ((SQLITE_OK, [], 0), f)"

fun file_run :: "file_op list \<Rightarrow> byte list \<Rightarrow> file_result list \<times> byte list" where
  "file_run [] f = ([], f)"
| "file_run (op # ops) f = (let (r, f) = file_step op f; (rs, f) = file_run ops f in (r # rs, f))"

text \<open>
  The use of a journal file that the buffer supports: writes that leave no gap, reads of at least one byte,
  truncations that do not extend the file.
\<close>

fun file_ok :: "file_op \<Rightarrow> byte list \<Rightarrow> bool" where
  "file_ok (FWrite z off) f \<longleftrightarrow> off \<le> length f"
| "file_ok (FRead n off) f \<longleftrightarrow> n > 0"
| "file_ok (FTruncate sz) f \<longleftrightarrow> sz \<le> length f"
| "file_ok _ f \<longleftrightarrow> True"

fun journal_use :: "file_op list \<Rightarrow> byte list \<Rightarrow> bool" where
  "journal_use [] f \<longleftrightarrow> True"
| "journal_use (op # ops) f \<longleftrightarrow> file_ok op f \<and> journal_use ops (snd (file_step op f))"

text \<open>A run on a journal file; \<open>disk\<close> is what a file of its name holds when it is opened, \<open>[]\<close> if there is none.\<close>

fun jrnl_step :: "jio \<Rightarrow> byte list \<Rightarrow> file_op \<Rightarrow> JournalFile \<Rightarrow> (file_result \<times> JournalFile) option" where
  "jrnl_step io disk (FWrite z off) p = do { (rc, p) \<leftarrow> jrnlWrite io disk z off p; Some ((rc, [], 0), p) }"
| "jrnl_step io disk (FRead n off) p = (let (rc, z) = jrnlRead io n off p in Some ((rc, if rc = SQLITE_OK then z else [], 0), p))"
| "jrnl_step io disk (FTruncate sz) p = (let (rc, p) = jrnlTruncate io sz p in Some ((rc, [], 0), p))"
| "jrnl_step io disk FSync p = Some ((jrnlSync io p, [], 0), p)"
| "jrnl_step io disk FSize p = (let (rc, n) = jrnlFileSize io p in Some ((rc, [], n), p))"
| "jrnl_step io disk FCreate p = do { (rc, p) \<leftarrow> sqlite3JournalCreate io disk p; Some ((rc, [], 0), p) }"

fun jrnl_run :: "jio \<Rightarrow> byte list \<Rightarrow> file_op list \<Rightarrow> JournalFile \<Rightarrow> (file_result list \<times> JournalFile) option" where
  "jrnl_run io disk [] p = Some ([], p)"
| "jrnl_run io disk (op # ops) p = do { (r, p) \<leftarrow> jrnl_step io disk op p; (rs, p) \<leftarrow> jrnl_run io disk ops p; Some (r # rs, p) }"

lemma create_contents:
  assumes "wf_journal p" "io_ok io"
  shows "\<exists>p'. createFile io [] p = Some (SQLITE_OK, p') \<and> wf_journal p' \<and> contents p' = contents p \<and> pReal p' \<noteq> None"
  using assms by (cases "pReal p") (auto simp: createFile_def wf_journal_def io_ok_def contents_def real_write_def osWrite_def Let_def)

lemma buffer_write:
  assumes "off \<le> sz" "off + length z \<le> length B" "sz \<le> length B"
  shows "take (max sz (off + length z)) (take off B @ z @ drop (off + length z) B) = osWrite (take sz B) z off"
proof (cases "z = []")
  case True
  then show ?thesis using assms by (simp add: osWrite_def)
next
  case False
  then have "off < length B" using assms(2) by (cases z) auto
  then show ?thesis using assms False by (auto simp: osWrite_def drop_take max_def min_def)
qed

lemma write_contents:
  assumes "wf_journal p" "io_ok io" "off \<le> length (contents p)"
  shows "\<exists>p'. jrnlWrite io [] z off p = Some (SQLITE_OK, p') \<and> wf_journal p' \<and> contents p' = osWrite (contents p) z off"
proof -
  obtain p1 where p1: "(if pReal p = None \<and> off + length z > nBuf p then createFile io [] p else Some (SQLITE_OK, p)) = Some (SQLITE_OK, p1)"
    "wf_journal p1" "contents p1 = contents p" "pReal p1 = None \<Longrightarrow> off + length z \<le> nBuf p1"
  proof (cases "pReal p = None \<and> off + length z > nBuf p")
    case True
    then show thesis using create_contents [OF assms(1,2)] that by auto
  next
    case False
    then show thesis using that [of p] assms(1) by auto
  qed
  show ?thesis
  proof (cases "pReal p1")
    case None
    then have "length (contents p1) = iSize p1" using p1(2) by (simp add: contents_def wf_journal_def)
    then have "off \<le> iSize p1" using assms(3) p1(3) by simp
    define p2 where "p2 = p1\<lparr>zBuf := take off (zBuf p1) @ z @ drop (off + length z) (zBuf p1), iSize := max (iSize p1) (off + length z)\<rparr>"
    have w: "off + length z \<le> length (zBuf p1)" "iSize p1 \<le> length (zBuf p1)" using p1(2,4) None by (auto simp: wf_journal_def)
    have "jrnlWrite io [] z off p = Some (SQLITE_OK, p2)"
      unfolding jrnlWrite_def p1(1) using None by (simp add: p2_def Let_def max_def)
    moreover have "contents p2 = osWrite (contents p) z off"
      using buffer_write [OF \<open>off \<le> iSize p1\<close> w] None p1(3) by (simp add: contents_def p2_def)
    moreover have "wf_journal p2" using p1(2) w \<open>off \<le> iSize p1\<close> by (auto simp: wf_journal_def p2_def)
    ultimately show ?thesis by blast
  next
    case (Some f)
    then show ?thesis using p1 assms(2) by (auto simp: jrnlWrite_def contents_def real_write_def io_ok_def wf_journal_def)
  qed
qed

lemma journal_step:
  assumes p: "wf_journal p" and io: "io_ok io" and st: "file_step op (contents p) = (r, f)" "file_ok op (contents p)"
  shows "\<exists>p'. jrnl_step io [] op p = Some (r, p') \<and> wf_journal p' \<and> contents p' = f"
proof (cases op)
  case (FWrite z off)
  then show ?thesis using write_contents [OF p io, of off z] st by auto
next
  case (FRead n off)
  then show ?thesis using st p io
    by (cases "pReal p") (auto simp: jrnlRead_def osRead_def contents_def wf_journal_def io_ok_def Let_def min_def drop_take split: if_splits)
next
  case (FTruncate sz)
  then show ?thesis using st p io
    by (cases "pReal p") (auto simp: jrnlTruncate_def contents_def wf_journal_def io_ok_def min_def)
next
  case FSync
  then show ?thesis using st p io by (auto simp: jrnlSync_def io_ok_def)
next
  case FSize
  then show ?thesis using st p io by (cases "pReal p") (auto simp: jrnlFileSize_def io_ok_def contents_def wf_journal_def)
next
  case FCreate
  then show ?thesis using st p create_contents [OF p io] by (auto simp: sqlite3JournalCreate_def wf_journal_def)
qed

lemma journal_run:
  "wf_journal p \<Longrightarrow> io_ok io \<Longrightarrow> journal_use ops (contents p) \<Longrightarrow> file_run ops (contents p) = (rs, f) \<Longrightarrow>
     \<exists>p'. jrnl_run io [] ops p = Some (rs, p') \<and> wf_journal p' \<and> contents p' = f"
proof (induction ops arbitrary: p rs f)
  case (Cons op ops)
  obtain r f1 where r: "file_step op (contents p) = (r, f1)" by fastforce
  obtain rs1 where rs: "file_run ops f1 = (rs1, f)" "rs = r # rs1" using r Cons.prems(4) by (auto split: prod.splits)
  obtain p1 where "jrnl_step io [] op p = Some (r, p1)" "wf_journal p1" "contents p1 = f1" using journal_step [OF Cons.prems(1,2) r] Cons.prems(3) by auto
  then show ?case using Cons.IH [of p1 rs1 f] r rs Cons.prems(2,3) by auto
qed simp

text \<open>
  C25. A journal file with a buffer stands for an ordinary file: if no file of its name is left over on disk and
  the system calls succeed, every sequence of writes without gaps, non-empty reads, truncations that do
  not extend, syncs, size queries and calls of \<open>sqlite3JournalCreate\<close> on a newly opened journal gives the
  results it gives on an empty file, at whatever point the file on disk is created, and leaves the same
  contents. The buffer differs from a file outside of these uses, as the lemmas below show.\<close>

theorem journal_is_file:
  assumes "io_ok io" "n > 0" "journal_use ops []"
  shows "\<exists>p'. jrnl_run io [] ops (snd (sqlite3JournalOpen io True [] n)) = Some (fst (file_run ops []), p') \<and>
              contents p' = snd (file_run ops [])"
proof -
  let ?p = "snd (sqlite3JournalOpen io True [] n)"
  have "wf_journal ?p" "contents ?p = []" using assms(2) by (simp_all add: sqlite3JournalOpen_def wf_journal_def contents_def)
  then show ?thesis using journal_run [of ?p io ops "fst (file_run ops [])" "snd (file_run ops [])"] assms by auto
qed

definition ex_jio :: jio where
  "ex_jio = \<lparr>jio_open = SQLITE_OK, jio_write = \<lambda>_. SQLITE_OK, jio_read = \<lambda>_. SQLITE_OK, jio_truncate = SQLITE_OK, jio_sync = SQLITE_OK,
    jio_size = SQLITE_OK, jio_partial = \<lambda>f. f\<rparr>"

theorem journal_is_file_witness:
  "\<exists>p'. jrnl_run ex_jio [] [FWrite [1] 0, FWrite [2, 3] 1, FTruncate 2, FRead 1 1] (snd (sqlite3JournalOpen ex_jio True [] 2))
      = Some ([(SQLITE_OK, [], 0), (SQLITE_OK, [], 0), (SQLITE_OK, [], 0), (SQLITE_OK, [2], 0)], p') \<and> contents p' = [1, 2]"
  using journal_is_file [of ex_jio 2 "[FWrite [1] 0, FWrite [2, 3] 1, FTruncate 2, FRead 1 1]"]
  by (simp add: io_ok_def ex_jio_def osWrite_def)

text \<open>
  Where the buffer differs from a file: a truncation that extends the file does nothing; a write behind the end shows
  bytes that an earlier truncation had cut off; and a file left over on disk keeps its bytes behind the buffered
  ones when it is opened.
\<close>

lemma buffer_truncate_grows:
  "pReal p = None \<Longrightarrow> iSize p \<le> sz \<Longrightarrow> jrnlTruncate io sz p = (SQLITE_OK, p)"
  by (simp add: jrnlTruncate_def)

lemma buffer_gap_stale:
  assumes "ops = [FWrite [1, 2, 3] 0, FTruncate 1, FWrite [9] 2]"
  shows "\<exists>rs p'. jrnl_run io disk ops (snd (sqlite3JournalOpen io True disk 8)) = Some (rs, p') \<and> contents p' = [1, 2, 9]"
    and "snd (file_run ops []) = [1, 0, 9]"
  by (simp_all add: assms sqlite3JournalOpen_def jrnlWrite_def jrnlTruncate_def contents_def Let_def osWrite_def numeral_eq_Suc)

lemma create_keeps_leftover:
  assumes "wf_journal p" "io_ok io" "pReal p = None"
  shows "\<exists>p'. createFile io disk p = Some (SQLITE_OK, p') \<and> contents p' = contents p @ drop (length (contents p)) disk"
  using assms by (auto simp: createFile_def wf_journal_def io_ok_def contents_def real_write_def osWrite_def Let_def)

text \<open>
  When the file is created and the write of the buffered bytes fails, \<open>pReal\<close> stays set although the
  bytes are not in the file.
\<close>

lemma create_failure_loses_buffer:
  assumes "pReal p = None" "jio_open io = SQLITE_OK" "0 < iSize p" "iSize p \<le> nBuf p" "jio_write io 0 = SQLITE_FULL" "jio_partial io [] = []"
  shows "\<exists>p'. createFile io [] p = Some (SQLITE_FULL, p') \<and> contents p' = [] \<and> pReal p' \<noteq> None"
  using assms by (simp add: createFile_def Let_def real_write_def contents_def)

end
