(* ===== verification/Like.thy ===== *)
theory Like
  imports Ctype
begin

text \<open>
  UTF-8 decoding, src/utf.go, and the pattern matching of LIKE and GLOB, \<open>patternCompare\<close> of
  src/func.go. Texts are the bytes before the terminating NUL; unsigned integers have 32 bits. The
  matcher is compared with a declarative notion of matching on sequences of code points.
\<close>

section \<open>UTF-8\<close>

definition sqlite3Utf8Trans1 :: "nat list" where
  "sqlite3Utf8Trans1 =
     [0x00, 0x01, 0x02, 0x03, 0x04, 0x05, 0x06, 0x07, 0x08, 0x09, 0x0a, 0x0b, 0x0c, 0x0d, 0x0e, 0x0f,
      0x10, 0x11, 0x12, 0x13, 0x14, 0x15, 0x16, 0x17, 0x18, 0x19, 0x1a, 0x1b, 0x1c, 0x1d, 0x1e, 0x1f,
      0x00, 0x01, 0x02, 0x03, 0x04, 0x05, 0x06, 0x07, 0x08, 0x09, 0x0a, 0x0b, 0x0c, 0x0d, 0x0e, 0x0f,
      0x00, 0x01, 0x02, 0x03, 0x04, 0x05, 0x06, 0x07, 0x00, 0x01, 0x02, 0x03, 0x00, 0x01, 0x00, 0x00]"

text \<open>The continuation bytes.\<close>

fun utf8_rest :: "nat \<Rightarrow> byte list \<Rightarrow> nat \<times> byte list" where
  "utf8_rest c [] = (c, [])"
| "utf8_rest c (b # z) = (if b AND 0xc0 = 0x80 then utf8_rest ((c * 64 + unat (0x3f AND b)) mod 2 ^ 32) z else (c, b # z))"

text \<open>At the end of the text the terminator is read; the code never reads on after it.\<close>

fun sqlite3Utf8Read :: "byte list \<Rightarrow> nat \<times> byte list" where
  "sqlite3Utf8Read [] = (0, [])"
| "sqlite3Utf8Read (b # z) =
     (if unat b \<ge> 0xc0 then
        let (c, z) = utf8_rest (sqlite3Utf8Trans1 ! (unat b - 0xc0)) z
        in (if c < 0x80 \<or> c AND 0xFFFFF800 = 0xD800 \<or> c AND 0xFFFFFFFE = 0xFFFE then 0xFFFD else c, z)
      else (unat b, z))"

fun utf8_skip_rest :: "byte list \<Rightarrow> byte list" where
  "utf8_skip_rest [] = []"
| "utf8_skip_rest (b # z) = (if b AND 0xc0 = 0x80 then utf8_skip_rest z else b # z)"

definition SQLITE_SKIP_UTF8 :: "byte list \<Rightarrow> byte list" where
  "SQLITE_SKIP_UTF8 z = (if unat (hd z) \<ge> 0xc0 then utf8_skip_rest (tl z) else tl z)"

lemma utf8_rest_length: "length (snd (utf8_rest c z)) \<le> length z"
  by (induction c z rule: utf8_rest.induct) auto

lemma utf8_rest_skip: "snd (utf8_rest c z) = utf8_skip_rest z"
  by (induction c z rule: utf8_rest.induct) auto

lemma Utf8Read_length: "z \<noteq> [] \<Longrightarrow> length (snd (sqlite3Utf8Read z)) < length z"
  using utf8_rest_length by (cases z) (auto simp: case_prod_beta Let_def less_Suc_eq_le)

lemma Utf8Read_skip: "z \<noteq> [] \<Longrightarrow> snd (sqlite3Utf8Read z) = SQLITE_SKIP_UTF8 z"
  by (cases z) (auto simp: SQLITE_SKIP_UTF8_def utf8_rest_skip case_prod_beta Let_def)

function sqlite3Utf8CharLen_loop :: "byte list \<Rightarrow> nat \<Rightarrow> nat \<Rightarrow> nat" where
  "sqlite3Utf8CharLen_loop z n r =
     (if z \<noteq> [] \<and> n > 0 then sqlite3Utf8CharLen_loop (SQLITE_SKIP_UTF8 z) (n - (length z - length (SQLITE_SKIP_UTF8 z))) (r + 1) else r)"
  by pat_completeness auto
termination sqlite3Utf8CharLen_loop
  by (relation "measure (\<lambda>(z, n, r). length z)") (use Utf8Read_length Utf8Read_skip in fastforce)+

declare sqlite3Utf8CharLen_loop.simps [simp del]

text \<open>The count of characters in the first \<open>nByte\<close> bytes, or in the whole text if \<open>nByte\<close> is negative.\<close>

definition sqlite3Utf8CharLen :: "byte list \<Rightarrow> int \<Rightarrow> nat" where
  "sqlite3Utf8CharLen z nByte = sqlite3Utf8CharLen_loop z (if nByte \<ge> 0 then nat nByte else length z + 1) 0"

section \<open>The matcher\<close>

record compareInfo =
  matchAll :: nat
  matchOne :: nat
  matchSet :: nat
  noCase :: bool

definition globInfo :: compareInfo where "globInfo = \<lparr>matchAll = 42, matchOne = 63, matchSet = 91, noCase = False\<rparr>"
definition likeInfoNorm :: compareInfo where "likeInfoNorm = \<lparr>matchAll = 37, matchOne = 95, matchSet = 0, noCase = True\<rparr>"
definition likeInfoAlt :: compareInfo where "likeInfoAlt = \<lparr>matchAll = 37, matchOne = 95, matchSet = 0, noCase = False\<rparr>"

definition GlogUpperToLower :: "nat \<Rightarrow> nat" where
  "GlogUpperToLower A = (if A < 0x80 then sqlite3UpperToLower ! A else A)"

definition foldcase :: "compareInfo \<Rightarrow> nat \<Rightarrow> nat" where
  "foldcase pInfo c = (if noCase pInfo then GlogUpperToLower c else c)"

text \<open>The run of wildcards behind a \<open>matchAll\<close>: None if the text is too short for it.\<close>

function star_skip :: "compareInfo \<Rightarrow> byte list \<Rightarrow> byte list \<Rightarrow> (nat \<times> byte list \<times> byte list) option" where
  "star_skip pInfo P S =
     (if P = [] then Some (0, [], S)
      else if fst (sqlite3Utf8Read P) = matchAll pInfo \<or> fst (sqlite3Utf8Read P) = matchOne pInfo then
        if fst (sqlite3Utf8Read P) = matchOne pInfo \<and> S = [] then None
        else star_skip pInfo (snd (sqlite3Utf8Read P))
               (if fst (sqlite3Utf8Read P) = matchOne pInfo then snd (sqlite3Utf8Read S) else S)
      else Some (fst (sqlite3Utf8Read P), snd (sqlite3Utf8Read P), S))"
  by pat_completeness auto
termination star_skip by (relation "measure (\<lambda>(i, P, S). length P)") (simp_all add: Utf8Read_length)

text \<open>The search for the next occurrence of a character.\<close>

function star_find :: "compareInfo \<Rightarrow> nat \<Rightarrow> nat \<Rightarrow> byte list \<Rightarrow> nat \<times> byte list" where
  "star_find pInfo c c2 S =
     (if c2 \<noteq> 0 \<and> c2 \<noteq> c then star_find pInfo c (foldcase pInfo (fst (sqlite3Utf8Read S))) (snd (sqlite3Utf8Read S)) else (c2, S))"
  by pat_completeness auto

lemma foldcase_0 [simp]: "foldcase pInfo 0 = 0"
  by (simp add: foldcase_def GlogUpperToLower_def sqlite3UpperToLower_def)

termination star_find
proof (relation "measure (\<lambda>(i, c, c2, S). 2 * length S + of_bool (c2 \<noteq> 0))")
  fix i and c c2 :: nat and S :: "byte list"
  assume "c2 \<noteq> 0 \<and> c2 \<noteq> c"
  then show "((i, c, foldcase i (fst (sqlite3Utf8Read S)), snd (sqlite3Utf8Read S)), i, c, c2, S)
    \<in> measure (\<lambda>(i, c, c2, S). 2 * length S + of_bool (c2 \<noteq> 0))"
    using Utf8Read_length [of S] by (cases "S = []") (auto simp: of_bool_def)
qed simp

declare star_find.simps [simp del] star_skip.simps [simp del]

lemma star_find_length: "length (snd (star_find pInfo c c2 S)) \<le> length S"
proof (induction pInfo c c2 S rule: star_find.induct)
  case (1 i c c2 S)
  have "length (snd (sqlite3Utf8Read S)) \<le> length S" using Utf8Read_length [of S] by (cases "S = []") auto
  then show ?case using 1 by (auto simp: star_find.simps [of i c c2 S])
qed

function star_search :: "(byte list \<Rightarrow> bool) \<Rightarrow> compareInfo \<Rightarrow> nat \<Rightarrow> byte list \<Rightarrow> bool" where
  "star_search rest pInfo c S =
     (if S = [] then False
      else
        if fst (star_find pInfo (foldcase pInfo c) (foldcase pInfo (fst (sqlite3Utf8Read S))) (snd (sqlite3Utf8Read S))) = 0 then False
        else if rest (snd (star_find pInfo (foldcase pInfo c) (foldcase pInfo (fst (sqlite3Utf8Read S))) (snd (sqlite3Utf8Read S)))) then True
        else star_search rest pInfo c (snd (star_find pInfo (foldcase pInfo c) (foldcase pInfo (fst (sqlite3Utf8Read S))) (snd (sqlite3Utf8Read S)))))"
  by pat_completeness auto
termination star_search
  by (relation "measure (\<lambda>(r, i, c, S). length S)") (auto intro: order.strict_trans1 [OF star_find_length Utf8Read_length])

declare star_search.simps [simp del]

text \<open>The search behind a \<open>matchAll\<close> that is followed by a set.\<close>

function set_search :: "(byte list \<Rightarrow> bool) \<Rightarrow> byte list \<Rightarrow> bool" where
  "set_search rest S = (if S \<noteq> [] \<and> \<not> rest S then set_search rest (SQLITE_SKIP_UTF8 S) else S \<noteq> [])"
  by pat_completeness auto
termination set_search
  by (relation "measure (\<lambda>(r, S). length S)") (use Utf8Read_length Utf8Read_skip in fastforce)+

declare set_search.simps [simp del]

text \<open>
  The characters of a set: \<open>c\<close> is the character of the text, \<open>c2\<close> the last one read of the pattern and
  \<open>prior_c\<close> the one before it if a range may start there.
\<close>

function set_scan :: "nat \<Rightarrow> nat \<Rightarrow> nat \<Rightarrow> bool \<Rightarrow> byte list \<Rightarrow> nat \<times> bool \<times> byte list" where
  "set_scan c prior_c c2 seen P =
     (if c2 \<noteq> 0 \<and> c2 \<noteq> 93 then
        if c2 = 45 \<and> P \<noteq> [] \<and> hd P \<noteq> 93 \<and> prior_c > 0 then
          set_scan c 0 (fst (sqlite3Utf8Read (snd (sqlite3Utf8Read P)))) (seen \<or> prior_c \<le> c \<and> c \<le> fst (sqlite3Utf8Read P))
            (snd (sqlite3Utf8Read (snd (sqlite3Utf8Read P))))
        else set_scan c c2 (fst (sqlite3Utf8Read P)) (seen \<or> c = c2) (snd (sqlite3Utf8Read P))
      else (c2, seen, P))"
  by pat_completeness auto

lemma Utf8Read_measure: "2 * length (snd (sqlite3Utf8Read P)) + of_bool (fst (sqlite3Utf8Read P) \<noteq> 0) < 2 * length P + 1"
  using Utf8Read_length [of P] by (cases "P = []") (auto simp: of_bool_def)

termination set_scan
proof (relation "measure (\<lambda>(c, prior_c, c2, seen, P). 2 * length P + of_bool (c2 \<noteq> 0))")
  fix c prior_c c2 :: nat and seen and P :: "byte list"
  assume a: "c2 \<noteq> 0 \<and> c2 \<noteq> 93"
  let ?P = "snd (sqlite3Utf8Read P)"
  show "((c, c2, fst (sqlite3Utf8Read P), seen \<or> c = c2, ?P), c, prior_c, c2, seen, P)
    \<in> measure (\<lambda>(c, prior_c, c2, seen, P). 2 * length P + of_bool (c2 \<noteq> 0))"
    using a Utf8Read_measure [of P] by simp
  show "((c, 0, fst (sqlite3Utf8Read ?P), seen \<or> prior_c \<le> c \<and> c \<le> fst (sqlite3Utf8Read P), snd (sqlite3Utf8Read ?P)), c, prior_c, c2, seen, P)
    \<in> measure (\<lambda>(c, prior_c, c2, seen, P). 2 * length P + of_bool (c2 \<noteq> 0))" if "c2 = 45 \<and> P \<noteq> [] \<and> hd P \<noteq> 93 \<and> prior_c > 0"
    using a that Utf8Read_measure [of ?P] Utf8Read_length [of P] by simp
qed simp

declare set_scan.simps [simp del]

text \<open>A set, behind its opening bracket, against the character \<open>c\<close>: the rest of the pattern, or None if it does not match.\<close>

definition set_match :: "nat \<Rightarrow> byte list \<Rightarrow> byte list option" where
  "set_match c P =
     (let (c2, P) = sqlite3Utf8Read P;
          (invert, c2, P) = (if c2 = 94 then (True, sqlite3Utf8Read P) else (False, c2, P));
          (seen, c2, P) = (if c2 = 93 then (c = 93, sqlite3Utf8Read P) else (False, c2, P));
          (c2, seen, P) = set_scan c 0 c2 seen P
      in if c2 = 0 \<or> seen = invert then None else Some P)"

lemma set_scan_length: "length (snd (snd (set_scan c p c2 s P))) \<le> length P"
proof (induction c p c2 s P rule: set_scan.induct)
  case (1 c p c2 s P)
  have r: "length (snd (sqlite3Utf8Read Q)) \<le> length Q" for Q using Utf8Read_length [of Q] by (cases "Q = []") auto
  show ?case using 1 r [of P] r [of "snd (sqlite3Utf8Read P)"] by (subst set_scan.simps) auto
qed

lemma set_match_length: "set_match c P = Some P' \<Longrightarrow> length P' \<le> length P"
proof -
  have r: "length (snd (sqlite3Utf8Read Q)) \<le> length Q" for Q using Utf8Read_length [of Q] by (cases "Q = []") auto
  assume "set_match c P = Some P'"
  then show "length P' \<le> length P"
    using order_trans [OF set_scan_length r] order_trans [OF order_trans [OF set_scan_length r] r] 
    order_trans [OF order_trans [OF order_trans [OF set_scan_length r] r] r]
    by (auto simp: set_match_def Let_def case_prod_beta split: if_splits)
qed

lemma star_skip_length: "star_skip i P S = Some (c, P', S') \<Longrightarrow> length P' \<le> length P \<and> (c \<noteq> 0 \<longrightarrow> length P' < length P)"
proof (induction i P S rule: star_skip.induct)
  case (1 i P S)
  show ?case
  proof (cases "P = []")
    case False
    note l = Utf8Read_length [OF False]
    show ?thesis
    proof (cases "fst (sqlite3Utf8Read P) = matchAll i \<or> fst (sqlite3Utf8Read P) = matchOne i")
      case True
      then have n: "\<not> (fst (sqlite3Utf8Read P) = matchOne i \<and> S = [])" using 1(2) False by (auto simp: star_skip.simps [of i P S])
      then have "star_skip i (snd (sqlite3Utf8Read P)) (if fst (sqlite3Utf8Read P) = matchOne i then snd (sqlite3Utf8Read S) else S) = Some (c, P', S')"
        using 1(2) False True by (simp add: star_skip.simps [of i P S] split: if_splits)
      from 1(1) [OF False True n this] l show ?thesis by auto
    next
      case no: False
      then show ?thesis using 1(2) False l by (simp add: star_skip.simps [of i P S])
    qed
  qed (use 1 in \<open>auto simp: star_skip.simps\<close>)
qed

text \<open>
  The loop of \<open>patternCompare\<close>. The two assertions of the code, that there is no escape character when
  a set is met, are a hypothesis of the theorem below.
\<close>

function patternCompare_loop :: "compareInfo \<Rightarrow> nat \<Rightarrow> bool \<Rightarrow> byte list \<Rightarrow> byte list \<Rightarrow> bool" where
  "patternCompare_loop pInfo esc prevEscape P S =
     (if P = [] then S = []
      else case sqlite3Utf8Read P of (c, P1) \<Rightarrow>
        if \<not> prevEscape \<and> c = matchAll pInfo then
          (case star_skip pInfo P1 S of None \<Rightarrow> False
           | Some (c, P2, S) \<Rightarrow>
             if c = 0 then True
             else if c = esc then
               if P2 = [] then False
               else star_search (\<lambda>S. patternCompare_loop pInfo esc False (snd (sqlite3Utf8Read P2)) S) pInfo (fst (sqlite3Utf8Read P2)) S
             else if c = matchSet pInfo then
               set_search (\<lambda>S. patternCompare_loop pInfo esc False (of_nat (matchSet pInfo) # P2) S) S
             else star_search (\<lambda>S. patternCompare_loop pInfo esc False P2 S) pInfo c S)
        else if \<not> prevEscape \<and> c = matchOne pInfo then
          if S = [] then False else patternCompare_loop pInfo esc prevEscape P1 (snd (sqlite3Utf8Read S))
        else if c = matchSet pInfo then
          if S = [] then False
          else (case set_match (fst (sqlite3Utf8Read S)) P1 of None \<Rightarrow> False
                | Some P2 \<Rightarrow> patternCompare_loop pInfo esc prevEscape P2 (snd (sqlite3Utf8Read S)))
        else if esc = c \<and> \<not> prevEscape then patternCompare_loop pInfo esc True P1 S
        else if foldcase pInfo c \<noteq> foldcase pInfo (fst (sqlite3Utf8Read S)) then False
        else patternCompare_loop pInfo esc False P1 (snd (sqlite3Utf8Read S)))"
  by pat_completeness auto

lemma Utf8Read_pair: "(c, P1) = sqlite3Utf8Read P \<Longrightarrow> P \<noteq> [] \<Longrightarrow> length P1 < length P"
  using Utf8Read_length [of P] by (cases "sqlite3Utf8Read P") auto

termination patternCompare_loop
  by (relation "measure (\<lambda>(i, e, p, P, S). length P)")
    (auto dest!: star_skip_length Utf8Read_pair set_match_length Utf8Read_length)

declare patternCompare_loop.simps [simp del]

definition patternCompare :: "byte list \<Rightarrow> byte list \<Rightarrow> compareInfo \<Rightarrow> nat \<Rightarrow> bool" where
  "patternCompare zPattern zString pInfo esc = patternCompare_loop pInfo esc False zPattern zString"

section \<open>Code points\<close>

function decode :: "byte list \<Rightarrow> nat list" where
  "decode z = (if z = [] then [] else fst (sqlite3Utf8Read z) # decode (snd (sqlite3Utf8Read z)))"
  by pat_completeness auto
termination decode by (relation "measure length") (simp_all add: Utf8Read_length)

declare decode.simps [simp del]

lemma decode_Nil [simp]: "decode [] = []"
  by (simp add: decode.simps)

lemma decode_step: "z \<noteq> [] \<Longrightarrow> decode z = fst (sqlite3Utf8Read z) # decode (snd (sqlite3Utf8Read z))"
  by (simp add: decode.simps [of z])

lemma decode_eq_Nil [simp]: "decode z = [] \<longleftrightarrow> z = []"
  by (cases "z = []") (simp_all add: decode_step)

lemma decode_ascii: "unat b < 128 \<Longrightarrow> decode (b # z) = unat b # decode z"
  by (simp add: decode_step)

lemma utf8_skip_rest_set: "set (utf8_skip_rest z) \<subseteq> set z"
  by (induction z) auto

lemma Utf8Read_set: "set (snd (sqlite3Utf8Read z)) \<subseteq> set z"
  using utf8_skip_rest_set [of "tl z"] by (cases z) (auto simp: utf8_rest_skip case_prod_beta Let_def)

lemma Utf8Read_nul: "0 \<notin> set z \<Longrightarrow> 0 \<notin> set (snd (sqlite3Utf8Read z))"
  using Utf8Read_set by blast

lemma Utf8Read_nonzero: "z \<noteq> [] \<Longrightarrow> 0 \<notin> set z \<Longrightarrow> fst (sqlite3Utf8Read z) \<noteq> 0"
  by (cases z) (auto simp: case_prod_beta Let_def unat_gt_0)

lemma Utf8Read_ascii: "z \<noteq> [] \<Longrightarrow> n < 128 \<Longrightarrow> fst (sqlite3Utf8Read z) = n \<longleftrightarrow> unat (hd z) = n"
  by (cases z) (auto simp: case_prod_beta Let_def)

section \<open>Matching, declaratively\<close>

text \<open>
  A pattern is a list of items. \<open>Never\<close> stands for an unterminated set, and for an escape character that
  ends the pattern right behind a run of wildcards; elsewhere an escape at the end is ignored.
\<close>

datatype pat_item = Any | One | Lit nat | Set bool "(nat \<times> nat) list" | Never

definition in_ranges :: "nat \<Rightarrow> (nat \<times> nat) list \<Rightarrow> bool" where
  "in_ranges d rs = list_ex (\<lambda>(a, b). a \<le> d \<and> d \<le> b) rs"

fun matches :: "compareInfo \<Rightarrow> pat_item list \<Rightarrow> nat list \<Rightarrow> bool" where
  "matches i [] s = (s = [])"
| "matches i (Any # ps) s = (\<exists>n \<le> length s. matches i ps (drop n s))"
| "matches i (One # ps) s = (s \<noteq> [] \<and> matches i ps (tl s))"
| "matches i (Lit c # ps) s = (s \<noteq> [] \<and> foldcase i (hd s) = foldcase i c \<and> matches i ps (tl s))"
| "matches i (Set invrt rs # ps) s = (s \<noteq> [] \<and> in_ranges (hd s) rs \<noteq> invrt \<and> matches i ps (tl s))"
| "matches i (Never # ps) s = False"

text \<open>The ranges of a set, up to its closing bracket; \<open>prior\<close> is a character that may start a range, or 0.\<close>

fun set_items :: "nat \<Rightarrow> nat list \<Rightarrow> ((nat \<times> nat) list \<times> nat list) option" where
  "set_items prior [] = None"
| "set_items prior [c] = (if c = 93 then Some ([], []) else None)"
| "set_items prior (c # d # p) =
     (if c = 93 then Some ([], d # p)
      else if c = 45 \<and> d \<noteq> 93 \<and> prior > 0 then map_option (\<lambda>(rs, q). ((prior, d) # rs, q)) (set_items 0 p)
      else map_option (\<lambda>(rs, q). ((c, c) # rs, q)) (set_items c (d # p)))"

definition parse_set :: "nat list \<Rightarrow> (bool \<times> (nat \<times> nat) list \<times> nat list) option" where
  "parse_set p =
     (let (invrt, p) = (if p \<noteq> [] \<and> hd p = 94 then (True, tl p) else (False, p));
          (rs, p) = (if p \<noteq> [] \<and> hd p = 93 then ([(93, 93)], tl p) else ([], p))
      in map_option (\<lambda>(rs', q). (invrt, rs @ rs', q)) (set_items 0 p))"

lemma set_items_length: "set_items prior p = Some (rs, q) \<Longrightarrow> length q < length p"
  by (induction prior p arbitrary: rs rule: set_items.induct) (fastforce split: if_splits)+

lemma parse_set_length: "parse_set p = Some (invrt, rs, q) \<Longrightarrow> length q \<le> length p"
  by (auto simp: parse_set_def Let_def split: if_splits dest!: set_items_length)

text \<open>\<open>star\<close> says that a \<open>matchAll\<close> and only wildcards come right before.\<close>

function parse_pattern :: "compareInfo \<Rightarrow> nat \<Rightarrow> bool \<Rightarrow> nat list \<Rightarrow> pat_item list" where
  "parse_pattern i esc star [] = []"
| "parse_pattern i esc star (c # p) =
     (if c = matchAll i then Any # parse_pattern i esc True p
      else if c = matchOne i then One # parse_pattern i esc star p
      else if c = matchSet i then
        (case parse_set p of None \<Rightarrow> [Never] | Some (invrt, rs, q) \<Rightarrow> Set invrt rs # parse_pattern i esc False q)
      else if c = esc then
        (case p of [] \<Rightarrow> if star then [Never] else [] | d # q \<Rightarrow> Lit d # parse_pattern i esc False q)
      else Lit c # parse_pattern i esc False p)"
  by pat_completeness auto
termination parse_pattern
  by (relation "measure (\<lambda>(i, e, s, p). length p)") (auto dest!: parse_set_length)

section \<open>The loops against the specification\<close>

lemma matches_Any_Cons: "matches i (Any # ps) (d # t) \<longleftrightarrow> matches i ps (d # t) \<or> matches i (Any # ps) t"
proof -
  have "(\<exists>n \<le> Suc (length t). matches i ps (drop n (d # t))) \<longleftrightarrow> matches i ps (d # t) \<or> (\<exists>n \<le> length t. matches i ps (drop n t))"
    (is "?l \<longleftrightarrow> ?r")
  proof
    assume ?l
    then obtain n where n: "n \<le> Suc (length t)" "matches i ps (drop n (d # t))" by blast
    then show ?r by (cases n) auto
  next
    assume ?r
    then show ?l by (metis Suc_le_mono bot_nat_0.extremum drop0 drop_Suc_Cons)
  qed
  then show ?thesis by simp
qed

lemma matches_Any_Nil: "matches i (Any # ps) [] \<longleftrightarrow> matches i ps []"
  by simp

lemmas matches_Any = matches_Any_Nil matches_Any_Cons
declare matches.simps(2) [simp del]

lemma matches_Any_Any: "matches i (Any # Any # ps) s \<longleftrightarrow> matches i (Any # ps) s"
  by (induction s) (auto simp: matches_Any)

lemma matches_Any_One: "matches i (Any # One # ps) s \<longleftrightarrow> s \<noteq> [] \<and> matches i (Any # ps) (tl s)"
proof (induction s)
  case (Cons d t)
  then show ?case by (cases t) (auto simp: matches_Any)
qed (simp add: matches_Any)

lemma matches_Any_end: "matches i [Any] s"
  by (induction s) (auto simp: matches_Any)

lemma foldcase_nonzero: "c \<noteq> 0 \<Longrightarrow> foldcase i c \<noteq> 0"
  by (simp add: foldcase_def GlogUpperToLower_def charMap_table)

text \<open>The search for a character finds the next place where it can stand.\<close>

lemma star_find_matches:
  assumes "c \<noteq> 0" "c2 \<noteq> 0" "0 \<notin> set S"
  shows "(c2 = foldcase i c \<and> matches i ps (decode S) \<or> matches i (Any # Lit c # ps) (decode S)) \<longleftrightarrow>
         fst (star_find i (foldcase i c) c2 S) \<noteq> 0 \<and>
         (matches i ps (decode (snd (star_find i (foldcase i c) c2 S))) \<or>
          matches i (Any # Lit c # ps) (decode (snd (star_find i (foldcase i c) c2 S))))"
  using assms(2,3)
proof (induction i "foldcase i c" c2 S rule: star_find.induct)
  case (1 i c2 S)
  show ?case
  proof (cases "c2 = foldcase i c")
    case True
    then show ?thesis using 1(2) by (simp add: star_find.simps)
  next
    case ne: False
    note step = star_find.simps [of i "foldcase i c" c2 S]
    show ?thesis
    proof (cases "S = []")
      case True
      then show ?thesis using ne 1(2) by (simp add: star_find.simps [of i "foldcase i c" c2 "[]"] star_find.simps [of i "foldcase i c" 0] matches_Any)
    next
      case False
      then have "foldcase i (fst (sqlite3Utf8Read S)) \<noteq> 0" using 1(3) by (simp add: foldcase_nonzero Utf8Read_nonzero)
      from 1(1) [OF _ this Utf8Read_nul [OF 1(3)]] show ?thesis
        using ne 1(2) False by (simp add: step decode_step matches_Any)
    qed
  qed
qed

lemma star_find_nul: "0 \<notin> set S \<Longrightarrow> 0 \<notin> set (snd (star_find i c c2 S))"
proof (induction i c c2 S rule: star_find.induct)
  case (1 i c c2 S)
  then show ?case using Utf8Read_nul [of S] by (simp add: star_find.simps [of i c c2 S])
qed

lemma star_search_matches:
  assumes "\<And>S. 0 \<notin> set S \<Longrightarrow> rest S = matches i ps (decode S)" "c \<noteq> 0" "0 \<notin> set S"
  shows "star_search rest i c S = matches i (Any # Lit c # ps) (decode S)"
  using assms
proof (induction rest i c S rule: star_search.induct)
  case (1 rest i c S)
  show ?case
  proof (cases "S = []")
    case False
    let ?f = "star_find i (foldcase i c) (foldcase i (fst (sqlite3Utf8Read S))) (snd (sqlite3Utf8Read S))"
    have nz: "foldcase i (fst (sqlite3Utf8Read S)) \<noteq> 0" using False 1(4) by (simp add: foldcase_nonzero Utf8Read_nonzero)
    have n1: "0 \<notin> set (snd ?f)" by (rule star_find_nul [OF Utf8Read_nul [OF 1(4)]])
    have "matches i (Any # Lit c # ps) (decode S) \<longleftrightarrow>
      fst ?f \<noteq> 0 \<and> (matches i ps (decode (snd ?f)) \<or> matches i (Any # Lit c # ps) (decode (snd ?f)))"
      using star_find_matches [OF 1(3) nz Utf8Read_nul [OF 1(4)], where ps = ps] False by (simp add: decode_step matches_Any)
    then show ?thesis
      using 1(1) [OF False _ _ 1(2) 1(3) n1] 1(2) [OF n1] False by (simp add: star_search.simps [of rest i c S])
  qed (simp add: star_search.simps matches_Any)
qed

lemma set_search_matches:
  assumes "\<And>S. 0 \<notin> set S \<Longrightarrow> rest S = matches i ps (decode S)" "\<not> matches i ps []" "0 \<notin> set S"
  shows "set_search rest S = matches i (Any # ps) (decode S)"
  using assms
proof (induction rest S rule: set_search.induct)
  case (1 rest S)
  show ?case
  proof (cases "S = []")
    case False
    have "0 \<notin> set (SQLITE_SKIP_UTF8 S)" using Utf8Read_nul [OF 1(4)] by (simp add: Utf8Read_skip [OF False])
    then show ?thesis using 1 False by (simp add: set_search.simps [of rest S] decode_step matches_Any Utf8Read_skip)
  qed (use 1 in \<open>simp add: set_search.simps matches_Any\<close>)
qed

lemma unat_numeral_93: "(b :: byte) = 93 \<longleftrightarrow> unat b = 93"
  by (simp add: word_unat_eq_iff)

text \<open>A run of wildcards behind a \<open>matchAll\<close> is a \<open>matchAll\<close> behind as many characters as the run asks for.\<close>

lemma star_skip_matches:
  assumes "0 \<notin> set P" "0 \<notin> set S" "matchAll i \<noteq> matchOne i"
  shows "case star_skip i P S of
           None \<Rightarrow> \<not> matches i (Any # parse_pattern i esc True (decode P)) (decode S)
         | Some (c, P', S') \<Rightarrow>
             0 \<notin> set P' \<and> 0 \<notin> set S' \<and> (c = 0 \<or> c \<noteq> matchAll i \<and> c \<noteq> matchOne i) \<and>
             (matches i (Any # parse_pattern i esc True (decode P)) (decode S) \<longleftrightarrow>
              matches i (Any # parse_pattern i esc True (if c = 0 then [] else c # decode P')) (decode S'))"
  using assms
proof (induction i P S rule: star_skip.induct)
  case (1 i P S)
  note step = star_skip.simps [of i P S]
  show ?case
  proof (cases "P = []")
    case False
    let ?c = "fst (sqlite3Utf8Read P)"
    have nz: "?c \<noteq> 0" by (rule Utf8Read_nonzero [OF False 1(2)])
    show ?thesis
    proof (cases "?c = matchAll i \<or> ?c = matchOne i")
      case w: True
      show ?thesis
      proof (cases "?c = matchOne i \<and> S = []")
        case True
        then show ?thesis using False 1(4) star_skip.simps [of i P "[]"] by (simp add: decode_step matches_Any)
      next
        case ne: False
        then have "0 \<notin> set (if ?c = matchOne i then snd (sqlite3Utf8Read S) else S)" using 1(3) Utf8Read_nul by auto
        note IH = 1(1) [OF False w ne Utf8Read_nul [OF 1(2)] this 1(4)]
        have eq: "star_skip i P S = star_skip i (snd (sqlite3Utf8Read P)) (if ?c = matchOne i then snd (sqlite3Utf8Read S) else S)"
          using False w ne by (cases "?c = matchOne i") (simp_all add: step)
        have m: "matches i (Any # parse_pattern i esc True (decode P)) (decode S) =
          matches i (Any # parse_pattern i esc True (decode (snd (sqlite3Utf8Read P)))) (decode (if ?c = matchOne i then snd (sqlite3Utf8Read S) else S))"
        proof (cases "?c = matchOne i")
          case True
          then show ?thesis using ne 1(4) by (simp add: decode_step [OF False] decode_step [of S] matches_Any_One)
        next
          case no: False
          then show ?thesis using w by (simp add: decode_step [OF False] matches_Any_Any)
        qed
        show ?thesis using IH by (simp only: eq m)
      qed
    next
      case nw: False
      then show ?thesis using False nz 1(2,3) Utf8Read_nul by (simp add: step decode_step)
    qed
  qed (use 1 in \<open>simp add: star_skip.simps\<close>)
qed

definition ahead :: "nat \<Rightarrow> byte list \<Rightarrow> nat list" where
  "ahead c P = (if c = 0 then [] else c # decode P)"

lemma ahead_read: "0 \<notin> set P \<Longrightarrow> ahead (fst (sqlite3Utf8Read P)) (snd (sqlite3Utf8Read P)) = decode P"
  using Utf8Read_nonzero by (cases "P = []") (simp_all add: ahead_def decode_step)

lemma set_scan_items:
  assumes "0 \<notin> set P"
  shows "case set_items prior (ahead c2 P) of
           None \<Rightarrow> fst (set_scan c prior c2 seen P) = 0
         | Some (rs, p) \<Rightarrow> fst (set_scan c prior c2 seen P) \<noteq> 0 \<and>
             fst (snd (set_scan c prior c2 seen P)) = (seen \<or> in_ranges c rs) \<and>
             decode (snd (snd (set_scan c prior c2 seen P))) = p \<and> 0 \<notin> set (snd (snd (set_scan c prior c2 seen P)))"
  using assms
proof (induction c prior c2 seen P rule: set_scan.induct)
  case (1 c prior c2 seen P)
  note step = set_scan.simps [of c prior c2 seen P]
  show ?case
  proof (cases "c2 \<noteq> 0 \<and> c2 \<noteq> 93")
    case go: True
    let ?r = "sqlite3Utf8Read P" and ?r2 = "sqlite3Utf8Read (snd (sqlite3Utf8Read P))"
    note n1 = Utf8Read_nul [OF 1(3)] note n2 = Utf8Read_nul [OF n1]
    show ?thesis
    proof (cases "P = []")
      case True
      then show ?thesis using go set_scan.simps [of c c2 0 "seen \<or> c = c2" "[]"] set_scan.simps [of c prior c2 seen "[]"] by (simp add: ahead_def)
    next
      case False
      have nz: "fst ?r \<noteq> 0" by (rule Utf8Read_nonzero [OF False 1(3)])
      have e: "hd P \<noteq> 93 \<longleftrightarrow> fst ?r \<noteq> 93" using Utf8Read_ascii [OF False, of 93] unat_numeral_93 [of "hd P"] by simp
      show ?thesis
      proof (cases "c2 = 45 \<and> P \<noteq> [] \<and> hd P \<noteq> 93 \<and> prior > 0")
        case range: True
        have d: "decode (snd ?r) = ahead (fst ?r2) (snd ?r2)" by (simp add: ahead_read [OF n1])
        have eq: "set_scan c prior c2 seen P = set_scan c 0 (fst ?r2) (seen \<or> prior \<le> c \<and> c \<le> fst ?r) (snd ?r2)"
          using go range by (subst step) simp
        have si: "set_items prior (ahead c2 P) =
          map_option (\<lambda>(rs, q). ((prior, fst ?r) # rs, q)) (set_items 0 (ahead (fst ?r2) (snd ?r2)))"
          using range e by (simp add: ahead_def [of 45] decode_step [OF False] d)
        show ?thesis using 1(1) [OF go range n2] unfolding eq si by (auto simp: in_ranges_def split: option.splits)
      next
        case nr: False
        have eq: "set_scan c prior c2 seen P = set_scan c c2 (fst ?r) (seen \<or> c = c2) (snd ?r)"
          using go nr by (subst step) auto
        have si: "set_items prior (ahead c2 P) =
          map_option (\<lambda>(rs, q). ((c2, c2) # rs, q)) (set_items c2 (ahead (fst ?r) (snd ?r)))"
          using nr go e nz False by (simp add: ahead_def decode_step [OF False]) auto
        show ?thesis using 1(2) [OF go nr n1] unfolding eq si by (auto simp: in_ranges_def split: option.splits)
      qed
    qed
  next
    case False
    then have eq: "set_scan c prior c2 seen P = (c2, seen, P)" by (subst step) auto
    show ?thesis using False 1(3) unfolding eq by (cases "decode P") (auto simp: in_ranges_def ahead_def)
  qed
qed

lemma set_match_parse:
  assumes "0 \<notin> set P"
  shows "case parse_set (decode P) of
           None \<Rightarrow> set_match c P = None
         | Some (invrt, rs, p) \<Rightarrow>
             (if in_ranges c rs = invrt then set_match c P = None
              else \<exists>P'. set_match c P = Some P' \<and> decode P' = p \<and> 0 \<notin> set P')"
proof -
  define P1 where "P1 = (if fst (sqlite3Utf8Read P) = 94 then snd (sqlite3Utf8Read P) else P)"
  define P2 where "P2 = (if fst (sqlite3Utf8Read P1) = 93 then snd (sqlite3Utf8Read P1) else P1)"
  define iv where "iv = (fst (sqlite3Utf8Read P) = 94)"
  define br where "br = (fst (sqlite3Utf8Read P1) = 93)"
  define rs where "rs = (if br then [(93, 93)] else [] :: (nat \<times> nat) list)"
  have n: "0 \<notin> set P1" "0 \<notin> set P2" using assms Utf8Read_nul by (auto simp: P1_def P2_def)
  have hd: "decode Q \<noteq> [] \<and> hd (decode Q) = k \<longleftrightarrow> fst (sqlite3Utf8Read Q) = k" if "k \<noteq> 0" for Q k
    using that by (cases "Q = []") (simp_all add: decode_step)
  have tl: "tl (decode Q) = decode (snd (sqlite3Utf8Read Q))" for Q by (cases "Q = []") (simp_all add: decode_step)
  have ir: "in_ranges c rs \<longleftrightarrow> br \<and> c = 93" by (auto simp: in_ranges_def rs_def)
  have sm: "set_match c P = (case set_scan c 0 (fst (sqlite3Utf8Read P2)) (in_ranges c rs) (snd (sqlite3Utf8Read P2)) of
      (c2, seen, P') \<Rightarrow> if c2 = 0 \<or> seen = iv then None else Some P')"
    by (auto simp: set_match_def ir P1_def P2_def br_def iv_def Let_def case_prod_beta)
  have ps: "parse_set (decode P) = map_option (\<lambda>(rs', q). (iv, rs @ rs', q)) (set_items 0 (ahead (fst (sqlite3Utf8Read P2)) (snd (sqlite3Utf8Read P2))))"
  proof -
    have h: "decode P \<noteq> [] \<and> hd (decode P) = 94 \<longleftrightarrow> iv" "decode P1 \<noteq> [] \<and> hd (decode P1) = 93 \<longleftrightarrow> br"
      by (simp_all only: hd iv_def br_def zero_neq_numeral [symmetric] not_False_eq_True)
    have d: "iv \<Longrightarrow> tl (decode P) = decode P1" "\<not> iv \<Longrightarrow> P1 = P" "br \<Longrightarrow> tl (decode P1) = decode P2" "\<not> br \<Longrightarrow> P2 = P1"
      by (simp_all add: tl iv_def br_def P1_def P2_def)
    show ?thesis
      unfolding ahead_read [OF n(2)] parse_set_def h(1)
      using h(2) d by (cases iv; cases br) (auto simp: rs_def simp del: decode_eq_Nil)
  qed
  show ?thesis
    using set_scan_items [OF Utf8Read_nul [OF n(2)], of c 0 "fst (sqlite3Utf8Read P2)" "in_ranges c rs"]
    unfolding sm ps by (auto simp: in_ranges_def case_prod_beta split: option.splits)
qed

text \<open>A text that follows an escape character.\<close>

fun escaped :: "compareInfo \<Rightarrow> nat \<Rightarrow> nat list \<Rightarrow> pat_item list" where
  "escaped i esc [] = []"
| "escaped i esc (d # p) = Lit d # parse_pattern i esc False p"

definition info_ok :: "compareInfo \<Rightarrow> nat \<Rightarrow> bool" where
  "info_ok i esc \<longleftrightarrow> matchAll i \<noteq> 0 \<and> matchOne i \<noteq> 0 \<and> matchAll i \<noteq> matchOne i \<and> matchSet i < 128 \<and>
     matchSet i \<noteq> matchAll i \<and> matchSet i \<noteq> matchOne i \<and> (esc = 0 \<or> matchSet i = 0)"

lemma star_branch:
  assumes ok: "info_ok i esc" and P: "0 \<notin> set P2" and S: "0 \<notin> set S" and c: "c \<noteq> 0" "c \<noteq> matchAll i" "c \<noteq> matchOne i"
    and IH: "\<And>P S. length P \<le> length P2 + 1 \<Longrightarrow> 0 \<notin> set P \<Longrightarrow> 0 \<notin> set S \<Longrightarrow>
      patternCompare_loop i esc False P S = matches i (parse_pattern i esc False (decode P)) (decode S)"
  shows "(if c = esc then
            if P2 = [] then False
            else star_search (\<lambda>S. patternCompare_loop i esc False (snd (sqlite3Utf8Read P2)) S) i (fst (sqlite3Utf8Read P2)) S
          else if c = matchSet i then set_search (\<lambda>S. patternCompare_loop i esc False (of_nat (matchSet i) # P2) S) S
          else star_search (\<lambda>S. patternCompare_loop i esc False P2 S) i c S) =
         matches i (Any # parse_pattern i esc True (c # decode P2)) (decode S)"
proof -
  have len: "P2 \<noteq> [] \<Longrightarrow> length (snd (sqlite3Utf8Read P2)) \<le> length P2 + 1" using Utf8Read_length [of P2] by simp
  consider (esc0) "c = esc" "P2 = []" | (esc1) "c = esc" "P2 \<noteq> []" | (set) "c \<noteq> esc" "c = matchSet i" | (lit) "c \<noteq> esc" "c \<noteq> matchSet i" by blast
  then show ?thesis
  proof cases
    case esc0
    have "\<not> matches i [Any, Never] s" for s by (induction s) (simp_all add: matches_Any)
    then show ?thesis using esc0 c ok by (auto simp: info_ok_def)
  next
    case esc1
    have "star_search (\<lambda>S. patternCompare_loop i esc False (snd (sqlite3Utf8Read P2)) S) i (fst (sqlite3Utf8Read P2)) S =
      matches i (Any # Lit (fst (sqlite3Utf8Read P2)) # parse_pattern i esc False (decode (snd (sqlite3Utf8Read P2)))) (decode S)"
      using esc1 P S len by (intro star_search_matches IH) (auto dest: Utf8Read_nul simp: Utf8Read_nonzero)
    then show ?thesis using esc1 c ok by (auto simp: info_ok_def decode_step [of P2])
  next
    case set
    have m: "unat (of_nat (matchSet i) :: byte) = matchSet i" using ok by (simp add: info_ok_def unat_of_nat)
    have nz: "of_nat (matchSet i) \<noteq> (0 :: byte)" using m set c by (metis unat_0)
    let ?p = "parse_pattern i esc False (matchSet i # decode P2)"
    have "parse_pattern i esc True (c # decode P2) = ?p" using set c by simp
    moreover have "\<not> matches i ?p []" using ok by (auto simp: info_ok_def split: option.splits)
    moreover have "set_search (\<lambda>S. patternCompare_loop i esc False (of_nat (matchSet i) # P2) S) S = matches i (Any # ?p) (decode S)"
      using P S nz m ok by (intro set_search_matches) (simp_all add: IH decode_ascii info_ok_def split: option.splits)
    ultimately show ?thesis using set by simp
  next
    case lit
    have "star_search (\<lambda>S. patternCompare_loop i esc False P2 S) i c S = matches i (Any # Lit c # parse_pattern i esc False (decode P2)) (decode S)"
      using P S c by (intro star_search_matches IH) auto
    then show ?thesis using lit c by simp
  qed
qed

lemma patternCompare_loop_spec:
  assumes ok: "info_ok i esc" and P: "0 \<notin> set P" and S: "0 \<notin> set S" and "prev \<longrightarrow> esc \<noteq> 0"
  shows "patternCompare_loop i esc prev P S =
    matches i (if prev then escaped i esc (decode P) else parse_pattern i esc False (decode P)) (decode S)"
  using assms(2-4)
proof (induction "length P" arbitrary: prev P S rule: less_induct)
  case (less P prev S)
  show ?case
  proof (cases "P = []")
    case False
    obtain c P1 where r: "sqlite3Utf8Read P = (c, P1)" by fastforce
    have c: "c \<noteq> 0" using Utf8Read_nonzero [OF False less(2)] r by simp
    have P1: "0 \<notin> set P1" "length P1 < length P" using Utf8Read_nul [OF less(2)] Utf8Read_length [OF False] r by simp_all
    have d: "decode P = c # decode P1" using decode_step [OF False] r by simp
    have dS: "S \<noteq> [] \<Longrightarrow> decode S = fst (sqlite3Utf8Read S) # decode (snd (sqlite3Utf8Read S))" by (rule decode_step)
    have S1: "0 \<notin> set (snd (sqlite3Utf8Read S))" by (rule Utf8Read_nul [OF less(3)])
    note IH = less(1) [OF P1(2) P1(1)]
    note step = patternCompare_loop.simps [of i esc prev P S]
    note k = False r
    consider (all) "\<not> prev" "c = matchAll i" | (one) "\<not> prev" "c = matchOne i" "c \<noteq> matchAll i"
      | (set) "c = matchSet i" "prev \<or> c \<noteq> matchAll i \<and> c \<noteq> matchOne i"
      | (esc) "\<not> prev" "c = esc" "c \<noteq> matchAll i" "c \<noteq> matchOne i" "c \<noteq> matchSet i"
      | (lit) "prev \<or> c \<noteq> matchAll i \<and> c \<noteq> matchOne i \<and> c \<noteq> esc" "c \<noteq> matchSet i" by blast
    then show ?thesis
    proof cases
      case all
      note sk = star_skip_matches [OF P1(1) less(3), of i esc]
      show ?thesis
      proof (cases "star_skip i P1 S")
        case None
        then show ?thesis using k all sk ok by (subst step) (simp add: d info_ok_def)
      next
        case (Some a)
        then obtain c' P2 S' where a: "star_skip i P1 S = Some (c', P2, S')" by (cases a) auto
        have P2: "c' \<noteq> 0 \<Longrightarrow> length P2 + 1 < length P" using star_skip_length [OF a] P1(2) by auto
        have sk': "0 \<notin> set P2" "0 \<notin> set S'" "c' = 0 \<or> c' \<noteq> matchAll i \<and> c' \<noteq> matchOne i"
          "matches i (Any # parse_pattern i esc True (decode P1)) (decode S) \<longleftrightarrow>
           matches i (Any # parse_pattern i esc True (if c' = 0 then [] else c' # decode P2)) (decode S')"
          using sk a ok by (auto simp: info_ok_def)
        show ?thesis
        proof (cases "c' = 0")
          case True
          then show ?thesis using k all a sk'(4) by (subst step) (simp add: d matches_Any_end)
        next
          case n0: False
          have IH2: "patternCompare_loop i esc False Q T = matches i (parse_pattern i esc False (decode Q)) (decode T)"
            if "length Q \<le> length P2 + 1" "0 \<notin> set Q" "0 \<notin> set T" for Q T
            using less(1) [of Q T False] P2 [OF n0] that by simp
          have "patternCompare_loop i esc prev P S = matches i (Any # parse_pattern i esc True (c' # decode P2)) (decode S')"
            using k all a n0 sk'(3)
            by (subst step, subst star_branch [OF ok sk'(1,2) n0 _ _ IH2, symmetric]) auto
          then show ?thesis using sk'(4) n0 all by (simp add: d)
        qed
      qed
    next
      case one
      then show ?thesis using k IH [OF S1, of prev] dS by (subst step) (simp add: d)
    next
      case set
      then have ne: "esc = 0" "\<not> prev" using ok c less(4) by (auto simp: info_ok_def)
      show ?thesis
      proof (cases "S = []")
        case True
        then show ?thesis using k set ne by (subst step) (auto simp: d split: option.splits)
      next
        case nS: False
        note sm = set_match_parse [OF P1(1), of "fst (sqlite3Utf8Read S)"]
        show ?thesis
        proof (cases "set_match (fst (sqlite3Utf8Read S)) P1")
          case None
          then show ?thesis using k set ne sm nS dS [OF nS] by (subst step) (auto simp: d split: option.splits if_splits)
        next
          case (Some P2)
          then have l: "length P2 < length P" using set_match_length [OF Some] P1(2) by simp
          from Some sm obtain rs iv where ps: "parse_set (decode P1) = Some (iv, rs, decode P2)" "in_ranges (fst (sqlite3Utf8Read S)) rs \<noteq> iv" "0 \<notin> set P2"
            by (auto split: option.splits if_splits)
          then show ?thesis using k set ne Some nS dS [OF nS] less(1) [OF l ps(3) S1, of False] by (subst step) (auto simp: d)
        qed
      qed
    next
      case esc
      then show ?thesis using k c IH [OF less(3), of True] by (subst step) (cases "decode P1", auto simp add: d)
    next
      case lit
      then show ?thesis using k c IH [OF S1, of False] dS by (subst step) (auto simp add: d foldcase_nonzero)
    qed
  qed (simp add: patternCompare_loop.simps)
qed

lemma charlen_loop: "sqlite3Utf8CharLen_loop z n r = r + length (decode z)" if "length z \<le> n"
  using that
proof (induction z n r rule: sqlite3Utf8CharLen_loop.induct)
  case (1 z n r)
  show ?case
  proof (cases "z = []")
    case False
    then have "length (SQLITE_SKIP_UTF8 z) < length z" using Utf8Read_length Utf8Read_skip by fastforce
    then show ?thesis using 1 False by (simp add: sqlite3Utf8CharLen_loop.simps [of z n r] decode_step Utf8Read_skip)
  qed (simp add: sqlite3Utf8CharLen_loop.simps [of "[]"])
qed

lemma charlen_decode: "nByte < 0 \<Longrightarrow> sqlite3Utf8CharLen z nByte = length (decode z)"
  by (simp add: sqlite3Utf8CharLen_def charlen_loop)

lemma info_fields [simp]:
  "matchAll globInfo = 42" "matchOne globInfo = 63" "matchSet globInfo = 91" "noCase globInfo = False"
  "matchAll likeInfoNorm = 37" "matchOne likeInfoNorm = 95" "matchSet likeInfoNorm = 0" "noCase likeInfoNorm = True"
  "matchAll likeInfoAlt = 37" "matchOne likeInfoAlt = 95" "matchSet likeInfoAlt = 0" "noCase likeInfoAlt = False"
  by (simp_all add: globInfo_def likeInfoNorm_def likeInfoAlt_def)

lemma infos_ok: "info_ok globInfo 0" "info_ok likeInfoNorm esc" "info_ok likeInfoAlt esc"
  by (simp_all add: info_ok_def)

text \<open>
  C17. LIKE and GLOB decide matching: for every pattern and every text without NUL bytes, valid UTF-8 or
  not, \<open>patternCompare\<close> answers whether the list of items of the pattern (any run of characters, any
  one character, a character up to case folding, a set of ranges) matches the sequence of code
  points of the text. This holds for GLOB without and for LIKE with an escape character, and covers
  unterminated sets and a trailing escape.\<close>
theorem patternCompare_matches:
  assumes "info_ok pInfo esc" "0 \<notin> set zPattern" "0 \<notin> set zString"
  shows "patternCompare zPattern zString pInfo esc =
    matches pInfo (parse_pattern pInfo esc False (decode zPattern)) (decode zString)"
  using patternCompare_loop_spec [OF assms, of False] by (simp add: patternCompare_def)

theorem patternCompare_matches_witness:
  "patternCompare [97, 42, 91, 98, 45, 100, 93] [97, 120, 99] globInfo 0 \<and>
   \<not> patternCompare [97, 42, 91, 94, 98, 45, 100, 93] [97, 120, 99] globInfo 0 \<and>
   patternCompare [65, 92, 37, 37] [97, 37] likeInfoNorm 92"
proof -
  have "parse_pattern globInfo 0 False (decode [97, 42, 91, 98, 45, 100, 93]) = [Lit 97, Any, Set False [(98, 98), (98, 100)]]"
    "parse_pattern globInfo 0 False (decode [97, 42, 91, 94, 98, 45, 100, 93]) = [Lit 97, Any, Set True [(98, 98), (98, 100)]]"
    "parse_pattern likeInfoNorm 92 False (decode [65, 92, 37, 37]) = [Lit 65, Lit 37, Any]"
    by (simp_all add: decode_ascii parse_set_def)
  then show ?thesis
    by (simp add: patternCompare_matches infos_ok decode_ascii matches_Any in_ranges_def foldcase_def GlogUpperToLower_def charMap_table)
qed

text \<open>A trailing escape character matches nothing behind a wildcard and is ignored elsewhere.\<close>

lemma trailing_escape:
  "patternCompare [97, 92] [97] likeInfoNorm 92 \<and> \<not> patternCompare [37, 92] [97] likeInfoNorm 92"
  by (simp add: patternCompare_def patternCompare_loop_spec infos_ok decode_ascii matches_Any foldcase_def)

end
