(* ===== verification/Fts3Hash.thy ===== *)
theory Fts3Hash
  imports Prelude "HOL-Library.Monad_Syntax"
begin

text \<open>
  The hash tables of the full-text module, src/fts3_hash.go with the structures of src/fts3.go. All elements of a
  table are on one doubly linked list; the elements of a bucket are adjacent on it, and the bucket holds
  their number and the first of them. Elements live in a heap and are named by their addresses. Keys
  are kept by value: with \<open>copyKey\<close> unset the caller leaves the key bytes alone. The allocator is an
  argument. A run of insertions, removals and lookups refines a finite map.
\<close>

unbundle bit_operations_syntax

section \<open>Data\<close>

record 'd Fts3HashElem =
  el_next :: "nat option"
  el_prev :: "nat option"
  el_data :: "'d option"
  el_pKey :: "byte list"
  el_nKey :: int

record fts3ht =
  ht_count :: int
  ht_chain :: "nat option"

definition FTS3_HASH_STRING :: nat where "FTS3_HASH_STRING = 1"
definition FTS3_HASH_BINARY :: nat where "FTS3_HASH_BINARY = 2"

record 'd Fts3Hash =
  keyClass :: nat
  copyKey :: bool
  h_count :: int
  h_first :: "nat option"
  htsize :: nat
  ht :: "fts3ht list option"
  heap :: "nat \<Rightarrow> 'd Fts3HashElem"

text \<open>The calls of the allocator in one insertion: a table of 8 buckets, a table of twice the size, an element, a key.\<close>

record fts3mem =
  m_ht8 :: bool
  m_htgrow :: bool
  m_elem :: "nat option"
  m_key :: bool

definition upd :: "nat \<Rightarrow> ('d Fts3HashElem \<Rightarrow> 'd Fts3HashElem) \<Rightarrow> 'd Fts3Hash \<Rightarrow> 'd Fts3Hash" where
  "upd e f pH = pH\<lparr>heap := (heap pH)(e := f (heap pH e))\<rparr>"

section \<open>Operations\<close>

definition sqlite3Fts3HashInit :: "'d Fts3Hash \<Rightarrow> nat \<Rightarrow> bool \<Rightarrow> 'd Fts3Hash option" where
  "sqlite3Fts3HashInit pNew kc ck = do {
     assertion (FTS3_HASH_STRING \<le> kc \<and> kc \<le> FTS3_HASH_BINARY);
     Some (pNew\<lparr>keyClass := kc, copyKey := ck, h_first := None, h_count := 0, htsize := 0, ht := None\<rparr>) }"

text \<open>Freeing does nothing to memory; the loop only walks the list, and \<open>None\<close> is a walk without end.\<close>

partial_function (option) clear_loop :: "(nat \<Rightarrow> 'd Fts3HashElem) \<Rightarrow> nat option \<Rightarrow> unit option" where
  "clear_loop hp elem = (case elem of None \<Rightarrow> Some () | Some e \<Rightarrow> clear_loop hp (el_next (hp e)))"

definition sqlite3Fts3HashClear :: "'d Fts3Hash \<Rightarrow> 'd Fts3Hash option" where
  "sqlite3Fts3HashClear pH = do {
     clear_loop (heap pH) (h_first pH);
     Some (pH\<lparr>h_first := None, ht := None, htsize := 0, h_count := 0\<rparr>) }"

text \<open>The index of a bucket: the low bits of the hash, all of them if there is no table.\<close>

definition bucket :: "nat \<Rightarrow> nat \<Rightarrow> nat" where
  "bucket h sz = nat (int h AND (int sz - 1))"

text \<open>One round of the hash: \<open>int\<close> has 32 bits, \<open>char\<close> is signed.\<close>

definition hash_round :: "byte \<Rightarrow> uint32 \<Rightarrow> uint32" where
  "hash_round z h = push_bit 3 h XOR h XOR scast z"

definition fts3StrHash :: "byte list \<Rightarrow> int \<Rightarrow> nat" where
  "fts3StrHash pKey nKey = (let nKey = (if nKey \<le> 0 then int (length pKey) else nKey)
     in unat (fold hash_round (take (nat nKey) pKey) 0 AND 0x7fffffff))"

definition fts3BinHash :: "byte list \<Rightarrow> int \<Rightarrow> nat" where
  "fts3BinHash pKey nKey = unat (fold hash_round (take (nat nKey) pKey) 0 AND 0x7fffffff)"

text \<open>\<open>strncmp\<close> and \<open>memcmp\<close>: the difference at the first place where the bytes differ; a string ends with a NUL.\<close>

fun strncmp :: "byte list \<Rightarrow> byte list \<Rightarrow> nat \<Rightarrow> int" where
  "strncmp a b 0 = 0"
| "strncmp [] b (Suc n) = (case b of [] \<Rightarrow> 0 | c # _ \<Rightarrow> - uint c)"
| "strncmp (c # a) [] (Suc n) = uint c"
| "strncmp (c # a) (d # b) (Suc n) = (if c \<noteq> d then uint c - uint d else if c = 0 then 0 else strncmp a b n)"

fun memcmp :: "byte list \<Rightarrow> byte list \<Rightarrow> nat \<Rightarrow> int" where
  "memcmp (c # a) (d # b) (Suc n) = (if c \<noteq> d then uint c - uint d else memcmp a b n)"
| "memcmp _ _ _ = 0"

definition fts3StrCompare :: "byte list \<Rightarrow> int \<Rightarrow> byte list \<Rightarrow> int \<Rightarrow> int" where
  "fts3StrCompare pKey1 n1 pKey2 n2 = (if n1 \<noteq> n2 then 1 else strncmp pKey1 pKey2 (nat (n1 mod 2 ^ 64)))"

definition fts3BinCompare :: "byte list \<Rightarrow> int \<Rightarrow> byte list \<Rightarrow> int \<Rightarrow> int" where
  "fts3BinCompare pKey1 n1 pKey2 n2 = (if n1 \<noteq> n2 then 1 else memcmp pKey1 pKey2 (nat (n1 mod 2 ^ 64)))"

definition ftsHashFunction :: "nat \<Rightarrow> (byte list \<Rightarrow> int \<Rightarrow> nat) option" where
  "ftsHashFunction kc = (if kc = FTS3_HASH_STRING then Some fts3StrHash
     else do { assertion (kc = FTS3_HASH_BINARY); Some fts3BinHash })"

definition ftsCompareFunction :: "nat \<Rightarrow> (byte list \<Rightarrow> int \<Rightarrow> byte list \<Rightarrow> int \<Rightarrow> int) option" where
  "ftsCompareFunction kc = (if kc = FTS3_HASH_STRING then Some fts3StrCompare
     else do { assertion (kc = FTS3_HASH_BINARY); Some fts3BinCompare })"

definition fts3HashInsertElement :: "nat \<Rightarrow> nat \<Rightarrow> 'd Fts3Hash \<Rightarrow> 'd Fts3Hash option" where
  "fts3HashInsertElement h pNew pH = do {
     t \<leftarrow> ht pH;
     assertion (h < length t);
     let pH = (case ht_chain (t ! h) of
        Some pHead \<Rightarrow>
          let pH = upd pNew (\<lambda>e. e\<lparr>el_next := Some pHead\<rparr>) pH;
              pH = upd pNew (\<lambda>e. e\<lparr>el_prev := el_prev (heap pH pHead)\<rparr>) pH;
              pH = (case el_prev (heap pH pHead) of
                      Some q \<Rightarrow> upd q (\<lambda>e. e\<lparr>el_next := Some pNew\<rparr>) pH
                    | None \<Rightarrow> pH\<lparr>h_first := Some pNew\<rparr>)
          in upd pHead (\<lambda>e. e\<lparr>el_prev := Some pNew\<rparr>) pH
      | None \<Rightarrow>
          let pH = upd pNew (\<lambda>e. e\<lparr>el_next := h_first pH\<rparr>) pH;
              pH = (case h_first pH of Some q \<Rightarrow> upd q (\<lambda>e. e\<lparr>el_prev := Some pNew\<rparr>) pH | None \<Rightarrow> pH);
              pH = upd pNew (\<lambda>e. e\<lparr>el_prev := None\<rparr>) pH
          in pH\<lparr>h_first := Some pNew\<rparr>);
     Some (pH\<lparr>ht := Some (t[h := \<lparr>ht_count = ht_count (t ! h) + 1, ht_chain = Some pNew\<rparr>])\<rparr>) }"

partial_function (option) rehash_loop ::
  "(byte list \<Rightarrow> int \<Rightarrow> nat) \<Rightarrow> nat \<Rightarrow> nat option \<Rightarrow> 'd Fts3Hash \<Rightarrow> 'd Fts3Hash option" where
  "rehash_loop xHash new_size elem pH = (case elem of None \<Rightarrow> Some pH
     | Some e \<Rightarrow> do {
         let h = bucket (xHash (el_pKey (heap pH e)) (el_nKey (heap pH e))) new_size;
         let next_elem = el_next (heap pH e);
         pH \<leftarrow> fts3HashInsertElement h e pH;
         rehash_loop xHash new_size next_elem pH })"

definition is_power2 :: "nat \<Rightarrow> bool" where
  "is_power2 n \<longleftrightarrow> int n AND (int n - 1) = 0"

text \<open>The flag of the result says that the allocation failed.\<close>

definition fts3Rehash :: "bool \<Rightarrow> nat \<Rightarrow> 'd Fts3Hash \<Rightarrow> (bool \<times> 'd Fts3Hash) option" where
  "fts3Rehash got new_size pH = do {
     assertion (is_power2 new_size);
     if \<not> got then Some (True, pH)
     else do {
       let pH = pH\<lparr>ht := Some (replicate new_size \<lparr>ht_count = 0, ht_chain = None\<rparr>), htsize := new_size\<rparr>;
       xHash \<leftarrow> ftsHashFunction (keyClass pH);
       pH \<leftarrow> rehash_loop xHash new_size (h_first pH) (pH\<lparr>h_first := None\<rparr>);
       Some (False, pH) } }"

partial_function (option) find_loop ::
  "(byte list \<Rightarrow> int \<Rightarrow> byte list \<Rightarrow> int \<Rightarrow> int) \<Rightarrow> (nat \<Rightarrow> 'd Fts3HashElem) \<Rightarrow> byte list \<Rightarrow> int \<Rightarrow> int \<Rightarrow> nat option \<Rightarrow> nat option option" where
  "find_loop xCompare hp pKey nKey cnt elem =
     (if cnt = 0 then Some None
      else case elem of None \<Rightarrow> Some None
      | Some e \<Rightarrow>
          if xCompare (el_pKey (hp e)) (el_nKey (hp e)) pKey nKey = 0 then Some (Some e)
          else find_loop xCompare hp pKey nKey (cnt - 1) (el_next (hp e)))"

definition fts3FindElementByHash :: "'d Fts3Hash \<Rightarrow> byte list \<Rightarrow> int \<Rightarrow> nat \<Rightarrow> nat option option" where
  "fts3FindElementByHash pH pKey nKey h = (case ht pH of None \<Rightarrow> Some None
     | Some t \<Rightarrow> do {
         assertion (h < length t);
         xCompare \<leftarrow> ftsCompareFunction (keyClass pH);
         find_loop xCompare (heap pH) pKey nKey (ht_count (t ! h)) (ht_chain (t ! h)) })"

definition fts3RemoveElementByHash :: "nat \<Rightarrow> nat \<Rightarrow> 'd Fts3Hash \<Rightarrow> 'd Fts3Hash option" where
  "fts3RemoveElementByHash elem h pH = do {
     let pH = (case el_prev (heap pH elem) of
         Some q \<Rightarrow> upd q (\<lambda>e. e\<lparr>el_next := el_next (heap pH elem)\<rparr>) pH
       | None \<Rightarrow> pH\<lparr>h_first := el_next (heap pH elem)\<rparr>);
     let pH = (case el_next (heap pH elem) of
         Some q \<Rightarrow> upd q (\<lambda>e. e\<lparr>el_prev := el_prev (heap pH elem)\<rparr>) pH
       | None \<Rightarrow> pH);
     t \<leftarrow> ht pH;
     assertion (h < length t);
     let chain = (if ht_chain (t ! h) = Some elem then el_next (heap pH elem) else ht_chain (t ! h));
     let n = ht_count (t ! h) - 1;
     let pH = pH\<lparr>ht := Some (t[h := \<lparr>ht_count = n, ht_chain = (if n \<le> 0 then None else chain)\<rparr>]), h_count := h_count pH - 1\<rparr>;
     if h_count pH \<le> 0 then do {
       assertion (h_first pH = None);
       assertion (h_count pH = 0);
       sqlite3Fts3HashClear pH }
     else Some pH }"

definition sqlite3Fts3HashFindElem :: "'d Fts3Hash \<Rightarrow> byte list \<Rightarrow> int \<Rightarrow> nat option option" where
  "sqlite3Fts3HashFindElem pH pKey nKey =
     (if ht pH = None then Some None
      else do {
        xHash \<leftarrow> ftsHashFunction (keyClass pH);
        assertion (is_power2 (htsize pH));
        fts3FindElementByHash pH pKey nKey (bucket (xHash pKey nKey) (htsize pH)) })"

definition sqlite3Fts3HashFind :: "'d Fts3Hash \<Rightarrow> byte list \<Rightarrow> int \<Rightarrow> 'd option option" where
  "sqlite3Fts3HashFind pH pKey nKey = do {
     pElem \<leftarrow> sqlite3Fts3HashFindElem pH pKey nKey;
     Some (case pElem of Some e \<Rightarrow> el_data (heap pH e) | None \<Rightarrow> None) }"

text \<open>
  Insertion, or removal if \<open>data\<close> is NULL. The result is the old data of the key, or \<open>data\<close> itself if an
  allocation failed.
\<close>

definition sqlite3Fts3HashInsert :: "fts3mem \<Rightarrow> byte list \<Rightarrow> int \<Rightarrow> 'd option \<Rightarrow> 'd Fts3Hash \<Rightarrow> ('d option \<times> 'd Fts3Hash) option" where
  "sqlite3Fts3HashInsert mem pKey nKey data pH = do {
     xHash \<leftarrow> ftsHashFunction (keyClass pH);
     let hraw = xHash pKey nKey;
     assertion (is_power2 (htsize pH));
     let h = bucket hraw (htsize pH);
     elem \<leftarrow> fts3FindElementByHash pH pKey nKey h;
     case elem of
       Some e \<Rightarrow>
         let old_data = el_data (heap pH e) in
         if data = None then do { pH \<leftarrow> fts3RemoveElementByHash e h pH; Some (old_data, pH) }
         else Some (old_data, upd e (\<lambda>x. x\<lparr>el_data := data\<rparr>) pH)
     | None \<Rightarrow>
         if data = None then Some (None, pH)
         else do {
           (failed, pH) \<leftarrow> (if htsize pH = 0 then fts3Rehash (m_ht8 mem) 8 pH else Some (False, pH));
           (failed, pH) \<leftarrow> (if \<not> failed \<and> h_count pH \<ge> int (htsize pH) then fts3Rehash (m_htgrow mem) (htsize pH * 2) pH
                             else Some (failed, pH));
           if failed then Some (data, pH\<lparr>h_count := 0\<rparr>)
           else do {
             assertion (htsize pH > 0);
             case m_elem mem of None \<Rightarrow> Some (data, pH)
             | Some e \<Rightarrow>
                 if copyKey pH \<and> \<not> m_key mem then Some (data, pH)
                 else do {
                   let pH = upd e (\<lambda>x. x\<lparr>el_pKey := (if copyKey pH then take (nat nKey) pKey else pKey), el_nKey := nKey\<rparr>) pH;
                   let pH = pH\<lparr>h_count := h_count pH + 1\<rparr>;
                   assertion (is_power2 (htsize pH));
                   let h = bucket hraw (htsize pH);
                   pH \<leftarrow> fts3HashInsertElement h e pH;
                   Some (None, upd e (\<lambda>x. x\<lparr>el_data := data\<rparr>) pH) } } } }"

section \<open>Doubly linked lists\<close>

definition hd_or :: "nat list \<Rightarrow> nat option \<Rightarrow> nat option" where
  "hd_or xs q = (case xs of [] \<Rightarrow> q | x # _ \<Rightarrow> Some x)"

definition last_or :: "nat list \<Rightarrow> nat option \<Rightarrow> nat option" where
  "last_or xs p = (if xs = [] then p else Some (last xs))"

lemma hd_or_simps [simp]: "hd_or [] q = q" "hd_or (x # xs) q = Some x" "hd_or (xs @ ys) q = hd_or xs (hd_or ys q)"
  by (simp_all add: hd_or_def split: list.split)

lemma last_or_simps [simp]: "last_or [] p = p" "last_or (x # xs) p = last_or xs (Some x)" "last_or (xs @ ys) p = last_or ys (last_or xs p)"
  by (simp_all add: last_or_def)

text \<open>The segment \<open>xs\<close> of a doubly linked list, behind \<open>p\<close> and in front of \<open>q\<close>.\<close>

fun dlseg :: "(nat \<Rightarrow> 'd Fts3HashElem) \<Rightarrow> nat option \<Rightarrow> nat list \<Rightarrow> nat option \<Rightarrow> bool" where
  "dlseg hp p [] q = True"
| "dlseg hp p (x # xs) q = (el_prev (hp x) = p \<and> el_next (hp x) = hd_or xs q \<and> dlseg hp (Some x) xs q)"

lemma dlseg_append [simp]: "dlseg hp p (xs @ ys) q \<longleftrightarrow> dlseg hp p xs (hd_or ys q) \<and> dlseg hp (last_or xs p) ys q"
  by (induction xs arbitrary: p) auto

lemma dlseg_frame:
  "(\<And>x. x \<in> set xs \<Longrightarrow> el_prev (hp' x) = el_prev (hp x) \<and> el_next (hp' x) = el_next (hp x)) \<Longrightarrow> dlseg hp' p xs q = dlseg hp p xs q"
  by (induction xs arbitrary: p) auto

text \<open>Linking an element in and taking it out, by what happens to the pointers.\<close>

lemma dlseg_insert:
  assumes "dlseg hp p (A @ B) q" "distinct (A @ B)" "n \<notin> set (A @ B)"
    and n: "el_next (hp' n) = hd_or B q" "el_prev (hp' n) = last_or A p"
    and nx: "\<And>e. e \<in> set (A @ B) \<Longrightarrow> el_next (hp' e) = (if A \<noteq> [] \<and> e = last A then Some n else el_next (hp e))"
    and pv: "\<And>e. e \<in> set (A @ B) \<Longrightarrow> el_prev (hp' e) = (if B \<noteq> [] \<and> e = hd B then Some n else el_prev (hp e))"
  shows "dlseg hp' p (A @ n # B) q"
proof -
  have la: "A \<noteq> [] \<Longrightarrow> last A \<notin> set B" using assms(2) last_in_set [of A] by (metis disjoint_iff distinct_append list.set_intros(2) )
  have "dlseg hp' p A (Some n)"
  proof (cases A rule: rev_cases)
    case (snoc A0 a)
    have "dlseg hp' p A0 (Some a) = dlseg hp p A0 (Some a)"
      using snoc assms(2) by (intro dlseg_frame) (auto simp: nx pv split: if_splits)
    then show ?thesis using snoc assms by (cases B) (auto simp: nx pv)
  qed simp
  moreover have "dlseg hp' (Some n) B q"
  proof (cases B)
    case (Cons b B0)
    have "dlseg hp' (Some b) B0 q = dlseg hp (Some b) B0 q"
      using Cons assms(2) la by (intro dlseg_frame) (auto simp: nx pv split: if_splits)
    then show ?thesis using Cons assms by (auto simp: nx pv)
  qed simp
  ultimately show ?thesis using n by simp
qed

lemma dlseg_remove:
  assumes "dlseg hp p (A @ n # B) q" "distinct (A @ n # B)"
    and nx: "\<And>e. e \<in> set (A @ B) \<Longrightarrow> el_next (hp' e) = (if A \<noteq> [] \<and> e = last A then hd_or B q else el_next (hp e))"
    and pv: "\<And>e. e \<in> set (A @ B) \<Longrightarrow> el_prev (hp' e) = (if B \<noteq> [] \<and> e = hd B then last_or A p else el_prev (hp e))"
  shows "dlseg hp' p (A @ B) q"
proof -
  have la: "A \<noteq> [] \<Longrightarrow> last A \<notin> set B" using assms(2) last_in_set [of A] by (metis disjoint_iff distinct_append list.set_intros(2) )
  have "dlseg hp' p A (hd_or B q)"
  proof (cases A rule: rev_cases)
    case (snoc A0 a)
    have "dlseg hp' p A0 (Some a) = dlseg hp p A0 (Some a)"
      using snoc assms(2) by (intro dlseg_frame) (auto simp: nx pv split: if_splits)
    then show ?thesis using snoc assms by (cases B) (auto simp: nx pv)
  qed simp
  moreover have "dlseg hp' (last_or A p) B q"
  proof (cases B)
    case (Cons b B0)
    have "dlseg hp' (Some b) B0 q = dlseg hp (Some b) B0 q"
      using Cons assms(2) la by (intro dlseg_frame) (auto simp: nx pv split: if_splits)
    then show ?thesis using Cons assms by (auto simp: nx pv)
  qed simp
  ultimately show ?thesis by simp
qed

section \<open>Adjacent buckets\<close>

text \<open>The elements of bucket \<open>b\<close> are adjacent.\<close>

definition contig :: "(nat \<Rightarrow> nat) \<Rightarrow> nat \<Rightarrow> nat list \<Rightarrow> bool" where
  "contig s b xs \<longleftrightarrow> (\<exists>pre post. xs = pre @ filter (\<lambda>e. s e = b) xs @ post)"

lemma contigI: "(\<forall>e \<in> set pre \<union> set post. s e \<noteq> b) \<Longrightarrow> (\<forall>e \<in> set seg. s e = b) \<Longrightarrow> contig s b (pre @ seg @ post)"
  unfolding contig_def by (intro exI [of _ pre] exI [of _ post]) (auto simp: filter_empty_conv)

lemma contigE:
  assumes "contig s b xs"
  obtains pre seg post where "xs = pre @ seg @ post" "\<forall>e \<in> set pre \<union> set post. s e \<noteq> b" "\<forall>e \<in> set seg. s e = b"
    "filter (\<lambda>e. s e = b) xs = seg"
proof -
  obtain pre post where x: "xs = pre @ filter (\<lambda>e. s e = b) xs @ post" using assms unfolding contig_def by blast
  let ?f = "filter (\<lambda>e. s e = b)"
  have "?f xs = ?f pre @ ?f xs @ ?f post" by (subst x) simp
  then have "length (?f xs) = length (?f pre) + (length (?f xs) + length (?f post))" by (metis length_append)
  then have "length (?f pre) + length (?f post) = 0" by linarith
  then have "?f pre = []" "?f post = []" by simp_all
  then show thesis by (intro that [OF x]) (auto simp: filter_empty_conv)
qed

lemma contig_insert_other:
  assumes "contig s b (A @ B)" "s n \<noteq> b" "A = [] \<or> B = [] \<or> s (hd B) \<noteq> b"
  shows "contig s b (A @ n # B)"
proof -
  from assms(1) obtain pre seg post where x: "A @ B = pre @ seg @ post" and o: "\<forall>e \<in> set pre \<union> set post. s e \<noteq> b" and i: "\<forall>e \<in> set seg. s e = b"
    by (rule contigE)
  from x consider (pre) us where "pre = A @ us" "B = us @ seg @ post" | (seg) us vs where "seg = us @ vs" "A = pre @ us" "B = vs @ post"
    | (post) us vs where "post = us @ vs" "A = pre @ seg @ us" "B = vs"
    by (auto simp: append_eq_append_conv2)
  then show ?thesis
  proof cases
    case pre
    then show ?thesis using contigI [of "A @ n # us" post s b seg] o i assms(2) by auto
  next
    case post
    then show ?thesis using contigI [of pre "us @ n # vs" s b seg] o i assms(2) by auto
  next
    case seg
    show ?thesis
    proof (cases "us = [] \<or> vs = []")
      case True
      then show ?thesis
        using seg contigI [of "pre @ [n]" post s b seg] contigI [of pre "n # post" s b seg] o i assms(2) by auto
    next
      case False
      then show ?thesis using seg assms(3) i by (cases vs) auto
    qed
  qed
qed

lemma contig_remove: "contig s b (A @ n # B) \<Longrightarrow> contig s b (A @ B)"
proof -
  assume "contig s b (A @ n # B)"
  then obtain pre seg post where x: "A @ n # B = pre @ seg @ post" and o: "\<forall>e \<in> set pre \<union> set post. s e \<noteq> b" and i: "\<forall>e \<in> set seg. s e = b"
    by (rule contigE)
  from x consider (pre) us where "pre = A @ n # us" "B = us @ seg @ post" | (seg) us vs where "seg = us @ n # vs" "A = pre @ us" "B = vs @ post"
    | (post) us where "post = us @ n # B" "A = pre @ seg @ us"
    by (auto simp: append_eq_append_conv2 append_eq_Cons_conv Cons_eq_append_conv)
  then show ?thesis
  proof cases
    case pre
    then show ?thesis using contigI [of "A @ us" post s b seg] o i by auto
  next
    case post
    then show ?thesis using contigI [of pre "us @ B" s b seg] o i by auto
  next
    case seg
    then show ?thesis using contigI [of pre post s b "us @ vs"] o i by auto
  qed
qed

section \<open>Layout of a table\<close>

text \<open>\<open>s\<close> gives the bucket of an element.\<close>

definition buckets_ok :: "fts3ht list \<Rightarrow> (nat \<Rightarrow> nat) \<Rightarrow> nat list \<Rightarrow> bool" where
  "buckets_ok t s xs \<longleftrightarrow> (\<forall>b < length t. contig s b xs \<and>
     ht_count (t ! b) = int (length (filter (\<lambda>e. s e = b) xs)) \<and> ht_chain (t ! b) = hd_or (filter (\<lambda>e. s e = b) xs) None)"

definition layout :: "(nat \<Rightarrow> nat) \<Rightarrow> fts3ht list \<Rightarrow> 'd Fts3Hash \<Rightarrow> nat list \<Rightarrow> bool" where
  "layout s t pH xs \<longleftrightarrow> distinct xs \<and> dlseg (heap pH) None xs None \<and> h_first pH = hd_or xs None \<and> ht pH = Some t \<and> buckets_ok t s xs"

text \<open>What linking keeps: the settings of the table and the contents of the elements.\<close>

definition content :: "'d Fts3HashElem \<Rightarrow> 'd option \<times> byte list \<times> int" where
  "content e = (el_data e, el_pKey e, el_nKey e)"

definition same :: "'d Fts3Hash \<Rightarrow> 'd Fts3Hash \<Rightarrow> bool" where
  "same p q \<longleftrightarrow> keyClass q = keyClass p \<and> copyKey q = copyKey p \<and> htsize q = htsize p \<and> (\<forall>x. content (heap q x) = content (heap p x))"

lemma content_links [simp]: "content (x\<lparr>el_next := a\<rparr>) = content x" "content (x\<lparr>el_prev := a\<rparr>) = content x"
  by (simp_all add: content_def)

lemma insert_pointers:
  assumes dl: "dlseg (heap pH) None (A @ B) None" and d: "distinct (A @ B)" and e: "e \<notin> set (A @ B)"
    and f: "h_first pH = hd_or (A @ B) None" and t: "ht pH = Some t" "h < length t"
    and c: "ht_chain (t ! h) = None \<and> A = [] \<or> B \<noteq> [] \<and> ht_chain (t ! h) = Some (hd B)"
  shows "\<exists>hp. fts3HashInsertElement h e pH =
      Some (pH\<lparr>heap := hp, h_first := hd_or (A @ e # B) None, ht := Some (t[h := \<lparr>ht_count = ht_count (t ! h) + 1, ht_chain = Some e\<rparr>])\<rparr>) \<and>
    dlseg hp None (A @ e # B) None \<and> (\<forall>x. content (hp x) = content (heap pH x)) \<and> (\<forall>x. x \<notin> set (A @ e # B) \<longrightarrow> hp x = heap pH x)"
proof -
  let ?hp = "heap pH"
  consider (nil) "ht_chain (t ! h) = None" "A = []" "B = []" | (front) b B0 where "ht_chain (t ! h) = None" "A = []" "B = b # B0"
    | (first) b B0 where "ht_chain (t ! h) = Some b" "A = []" "B = b # B0"
    | (mid) A0 a b B0 where "ht_chain (t ! h) = Some b" "A = A0 @ [a]" "B = b # B0"
    using c by (cases A rule: rev_cases; cases B) auto
  then show ?thesis
  proof cases
    case nil
    let ?h = "?hp(e := (?hp e)\<lparr>el_next := None, el_prev := None\<rparr>)"
    show ?thesis using nil t f by (intro exI [of _ ?h]) (simp add: fts3HashInsertElement_def upd_def content_def)
  next
    case front
    let ?h = "?hp(e := (?hp e)\<lparr>el_next := Some b, el_prev := None\<rparr>, b := (?hp b)\<lparr>el_prev := Some e\<rparr>)"
    have "dlseg ?h None (A @ e # B) None" using front d e dl by (intro dlseg_insert [of ?hp]) auto
    then show ?thesis using front t f e
      by (intro exI [of _ ?h]) (auto simp: fts3HashInsertElement_def upd_def content_def fun_upd_twist [of b e])
  next
    case first
    let ?h = "?hp(e := (?hp e)\<lparr>el_next := Some b, el_prev := None\<rparr>, b := (?hp b)\<lparr>el_prev := Some e\<rparr>)"
    have "dlseg ?h None (A @ e # B) None" using first d e dl by (intro dlseg_insert [of ?hp]) auto
    then show ?thesis using first t f e dl
      by (intro exI [of _ ?h]) (auto simp: fts3HashInsertElement_def upd_def content_def)
  next
    case mid
    let ?h = "?hp(e := (?hp e)\<lparr>el_next := Some b, el_prev := Some a\<rparr>, a := (?hp a)\<lparr>el_next := Some e\<rparr>, b := (?hp b)\<lparr>el_prev := Some e\<rparr>)"
    have "dlseg ?h None (A @ e # B) None" using mid d e dl by (intro dlseg_insert [of ?hp]) (auto simp: last_or_def)
    then show ?thesis using mid t f e dl d
      by (intro exI [of _ ?h]) (auto simp: fts3HashInsertElement_def upd_def content_def last_or_def split: if_splits)
  qed
qed

lemma layout_split:
  assumes "layout s t pH xs" "b < length t"
  obtains A B where "xs = A @ B" "ht_chain (t ! b) = None \<and> A = [] \<or> B \<noteq> [] \<and> ht_chain (t ! b) = Some (hd B)"
    "filter (\<lambda>e. s e = b) A = []" "\<forall>c. c \<noteq> b \<longrightarrow> A = [] \<or> B = [] \<or> s (hd B) \<noteq> c"
    "\<forall>n. s n = b \<longrightarrow> contig s b (A @ n # B)"
proof -
  have k: "contig s b xs" "ht_chain (t ! b) = hd_or (filter (\<lambda>e. s e = b) xs) None" using assms by (auto simp: layout_def buckets_ok_def)
  from k(1) obtain pre seg post where x: "xs = pre @ seg @ post" "\<forall>e \<in> set pre \<union> set post. s e \<noteq> b" "\<forall>e \<in> set seg. s e = b"
    "filter (\<lambda>e. s e = b) xs = seg" by (rule contigE)
  show thesis
  proof (cases seg)
    case Nil
    then have "contig s b ([] @ n # xs)" if "s n = b" for n using x that contigI [of "[]" xs s b "[n]"] by auto
    then show ?thesis using that [of "[]" xs] k(2) x Nil by simp
  next
    case (Cons e seg')
    have "contig s b (pre @ n # seg @ post)" if "s n = b" for n using x that contigI [of pre post s b "n # seg"] by auto
    then show ?thesis using that [of pre "seg @ post"] k(2) x Cons by (auto simp: filter_empty_conv)
  qed
qed

lemma insert_element:
  assumes l: "layout s t pH xs" and e: "e \<notin> set xs" and h: "s e < length t"
  obtains pH' xs' t' where "fts3HashInsertElement (s e) e pH = Some pH'" "layout s t' pH' xs'" "set xs' = insert e (set xs)"
    "length t' = length t" "same pH pH'" "h_count pH' = h_count pH" "\<forall>x. x \<notin> set xs \<longrightarrow> x \<noteq> e \<longrightarrow> heap pH' x = heap pH x"
proof -
  obtain A B where x: "xs = A @ B"
    and c: "ht_chain (t ! s e) = None \<and> A = [] \<or> B \<noteq> [] \<and> ht_chain (t ! s e) = Some (hd B)"
    and A: "filter (\<lambda>x. s x = s e) A = []" and o: "\<forall>c. c \<noteq> s e \<longrightarrow> A = [] \<or> B = [] \<or> s (hd B) \<noteq> c"
    and i: "\<forall>n. s n = s e \<longrightarrow> contig s (s e) (A @ n # B)" by (rule layout_split [OF l h])
  let ?t = "t[s e := \<lparr>ht_count = ht_count (t ! s e) + 1, ht_chain = Some e\<rparr>]"
  from insert_pointers [of pH A B e t "s e"] obtain hp where
    p: "fts3HashInsertElement (s e) e pH = Some (pH\<lparr>heap := hp, h_first := hd_or (A @ e # B) None, ht := Some ?t\<rparr>)"
    "dlseg hp None (A @ e # B) None" "\<forall>x. content (hp x) = content (heap pH x)" "\<forall>x. x \<notin> set (A @ e # B) \<longrightarrow> hp x = heap pH x"
    using l e h x c by (auto simp: layout_def)
  have b: "buckets_ok t s xs" using l by (simp add: layout_def)
  have "buckets_ok ?t s (A @ e # B)"
  proof (unfold buckets_ok_def, intro allI impI)
    fix c assume "c < length ?t"
    then have k: "contig s c xs" "ht_count (t ! c) = int (length (filter (\<lambda>e. s e = c) xs))" "ht_chain (t ! c) = hd_or (filter (\<lambda>e. s e = c) xs) None" "c < length t"
      using b by (auto simp: buckets_ok_def)
    show "contig s c (A @ e # B) \<and> ht_count (?t ! c) = int (length (filter (\<lambda>e. s e = c) (A @ e # B))) \<and>
      ht_chain (?t ! c) = hd_or (filter (\<lambda>e. s e = c) (A @ e # B)) None"
    proof (cases "c = s e")
      case False
      then show ?thesis using k contig_insert_other [OF k(1) [unfolded x], of e] o False x by auto
    next
      case True
      show ?thesis using k True A h x i by simp
    qed
  qed
  then show thesis
    using l e x p by (intro that [of "pH\<lparr>heap := hp, h_first := hd_or (A @ e # B) None, ht := Some ?t\<rparr>" ?t "A @ e # B"])
      (auto simp: layout_def same_def)
qed

lemma clear_loop_dlseg: "dlseg hp p xs None \<Longrightarrow> clear_loop hp (hd_or xs None) = Some ()"
proof (induction xs arbitrary: p)
  case (Cons x xs)
  then show ?case using Cons.IH [of "Some x"] by (simp add: clear_loop.simps [of hp "Some x"])
qed (simp add: clear_loop.simps)

lemma clear_layout: "dlseg (heap pH) None xs None \<Longrightarrow> h_first pH = hd_or xs None \<Longrightarrow>
    sqlite3Fts3HashClear pH = Some (pH\<lparr>h_first := None, ht := None, htsize := 0, h_count := 0\<rparr>)"
  by (simp add: sqlite3Fts3HashClear_def clear_loop_dlseg)

lemma remove_buckets:
  assumes b: "buckets_ok t s (A @ e # B)" and d: "distinct (A @ e # B)" and h: "s e < length t"
  defines "n \<equiv> ht_count (t ! s e) - 1"
  defines "c \<equiv> if ht_chain (t ! s e) = Some e then hd_or B None else ht_chain (t ! s e)"
  shows "buckets_ok (t[s e := \<lparr>ht_count = n, ht_chain = (if n \<le> 0 then None else c)\<rparr>]) s (A @ B)"
proof (unfold buckets_ok_def, intro allI impI)
  let ?t = "t[s e := \<lparr>ht_count = n, ht_chain = (if n \<le> 0 then None else c)\<rparr>]"
  fix b' assume "b' < length ?t"
  then have k: "contig s b' (A @ e # B)" "ht_count (t ! b') = int (length (filter (\<lambda>x. s x = b') (A @ e # B)))"
    "ht_chain (t ! b') = hd_or (filter (\<lambda>x. s x = b') (A @ e # B)) None" "b' < length t" using b by (auto simp: buckets_ok_def)
  have 1: "contig s b' (A @ B)" by (rule contig_remove [OF k(1)])
  show "contig s b' (A @ B) \<and> ht_count (?t ! b') = int (length (filter (\<lambda>x. s x = b') (A @ B))) \<and>
      ht_chain (?t ! b') = hd_or (filter (\<lambda>x. s x = b') (A @ B)) None"
  proof (cases "b' = s e")
    case False
    then show ?thesis using k 1 by simp
  next
    case True
    let ?f = "filter (\<lambda>x. s x = b')"
    from k(1) obtain pre seg post where x: "A @ e # B = pre @ seg @ post" "\<forall>x \<in> set pre \<union> set post. s x \<noteq> b'" "?f (A @ e # B) = seg"
      by (rule contigE)
    have n: "n = int (length (?f (A @ B)))" using k(2) True by (simp add: n_def)
    have "hd_or B None = hd_or (?f B) None" if "?f A = []" "?f B \<noteq> []"
    proof -
      have "seg = e # ?f B" using x(3) that True by simp
      then have "A @ e # B = pre @ e # ?f B @ post" using x(1) by simp
      moreover have "e \<notin> set A" "e \<notin> set B" using d by auto
      ultimately have B: "B = ?f B @ post" using append_Cons_eq_iff [of e A B pre "?f B @ post"] by blast
      have "hd_or (?f B @ post) None = hd_or (?f B) None" using that(2) by (cases "?f B") simp_all
      then show ?thesis using B by simp
    qed
    moreover have "ht_chain (t ! s e) = Some e \<longleftrightarrow> ?f A = []"
      using k(3) True d by (cases "?f A") (auto, metis list.set_intros(1) mem_Collect_eq set_filter)
    ultimately have "(if n \<le> 0 then None else c) = hd_or (?f (A @ B)) None"
      using k(3) True by (cases "?f A"; cases "?f B") (auto simp: n c_def)
    then show ?thesis using 1 n True h by simp
  qed
qed

lemma remove_pointers:
  assumes dl: "dlseg (heap pH) None (A @ e # B) None" and d: "distinct (A @ e # B)" and f: "h_first pH = hd_or (A @ e # B) None"
    and t: "ht pH = Some t" "h < length t"
  defines "n \<equiv> ht_count (t ! h) - 1"
  defines "c \<equiv> if ht_chain (t ! h) = Some e then hd_or B None else ht_chain (t ! h)"
  shows "\<exists>hp. fts3RemoveElementByHash e h pH =
      (let pH = pH\<lparr>heap := hp, h_first := hd_or (A @ B) None,
          ht := Some (t[h := \<lparr>ht_count = n, ht_chain = (if n \<le> 0 then None else c)\<rparr>]), h_count := h_count pH - 1\<rparr>
       in if h_count pH \<le> 0 then do { assertion (h_first pH = None); assertion (h_count pH = 0); sqlite3Fts3HashClear pH } else Some pH) \<and>
    dlseg hp None (A @ B) None \<and> (\<forall>x. content (hp x) = content (heap pH x))"
proof -
  let ?hp = "heap pH"
  consider (one) "A = []" "B = []" | (front) b B0 where "A = []" "B = b # B0" | (end_of) A0 a where "A = A0 @ [a]" "B = []"
    | (mid) A0 a b B0 where "A = A0 @ [a]" "B = b # B0" by (cases A rule: rev_cases; cases B) auto
  then show ?thesis
  proof cases
    case one
    then show ?thesis using dl f t by (intro exI [of _ ?hp]) (simp add: fts3RemoveElementByHash_def upd_def content_def n_def c_def Let_def)
  next
    case front
    let ?h = "?hp(b := (?hp b)\<lparr>el_prev := None\<rparr>)"
    have "dlseg ?h None (A @ B) None" by (rule dlseg_remove [OF dl d]) (use front d dl in auto)
    then show ?thesis using front t f d dl
      by (intro exI [of _ ?h]) (simp add: fts3RemoveElementByHash_def upd_def content_def n_def c_def Let_def)
  next
    case end_of
    let ?h = "?hp(a := (?hp a)\<lparr>el_next := None\<rparr>)"
    have "dlseg ?h None (A @ B) None" by (rule dlseg_remove [OF dl d]) (use end_of d dl in \<open>auto simp: last_or_def\<close>)
    then show ?thesis using end_of t f d dl
      by (intro exI [of _ ?h], cases pH) (simp add: fts3RemoveElementByHash_def upd_def content_def n_def c_def Let_def last_or_def)
  next
    case mid
    let ?h = "?hp(a := (?hp a)\<lparr>el_next := Some b\<rparr>, b := (?hp b)\<lparr>el_prev := Some a\<rparr>)"
    have "dlseg ?h None (A @ B) None" by (rule dlseg_remove [OF dl d]) (use mid d dl in \<open>auto simp: last_or_def\<close>)
    then show ?thesis using mid t f d dl
      by (intro exI [of _ ?h], cases pH) (simp add: fts3RemoveElementByHash_def upd_def content_def n_def c_def Let_def last_or_def)
  qed
qed

text \<open>A table without buckets.\<close>

definition no_table :: "'d Fts3Hash \<Rightarrow> bool" where
  "no_table pH \<longleftrightarrow> ht pH = None \<and> htsize pH = 0 \<and> h_first pH = None \<and> h_count pH = 0"

lemma remove_element:
  assumes l: "layout s t pH (A @ e # B)" and h: "s e < length t" and n: "h_count pH = int (length (A @ e # B))"
  obtains pH' t' where "fts3RemoveElementByHash e (s e) pH = Some pH'" "keyClass pH' = keyClass pH" "copyKey pH' = copyKey pH"
    "\<forall>x. content (heap pH' x) = content (heap pH x)"
    "if A @ B = [] then no_table pH'
     else layout s t' pH' (A @ B) \<and> length t' = length t \<and> htsize pH' = htsize pH \<and> h_count pH' = int (length (A @ B))"
proof -
  have a: "dlseg (heap pH) None (A @ e # B) None" "distinct (A @ e # B)" "h_first pH = hd_or (A @ e # B) None" "ht pH = Some t" "buckets_ok t s (A @ e # B)"
    using l by (simp_all add: layout_def)
  note rb = remove_buckets [OF a(5,2) h]
  from remove_pointers [OF a(1-4) h] obtain hp where
    r: "fts3RemoveElementByHash e (s e) pH =
      (let pH = pH\<lparr>heap := hp, h_first := hd_or (A @ B) None,
          ht := Some (t[s e := \<lparr>ht_count = ht_count (t ! s e) - 1, ht_chain = (if ht_count (t ! s e) - 1 \<le> 0 then None
             else if ht_chain (t ! s e) = Some e then hd_or B None else ht_chain (t ! s e))\<rparr>]), h_count := h_count pH - 1\<rparr>
       in if h_count pH \<le> 0 then do { assertion (h_first pH = None); assertion (h_count pH = 0); sqlite3Fts3HashClear pH } else Some pH)"
    "dlseg hp None (A @ B) None" "\<forall>x. content (hp x) = content (heap pH x)" by blast
  let ?t = "t[s e := \<lparr>ht_count = ht_count (t ! s e) - 1, ht_chain = (if ht_count (t ! s e) - 1 \<le> 0 then None
             else if ht_chain (t ! s e) = Some e then hd_or B None else ht_chain (t ! s e))\<rparr>]"
  show thesis
  proof (cases "A @ B = []")
    case True
    have "fts3RemoveElementByHash e (s e) pH = Some (pH\<lparr>heap := hp, h_first := None, ht := None, htsize := 0, h_count := 0\<rparr>)"
      using True r n clear_layout [where xs = "[]" and pH = "pH\<lparr>heap := hp, h_first := None, ht := Some ?t, h_count := 0\<rparr>"]
      by (simp add: Let_def)
    from that [OF this, of t] show ?thesis using True r(3) by (simp add: no_table_def)
  next
    case False
    then have "h_count pH - 1 > 0" using n by (cases A; cases B) simp_all
    then have "fts3RemoveElementByHash e (s e) pH = Some (pH\<lparr>heap := hp, h_first := hd_or (A @ B) None, ht := Some ?t, h_count := h_count pH - 1\<rparr>)"
      using r(1) by (simp add: Let_def)
    then show ?thesis by (rule that [of _ ?t]) (use False r(2,3) n rb a(2) in \<open>auto simp: layout_def\<close>)
  qed
qed

section \<open>Keys, hashes and searches\<close>

definition key_ok :: "nat \<Rightarrow> byte list \<Rightarrow> bool" where
  "key_ok kc k \<longleftrightarrow> length k < 2 ^ 31 \<and> (kc = FTS3_HASH_STRING \<longrightarrow> k \<noteq> [] \<and> 0 \<notin> set k)"

lemma strncmp_eq: "length a = length b \<Longrightarrow> 0 \<notin> set a \<Longrightarrow> strncmp a b (length a) = 0 \<longleftrightarrow> a = b"
  by (induction a b rule: list_induct2) (auto simp: word_uint_eq_iff)

lemma memcmp_eq: "length a = length b \<Longrightarrow> memcmp a b (length a) = 0 \<longleftrightarrow> a = b"
  by (induction a b rule: list_induct2) (auto simp: word_uint_eq_iff)

lemma compare_eq:
  assumes "ftsCompareFunction kc = Some cmp" "key_ok kc a" "key_ok kc b"
  shows "cmp a (int (length a)) b (int (length b)) = 0 \<longleftrightarrow> a = b"
proof -
  have l: "nat (int (length a) mod 2 ^ 64) = length a" using assms(2) by (simp add: key_ok_def nat_mod_distrib)
  show ?thesis
  proof (cases "length a = length b")
    case True
    then show ?thesis using assms l strncmp_eq [OF True] memcmp_eq [OF True]
      by (auto simp: ftsCompareFunction_def fts3StrCompare_def fts3BinCompare_def key_ok_def assertion_def split: if_splits)
  next
    case False
    then show ?thesis using assms
      by (auto simp: ftsCompareFunction_def fts3StrCompare_def fts3BinCompare_def assertion_def split: if_splits)
  qed
qed

lemma bucket_power: "bucket h (2 ^ k) = h mod 2 ^ k"
proof -
  have "int h AND (2 ^ k - 1) = int h mod 2 ^ k" by (simp add: take_bit_eq_mask [symmetric] mask_eq_exp_minus_1 [symmetric] take_bit_eq_mod)
  then show ?thesis by (simp add: bucket_def nat_mod_distrib nat_power_eq)
qed

lemma is_power2_power: "is_power2 (2 ^ k)" "is_power2 0"
proof -
  have "(2 ^ k :: int) AND (2 ^ k - 1) = 2 ^ k mod 2 ^ k" by (simp only: take_bit_eq_mask [symmetric] mask_eq_exp_minus_1 [symmetric] take_bit_eq_mod)
  then show "is_power2 (2 ^ k)" by (simp add: is_power2_def)
qed (simp add: is_power2_def)

lemma find_loop_seg:
  "dlseg hp p (seg @ post) None \<Longrightarrow> find_loop cmp hp k n (int (length seg)) (hd_or (seg @ post) None) =
     Some (find (\<lambda>e. cmp (el_pKey (hp e)) (el_nKey (hp e)) k n = 0) seg)"
proof (induction seg arbitrary: p)
  case (Cons e seg)
  then show ?case using Cons.IH [of "Some e"] by (simp add: find_loop.simps [of cmp hp k n "1 + int (length seg)"])
qed (simp add: find_loop.simps)

lemma find_filter: "(\<And>x. x \<in> set xs \<Longrightarrow> P x \<Longrightarrow> Q x) \<Longrightarrow> find P (filter Q xs) = find P xs"
  by (induction xs) auto

lemma find_element:
  assumes l: "layout s t pH xs" and b: "b < length t" and kc: "ftsCompareFunction (keyClass pH) = Some cmp"
    and k: "\<And>e. e \<in> set xs \<Longrightarrow> key_ok (keyClass pH) (el_pKey (heap pH e)) \<and> el_nKey (heap pH e) = int (length (el_pKey (heap pH e)))"
    and s: "\<And>e. e \<in> set xs \<Longrightarrow> el_pKey (heap pH e) = pKey \<Longrightarrow> s e = b" and "key_ok (keyClass pH) pKey"
  shows "fts3FindElementByHash pH pKey (int (length pKey)) b = Some (find (\<lambda>e. el_pKey (heap pH e) = pKey) xs)"
proof -
  let ?f = "filter (\<lambda>e. s e = b) xs" and ?P = "\<lambda>e. el_pKey (heap pH e) = pKey"
  have t: "ht pH = Some t" "contig s b xs" "ht_count (t ! b) = int (length ?f)" "ht_chain (t ! b) = hd_or ?f None" "dlseg (heap pH) None xs None"
    using l b by (auto simp: layout_def buckets_ok_def)
  from t(2) obtain pre seg post where x: "xs = pre @ seg @ post" "?f = seg" by (rule contigE)
  have d: "dlseg (heap pH) (last_or pre None) (seg @ post) None" using t(5) x by simp
  have "find (\<lambda>e. cmp (el_pKey (heap pH e)) (el_nKey (heap pH e)) pKey (int (length pKey)) = 0) seg = find ?P seg"
    using k compare_eq [OF kc _ assms(6)] x(1) by (intro find_cong) auto
  then have "find_loop cmp (heap pH) pKey (int (length pKey)) (int (length seg)) (hd_or seg None) = Some (find ?P seg)"
    using find_loop_seg [OF d, of cmp pKey "int (length pKey)"] by (cases seg) (simp_all add: find_loop.simps)
  moreover have "find ?P seg = find ?P xs" using find_filter [of xs ?P "\<lambda>e. s e = b"] s x(2) by simp
  ultimately show ?thesis using t b kc x(2) by (simp add: fts3FindElementByHash_def)
qed

lemma rehash_loop_layout:
  assumes "layout s t pH zs" "dlseg (heap pH) p ys None" "distinct (ys @ zs)" "\<And>e. e \<in> set ys \<Longrightarrow> s e < length t"
    and "\<And>e. s e = bucket (xHash (el_pKey (heap pH e)) (el_nKey (heap pH e))) n"
  shows "\<exists>pH' t' zs'. rehash_loop xHash n (hd_or ys None) pH = Some pH' \<and> layout s t' pH' zs' \<and> set zs' = set ys \<union> set zs \<and>
    length t' = length t \<and> same pH pH' \<and> h_count pH' = h_count pH"
  using assms
proof (induction ys arbitrary: t pH zs p)
  case Nil
  then show ?case by (intro exI [of _ pH] exI [of _ t] exI [of _ zs]) (simp add: rehash_loop.simps same_def)
next
  case (Cons y ys)
  obtain pH1 zs1 t1 where 1: "fts3HashInsertElement (s y) y pH = Some pH1" "layout s t1 pH1 zs1" "set zs1 = insert y (set zs)"
    "length t1 = length t" "same pH pH1" "h_count pH1 = h_count pH" "\<forall>x. x \<notin> set zs \<longrightarrow> x \<noteq> y \<longrightarrow> heap pH1 x = heap pH x"
    by (rule insert_element [OF Cons.prems(1), of y]) (use Cons.prems(3,4) in auto)
  have d: "dlseg (heap pH1) (Some y) ys None"
    using Cons.prems(2,3) 1(7) by (subst dlseg_frame [where hp = "heap pH"]) auto
  have c: "el_pKey (heap pH1 x) = el_pKey (heap pH x)" "el_nKey (heap pH1 x) = el_nKey (heap pH x)" for x
    using 1(5) by (simp_all add: same_def content_def)
  have dz: "distinct (ys @ zs1)" using Cons.prems(3) 1(2,3) by (auto simp: layout_def)
  obtain pH' t' zs' where "rehash_loop xHash n (hd_or ys None) pH1 = Some pH'" "layout s t' pH' zs'" "set zs' = set ys \<union> set zs1"
    "length t' = length t1" "same pH1 pH'" "h_count pH' = h_count pH1"
    using Cons.IH [OF 1(2) d dz, unfolded c, OF _ Cons.prems(5)] Cons.prems(4) 1(4) by auto
  then show ?case using 1 Cons.prems(2) Cons.prems(5) [of y]
    by (intro exI [of _ pH'] exI [of _ t'] exI [of _ zs']) (auto simp: rehash_loop.simps [of xHash n "Some y"] same_def)
qed

section \<open>Well-formed tables as maps\<close>

fun walk :: "nat \<Rightarrow> (nat \<Rightarrow> 'd Fts3HashElem) \<Rightarrow> nat option \<Rightarrow> nat list" where
  "walk (Suc n) hp (Some e) = e # walk n hp (el_next (hp e))"
| "walk _ _ _ = []"

text \<open>The elements of a table, and the map that it stands for.\<close>

definition elements :: "'d Fts3Hash \<Rightarrow> nat list" where
  "elements pH = walk (nat (h_count pH)) (heap pH) (h_first pH)"

definition contents :: "'d Fts3Hash \<Rightarrow> byte list \<rightharpoonup> 'd" where
  "contents pH k = (case find (\<lambda>e. el_pKey (heap pH e) = k) (elements pH) of None \<Rightarrow> None | Some e \<Rightarrow> el_data (heap pH e))"

lemma walk_dlseg: "dlseg hp p xs None \<Longrightarrow> walk (length xs) hp (hd_or xs None) = xs"
  by (induction xs arbitrary: p) auto

definition slot :: "'d Fts3Hash \<Rightarrow> nat \<Rightarrow> nat" where
  "slot pH e = bucket (the (ftsHashFunction (keyClass pH)) (el_pKey (heap pH e)) (el_nKey (heap pH e))) (htsize pH)"

definition elem_ok :: "nat \<Rightarrow> 'd Fts3HashElem \<Rightarrow> bool" where
  "elem_ok kc e \<longleftrightarrow> key_ok kc (el_pKey e) \<and> el_nKey e = int (length (el_pKey e)) \<and> el_data e \<noteq> None"

definition table_ok :: "'d Fts3Hash \<Rightarrow> nat list \<Rightarrow> bool" where
  "table_ok pH xs \<longleftrightarrow> (\<exists>t k. layout (slot pH) t pH xs \<and> length t = 2 ^ k \<and> htsize pH = 2 ^ k)"

definition wf_hash :: "'d Fts3Hash \<Rightarrow> nat list \<Rightarrow> bool" where
  "wf_hash pH xs \<longleftrightarrow> keyClass pH \<in> {FTS3_HASH_STRING, FTS3_HASH_BINARY} \<and> (\<forall>e \<in> set xs. elem_ok (keyClass pH) (heap pH e)) \<and>
     inj_on (\<lambda>e. el_pKey (heap pH e)) (set xs) \<and> h_count pH = int (length xs) \<and> (no_table pH \<and> xs = [] \<or> table_ok pH xs)"

lemma wf_elements: "wf_hash pH xs \<Longrightarrow> elements pH = xs"
  by (auto simp: wf_hash_def table_ok_def layout_def elements_def walk_dlseg)

lemma functions_def:
  assumes "kc \<in> {FTS3_HASH_STRING, FTS3_HASH_BINARY}"
  obtains xh cmp where "ftsHashFunction kc = Some xh" "ftsCompareFunction kc = Some cmp"
  using assms by (cases "kc = FTS3_HASH_STRING") (auto simp: ftsHashFunction_def ftsCompareFunction_def)

lemma contents_wf:
  assumes "wf_hash pH xs"
  shows "contents pH k = Some d \<longleftrightarrow> (Some d, k, int (length k)) \<in> (\<lambda>e. content (heap pH e)) ` set xs"
proof -
  have inj: "inj_on (\<lambda>e. el_pKey (heap pH e)) (set xs)" and ok: "\<forall>e \<in> set xs. elem_ok (keyClass pH) (heap pH e)" using assms by (auto simp: wf_hash_def)
  show ?thesis
  proof (cases "find (\<lambda>e. el_pKey (heap pH e) = k) xs")
    case None
    then have "contents pH k = None" by (simp add: contents_def wf_elements [OF assms])
    then show ?thesis using None by (auto simp: find_None_iff content_def)
  next
    case (Some e)
    then have "e \<in> set xs" "el_pKey (heap pH e) = k" by (auto simp: find_Some_iff)
    then show ?thesis using Some inj ok by (auto simp: contents_def wf_elements [OF assms] content_def elem_ok_def inj_on_def image_iff intro: bexI [of _ e])
  qed
qed

lemma mapping_eqI: "(\<And>k d. m k = Some d \<longleftrightarrow> m' k = Some d) \<Longrightarrow> m = m'"
  by (rule ext) (metis not_Some_eq)

lemma find_wf:
  assumes wf: "wf_hash pH xs" and k: "key_ok (keyClass pH) pKey" and xh: "ftsHashFunction (keyClass pH) = Some xh"
  shows "fts3FindElementByHash pH pKey (int (length pKey)) (bucket (xh pKey (int (length pKey))) (htsize pH)) =
    Some (find (\<lambda>e. el_pKey (heap pH e) = pKey) xs)"
proof (cases "no_table pH \<and> xs = []")
  case True
  then show ?thesis by (simp add: fts3FindElementByHash_def no_table_def)
next
  case False
  then obtain t j where t: "layout (slot pH) t pH xs" "length t = 2 ^ j" "htsize pH = 2 ^ j" using wf by (auto simp: wf_hash_def table_ok_def)
  obtain cmp where cmp: "ftsCompareFunction (keyClass pH) = Some cmp" using wf functions_def by (metis wf_hash_def)
  show ?thesis
    using wf xh by (intro find_element [OF t(1) _ cmp _ _ k]) (auto simp: t bucket_power wf_hash_def elem_ok_def slot_def)
qed

text \<open>A lookup reads the map.\<close>

lemma find_contents:
  assumes "wf_hash pH xs" "key_ok (keyClass pH) k"
  shows "sqlite3Fts3HashFind pH k (int (length k)) = Some (contents pH k)"
proof -
  obtain xh where xh: "ftsHashFunction (keyClass pH) = Some xh" using assms(1) functions_def by (metis wf_hash_def)
  have p: "is_power2 (htsize pH)" using assms(1) by (auto simp: wf_hash_def no_table_def table_ok_def is_power2_power)
  show ?thesis
    using find_wf [OF assms xh] xh p assms(1) wf_elements [OF assms(1)]
    by (auto simp: sqlite3Fts3HashFind_def sqlite3Fts3HashFindElem_def contents_def wf_hash_def table_ok_def layout_def)
qed

lemma contents_cong:
  assumes "wf_hash p xs" "wf_hash q ys" "(\<lambda>e. content (heap q e)) ` set ys = (\<lambda>e. content (heap p e)) ` set xs"
  shows "contents q = contents p"
proof (rule mapping_eqI)
  fix k d
  show "contents q k = Some d \<longleftrightarrow> contents p k = Some d"
    unfolding contents_wf [OF assms(1)] contents_wf [OF assms(2)] assms(3) ..
qed

lemma elem_ok_content: "content e = content e' \<Longrightarrow> elem_ok kc e = elem_ok kc e'"
  by (simp add: content_def elem_ok_def)

lemma slot_same: "same p q \<Longrightarrow> slot q = slot p"
  by (simp add: same_def slot_def content_def fun_eq_iff)

lemma layout_cong:
  assumes "layout s t p xs" "h_first q = h_first p" "ht q = ht p"
    and "\<And>x. x \<in> set xs \<Longrightarrow> s' x = s x \<and> el_prev (heap q x) = el_prev (heap p x) \<and> el_next (heap q x) = el_next (heap p x)"
  shows "layout s' t q xs"
proof -
  have f: "filter (\<lambda>e. s' e = b) xs = filter (\<lambda>e. s e = b) xs" for b using assms(4) by (intro filter_cong) auto
  have "dlseg (heap q) None xs None = dlseg (heap p) None xs None" using assms(4) by (intro dlseg_frame) auto
  then show ?thesis using assms(1-3) by (simp add: layout_def buckets_ok_def contig_def f)
qed

lemma wf_same:
  assumes "wf_hash p xs" "keyClass q = keyClass p" "\<forall>x. content (heap q x) = content (heap p x)" "set ys \<subseteq> set xs"
    and "h_count q = int (length ys)" "no_table q \<and> ys = [] \<or> table_ok q ys"
  shows "wf_hash q ys"
proof -
  have "el_pKey (heap q x) = el_pKey (heap p x)" for x using assms(3) by (simp add: content_def)
  then show ?thesis using assms elem_ok_content [of "heap q _" "heap p _"] by (auto simp: wf_hash_def intro: inj_on_subset)
qed

lemma rehash_wf:
  assumes "wf_hash pH xs"
  obtains pH' ys where "fts3Rehash True (2 ^ j) pH = Some (False, pH')" "wf_hash pH' ys" "table_ok pH' ys" "set ys = set xs" "htsize pH' = 2 ^ j"
    "keyClass pH' = keyClass pH" "copyKey pH' = copyKey pH" "\<forall>x. content (heap pH' x) = content (heap pH x)"
proof -
  obtain xh where xh: "ftsHashFunction (keyClass pH) = Some xh" using assms functions_def by (metis wf_hash_def)
  let ?t = "replicate (2 ^ j) \<lparr>ht_count = 0, ht_chain = None\<rparr>"
  let ?p = "pH\<lparr>ht := Some ?t, htsize := 2 ^ j, h_first := None\<rparr>"
  let ?s = "slot ?p"
  have l: "layout ?s ?t ?p []" by (simp add: layout_def buckets_ok_def contig_def)
  have d: "dlseg (heap ?p) None xs None" "distinct (xs @ [])" and f: "h_first pH = hd_or xs None"
    using assms by (auto simp: wf_hash_def table_ok_def layout_def no_table_def)
  have sl: "?s e < length ?t" "?s e = bucket (xh (el_pKey (heap ?p e)) (el_nKey (heap ?p e))) (2 ^ j)" for e
    by (simp_all add: slot_def bucket_power xh)
  from rehash_loop_layout [OF l d sl] obtain q t ys where q: "rehash_loop xh (2 ^ j) (hd_or xs None) ?p = Some q" "layout ?s t q ys"
    "set ys = set xs" "length t = 2 ^ j" "same ?p q" "h_count q = h_count pH" by auto
  have r: "fts3Rehash True (2 ^ j) pH = Some (False, q)" using q(1) f xh by (simp add: fts3Rehash_def is_power2_power)
  have c: "\<forall>x. content (heap q x) = content (heap pH x)" "keyClass q = keyClass pH" "copyKey q = copyKey pH" "htsize q = 2 ^ j"
    using q(5) by (simp_all add: same_def)
  have t: "table_ok q ys" using q(2,4) c(4) slot_same [OF q(5)] by (auto simp: table_ok_def)
  have "length ys = length xs" using d(2) q(2,3) by (metis append_Nil2 distinct_card layout_def)
  then have "h_count q = int (length ys)" using q(6) assms by (simp add: wf_hash_def)
  with wf_same [OF assms c(2,1)] t q(3) have "wf_hash q ys" by simp
  with that r t q(3) c show thesis by metis
qed

lemma find_contents_None: "wf_hash pH xs \<Longrightarrow> find (\<lambda>e. el_pKey (heap pH e) = k) xs = None \<longleftrightarrow> contents pH k = None"
proof -
  assume wf: "wf_hash pH xs"
  show ?thesis
  proof (cases "find (\<lambda>e. el_pKey (heap pH e) = k) xs")
    case (Some e)
    then have "e \<in> set xs" by (auto simp: find_Some_iff)
    then have "el_data (heap pH e) \<noteq> None" using wf by (auto simp: wf_hash_def elem_ok_def)
    then show ?thesis using Some by (simp add: contents_def wf_elements [OF wf])
  qed (simp add: contents_def wf_elements [OF wf])
qed

text \<open>The last part of an insertion: a new element for a key that is not in the table.\<close>

lemma insert_new:
  assumes wf: "wf_hash pH xs" and t: "table_ok pH xs" and e: "e \<notin> set xs" and k: "key_ok (keyClass pH) k" and new: "contents pH k = None"
    and xh: "ftsHashFunction (keyClass pH) = Some xh"
  defines "p1 \<equiv> (upd e (\<lambda>x. x\<lparr>el_pKey := k, el_nKey := int (length k)\<rparr>) pH)\<lparr>h_count := h_count pH + 1\<rparr>"
  shows "\<exists>p2 ys. fts3HashInsertElement (bucket (xh k (int (length k))) (htsize pH)) e p1 = Some p2 \<and>
    wf_hash (upd e (\<lambda>x. x\<lparr>el_data := Some d\<rparr>) p2) ys \<and> contents (upd e (\<lambda>x. x\<lparr>el_data := Some d\<rparr>) p2) = (contents pH)(k \<mapsto> d) \<and>
    keyClass p2 = keyClass pH \<and> copyKey p2 = copyKey pH"
proof -
  obtain tt j where tt: "layout (slot pH) tt pH xs" "length tt = 2 ^ j" "htsize pH = 2 ^ j" using t by (auto simp: table_ok_def)
  have l: "layout (slot p1) tt p1 xs" by (rule layout_cong [OF tt(1)]) (use e in \<open>auto simp: p1_def upd_def slot_def\<close>)
  have se: "slot p1 e = bucket (xh k (int (length k))) (htsize pH)" by (simp add: p1_def upd_def slot_def xh)
  have lt: "slot p1 e < length tt" by (simp add: se tt bucket_power)
  obtain p2 ys t2 where p2: "fts3HashInsertElement (slot p1 e) e p1 = Some p2" "layout (slot p1) t2 p2 ys" "set ys = insert e (set xs)"
    "length t2 = length tt" "same p1 p2" "h_count p2 = h_count p1" "\<forall>x. x \<notin> set xs \<longrightarrow> x \<noteq> e \<longrightarrow> heap p2 x = heap p1 x"
    by (rule insert_element [OF l e lt])
  let ?q = "upd e (\<lambda>x. x\<lparr>el_data := Some d\<rparr>) p2"
  have c: "content (heap ?q e) = (Some d, k, int (length k))" "x \<noteq> e \<Longrightarrow> content (heap ?q x) = content (heap pH x)" for x
    using p2(5) by (auto simp: same_def upd_def p1_def content_def)
  have kc: "keyClass ?q = keyClass pH" "copyKey ?q = copyKey pH" "htsize ?q = htsize pH" "keyClass p2 = keyClass pH" "copyKey p2 = copyKey pH"
    using p2(5) by (simp_all add: same_def upd_def p1_def)
  have ky: "el_pKey (heap ?q e) = k" "x \<noteq> e \<Longrightarrow> el_pKey (heap ?q x) = el_pKey (heap pH x)" for x
    using c by (simp_all add: content_def)
  have old: "el_pKey (heap pH x) \<noteq> k" if "x \<in> set xs" for x
    using find_contents_None [OF wf, of k] new that by (auto simp: find_None_iff)
  have ok: "elem_ok (keyClass pH) (heap ?q x)" if "x \<in> set ys" for x
    using that p2(3) c elem_ok_content [of "heap ?q x" "heap pH x"] wf k by (cases "x = e") (auto simp: wf_hash_def elem_ok_def content_def)
  have inj: "inj_on (\<lambda>x. el_pKey (heap ?q x)) (set ys)"
  proof -
    have ke: "x \<in> set xs \<Longrightarrow> el_pKey (heap ?q x) = el_pKey (heap pH x)" for x using ky(2) e by metis
    have "inj_on (\<lambda>x. el_pKey (heap ?q x)) (set xs) = inj_on (\<lambda>x. el_pKey (heap pH x)) (set xs)" by (rule inj_on_cong) (rule ke)
    moreover have "k \<notin> (\<lambda>x. el_pKey (heap ?q x)) ` (set xs - {e})" using ke old by auto
    ultimately show ?thesis using wf by (simp only: p2(3) inj_on_insert ky(1) wf_hash_def) simp
  qed
  have len: "length ys = Suc (length xs)" using p2(2,3) tt(1) e by (metis card_insert_disjoint distinct_card finite_set layout_def)
  have "layout (slot ?q) t2 ?q ys" by (rule layout_cong [OF p2(2)]) (use slot_same [OF p2(5)] in \<open>auto simp: upd_def slot_def fun_eq_iff\<close>)
  then have "table_ok ?q ys" using p2(4) tt kc by (auto simp: table_ok_def)
  then have w: "wf_hash ?q ys" using wf kc ok inj len p2(6) by (auto simp: wf_hash_def p1_def upd_def)
  have "contents ?q = (contents pH)(k \<mapsto> d)"
  proof (rule mapping_eqI)
    fix k' d'
    have "(\<lambda>x. content (heap ?q x)) ` set ys = insert (Some d, k, int (length k)) ((\<lambda>x. content (heap pH x)) ` set xs)"
    proof -
      have "(\<lambda>x. content (heap ?q x)) ` set xs = (\<lambda>x. content (heap pH x)) ` set xs" using c(2) e by (intro image_cong) metis+
      then show ?thesis by (simp only: p2(3) image_insert c(1))
    qed
    then show "contents ?q k' = Some d' \<longleftrightarrow> ((contents pH)(k \<mapsto> d)) k' = Some d'"
      unfolding contents_wf [OF w] using contents_wf [OF wf, of k'] contents_wf [OF wf, of k] new by auto
  qed
  then show ?thesis using p2(1) w kc se by auto
qed

text \<open>An insertion or removal for a key that is in the table.\<close>

lemma insert_present:
  assumes wf: "wf_hash pH xs" and f: "find (\<lambda>e. el_pKey (heap pH e) = k) xs = Some e" and xh: "ftsHashFunction (keyClass pH) = Some xh"
  shows "contents pH k = el_data (heap pH e)"
    and "\<exists>ys. wf_hash (upd e (\<lambda>x. x\<lparr>el_data := Some d\<rparr>) pH) ys \<and> contents (upd e (\<lambda>x. x\<lparr>el_data := Some d\<rparr>) pH) = (contents pH)(k \<mapsto> d)"
    and "\<exists>q ys. fts3RemoveElementByHash e (bucket (xh k (int (length k))) (htsize pH)) pH = Some q \<and> wf_hash q ys \<and>
       contents q = (contents pH)(k := None) \<and> keyClass q = keyClass pH \<and> copyKey q = copyKey pH"
proof -
  have e: "e \<in> set xs" "el_pKey (heap pH e) = k" using f by (auto simp: find_Some_iff)
  have ok: "elem_ok (keyClass pH) (heap pH e)" and inj: "inj_on (\<lambda>e. el_pKey (heap pH e)) (set xs)" using wf e by (auto simp: wf_hash_def)
  obtain d0 where d0: "el_data (heap pH e) = Some d0" using ok by (auto simp: elem_ok_def)
  show cd: "contents pH k = el_data (heap pH e)" using f by (simp add: contents_def wf_elements [OF wf])
  obtain t j where t: "layout (slot pH) t pH xs" "length t = 2 ^ j" "htsize pH = 2 ^ j"
    using wf e(1) by (auto simp: wf_hash_def table_ok_def)
  let ?q = "upd e (\<lambda>x. x\<lparr>el_data := Some d\<rparr>) pH"
  have ky: "el_pKey (heap ?q x) = el_pKey (heap pH x)" for x by (simp add: upd_def)
  have kc: "keyClass ?q = keyClass pH" "htsize ?q = htsize pH" "h_count ?q = h_count pH" by (simp_all add: upd_def)
  have "layout (slot ?q) t ?q xs" by (rule layout_cong [OF t(1)]) (auto simp: upd_def slot_def)
  then have "table_ok ?q xs" using t kc by (auto simp: table_ok_def)
  moreover have "elem_ok (keyClass pH) (heap ?q x)" if "x \<in> set xs" for x using wf that by (auto simp: wf_hash_def elem_ok_def upd_def)
  ultimately have w: "wf_hash ?q xs" using wf unfolding wf_hash_def ky kc by blast
  have "contents ?q = (contents pH)(k \<mapsto> d)"
  proof
    fix k'
    have "find (\<lambda>x. el_pKey (heap ?q x) = k') xs = find (\<lambda>x. el_pKey (heap pH x) = k') xs" by (simp add: ky)
    then have c: "contents ?q k' = (case find (\<lambda>x. el_pKey (heap pH x) = k') xs of None \<Rightarrow> None | Some x \<Rightarrow> el_data (heap ?q x))"
      by (simp add: contents_def wf_elements [OF w])
    show "contents ?q k' = ((contents pH)(k \<mapsto> d)) k'"
    proof (cases "find (\<lambda>x. el_pKey (heap pH x) = k') xs")
      case None
      then show ?thesis using c f by (auto simp: contents_def wf_elements [OF wf])
    next
      case (Some x)
      then have "el_pKey (heap pH x) = k'" by (auto simp: find_Some_iff)
      moreover have "el_data (heap ?q y) = (if y = e then Some d else el_data (heap pH y))" for y by (simp add: upd_def)
      moreover have "contents pH k' = el_data (heap pH x)" using Some by (simp add: contents_def wf_elements [OF wf])
      ultimately show ?thesis using f Some e unfolding c by (cases "k' = k") auto
    qed
  qed
  with w show "\<exists>ys. wf_hash ?q ys \<and> contents ?q = (contents pH)(k \<mapsto> d)" by blast
  obtain A B where x: "xs = A @ e # B" using e(1) by (auto simp: in_set_conv_decomp)
  have se: "slot pH e = bucket (xh k (int (length k))) (htsize pH)" "slot pH e < length t"
    using ok e xh t by (simp_all add: slot_def elem_ok_def bucket_power)
  obtain q t' where q: "fts3RemoveElementByHash e (slot pH e) pH = Some q" "keyClass q = keyClass pH" "copyKey q = copyKey pH"
    "\<forall>x. content (heap q x) = content (heap pH x)"
    "if A @ B = [] then no_table q
     else layout (slot pH) t' q (A @ B) \<and> length t' = length t \<and> htsize q = htsize pH \<and> h_count q = int (length (A @ B))"
    by (rule remove_element [of "slot pH" t pH A e B]) (use t x se wf in \<open>auto simp: wf_hash_def\<close>)
  have "no_table q \<and> A @ B = [] \<or> table_ok q (A @ B)" and n: "h_count q = int (length (A @ B))"
  proof -
    have "A @ B \<noteq> [] \<Longrightarrow> slot q = slot pH" using q by (intro ext) (auto simp: slot_def content_def)
    then show "no_table q \<and> A @ B = [] \<or> table_ok q (A @ B)" using q(5) t by (auto simp: table_ok_def split: if_splits)
    show "h_count q = int (length (A @ B))" using q(5) by (auto simp: no_table_def split: if_splits)
  qed
  then have wq: "wf_hash q (A @ B)" using x by (intro wf_same [OF wf q(2,4)]) auto
  have "contents q = (contents pH)(k := None)"
  proof (rule mapping_eqI)
    fix k' d'
    have c: "content (heap q x) = content (heap pH x)" for x using q(4) by simp
    have no: "content (heap pH x) \<noteq> (y, k, z)" if "x \<in> set (A @ B)" for x y z
      using that inj x e(2) wf t(1) by (auto simp: content_def inj_on_def layout_def)
    show "contents q k' = Some d' \<longleftrightarrow> ((contents pH)(k := None)) k' = Some d'"
      unfolding contents_wf [OF wq] c
      using contents_wf [OF wf, of k' d'] no x e(2) by (auto simp: content_def image_iff)
  qed
  with q wq se show "\<exists>q ys. fts3RemoveElementByHash e (bucket (xh k (int (length k))) (htsize pH)) pH = Some q \<and> wf_hash q ys \<and>
       contents q = (contents pH)(k := None) \<and> keyClass q = keyClass pH \<and> copyKey q = copyKey pH" by metis
qed

section \<open>Runs of operations refine a map\<close>

datatype 'd hash_op = Insert fts3mem "byte list" "'d option" | Find "byte list" | Clear

fun hstep :: "'d hash_op \<Rightarrow> 'd Fts3Hash \<Rightarrow> ('d option \<times> 'd Fts3Hash) option" where
  "hstep (Insert mem k d) pH = sqlite3Fts3HashInsert mem k (int (length k)) d pH"
| "hstep (Find k) pH = do { d \<leftarrow> sqlite3Fts3HashFind pH k (int (length k)); Some (d, pH) }"
| "hstep Clear pH = do { pH \<leftarrow> sqlite3Fts3HashClear pH; Some (None, pH) }"

text \<open>On a map: an insertion of a new key may be refused only if an allocation failed.\<close>

definition all_mem :: "fts3mem \<Rightarrow> bool" where
  "all_mem m \<longleftrightarrow> m_ht8 m \<and> m_elem m \<noteq> None \<and> m_key m"

fun hspec :: "'d hash_op \<Rightarrow> (byte list \<rightharpoonup> 'd) \<Rightarrow> 'd option \<Rightarrow> (byte list \<rightharpoonup> 'd) \<Rightarrow> bool" where
  "hspec (Insert mem k d) a r b =
     (if a k \<noteq> None \<or> d = None then r = a k \<and> b = a(k := d)
      else r = None \<and> b = a(k := d) \<or> \<not> all_mem mem \<and> r = d \<and> b = a)"
| "hspec (Find k) a r b = (r = a k \<and> b = a)"
| "hspec Clear a r b = (r = None \<and> b = Map.empty)"

text \<open>The contract of the caller and the allocator: proper keys, and memory that is not in use.\<close>

fun hlegal :: "'d hash_op \<Rightarrow> 'd Fts3Hash \<Rightarrow> bool" where
  "hlegal (Insert mem k d) pH = (key_ok (keyClass pH) k \<and> (case m_elem mem of None \<Rightarrow> True | Some e \<Rightarrow> e \<notin> set (elements pH)))"
| "hlegal (Find k) pH = key_ok (keyClass pH) k"
| "hlegal Clear pH = True"

text \<open>Whether the allocation that doubles the table succeeds, in case the operation makes it.\<close>

fun grows :: "'d hash_op \<Rightarrow> bool" where
  "grows (Insert mem k d) = m_htgrow mem"
| "grows _ = True"

lemma legal_grows:
  "legal_steps hlegal hstep ops p \<Longrightarrow> list_all grows ops \<Longrightarrow> legal_steps (\<lambda>x s. hlegal x s \<and> grows x) hstep ops p"
  by (induction ops arbitrary: p) (auto split: option.splits)

definition represents :: "'d Fts3Hash \<Rightarrow> (byte list \<rightharpoonup> 'd) \<Rightarrow> bool" where
  "represents pH a \<longleftrightarrow> (\<exists>xs. wf_hash pH xs) \<and> contents pH = a"

lemma wf_no_table: "no_table pH \<Longrightarrow> keyClass pH \<in> {FTS3_HASH_STRING, FTS3_HASH_BINARY} \<Longrightarrow> wf_hash pH []"
  by (simp add: wf_hash_def no_table_def)

lemma contents_empty: "wf_hash pH [] \<Longrightarrow> contents pH = Map.empty"
  by (rule ext) (simp add: contents_def wf_elements)

text \<open>Making room: at most one of the two calls of \<open>fts3Rehash\<close> moves elements.\<close>

lemma make_room:
  assumes wf: "wf_hash pH xs" and g: "m_htgrow mem"
  defines "r1 \<equiv> (if htsize pH = 0 then fts3Rehash (m_ht8 mem) 8 pH else Some (False, pH))"
  obtains (failed) "\<not> m_ht8 mem" "r1 = Some (True, pH)" "h_count pH = 0"
  | (room) p1 p2 ys where "r1 = Some (False, p1)"
      "(if h_count p1 \<ge> int (htsize p1) then fts3Rehash (m_htgrow mem) (htsize p1 * 2) p1 else Some (False, p1)) = Some (False, p2)"
      "wf_hash p2 ys" "table_ok p2 ys" "set ys = set xs" "contents p2 = contents pH" "keyClass p2 = keyClass pH" "copyKey p2 = copyKey pH"
proof (cases "htsize pH = 0")
  case True
  then have no: "no_table pH" "xs = []" using wf by (auto simp: wf_hash_def table_ok_def)
  show thesis
  proof (cases "m_ht8 mem")
    case False
    then show ?thesis using failed no True is_power2_power(1) [of 3] by (simp add: r1_def fts3Rehash_def no_table_def)
  next
    case ht8: True
    obtain p ys where p: "fts3Rehash True (2 ^ 3) pH = Some (False, p)" "wf_hash p ys" "table_ok p ys" "set ys = set xs" "htsize p = 2 ^ 3"
      "keyClass p = keyClass pH" "copyKey p = copyKey pH" "\<forall>x. content (heap p x) = content (heap pH x)" by (rule rehash_wf [OF wf])
    have "h_count p = 0" using p(2,4) no by (simp add: wf_hash_def)
    then show ?thesis
      using room [of p p ys] p True ht8 contents_cong [OF wf p(2)] by (simp add: r1_def)
  qed
next
  case False
  then obtain j where j: "htsize pH = 2 ^ j" and t: "table_ok pH xs" using wf by (auto simp: wf_hash_def no_table_def table_ok_def)
  show thesis
  proof (cases "h_count pH \<ge> int (htsize pH)")
    case True
    obtain p ys where p: "fts3Rehash True (2 ^ Suc j) pH = Some (False, p)" "wf_hash p ys" "table_ok p ys" "set ys = set xs" "htsize p = 2 ^ Suc j"
      "keyClass p = keyClass pH" "copyKey p = copyKey pH" "\<forall>x. content (heap p x) = content (heap pH x)" by (rule rehash_wf [OF wf])
    then show ?thesis using room [of pH p ys] True False g contents_cong [OF wf p(2)] j by (simp add: r1_def mult.commute)
  next
    case no: False
    then show ?thesis using room [of pH pH xs] False wf t by (simp add: r1_def)
  qed
qed

lemma insert_step:
  assumes wf: "wf_hash pH xs" and k: "key_ok (keyClass pH) k" and g: "m_htgrow mem"
    and e: "\<And>e. m_elem mem = Some e \<Longrightarrow> e \<notin> set xs"
  shows "\<exists>r q ys. sqlite3Fts3HashInsert mem k (int (length k)) d pH = Some (r, q) \<and> wf_hash q ys \<and> hspec (Insert mem k d) (contents pH) r (contents q)"
proof -
  obtain xh where xh: "ftsHashFunction (keyClass pH) = Some xh" using wf functions_def by (metis wf_hash_def)
  have p2: "is_power2 (htsize pH)" using wf by (auto simp: wf_hash_def no_table_def table_ok_def is_power2_power)
  let ?f = "find (\<lambda>e. el_pKey (heap pH e) = k) xs"
  note start = sqlite3Fts3HashInsert_def xh p2 find_wf [OF wf k xh]
  show ?thesis
  proof (cases ?f)
    case (Some x)
    note ip = insert_present [OF wf Some xh]
    show ?thesis
    proof (cases d)
      case None
      then show ?thesis using ip(1) ip(3) Some by (auto simp: start)
    next
      case d: (Some d')
      have "contents pH k \<noteq> None" using find_contents_None [OF wf, of k] Some by simp
      then show ?thesis using ip(1) ip(2) [of d'] d Some by (auto simp: start)
    qed
  next
    case None
    then have c: "contents pH k = None" using find_contents_None [OF wf] by blast
    show ?thesis
    proof (cases d)
      case dN: None
      then show ?thesis using None c wf by (auto simp: start fun_upd_idem)
    next
      case (Some d')
      show ?thesis
      proof (rule make_room [OF wf g], goal_cases failed room)
        case failed
        have eq: "pH\<lparr>h_count := 0\<rparr> = pH" using failed(3) by simp
        show ?thesis using failed None Some c wf by (auto simp: start all_mem_def eq)
      next
        case (room p1 q ys)
        have h: "htsize q > 0" "is_power2 (htsize q)" using room(4) by (auto simp: table_ok_def is_power2_power)
        note start' = start room(1) room(2)
        show ?thesis
        proof (cases "m_elem mem = None \<or> copyKey q \<and> \<not> m_key mem")
          case True
          then show ?thesis using None Some c room(3,6) h by (cases "m_elem mem") (auto simp: start' all_mem_def)
        next
          case False
          then obtain e where e': "m_elem mem = Some e" "e \<notin> set ys" using e room(5) by auto
          have kq: "key_ok (keyClass q) k" "contents q k = None" "ftsHashFunction (keyClass q) = Some xh" using k c xh room(6,7) by simp_all
          from insert_new [OF room(3,4) e'(2) kq, of d'] obtain p2 zs where
            "fts3HashInsertElement (bucket (xh k (int (length k))) (htsize q)) e
              ((upd e (\<lambda>x. x\<lparr>el_pKey := k, el_nKey := int (length k)\<rparr>) q)\<lparr>h_count := h_count q + 1\<rparr>) = Some p2"
            "wf_hash (upd e (\<lambda>x. x\<lparr>el_data := Some d'\<rparr>) p2) zs" "contents (upd e (\<lambda>x. x\<lparr>el_data := Some d'\<rparr>) p2) = (contents q)(k \<mapsto> d')"
            by blast
          then show ?thesis using None Some c e'(1) False h room(6) by (auto simp: start' upd_def)
        qed
      qed
    qed
  qed
qed

interpretation hash_map: simulation hstep hspec "\<lambda>x s. hlegal x s \<and> grows x" represents
proof
  fix s :: "'d Fts3Hash" and a x
  assume R: "represents s a" and l: "hlegal x s \<and> grows x"
  then obtain xs where wf: "wf_hash s xs" and a: "contents s = a" by (auto simp: represents_def)
  show "\<exists>r s' b. hstep x s = Some (r, s') \<and> hspec x a r b \<and> represents s' b"
  proof (cases x)
    case (Insert mem k d)
    then show ?thesis using insert_step [OF wf, of k mem d] l a wf_elements [OF wf] by (fastforce simp: represents_def split: option.splits)
  next
    case (Find k)
    then show ?thesis using find_contents [OF wf, of k] l a wf by (auto simp: represents_def)
  next
    case Clear
    have "dlseg (heap s) None xs None" "h_first s = hd_or xs None" using wf by (auto simp: wf_hash_def table_ok_def layout_def no_table_def)
    from clear_layout [OF this] obtain q where q: "sqlite3Fts3HashClear s = Some q" "no_table q" "keyClass q = keyClass s" by (simp add: no_table_def)
    then have "wf_hash q []" using wf by (intro wf_no_table) (simp_all add: wf_hash_def)
    then show ?thesis using Clear q contents_empty by (auto simp: represents_def)
  qed
qed

lemma init_represents:
  assumes "sqlite3Fts3HashInit p0 kc ck = Some p"
  shows "represents p Map.empty" "keyClass p = kc"
proof -
  have "no_table p" "keyClass p = kc" "kc \<in> {FTS3_HASH_STRING, FTS3_HASH_BINARY}"
    using assms by (auto simp: sqlite3Fts3HashInit_def assertion_def no_table_def FTS3_HASH_STRING_def FTS3_HASH_BINARY_def split: if_splits)
  then show "represents p Map.empty" "keyClass p = kc" using wf_no_table contents_empty by (auto simp: represents_def)
qed

text \<open>
  C16. A freshly initialised table behaves as a finite map under every run of insertions, removals, lookups
  and clears with proper keys in which no allocation of a doubled table fails: the run ends without a
  failing assertion, and every result and the final table are those of a map. A refused insertion returns the
  new data, leaves the map as it was, and happens only when the allocation of the first table, of the
  element or of the key failed. When a table cannot be doubled the count of its elements is lost, and
  nothing is claimed of what follows.\<close>
theorem hash_refines_map:
  assumes "sqlite3Fts3HashInit p0 kc ck = Some p" "legal_steps hlegal hstep ops p" "list_all grows ops"
  shows "\<exists>rs q. run_steps hstep ops p = Some (rs, q) \<and> spec_steps hspec ops Map.empty rs (contents q)"
  using hash_map.run [OF init_represents(1) [OF assms(1)] legal_grows [OF assms(2,3)]] by (auto simp: represents_def)

definition ex_table :: "nat Fts3Hash" where
  "ex_table = \<lparr>keyClass = 2, copyKey = True, h_count = 0, h_first = None, htsize = 0, ht = None,
     heap = (\<lambda>_. \<lparr>el_next = None, el_prev = None, el_data = None, el_pKey = [], el_nKey = 0\<rparr>)\<rparr>"

definition ex_mem :: "nat \<Rightarrow> fts3mem" where
  "ex_mem a = \<lparr>m_ht8 = True, m_htgrow = True, m_elem = Some a, m_key = True\<rparr>"

theorem hash_refines_map_witness:
  "\<exists>rs q. run_steps hstep [Find [1, 2], Insert (ex_mem 7) [1, 2] (Some 5)] ex_table = Some (rs, q) \<and>
     rs = [None, None] \<and> contents q = [[1, 2] \<mapsto> 5]"
proof -
  have i: "sqlite3Fts3HashInit ex_table 2 True = Some ex_table"
    by (simp add: sqlite3Fts3HashInit_def ex_table_def FTS3_HASH_STRING_def FTS3_HASH_BINARY_def)
  have "legal_steps hlegal hstep [Find [1, 2], Insert (ex_mem 7) [1, 2] (Some 5)] ex_table"
    by (simp add: key_ok_def ex_table_def ex_mem_def FTS3_HASH_STRING_def sqlite3Fts3HashFind_def sqlite3Fts3HashFindElem_def elements_def
        split: option.split)
  moreover have "list_all grows [Find [1, 2], Insert (ex_mem 7) [1, 2] (Some (5 :: nat))]" by (simp add: ex_mem_def)
  ultimately show ?thesis
    using hash_refines_map [OF i, of "[Find [1, 2], Insert (ex_mem 7) [1, 2] (Some 5)]"]
    by (fastforce simp: all_mem_def ex_mem_def neq_Nil_conv elim!: spec_steps.elims)
qed

text \<open>
  When the allocation that doubles the table fails, the table is not unchanged: its count becomes 0
  while its elements stay. The next removal from such a table fails an assertion.
\<close>

lemma growth_failure:
  assumes wf: "wf_hash pH xs" and k: "key_ok (keyClass pH) k" "contents pH k = None" and n: "htsize pH > 0" "h_count pH \<ge> int (htsize pH)"
    and g: "\<not> m_htgrow mem"
  shows "sqlite3Fts3HashInsert mem k (int (length k)) (Some d) pH = Some (Some d, pH\<lparr>h_count := 0\<rparr>)"
    and "xs = A @ e # B \<Longrightarrow> A @ B \<noteq> [] \<Longrightarrow> fts3RemoveElementByHash e (slot pH e) (pH\<lparr>h_count := 0\<rparr>) = None"
proof -
  obtain xh where xh: "ftsHashFunction (keyClass pH) = Some xh" using wf functions_def by (metis wf_hash_def)
  obtain t j where t: "layout (slot pH) t pH xs" "length t = 2 ^ j" "htsize pH = 2 ^ j" using wf n(1) by (auto simp: wf_hash_def no_table_def table_ok_def)
  have "find (\<lambda>e. el_pKey (heap pH e) = k) xs = None" using find_contents_None [OF wf] k(2) by blast
  then show "sqlite3Fts3HashInsert mem k (int (length k)) (Some d) pH = Some (Some d, pH\<lparr>h_count := 0\<rparr>)"
    using find_wf [OF wf k(1) xh] n g t(3) is_power2_power(1) [of "Suc j"] xh
    by (simp add: sqlite3Fts3HashInsert_def is_power2_power fts3Rehash_def mult.commute)
  assume x: "xs = A @ e # B" "A @ B \<noteq> []"
  let ?p = "pH\<lparr>h_count := 0\<rparr>"
  have "slot pH e < length t" using xh t by (simp add: slot_def bucket_power)
  with remove_pointers [of ?p A e B t "slot pH e"] t(1) x show "fts3RemoveElementByHash e (slot pH e) ?p = None"
    by (auto simp: layout_def Let_def hd_or_def split: list.splits)
qed

end
