(* ===== verification/Fts3Words.thy ===== *)
theory Fts3Words
  imports Ctype
begin

text \<open>
  What the tokenizers of the full-text module share: words as maximal runs of characters that are no
  delimiters, the scanning loops over an input, and the contract of a tokenizer as a locale. The simple
  tokenizer, src/fts3_tokenizer1.go, is the first instance.
\<close>

section \<open>Characters and buffers\<close>

abbreviation letter :: "char \<Rightarrow> bool" where
  "letter c \<equiv> code (CHR ''a'') \<le> code c \<and> code c \<le> code (CHR ''z'')"

abbreviation upper :: "char \<Rightarrow> bool" where
  "upper c \<equiv> code (CHR ''A'') \<le> code c \<and> code c \<le> code (CHR ''Z'')"

abbreviation digit :: "char \<Rightarrow> bool" where
  "digit c \<equiv> code (CHR ''0'') \<le> code c \<and> code c \<le> code (CHR ''9'')"

definition to_lower :: "char \<Rightarrow> char" where
  "to_lower c = char_of (code c + code (CHR ''a'') - code (CHR ''A''))"

definition put :: "nat \<Rightarrow> char \<Rightarrow> char list \<Rightarrow> char list option" where
  "put i c zOut = (if i < length zOut then Some (zOut[i := c]) else None)"

definition low :: "char \<Rightarrow> char" where
  "low c = (if upper c then to_lower c else c)"

section \<open>Words of a text\<close>

text \<open>The first run of characters that are no delimiters, from position \<open>i\<close> on: its start and its text.\<close>

definition next_run :: "(char \<Rightarrow> bool) \<Rightarrow> string \<Rightarrow> nat \<Rightarrow> (nat \<times> string) option" where
  "next_run P z i =
     (let s = i + length (takeWhile P (drop i z)); w = takeWhile (\<lambda>c. \<not> P c) (drop s z)
      in if w = [] then None else Some (s, w))"

lemma next_run_inside:
  assumes "next_run P z i = Some (s, w)"
  shows "i \<le> s" "w \<noteq> []" "s + length w \<le> length z" "w = take (length w) (drop s z)"
proof -
  have w: "i \<le> s" "w = takeWhile (\<lambda>c. \<not> P c) (drop s z)" "w \<noteq> []" using assms by (auto simp: next_run_def Let_def split: if_splits)
  then show "i \<le> s" "w \<noteq> []" by simp_all
  show "w = take (length w) (drop s z)" using w(2) by (metis takeWhile_eq_take)
  have "length w \<le> length (drop s z)" using w(2) by (metis length_takeWhile_le)
  then show "s + length w \<le> length z" using w(3) by (cases w) simp_all
qed

function runs :: "(char \<Rightarrow> bool) \<Rightarrow> string \<Rightarrow> nat \<Rightarrow> (nat \<times> string) list" where
  "runs P z i = (case next_run P z i of None \<Rightarrow> [] | Some (s, w) \<Rightarrow> (s, w) # runs P z (s + length w))"
  by pat_completeness auto
termination runs
proof (relation "measure (\<lambda>(P, z, i). length z - i)", goal_cases)
  case (2 P z i r s w)
  then have n: "next_run P z i = Some (s, w)" by simp
  show ?case using next_run_inside(1-3) [OF n] by (cases w) auto
qed simp

declare runs.simps [simp del]

text \<open>The words are exactly the maximal runs: a delimiter or the end of the text stands on both sides.\<close>

definition maximal_run :: "(char \<Rightarrow> bool) \<Rightarrow> string \<Rightarrow> nat \<Rightarrow> nat \<times> string \<Rightarrow> bool" where
  "maximal_run P z i = (\<lambda>(s, w). i \<le> s \<and> w \<noteq> [] \<and> s + length w \<le> length z \<and> w = take (length w) (drop s z) \<and>
     list_all (\<lambda>c. \<not> P c) w \<and> (s = i \<or> P (z ! (s - 1))) \<and> (s + length w = length z \<or> P (z ! (s + length w))))"

lemma maximal_run_nth:
  "maximal_run P z i (s, w) \<longleftrightarrow> i \<le> s \<and> w \<noteq> [] \<and> s + length w \<le> length z \<and> w = take (length w) (drop s z) \<and>
     (\<forall>j. s \<le> j \<and> j < s + length w \<longrightarrow> \<not> P (z ! j)) \<and> (s = i \<or> P (z ! (s - 1))) \<and> (s + length w = length z \<or> P (z ! (s + length w)))"
proof -
  have "list_all (\<lambda>c. \<not> P c) w \<longleftrightarrow> (\<forall>j. s \<le> j \<and> j < s + length w \<longrightarrow> \<not> P (z ! j))"
    if w: "w = take (length w) (drop s z)" and l: "s + length w \<le> length z"
  proof -
    have n: "w ! k = z ! (s + k)" if "k < length w" for k using that l by (subst w) simp
    have "(\<forall>k < length w. \<not> P (z ! (s + k))) \<longleftrightarrow> (\<forall>j. s \<le> j \<and> j < s + length w \<longrightarrow> \<not> P (z ! j))"
      by (metis add_less_cancel_left le_add1 le_add_diff_inverse)
    then show ?thesis using n by (simp add: list_all_length)
  qed
  then show ?thesis by (auto simp: maximal_run_def)
qed

lemma next_run_nth:
  assumes "next_run P z i = Some (s, w)"
  shows "\<forall>j. i \<le> j \<and> j < s \<longrightarrow> P (z ! j)" "maximal_run P z i (s, w)"
proof -
  note n = next_run_inside [OF assms]
  have s: "s = i + length (takeWhile P (drop i z))" and w: "w = takeWhile (\<lambda>c. \<not> P c) (drop s z)"
    using assms by (auto simp: next_run_def Let_def split: if_splits)
  show A: "\<forall>j. i \<le> j \<and> j < s \<longrightarrow> P (z ! j)"
  proof (intro allI impI)
    fix j assume j: "i \<le> j \<and> j < s"
    then have k: "j - i < length (takeWhile P (drop i z))" using s by linarith
    then have "takeWhile P (drop i z) ! (j - i) = drop i z ! (j - i)" by (rule takeWhile_nth)
    moreover have "P (takeWhile P (drop i z) ! (j - i))" using nth_mem [OF k] set_takeWhileD by fastforce
    ultimately show "P (z ! j)" using j n(3) by simp
  qed
  have "list_all (\<lambda>c. \<not> P c) w" unfolding w list_all_iff by (auto dest: set_takeWhileD)
  moreover have "s = i \<or> P (z ! (s - 1))" using A n(1) by (cases "s = i") auto
  moreover have "s + length w = length z \<or> P (z ! (s + length w))"
  proof (cases "length w < length (drop s z)")
    case True
    then have "P (drop s z ! length w)" using nth_length_takeWhile [of "\<lambda>c. \<not> P c" "drop s z"] w by simp
    then show ?thesis using n(3) by simp
  next
    case False
    then show ?thesis using n(3) length_drop [of s z] by linarith
  qed
  ultimately show "maximal_run P z i (s, w)" using n by (simp add: maximal_run_def)
qed

lemma runs_maximal: "set (runs P z i) = {r. maximal_run P z i r}"
proof (induction P z i rule: runs.induct)
  case (1 P z i)
  note step = runs.simps [of P z i]
  show ?case
  proof (cases "next_run P z i")
    case None
    have "\<not> maximal_run P z i (s, w)" for s w
    proof
      assume m: "maximal_run P z i (s, w)"
      let ?s = "i + length (takeWhile P (drop i z))"
      have "takeWhile (\<lambda>c. \<not> P c) (drop ?s z) = []" using None by (simp add: next_run_def Let_def split: if_splits)
      moreover have "drop ?s z = dropWhile P (drop i z)" by (metis add.commute drop_drop dropWhile_eq_drop)
      ultimately have "dropWhile P (drop i z) = []"
        by (metis hd_dropWhile list.collapse takeWhile.simps(2) list.distinct(1))
      then have "\<forall>c \<in> set (drop i z). P c" by (simp add: dropWhile_eq_Nil_conv)
      moreover have "z ! s \<in> set (drop i z)" "\<not> P (z ! s)"
      proof -
        have "i \<le> s" "s < length z" "\<not> P (z ! s)" using m by (cases w; auto simp: maximal_run_nth)+
        then show "z ! s \<in> set (drop i z)" "\<not> P (z ! s)" using nth_mem [of "s - i" "drop i z"] by simp_all
      qed
      ultimately show False by blast
    qed
    then show ?thesis using None by (auto simp: step)
  next
    case (Some a)
    then obtain s w where n: "next_run P z i = Some (s, w)" by (cases a) auto
    note in_run = next_run_inside [OF n] and A = next_run_nth(1) [OF n]
    note m = next_run_nth(2) [OF n, unfolded maximal_run_nth]
    have "maximal_run P z i (s', w') \<longleftrightarrow> s' = s \<and> w' = w \<or> maximal_run P z (s + length w) (s', w')" (is "?l \<longleftrightarrow> ?r") for s' w'
    proof
      assume l: ?l
      note m' = l [unfolded maximal_run_nth]
      have "s \<le> s'" using A m' by (metis add_less_cancel_left add_0_right length_greater_0_conv le_refl not_le)
      moreover have "\<not> (s < s' \<and> s' < s + length w)" using m m' by (metis One_nat_def Suc_leI Suc_pred diff_less gr_implies_not0 le_less_trans less_Suc_eq_le less_imp_diff_less neq0_conv not_le zero_less_one)
      ultimately consider "s' = s" | "s + length w \<le> s'" by linarith
      then show ?r
      proof cases
        case 1
        have "\<not> length w < length w'" "\<not> length w' < length w" using m m' 1 by (metis add_less_cancel_left le_add1 less_le_not_le not_less order_less_le_trans)+
        then have "length w' = length w" by simp
        then show ?thesis using m m' 1 by metis
      next
        case 2
        moreover have "s' \<noteq> i" using 2 m in_run by (cases w) auto
        ultimately show ?thesis using m' by (auto simp: maximal_run_nth)
      qed
    next
      assume ?r
      then show ?l
      proof
        assume "s' = s \<and> w' = w"
        then show ?l using next_run_nth(2) [OF n] by simp
      next
        assume r: "maximal_run P z (s + length w) (s', w')"
        note m' = r [unfolded maximal_run_nth]
        have "s' \<noteq> s + length w" using m m' by (metis add_less_cancel_left add_0_right le_refl length_greater_0_conv add_leD1 le_antisym not_less le_add1)
        then show ?l using m' in_run by (auto simp: maximal_run_nth)
      qed
    qed
    then show ?thesis using 1 n by (auto simp: step)
  qed
qed

section \<open>Scanning\<close>

text \<open>The offset of the first character from \<open>i\<close> on that is (not) a delimiter, at most \<open>n\<close>.\<close>

function scan_while :: "(char \<Rightarrow> bool) \<Rightarrow> string \<Rightarrow> nat \<Rightarrow> nat \<Rightarrow> nat" where
  "scan_while P z n i = (if i < n \<and> P (z ! i) then scan_while P z n (i + 1) else i)"
  by pat_completeness auto
termination scan_while by (relation "measure (\<lambda>(P, z, n, i). n - i)") auto

declare scan_while.simps [simp del]

lemma scan_mono: "i \<le> scan_while P z n i"
proof (induction P z n i rule: scan_while.induct)
  case (1 P z n i)
  then show ?case using scan_while.simps [of P z n i] by (cases "i < n \<and> P (z ! i)") auto
qed

lemma scan_while_stop: "scan_while P z n i = i \<longleftrightarrow> \<not> (i < n \<and> P (z ! i))"
proof (cases "i < n \<and> P (z ! i)")
  case True
  then have "scan_while P z n i = scan_while P z n (i + 1)" by (subst scan_while.simps) simp
  then show ?thesis using True scan_mono [of "i + 1" P z n] by simp
next
  case False
  then show ?thesis by (subst scan_while.simps) auto
qed

text \<open>When a round of the outer loop finds no word, it has moved on.\<close>

lemma scan_progress:
  assumes "i < n" "scan_while P z n i = s" "\<not> s < scan_while (\<lambda>c. \<not> P c) z n s"
  shows "i < scan_while (\<lambda>c. \<not> P c) z n s"
proof -
  have "i < s"
    using assms scan_while_stop [of P z n i] scan_while_stop [of "\<lambda>c. \<not> P c" z n s] scan_mono [of i P z n] scan_mono [of s "\<lambda>c. \<not> P c" z n]
    by (metis le_neq_implies_less)
  then show ?thesis using scan_mono [of s "\<lambda>c. \<not> P c" z n] by linarith
qed

lemma scan_takeWhile:
  assumes "n \<le> length z"
  shows "scan_while P z n i = i + length (takeWhile P (drop i (take n z)))"
  using assms
proof (induction P z n i rule: scan_while.induct [case_names step])
  case (step P z n i)
  show ?case
  proof (cases "i < n \<and> i < length z")
    case True
    then have "drop i (take n z) = z ! i # drop (i + 1) (take n z)" by (simp add: Cons_nth_drop_Suc [symmetric])
    then show ?thesis using step True by (cases "P (z ! i)") (simp_all add: scan_while.simps [of P z n i])
  next
    case False
    then show ?thesis using step.prems by (auto simp: scan_while.simps [of P z n i])
  qed
qed

lemma scan_end: "\<not> (scan_while P z n i < n \<and> P (z ! scan_while P z n i))"
proof (induction P z n i rule: scan_while.induct)
  case (1 P z n i)
  then show ?case by (cases "i < n \<and> P (z ! i)") (auto simp: scan_while.simps [of P z n i])
qed

text \<open>A round of the outer loop finds the next word, or the end.\<close>

lemma scan_next_run:
  assumes "n \<le> length z"
    and s_def: "s = scan_while P z n i" and e_def: "e = scan_while (\<lambda>c. \<not> P c) z n s"
  shows "next_run P (take n z) i = (if s < e then Some (s, take (e - s) (drop s z)) else None)" "s \<le> e" "\<not> s < e \<Longrightarrow> \<not> e < n"
    "s < e \<Longrightarrow> e \<le> n"
proof -
  let ?w = "takeWhile (\<lambda>c. \<not> P c) (drop s (take n z))"
  have e: "e = s + length ?w" unfolding e_def by (rule scan_takeWhile [OF assms(1)])
  have w: "?w = take (e - s) (drop s (take n z))" using e by (metis add_diff_cancel_left' takeWhile_eq_take)
  have l: "length ?w \<le> n - s" using length_takeWhile_le [of "\<lambda>c. \<not> P c" "drop s (take n z)"] by simp
  then have w': "?w = take (e - s) (drop s z)" using e w by (simp add: drop_take min_def)
  have s: "i + length (takeWhile P (drop i (take n z))) = s" unfolding s_def by (rule scan_takeWhile [OF assms(1), symmetric])
  have n: "?w = [] \<longleftrightarrow> \<not> s < e" unfolding e by simp
  show "next_run P (take n z) i = (if s < e then Some (s, take (e - s) (drop s z)) else None)"
    unfolding next_run_def Let_def s n w' [symmetric] by simp
  show "s \<le> e" using e by simp
  show "s < e \<Longrightarrow> e \<le> n" using e l by linarith
  assume "\<not> s < e"
  then have "scan_while (\<lambda>c. \<not> P c) z n s = s" using \<open>s \<le> e\<close> e_def by simp
  then have "\<not> (s < n \<and> \<not> P (z ! s))" by (simp add: scan_while_stop)
  moreover have "\<not> (s < n \<and> P (z ! s))" unfolding s_def by (rule scan_end)
  ultimately show "\<not> e < n" using \<open>\<not> s < e\<close> \<open>s \<le> e\<close> by auto
qed

section \<open>The contract of a tokenizer\<close>

record token =
  tk_text :: string
  tk_start :: nat
  tk_end :: nat
  tk_pos :: nat

text \<open>Calling a tokenizer until it is done; \<open>None\<close> if that never happens.\<close>

partial_function (option) all_tokens :: "('c \<Rightarrow> (rc \<times> token option \<times> 'c) option) \<Rightarrow> 'c \<Rightarrow> (rc \<times> token list) option" where
  "all_tokens nxt c = do {
     (rc, t, c') \<leftarrow> nxt c;
     if rc = SQLITE_OK then do { (rc', ts) \<leftarrow> all_tokens nxt c'; Some (rc', the t # ts) }
     else Some (rc, []) }"

definition word_token :: "(string \<Rightarrow> string) \<Rightarrow> nat \<Rightarrow> nat \<times> string \<Rightarrow> token" where
  "word_token conv pos = (\<lambda>(s, w). \<lparr>tk_text = conv w, tk_start = s, tk_end = s + length w, tk_pos = pos\<rparr>)"

text \<open>
  The tokens that a text has: its words in their order, converted, with their offsets and numbered from \<open>pos\<close> on.
\<close>

fun word_tokens :: "(string \<Rightarrow> string) \<Rightarrow> nat \<Rightarrow> (nat \<times> string) list \<Rightarrow> token list" where
  "word_tokens conv pos [] = []"
| "word_tokens conv pos (r # rs) = word_token conv pos r # word_tokens conv (pos + 1) rs"

locale word_tokenizer =
  fixes nxt :: "'c \<Rightarrow> (rc \<times> token option \<times> 'c) option" and ok :: "'c \<Rightarrow> bool" and inp :: "'c \<Rightarrow> string"
    and off :: "'c \<Rightarrow> nat" and pos :: "'c \<Rightarrow> nat" and delim :: "'c \<Rightarrow> char \<Rightarrow> bool" and conv :: "string \<Rightarrow> string"
  assumes finished: "ok c \<Longrightarrow> next_run (delim c) (inp c) (off c) = None \<Longrightarrow> \<exists>c'. nxt c = Some (SQLITE_DONE, None, c')"
    and found: "ok c \<Longrightarrow> next_run (delim c) (inp c) (off c) = Some (s, w) \<Longrightarrow>
      \<exists>c'. nxt c = Some (SQLITE_OK, Some (word_token conv (pos c) (s, w)), c') \<and> ok c' \<and> inp c' = inp c \<and> delim c' = delim c \<and>
        off c' = s + length w \<and> pos c' = pos c + 1"
begin

lemma tokens: "ok c \<Longrightarrow> all_tokens nxt c = Some (SQLITE_DONE, word_tokens conv (pos c) (runs (delim c) (inp c) (off c)))"
proof (induction "length (inp c) - off c" arbitrary: c rule: less_induct)
  case less
  note step = all_tokens.simps [of nxt c] runs.simps [of "delim c" "inp c" "off c"]
  show ?case
  proof (cases "next_run (delim c) (inp c) (off c)")
    case None
    then show ?thesis using finished [OF less(2)] by (auto simp: step)
  next
    case (Some sw)
    then obtain s w where n: "next_run (delim c) (inp c) (off c) = Some (s, w)" by (cases sw) auto
    obtain c' where c': "nxt c = Some (SQLITE_OK, Some (word_token conv (pos c) (s, w)), c')" "ok c'" "inp c' = inp c" "delim c' = delim c"
      "off c' = s + length w" "pos c' = pos c + 1" using found [OF less(2) n] by auto
    have "length (inp c') - off c' < length (inp c) - off c" using next_run_inside(1-3) [OF n] c'(3,5) by (cases w) auto
    from less(1) [OF this c'(2)] show ?thesis using c' n by (simp add: step)
  qed
qed

end

section \<open>The simple tokenizer\<close>

text \<open>The flags are 0 for characters of words.\<close>

record simple_tokenizer =
  delim_flags :: "int list"

record simple_tokenizer_cursor =
  pInput :: string
  sc_nBytes :: nat
  sc_iOffset :: nat
  sc_iToken :: nat
  pToken :: "char list"
  nTokenAllocated :: nat

definition simpleDelim :: "simple_tokenizer \<Rightarrow> char \<Rightarrow> bool" where
  "simpleDelim t c \<longleftrightarrow> code c < 0x80 \<and> delim_flags t ! code c \<noteq> 0"

definition fts3_isalnum :: "nat \<Rightarrow> bool" where
  "fts3_isalnum x \<longleftrightarrow> code (CHR ''0'') \<le> x \<and> x \<le> code (CHR ''9'') \<or> code (CHR ''A'') \<le> x \<and> x \<le> code (CHR ''Z'') \<or>
     code (CHR ''a'') \<le> x \<and> x \<le> code (CHR ''z'')"

fun mark_delims :: "string \<Rightarrow> int list \<Rightarrow> int list option" where
  "mark_delims [] d = Some d"
| "mark_delims (c # cs) d = (if code c \<ge> 0x80 then None else mark_delims cs (d[code c := 1]))"

text \<open>\<open>arg\<close> is the second argument, if there is one.\<close>

definition simpleCreate :: "bool \<Rightarrow> string option \<Rightarrow> rc \<times> simple_tokenizer option" where
  "simpleCreate got arg =
     (if \<not> got then (SQLITE_NOMEM, None)
      else case arg of
        Some cs \<Rightarrow> (case mark_delims cs (replicate 128 0) of
            None \<Rightarrow> (SQLITE_ERROR, None)
          | Some d \<Rightarrow> (SQLITE_OK, Some \<lparr>delim_flags = d\<rparr>))
      | None \<Rightarrow> (SQLITE_OK, Some \<lparr>delim_flags =
            fold (\<lambda>i d. d[i := (if \<not> fts3_isalnum i then -1 else 0)]) [1..<0x80] (replicate 128 0)\<rparr>))"

definition simpleOpen :: "bool \<Rightarrow> string option \<Rightarrow> int \<Rightarrow> simple_tokenizer_cursor option" where
  "simpleOpen got zIn n =
     (if got then Some \<lparr>pInput = (case zIn of None \<Rightarrow> [] | Some z \<Rightarrow> z),
        sc_nBytes = (case zIn of None \<Rightarrow> 0 | Some z \<Rightarrow> if n < 0 then length z else nat n),
        sc_iOffset = 0, sc_iToken = 0, pToken = [], nTokenAllocated = 0\<rparr>
      else None)"

fun fill_token :: "string \<Rightarrow> nat \<Rightarrow> char list \<Rightarrow> char list option" where
  "fill_token [] i b = Some b"
| "fill_token (ch # w) i b = do { b \<leftarrow> put i (if upper ch then to_lower ch else ch) b; fill_token w (i + 1) b }"

text \<open>
  \<open>realloc\<close> is the allocator: the new buffer for the old one and a size, or \<open>None\<close>. The result is a return code,
  the token for \<open>SQLITE_OK\<close>, and the cursor.
\<close>

function simpleNext :: "(char list \<Rightarrow> nat \<Rightarrow> char list option) \<Rightarrow> simple_tokenizer \<Rightarrow> simple_tokenizer_cursor \<Rightarrow>
    (rc \<times> token option \<times> simple_tokenizer_cursor) option" where
  "simpleNext realloc t c =
     (if sc_iOffset c < sc_nBytes c then
        let iStartOffset = scan_while (simpleDelim t) (pInput c) (sc_nBytes c) (sc_iOffset c);
            c = c\<lparr>sc_iOffset := scan_while (\<lambda>ch. \<not> simpleDelim t ch) (pInput c) (sc_nBytes c) iStartOffset\<rparr>
        in if sc_iOffset c > iStartOffset then
             let n = sc_iOffset c - iStartOffset;
                 (ok, c) = (if n > nTokenAllocated c then
                              let c = c\<lparr>nTokenAllocated := n + 20\<rparr>
                              in (case realloc (pToken c) (nTokenAllocated c) of None \<Rightarrow> (False, c) | Some pNew \<Rightarrow> (True, c\<lparr>pToken := pNew\<rparr>))
                            else (True, c))
             in if \<not> ok then Some (SQLITE_NOMEM, None, c)
                else do {
                  out \<leftarrow> fill_token (take n (drop iStartOffset (pInput c))) 0 (pToken c);
                  Some (SQLITE_OK, Some \<lparr>tk_text = take n out, tk_start = iStartOffset, tk_end = sc_iOffset c, tk_pos = sc_iToken c\<rparr>,
                    c\<lparr>pToken := out, sc_iToken := sc_iToken c + 1\<rparr>) }
           else simpleNext realloc t c
      else Some (SQLITE_DONE, None, c))"
  by pat_completeness auto
termination simpleNext
proof (relation "measure (\<lambda>(r, t, c). sc_nBytes c - sc_iOffset c)", goal_cases)
  case (2 realloc t c i x)
  then show ?case using scan_progress [of "sc_iOffset c" "sc_nBytes c" "simpleDelim t" "pInput c" i] by auto
qed simp

declare simpleNext.simps [simp del]

lemma fill_token_eq: "i + length w \<le> length b \<Longrightarrow> fill_token w i b = Some (take i b @ map low w @ drop (i + length w) b)"
proof (induction w arbitrary: i b)
  case (Cons c w)
  have "take (Suc i) (b[i := x]) = take i b @ [x]" for x using Cons.prems by (simp add: take_Suc_conv_app_nth)
  then show ?case using Cons by (simp add: put_def low_def)
qed simp

definition alloc_ok :: "(char list \<Rightarrow> nat \<Rightarrow> char list option) \<Rightarrow> bool" where
  "alloc_ok realloc \<longleftrightarrow> (\<forall>b n. \<exists>b'. realloc b n = Some b' \<and> length b' = n)"

text \<open>The allocator and the tokenizer belong to the state of the instance.\<close>

type_synonym simple_state = "(char list \<Rightarrow> nat \<Rightarrow> char list option) \<times> simple_tokenizer \<times> simple_tokenizer_cursor"

definition simple_next :: "simple_state \<Rightarrow> (rc \<times> token option \<times> simple_state) option" where
  "simple_next = (\<lambda>(r, t, c). do { (rc, tk, c') \<leftarrow> simpleNext r t c; Some (rc, tk, r, t, c') })"

definition simple_ok :: "simple_state \<Rightarrow> bool" where
  "simple_ok = (\<lambda>(r, t, c). alloc_ok r \<and> sc_nBytes c \<le> length (pInput c) \<and> length (pToken c) = nTokenAllocated c)"

lemma simple_round:
  assumes "alloc_ok r" "sc_nBytes c \<le> length (pInput c)" "length (pToken c) = nTokenAllocated c"
  shows "case next_run (simpleDelim t) (take (sc_nBytes c) (pInput c)) (sc_iOffset c) of
      None \<Rightarrow> \<exists>c'. simpleNext r t c = Some (SQLITE_DONE, None, c')
    | Some (s, w) \<Rightarrow> \<exists>c'. simpleNext r t c = Some (SQLITE_OK, Some (word_token (map low) (sc_iToken c) (s, w)), c') \<and>
        length (pToken c') = nTokenAllocated c' \<and> pInput c' = pInput c \<and> sc_nBytes c' = sc_nBytes c \<and> sc_iOffset c' = s + length w \<and> sc_iToken c' = sc_iToken c + 1"
proof -
  let ?P = "simpleDelim t"
  define s where "s = scan_while ?P (pInput c) (sc_nBytes c) (sc_iOffset c)"
  define e where "e = scan_while (\<lambda>c. \<not> ?P c) (pInput c) (sc_nBytes c) s"
  note nr = scan_next_run [OF assms(2) s_def e_def]
  note step = simpleNext.simps [of r t c] s_def [symmetric] e_def [symmetric]
  show ?thesis
  proof (cases "s < e")
    case False
    have "simpleNext r t (c\<lparr>sc_iOffset := e\<rparr>) = Some (SQLITE_DONE, None, c\<lparr>sc_iOffset := e\<rparr>)"
      using nr(3) [OF False] by (simp add: simpleNext.simps [of r t "c\<lparr>sc_iOffset := e\<rparr>"])
    moreover have "simpleNext r t c = (if sc_iOffset c < sc_nBytes c then simpleNext r t (c\<lparr>sc_iOffset := e\<rparr>) else Some (SQLITE_DONE, None, c))"
      using False by (subst step(1)) (simp add: step(2,3) Let_def)
    ultimately show ?thesis using False nr(1) by simp
  next
    case True
    have i: "sc_iOffset c < sc_nBytes c" using True nr(4) scan_mono [of "sc_iOffset c" ?P "pInput c" "sc_nBytes c"] s_def by linarith
    let ?w = "take (e - s) (drop s (pInput c))"
    have lw: "length ?w = e - s" using True nr(4) assms(2) by simp
    obtain b0 where b0: "r (pToken c) (e - s + 20) = Some b0" "length b0 = e - s + 20" using assms(1) unfolding alloc_ok_def by blast
    define b where "b = (if e - s > nTokenAllocated c then b0 else pToken c)"
    define m where "m = (if e - s > nTokenAllocated c then e - s + 20 else nTokenAllocated c)"
    have b: "length b = m" "e - s \<le> m" using b0 assms(3) by (auto simp: b_def m_def)
    have f: "fill_token ?w 0 b = Some (map low ?w @ drop (e - s) b)" using fill_token_eq [of 0 ?w b] lw b by simp
    have "\<exists>c'. simpleNext r t c = Some (SQLITE_OK, Some (word_token (map low) (sc_iToken c) (s, ?w)), c') \<and>
        pToken c' = map low ?w @ drop (e - s) b \<and> nTokenAllocated c' = m \<and> pInput c' = pInput c \<and> sc_nBytes c' = sc_nBytes c \<and>
        sc_iOffset c' = e \<and> sc_iToken c' = sc_iToken c + 1"
    proof (cases "e - s > nTokenAllocated c")
      case True
      then have "b = b0" "m = e - s + 20" by (simp_all add: b_def m_def)
      then show ?thesis using i \<open>s < e\<close> f b0(1) True lw by (simp add: step Let_def word_token_def)
    next
      case False
      then have "b = pToken c" "m = nTokenAllocated c" by (simp_all add: b_def m_def)
      then show ?thesis using i \<open>s < e\<close> f False lw by (simp add: step Let_def word_token_def)
    qed
    then show ?thesis using nr(1) True lw b by auto
  qed
qed

interpretation simple: word_tokenizer simple_next simple_ok "\<lambda>(r, t, c). take (sc_nBytes c) (pInput c)" "\<lambda>(r, t, c). sc_iOffset c"
  "\<lambda>(r, t, c). sc_iToken c" "\<lambda>(r, t, c). simpleDelim t" "map low"
proof (unfold_locales, goal_cases)
  case (1 x)
  obtain r t c where "x = (r, t, c)" by (cases x)
  then show ?case using 1 simple_round [of r c t] by (auto simp: simple_ok_def simple_next_def)
next
  case (2 x s w)
  obtain r t c where "x = (r, t, c)" by (cases x)
  then show ?case using 2 simple_round [of r c t] by (fastforce simp: simple_ok_def simple_next_def)
qed

text \<open>The delimiters that \<open>simpleCreate\<close> sets up: those given, or every ASCII character but NUL, letters and digits.\<close>

lemma mark_delims_spec:
  "mark_delims cs d = Some d' \<Longrightarrow> length d = 128 \<Longrightarrow> length d' = 128 \<and> list_all (\<lambda>c. code c < 128) cs \<and>
     (\<forall>i < 128. d' ! i = (if i \<in> set (map code cs) then 1 else d ! i))"
  by (induction cs d rule: mark_delims.induct) (auto split: if_splits)

lemma fold_update:
  "distinct is \<Longrightarrow> (\<forall>i \<in> set is. i < length d) \<Longrightarrow>
     length (fold (\<lambda>i d. d[i := f i]) is d) = length d \<and> (\<forall>j < length d. fold (\<lambda>i d. d[i := f i]) is d ! j = (if j \<in> set is then f j else d ! j))"
  by (induction "is" arbitrary: d) auto

lemma simpleCreate_delims:
  assumes "simpleCreate True arg = (SQLITE_OK, Some t)"
  shows "simpleDelim t c \<longleftrightarrow> (case arg of Some cs \<Rightarrow> c \<in> set cs | None \<Rightarrow> code c < 128 \<and> code c \<noteq> 0 \<and> \<not> fts3_isalnum (code c))"
proof (cases arg)
  case (Some cs)
  then obtain d where d: "mark_delims cs (replicate 128 0) = Some d" "t = \<lparr>delim_flags = d\<rparr>" using assms by (auto simp: simpleCreate_def split: option.splits)
  from mark_delims_spec [OF d(1)] have m: "list_all (\<lambda>c. code c < 128) cs" "\<forall>i < 128. d ! i = (if i \<in> set (map code cs) then 1 else replicate 128 0 ! i)" by simp_all
  have "code c \<in> set (map code cs) \<longleftrightarrow> c \<in> set cs" by auto
  then show ?thesis using m d(2) Some by (cases "code c < 128") (auto simp: simpleDelim_def list_all_iff)
next
  case None
  let ?f = "\<lambda>i. if \<not> fts3_isalnum i then -1 else 0 :: int"
  define d where "d = fold (\<lambda>i d. d[i := ?f i]) [1..<128] (replicate 128 0)"
  have "\<forall>j < length (replicate 128 (0 :: int)). d ! j = (if j \<in> set [1..<128] then ?f j else replicate 128 0 ! j)"
    unfolding d_def by (rule fold_update [of "[1..<128]" "replicate 128 0" ?f, THEN conjunct2]) (auto simp del: upt_rec_numeral)
  then have n: "d ! j = (if j = 0 then 0 else ?f j)" if "j < 128" for j using that by (cases "j = 0") (simp_all del: upt_rec_numeral)
  have "delim_flags t = d" using assms None by (auto simp: simpleCreate_def d_def)
  then show ?thesis using None n [of "code c"] by (cases "code c = 0"; cases "fts3_isalnum (code c)") (auto simp: simpleDelim_def)
qed

text \<open>
  C38. The simple tokenizer returns exactly the words of its input: for a tokenizer made by \<open>simpleCreate\<close> and a cursor
  opened on a text, calling \<open>simpleNext\<close> until it is done ends, writes only inside its buffer, and gives
  one token for each maximal run of non-delimiters, in order, folded to lower case, with its start and
  end offset and numbered from 0. The delimiters are those of the argument, or else the ASCII
  characters other than NUL, letters and digits.\<close>
theorem simple_tokens:
  assumes "alloc_ok realloc" "simpleCreate True arg = (SQLITE_OK, Some t)" "simpleOpen True (Some z) n = Some c" "n \<le> int (length z)"
  shows "all_tokens simple_next (realloc, t, c) =
      Some (SQLITE_DONE, word_tokens (map low) 0 (runs (simpleDelim t) (if n < 0 then z else take (nat n) z) 0)) \<and>
    simpleDelim t = (\<lambda>ch. case arg of Some cs \<Rightarrow> ch \<in> set cs | None \<Rightarrow> code ch < 128 \<and> code ch \<noteq> 0 \<and> \<not> fts3_isalnum (code ch))"
proof -
  have c: "c = \<lparr>pInput = z, sc_nBytes = (if n < 0 then length z else nat n), sc_iOffset = 0, sc_iToken = 0, pToken = [], nTokenAllocated = 0\<rparr>"
    using assms(3) by (auto simp: simpleOpen_def)
  have "simple_ok (realloc, t, c)" using assms(1,4) by (auto simp: simple_ok_def c)
  from simple.tokens [OF this] show ?thesis using simpleCreate_delims [OF assms(2)] by (auto simp: c)
qed

definition ex_realloc :: "char list \<Rightarrow> nat \<Rightarrow> char list option" where
  "ex_realloc b n = Some (take n b @ replicate (n - length b) (CHR 0x00))"

lemma ex_realloc_ok: "alloc_ok ex_realloc"
  by (auto simp: alloc_ok_def ex_realloc_def min_def)

theorem simple_tokens_witness:
  "\<exists>t c. simpleCreate True (Some '' ,'') = (SQLITE_OK, Some t) \<and> simpleOpen True (Some ''Go, Fts'') (-1) = Some c \<and>
     all_tokens simple_next (ex_realloc, t, c) = Some (SQLITE_DONE,
       [\<lparr>tk_text = ''go'', tk_start = 0, tk_end = 2, tk_pos = 0\<rparr>, \<lparr>tk_text = ''fts'', tk_start = 4, tk_end = 7, tk_pos = 1\<rparr>])"
proof -
  obtain t where t: "simpleCreate True (Some '' ,'') = (SQLITE_OK, Some t)" by (simp add: simpleCreate_def)
  obtain c where c: "simpleOpen True (Some ''Go, Fts'') (-1) = Some c" by (simp add: simpleOpen_def)
  have "runs (\<lambda>ch. ch \<in> set '' ,'') ''Go, Fts'' 0 = [(0, ''Go''), (4, ''Fts'')]"
    by (simp add: runs.simps next_run_def)
  moreover have "low (CHR ''G'') = CHR ''g''" "low (CHR ''o'') = CHR ''o''" "low (CHR ''F'') = CHR ''f''" "low (CHR ''t'') = CHR ''t''" "low (CHR ''s'') = CHR ''s''"
    by code_simp+
  ultimately show ?thesis using simple_tokens [OF ex_realloc_ok t c] t c by (simp add: word_token_def)
qed

end
