(* ===== verification/Porter.thy ===== *)
theory Porter
  imports Fts3Words
begin

text \<open>
  The Porter stemmer and its tokenizer, src/fts3_porter.go. The word under work is kept in reverse order in
  the buffer \<open>zReverse\<close>; a pointer into it is the number of bytes before it and the text from there to the
  terminator, so that writing in front of it is possible while bytes are left. Behind the text stand
  five NULs, and no step looks further. Output buffers are lists of characters of their size; a write
  outside a buffer is \<open>None\<close>.
\<close>

section \<open>Letters\<close>

type_synonym ptr = "nat \<times> string"

definition cType :: "nat list" where
  "cType = [0, 1, 1, 1, 0, 1, 1, 1, 0, 1, 1, 1, 1, 1, 0, 1, 1, 1, 1, 1, 0, 1, 1, 1, 2, 1]"

text \<open>
  The text holds letters a to z only, which is what the two assertions ask for; the steps below keep it so.
\<close>

fun isConsonant :: "string \<Rightarrow> bool"
and isVowel :: "string \<Rightarrow> bool" where
  "isConsonant [] = False"
| "isConsonant (x # z) = (let j = cType ! (code x - code (CHR ''a'')) in if j < 2 then j = 1 else z = [] \<or> isVowel z)"
| "isVowel [] = False"
| "isVowel (x # z) = (let j = cType ! (code x - code (CHR ''a'')) in if j < 2 then j = 0 else isConsonant z)"

fun skip_vowels :: "string \<Rightarrow> string" where
  "skip_vowels [] = []"
| "skip_vowels (x # z) = (if isVowel (x # z) then skip_vowels z else x # z)"

fun skip_consonants :: "string \<Rightarrow> string" where
  "skip_consonants [] = []"
| "skip_consonants (x # z) = (if isConsonant (x # z) then skip_consonants z else x # z)"

definition m_gt_0 :: "string \<Rightarrow> bool" where
  "m_gt_0 z = (let z = skip_vowels z in if z = [] then False else skip_consonants z \<noteq> [])"

definition m_eq_1 :: "string \<Rightarrow> bool" where
  "m_eq_1 z =
     (let z = skip_vowels z in if z = [] then False
      else let z = skip_consonants z in if z = [] then False
      else let z = skip_vowels z in if z = [] then True
      else skip_consonants z = [])"

definition m_gt_1 :: "string \<Rightarrow> bool" where
  "m_gt_1 z =
     (let z = skip_vowels z in if z = [] then False
      else let z = skip_consonants z in if z = [] then False
      else let z = skip_vowels z in if z = [] then False
      else skip_consonants z \<noteq> [])"

definition hasVowel :: "string \<Rightarrow> bool" where
  "hasVowel z \<longleftrightarrow> skip_consonants z \<noteq> []"

definition doubleConsonant :: "string \<Rightarrow> bool" where
  "doubleConsonant z \<longleftrightarrow> isConsonant z \<and> zat z 0 = zat z 1"

definition star_oh :: "string \<Rightarrow> bool" where
  "star_oh z \<longleftrightarrow> isConsonant z \<and> zat z 0 \<noteq> CHR ''w'' \<and> zat z 0 \<noteq> CHR ''x'' \<and> zat z 0 \<noteq> CHR ''y'' \<and>
     isVowel (drop 1 z) \<and> isConsonant (drop 2 z)"

section \<open>Changing an ending\<close>

fun stem_match :: "string \<Rightarrow> string \<Rightarrow> string option" where
  "stem_match [] z = Some z"
| "stem_match (c # f) z = (if z \<noteq> [] \<and> hd z = c then stem_match f (tl z) else None)"

fun stem_write :: "string \<Rightarrow> ptr \<Rightarrow> ptr option" where
  "stem_write [] p = Some p"
| "stem_write (c # t) (room, z) = (if room = 0 then None else stem_write t (room - 1, c # z))"

text \<open>The first component of the result says that \<open>zFrom\<close> matches; \<open>None\<close> for \<open>xCond\<close> is the null pointer.\<close>

definition stem :: "string \<Rightarrow> string \<Rightarrow> (string \<Rightarrow> bool) option \<Rightarrow> ptr \<Rightarrow> (bool \<times> ptr) option" where
  "stem zFrom zTo xCond = (\<lambda>(room, pz). case stem_match zFrom pz of
       None \<Rightarrow> Some (False, room, pz)
     | Some z \<Rightarrow>
         if (case xCond of None \<Rightarrow> False | Some f \<Rightarrow> \<not> f z) then Some (True, room, pz)
         else do { p \<leftarrow> stem_write zTo (room + (length pz - length z), z); Some (True, p) })"

text \<open>A chain of calls of \<open>stem\<close> joined by ||.\<close>

fun stems :: "(string \<times> string \<times> (string \<Rightarrow> bool) option) list \<Rightarrow> ptr \<Rightarrow> (bool \<times> ptr) option" where
  "stems [] p = Some (False, p)"
| "stems ((f, t, c) # rs) p = do { (m, p) \<leftarrow> stem f t c p; if m then Some (True, p) else stems rs p }"

definition advance :: "nat \<Rightarrow> ptr \<Rightarrow> ptr" where
  "advance n p = (fst p + n, drop n (snd p))"

section \<open>The steps\<close>

definition step1a :: "ptr \<Rightarrow> ptr option" where
  "step1a p = (if zat (snd p) 0 = CHR ''s'' then do {
       (m, p) \<leftarrow> stems [(''sess'', ''ss'', None), (''sei'', ''i'', None), (''ss'', ''ss'', None)] p;
       Some (if m then p else advance 1 p) }
     else Some p)"

definition step1b :: "ptr \<Rightarrow> ptr option" where
  "step1b p = do {
     let z2 = p;
     (m, p) \<leftarrow> stem ''dee'' ''ee'' (Some m_gt_0) p;
     if m then Some p
     else do {
       (m, p) \<leftarrow> stems [(''gni'', '''', Some hasVowel), (''de'', '''', Some hasVowel)] p;
       if m \<and> fst p \<noteq> fst z2 then do {
         (m, p) \<leftarrow> stems [(''ta'', ''ate'', None), (''lb'', ''ble'', None), (''zi'', ''ize'', None)] p;
         if m then Some p
         else if doubleConsonant (snd p) \<and> zat (snd p) 0 \<noteq> CHR ''l'' \<and> zat (snd p) 0 \<noteq> CHR ''s'' \<and> zat (snd p) 0 \<noteq> CHR ''z''
         then Some (advance 1 p)
         else if m_eq_1 (snd p) \<and> star_oh (snd p) then stem_write ''e'' p
         else Some p }
       else Some p } }"

definition step1c :: "ptr \<Rightarrow> ptr" where
  "step1c p = (if zat (snd p) 0 = CHR ''y'' \<and> hasVowel (drop 1 (snd p)) then (fst p, CHR ''i'' # tl (snd p)) else p)"

definition rules2 :: "char \<Rightarrow> (string \<times> string) list" where
  "rules2 c =
     (if c = CHR ''a'' then [(''lanoita'', ''ate''), (''lanoit'', ''tion'')]
      else if c = CHR ''c'' then [(''icne'', ''ence''), (''icna'', ''ance'')]
      else if c = CHR ''e'' then [(''rezi'', ''ize'')]
      else if c = CHR ''g'' then [(''igol'', ''log'')]
      else if c = CHR ''l'' then [(''ilb'', ''ble''), (''illa'', ''al''), (''iltne'', ''ent''), (''ile'', ''e''), (''ilsuo'', ''ous'')]
      else if c = CHR ''o'' then [(''noitazi'', ''ize''), (''noita'', ''ate''), (''rota'', ''ate'')]
      else if c = CHR ''s'' then [(''msila'', ''al''), (''ssenevi'', ''ive''), (''ssenluf'', ''ful''), (''ssensuo'', ''ous'')]
      else if c = CHR ''t'' then [(''itila'', ''al''), (''itivi'', ''ive''), (''itilib'', ''ble'')]
      else [])"

definition rules3 :: "char \<Rightarrow> (string \<times> string) list" where
  "rules3 c =
     (if c = CHR ''e'' then [(''etaci'', ''ic''), (''evita'', ''''), (''ezila'', ''al'')]
      else if c = CHR ''i'' then [(''itici'', ''ic'')]
      else if c = CHR ''l'' then [(''laci'', ''ic''), (''luf'', '''')]
      else if c = CHR ''s'' then [(''ssen'', '''')]
      else [])"

definition if_m :: "(string \<Rightarrow> bool) \<Rightarrow> (string \<times> string) list \<Rightarrow> (string \<times> string \<times> (string \<Rightarrow> bool) option) list" where
  "if_m m rs = map (\<lambda>(f, t). (f, t, Some m)) rs"

definition step2 :: "ptr \<Rightarrow> ptr option" where
  "step2 p = do { (m, p) \<leftarrow> stems (if_m m_gt_0 (rules2 (zat (snd p) 1))) p; Some p }"

definition step3 :: "ptr \<Rightarrow> ptr option" where
  "step3 p = do { (m, p) \<leftarrow> stems (if_m m_gt_0 (rules3 (zat (snd p) 0))) p; Some p }"

text \<open>The test of a case of step 4, and the number of letters it takes off.\<close>

definition cut_if :: "bool \<Rightarrow> nat \<Rightarrow> ptr \<Rightarrow> ptr option" where
  "cut_if b n p = Some (if b \<and> m_gt_1 (drop n (snd p)) then advance n p else p)"

definition step4 :: "ptr \<Rightarrow> ptr option" where
  "step4 p =
     (let z = snd p; c = zat z 1;
          rules = (\<lambda>rs. do { (m, p) \<leftarrow> stems (if_m m_gt_1 rs) p; Some p })
      in if c = CHR ''a'' then cut_if (zat z 0 = CHR ''l'') 2 p
         else if c = CHR ''c'' then cut_if (zat z 0 = CHR ''e'' \<and> zat z 2 = CHR ''n'' \<and> (zat z 3 = CHR ''a'' \<or> zat z 3 = CHR ''e'')) 4 p
         else if c = CHR ''e'' then cut_if (zat z 0 = CHR ''r'') 2 p
         else if c = CHR ''i'' then cut_if (zat z 0 = CHR ''c'') 2 p
         else if c = CHR ''l'' then cut_if (zat z 0 = CHR ''e'' \<and> zat z 2 = CHR ''b'' \<and> (zat z 3 = CHR ''a'' \<or> zat z 3 = CHR ''i'')) 4 p
         else if c = CHR ''n'' then
           if zat z 0 = CHR ''t'' then
             if zat z 2 = CHR ''a'' then cut_if True 3 p
             else if zat z 2 = CHR ''e'' then rules [(''tneme'', ''''), (''tnem'', ''''), (''tne'', '''')]
             else Some p
           else Some p
         else if c = CHR ''o'' then
           if zat z 0 = CHR ''u'' then cut_if True 2 p
           else if zat z 3 = CHR ''s'' \<or> zat z 3 = CHR ''t'' then rules [(''noi'', '''')]
           else Some p
         else if c = CHR ''s'' then cut_if (zat z 0 = CHR ''m'' \<and> zat z 2 = CHR ''i'') 3 p
         else if c = CHR ''t'' then rules [(''eta'', ''''), (''iti'', '''')]
         else if c = CHR ''u'' then cut_if (zat z 0 = CHR ''s'' \<and> zat z 2 = CHR ''o'') 3 p
         else if c = CHR ''v'' \<or> c = CHR ''z'' then cut_if (zat z 0 = CHR ''e'' \<and> zat z 2 = CHR ''i'') 3 p
         else Some p)"

definition step5a :: "ptr \<Rightarrow> ptr" where
  "step5a p = (if zat (snd p) 0 = CHR ''e'' then
       if m_gt_1 (drop 1 (snd p)) then advance 1 p
       else if m_eq_1 (drop 1 (snd p)) \<and> \<not> star_oh (drop 1 (snd p)) then advance 1 p
       else p
     else p)"

definition step5b :: "ptr \<Rightarrow> ptr" where
  "step5b p = (if m_gt_1 (snd p) \<and> zat (snd p) 0 = CHR ''l'' \<and> zat (snd p) 1 = CHR ''l'' then advance 1 p else p)"

definition porter_steps :: "ptr \<Rightarrow> ptr option" where
  "porter_steps p = do {
     p \<leftarrow> step1a p;
     p \<leftarrow> step1b p;
     let p = step1c p;
     p \<leftarrow> step2 p;
     p \<leftarrow> step3 p;
     p \<leftarrow> step4 p;
     Some (step5b (step5a p)) }"

section \<open>Output\<close>

fun copy_chars :: "string \<Rightarrow> nat \<Rightarrow> bool \<Rightarrow> char list \<Rightarrow> (bool \<times> char list) option" where
  "copy_chars [] i hasDigit zOut = Some (hasDigit, zOut)"
| "copy_chars (c # zIn) i hasDigit zOut =
     (if upper c then do { zOut \<leftarrow> put i (to_lower c) zOut; copy_chars zIn (i + 1) hasDigit zOut }
      else do { zOut \<leftarrow> put i c zOut; copy_chars zIn (i + 1) (hasDigit \<or> digit c) zOut })"

fun move_end :: "nat \<Rightarrow> nat \<Rightarrow> nat \<Rightarrow> char list \<Rightarrow> char list option" where
  "move_end 0 j i zOut = Some zOut"
| "move_end (Suc k) j i zOut = do {
     assertion (i < length zOut);
     zOut \<leftarrow> put j (zOut ! i) zOut;
     move_end k (j + 1) (i + 1) zOut }"

text \<open>The word is \<open>zIn\<close>, so that \<open>nIn\<close> is its length; the result is \<open>*pnOut\<close> and the output buffer.\<close>

definition copy_stemmer :: "string \<Rightarrow> char list \<Rightarrow> (nat \<times> char list) option" where
  "copy_stemmer zIn zOut = do {
     (hasDigit, zOut) \<leftarrow> copy_chars zIn 0 False zOut;
     let nIn = length zIn;
     let mx = (if hasDigit then 3 else 10);
     (i, zOut) \<leftarrow> (if nIn > mx * 2 then do { zOut \<leftarrow> move_end mx mx (nIn - mx) zOut; Some (mx * 2, zOut) } else Some (nIn, zOut));
     zOut \<leftarrow> put i (CHR 0x00) zOut;
     Some (i, zOut) }"

text \<open>The loop that fills \<open>zReverse\<close> from its end: \<open>None\<close> is the way out to the copy stemmer.\<close>

fun reverse_word :: "string \<Rightarrow> string \<Rightarrow> string option" where
  "reverse_word [] z = Some z"
| "reverse_word (c # zIn) z =
     (if upper c then reverse_word zIn (to_lower c # z)
      else if letter c then reverse_word zIn (c # z)
      else None)"

fun flip_word :: "string \<Rightarrow> nat \<Rightarrow> char list \<Rightarrow> char list option" where
  "flip_word [] i zOut = Some zOut"
| "flip_word (c # z) i zOut = do {
     assertion (i > 0);
     zOut \<leftarrow> put (i - 1) c zOut;
     flip_word z (i - 1) zOut }"

definition SIZE_REVERSE :: nat where "SIZE_REVERSE = 28"

definition porter_stemmer :: "string \<Rightarrow> char list \<Rightarrow> (nat \<times> char list) option" where
  "porter_stemmer zIn zOut =
     (let nIn = length zIn in
      if nIn < 3 \<or> nIn \<ge> SIZE_REVERSE - 7 then copy_stemmer zIn zOut
      else case reverse_word zIn [] of
        None \<Rightarrow> copy_stemmer zIn zOut
      | Some z \<Rightarrow> do {
          (room, z) \<leftarrow> porter_steps (SIZE_REVERSE - 5 - nIn, z);
          zOut \<leftarrow> put (length z) (CHR 0x00) zOut;
          zOut' \<leftarrow> flip_word z (length z) zOut;
          Some (length z, zOut') })"

section \<open>The tokenizer\<close>

record porter_tokenizer_cursor =
  zInput :: string
  nInput :: nat
  iOffset :: nat
  iToken :: nat
  Token :: "char list"
  nAllocated :: nat

text \<open>\<open>got\<close> says that the allocation succeeds; \<open>zInput\<close> is \<open>None\<close> for the null pointer.\<close>

definition porterOpen :: "bool \<Rightarrow> string option \<Rightarrow> int \<Rightarrow> porter_tokenizer_cursor option" where
  "porterOpen got zIn n =
     (if got then Some \<lparr>zInput = (case zIn of None \<Rightarrow> [] | Some z \<Rightarrow> z),
        nInput = (case zIn of None \<Rightarrow> 0 | Some z \<Rightarrow> if n < 0 then length z else nat n),
        iOffset = 0, iToken = 0, Token = [], nAllocated = 0\<rparr>
      else None)"

definition porterIdChar :: "nat list" where
  "porterIdChar =
     [1, 1, 1, 1, 1, 1, 1, 1, 1, 1, 0, 0, 0, 0, 0, 0,
      0, 1, 1, 1, 1, 1, 1, 1, 1, 1, 1, 1, 1, 1, 1, 1,
      1, 1, 1, 1, 1, 1, 1, 1, 1, 1, 1, 0, 0, 0, 0, 1,
      0, 1, 1, 1, 1, 1, 1, 1, 1, 1, 1, 1, 1, 1, 1, 1,
      1, 1, 1, 1, 1, 1, 1, 1, 1, 1, 1, 0, 0, 0, 0, 0]"

definition isDelim :: "char \<Rightarrow> bool" where
  "isDelim c \<longleftrightarrow> code c < 0x80 \<and> (code c < 0x30 \<or> porterIdChar ! (code c - 0x30) = 0)"

text \<open>
  \<open>realloc\<close> is the allocator: the new buffer for the old one and a size, or \<open>None\<close>. The result is a return code,
  the token for \<open>SQLITE_OK\<close>, and the cursor.
\<close>

function porterNext :: "(char list \<Rightarrow> nat \<Rightarrow> char list option) \<Rightarrow> porter_tokenizer_cursor \<Rightarrow> (rc \<times> token option \<times> porter_tokenizer_cursor) option" where
  "porterNext realloc c =
     (if iOffset c < nInput c then
        let iStartOffset = scan_while isDelim (zInput c) (nInput c) (iOffset c);
            c = c\<lparr>iOffset := scan_while (\<lambda>ch. \<not> isDelim ch) (zInput c) (nInput c) iStartOffset\<rparr>
        in if iOffset c > iStartOffset then
             let n = iOffset c - iStartOffset;
                 (ok, c) = (if n > nAllocated c then
                              let c = c\<lparr>nAllocated := n + 20\<rparr>
                              in (case realloc (Token c) (nAllocated c) of None \<Rightarrow> (False, c) | Some pNew \<Rightarrow> (True, c\<lparr>Token := pNew\<rparr>))
                            else (True, c))
             in if \<not> ok then Some (SQLITE_NOMEM, None, c)
                else do {
                  (nBytes, out) \<leftarrow> porter_stemmer (take n (drop iStartOffset (zInput c))) (Token c);
                  Some (SQLITE_OK, Some \<lparr>tk_text = take nBytes out, tk_start = iStartOffset, tk_end = iOffset c, tk_pos = iToken c\<rparr>,
                    c\<lparr>Token := out, iToken := iToken c + 1\<rparr>) }
           else porterNext realloc c
      else Some (SQLITE_DONE, None, c))"
  by pat_completeness auto

termination porterNext
proof (relation "measure (\<lambda>(r, c). nInput c - iOffset c)", goal_cases)
  case (2 realloc c i x)
  then show ?case using scan_progress [of "iOffset c" "nInput c" isDelim "zInput c" i] by auto
qed simp

declare porterNext.simps [simp del]

section \<open>The steps stay inside the buffer\<close>

text \<open>
  What a step keeps: the end of the text, its letters, and that it is not empty; and the word grows by at
  most \<open>k\<close> letters.
\<close>

definition keeps :: "nat \<Rightarrow> ptr \<Rightarrow> ptr \<Rightarrow> bool" where
  "keeps k p q \<longleftrightarrow> fst q + length (snd q) = fst p + length (snd p) \<and> length (snd q) \<le> length (snd p) + k \<and>
     (list_all letter (snd p) \<longrightarrow> list_all letter (snd q)) \<and> (snd p \<noteq> [] \<longrightarrow> snd q \<noteq> [])"

lemma keeps_refl [simp]: "keeps k p p"
  by (simp add: keeps_def)

lemma keeps_trans: "keeps 0 p q \<Longrightarrow> keeps 0 q r \<Longrightarrow> keeps 0 p r"
  by (simp add: keeps_def)

lemma stem_match_iff: "stem_match f z = Some z' \<longleftrightarrow> z = f @ z'"
  by (induction f z rule: stem_match.induct) (auto simp: neq_Nil_conv)

lemma stem_write_eq: "stem_write t (r, z) = (if length t \<le> r then Some (r - length t, rev t @ z) else None)"
  by (induction t arbitrary: r z) auto

lemma m_Nil [simp]: "\<not> m_gt_0 []" "\<not> m_eq_1 []" "\<not> m_gt_1 []" "\<not> hasVowel []" "\<not> star_oh []" "\<not> doubleConsonant []"
  by (simp_all add: m_gt_0_def m_eq_1_def m_gt_1_def hasVowel_def star_oh_def doubleConsonant_def)

lemma m_drop: "m_gt_0 (drop n z) \<or> m_eq_1 (drop n z) \<or> m_gt_1 (drop n z) \<or> hasVowel (drop n z) \<Longrightarrow> n < length z"
  by (rule ccontr) simp

text \<open>A rule that makes the word longer by at most \<open>k\<close> letters, and not empty.\<close>

definition good_rule :: "nat \<Rightarrow> string \<times> string \<times> (string \<Rightarrow> bool) option \<Rightarrow> bool" where
  "good_rule k = (\<lambda>(f, t, c). length t \<le> length f + k \<and> list_all letter t \<and>
     (t \<noteq> [] \<or> c = Some m_gt_0 \<or> c = Some m_gt_1 \<or> c = Some hasVowel))"

lemma stem_keeps:
  assumes "good_rule k (f, t, c)" "k \<le> fst p"
  obtains m q where "stem f t c p = Some (m, q)" "keeps k p q" "m \<or> q = p" "t = [] \<longrightarrow> q = p \<or> length (snd q) + length f = length (snd p)"
proof -
  obtain r z where p: "p = (r, z)" by fastforce
  show thesis
  proof (cases "stem_match f z")
    case None
    then show ?thesis using p that [of False p] by (simp add: stem_def)
  next
    case (Some z')
    then have z: "z = f @ z'" by (simp add: stem_match_iff)
    show ?thesis
    proof (cases "case c of None \<Rightarrow> False | Some g \<Rightarrow> \<not> g z'")
      case True
      then show ?thesis using p Some that [of True p] by (simp add: stem_def)
    next
      case False
      then have "t = [] \<longrightarrow> z' \<noteq> []" using assms by (auto simp: good_rule_def)
      moreover have "stem f t c p = Some (True, r + length f - length t, rev t @ z')"
        using False Some assms p z by (simp add: stem_def stem_write_eq good_rule_def)
      ultimately show ?thesis using assms z p
        by (intro that [of True "(r + length f - length t, rev t @ z')"]) (auto simp: keeps_def good_rule_def)
    qed
  qed
qed

lemma stems_keeps:
  assumes "list_all (good_rule k) rs" "k \<le> fst p"
  obtains m q where "stems rs p = Some (m, q)" "keeps k p q" "m \<or> q = p"
proof -
  have "\<exists>m q. stems rs p = Some (m, q) \<and> keeps k p q \<and> (m \<or> q = p)" using assms(1)
  proof (induction rs)
    case (Cons r rs)
    obtain f t c where r: "r = (f, t, c)" by (cases r) auto
    obtain m q where "stem f t c p = Some (m, q)" "keeps k p q" "m \<or> q = p"
      by (rule stem_keeps [of k f t c p]) (use Cons.prems r assms(2) in auto)
    then show ?case using Cons r by (cases m) auto
  qed auto
  then show thesis using that by blast
qed

declare stems.simps [simp del]

definition kept :: "ptr \<Rightarrow> ptr option \<Rightarrow> bool" where
  "kept p r = (case r of None \<Rightarrow> False | Some q \<Rightarrow> keeps 0 p q)"

lemma kept_simps [simp]: "kept p (Some q) = keeps 0 p q" "\<not> kept p None"
  by (simp_all add: kept_def)

lemma step1a_keeps: "length (snd p) \<ge> 2 \<Longrightarrow> kept p (step1a p)"
proof -
  assume l: "length (snd p) \<ge> 2"
  let ?rs = "[(''sess'', ''ss'', None), (''sei'', ''i'', None), (''ss'', ''ss'', None)] :: (string \<times> string \<times> (string \<Rightarrow> bool) option) list"
  obtain m q where q: "stems ?rs p = Some (m, q)" "keeps 0 p q" "m \<or> q = p" by (rule stems_keeps [of 0 ?rs p]) (simp_all add: good_rule_def)
  moreover have "keeps 0 p (advance 1 p)" using l by (cases "snd p") (auto simp: keeps_def advance_def neq_Nil_conv Suc_le_eq)
  ultimately show ?thesis by (auto simp: step1a_def)
qed

lemma step1b_keeps: "kept p (step1b p)"
proof -
  obtain m0 p0 where 0: "stem ''dee'' ''ee'' (Some m_gt_0) p = Some (m0, p0)" "keeps 0 p p0" "m0 \<or> p0 = p"
    by (rule stem_keeps [of 0 "''dee''" "''ee''" "Some m_gt_0" p]) (simp_all add: good_rule_def)
  show ?thesis
  proof (cases m0)
    case True
    then show ?thesis using 0 by (simp add: step1b_def)
  next
    case False
    have p0: "p0 = p" using False 0 by simp
    obtain m1 p1 where 1: "stem ''gni'' '''' (Some hasVowel) p = Some (m1, p1)" "keeps 0 p p1" "m1 \<or> p1 = p" "p1 = p \<or> Suc (Suc (Suc (length (snd p1)))) = length (snd p)"
      by (rule stem_keeps [of 0 "''gni''" "''''" "Some hasVowel" p]) (simp_all add: good_rule_def)
    obtain m2 p2 where 2: "stem ''de'' '''' (Some hasVowel) p = Some (m2, p2)" "keeps 0 p p2" "m2 \<or> p2 = p" "p2 = p \<or> Suc (Suc (length (snd p2))) = length (snd p)"
      by (rule stem_keeps [of 0 "''de''" "''''" "Some hasVowel" p]) (simp_all add: good_rule_def)
    define m3 p3 where mp3: "m3 = (m1 \<or> m2)" "p3 = (if m1 then p1 else p2)"
    have 3: "stems [(''gni'', [], Some hasVowel), (''de'', [], Some hasVowel)] p = Some (m3, p3)"
      using 1(1,3) 2(1,3) by (cases m1; cases m2) (simp_all add: stems.simps mp3)
    have 3: "stems [(''gni'', [], Some hasVowel), (''de'', [], Some hasVowel)] p = Some (m3, p3)" "keeps 0 p p3" "p3 = p \<or> length (snd p3) + 2 \<le> length (snd p)"
      using 3 1(2,4) 2(2,4) by (auto simp: mp3)
    show ?thesis
    proof (cases "m3 \<and> fst p3 \<noteq> fst p")
      case no: False
      then show ?thesis using 0 3 False p0 by (auto simp: step1b_def)
    next
      case yes: True
      have room: "fst p3 \<ge> 2" and l: "length (snd p3) + 2 \<le> length (snd p)" using yes 3 by (auto simp: keeps_def)
      let ?rs = "[(''ta'', ''ate'', None), (''lb'', ''ble'', None), (''zi'', ''ize'', None)] :: (string \<times> string \<times> (string \<Rightarrow> bool) option) list"
      obtain m4 p4 where 4: "stems ?rs p3 = Some (m4, p4)" "keeps 1 p3 p4" "m4 \<or> p4 = p3"
        by (rule stems_keeps [of 1 ?rs p3]) (use room in \<open>simp_all add: good_rule_def\<close>)
      have k4: "keeps 0 p p4" using 3 4 l by (auto simp: keeps_def)
      have d: "keeps 0 p (advance 1 p4)" if "doubleConsonant (snd p4)"
      proof -
        have "length (snd p4) \<ge> 2" using that by (cases "snd p4"; cases "tl (snd p4)") (auto simp: doubleConsonant_def zat_def cType_def)
        then show ?thesis using k4 by (cases "snd p4") (auto simp: keeps_def advance_def neq_Nil_conv Suc_le_eq)
      qed
      have e: "stem_write ''e'' p3 = Some (fst p3 - 1, CHR ''e'' # snd p3)" using room by (cases p3) (simp add: stem_write_eq)
      have e': "keeps 0 p (fst p3 - 1, CHR ''e'' # snd p3)" using room l 3(2) by (auto simp: keeps_def)
      show ?thesis using 0 3 4 d e e' k4 False p0 yes by (auto simp: step1b_def)
    qed
  qed
qed

lemma step1c_keeps: "keeps 0 p (step1c p)"
  by (cases "snd p") (auto simp: step1c_def keeps_def)

lemma rules2_good: "list_all (good_rule 0) (if_m m_gt_0 (rules2 c))"
  by (simp add: rules2_def if_m_def good_rule_def)

lemma rules3_good: "list_all (good_rule 0) (if_m m_gt_0 (rules3 c))"
  by (simp add: rules3_def if_m_def good_rule_def)

lemma stems_kept: "list_all (good_rule 0) rs \<Longrightarrow> kept p (do { (m, p) \<leftarrow> stems rs p; Some p })"
  by (rule stems_keeps [of 0 rs p]) auto

lemma step2_keeps: "kept p (step2 p)" and step3_keeps: "kept p (step3 p)"
  unfolding step2_def step3_def by (intro stems_kept rules2_good rules3_good)+

lemma advance_keeps: "n < length (snd p) \<Longrightarrow> keeps 0 p (advance n p)"
  by (auto simp: keeps_def advance_def list_all_iff dest: in_set_dropD)

lemma cut_keeps: "kept p (cut_if b n p)"
  using advance_keeps [of n p] m_drop [of n "snd p"] by (auto simp: cut_if_def)

lemma step4_keeps: "kept p (step4 p)"
proof -
  have r: "kept p (do { (m, p) \<leftarrow> stems (if_m m_gt_1 rs) p; Some p })" if "list_all (\<lambda>(f, t). t = []) rs" for rs
    using that by (intro stems_kept) (auto simp: if_m_def list_all_iff good_rule_def)
  show ?thesis unfolding step4_def Let_def by (simp add: cut_keeps r)
qed

lemma zat_inside: "zat z i = c \<Longrightarrow> c \<noteq> NUL \<Longrightarrow> i < length z"
  by (auto simp: zat_def split: if_splits)

lemma step5_keeps: "keeps 0 p (step5a p)" "keeps 0 p (step5b p)"
  using advance_keeps [of 1 p] m_drop [of 1 "snd p"] zat_inside [of "snd p" 1 "CHR ''l''"] by (auto simp: step5a_def step5b_def NUL_def)

lemma kept_trans: "keeps 0 p q \<Longrightarrow> kept q r \<Longrightarrow> kept p r"
  by (cases r) (auto intro: keeps_trans)

lemma kept_bind: "kept p r \<Longrightarrow> (\<And>q. keeps 0 p q \<Longrightarrow> kept q (f q)) \<Longrightarrow> kept p (r \<bind> f)"
  by (cases r) (auto intro: kept_trans)

text \<open>All steps together: the word never grows, stays inside the buffer, is not emptied and keeps its letters.\<close>

lemma porter_steps_keeps: "length (snd p) \<ge> 2 \<Longrightarrow> kept p (porter_steps p)"
proof -
  assume l: "length (snd p) \<ge> 2"
  have 5: "kept q (Some (step5b (step5a q)))" for q by (simp add: keeps_trans [OF step5_keeps])
  show ?thesis unfolding porter_steps_def Let_def
    by (intro kept_bind step1a_keeps [OF l] step1b_keeps kept_trans [OF step1c_keeps step2_keeps] step3_keeps step4_keeps 5)
qed

section \<open>The output of the stemmer\<close>

text \<open>What the two stemmers make of a word.\<close>

definition copy_word :: "string \<Rightarrow> string" where
  "copy_word w = (let mx = (if list_ex digit w then 3 else 10)
     in if length w > mx * 2 then take mx (map low w) @ drop (length w - mx) (map low w) else map low w)"

definition stemmable :: "string \<Rightarrow> bool" where
  "stemmable w \<longleftrightarrow> 3 \<le> length w \<and> length w \<le> 20 \<and> list_all (\<lambda>c. upper c \<or> letter c) w"

definition porter_word :: "string \<Rightarrow> string" where
  "porter_word w = (if stemmable w then rev (snd (the (porter_steps (SIZE_REVERSE - 5 - length w, rev (map low w))))) else copy_word w)"

lemma low_letter: "upper c \<or> letter c \<Longrightarrow> letter (low c)"
  by (auto simp: low_def to_lower_def)

lemma reverse_word_eq: "reverse_word w z = (if list_all (\<lambda>c. upper c \<or> letter c) w then Some (rev (map low w) @ z) else None)"
  by (induction w arbitrary: z) (auto simp: low_def)

lemma flip_word_eq:
  "length z \<le> i \<Longrightarrow> i \<le> length b \<Longrightarrow> flip_word z i b = Some (take (i - length z) b @ rev z @ drop i b)"
proof (induction z arbitrary: i b)
  case (Cons c z)
  then obtain j where i: "i = Suc j" by (cases i) auto
  then have "flip_word z j (b[j := c]) = Some (take (j - length z) (b[j := c]) @ rev z @ drop j (b[j := c]))"
    using Cons.prems by (intro Cons.IH) auto
  moreover have "drop j (b[j := c]) = c # drop i b" using i Cons.prems by (simp add: list_update_append upd_conv_take_nth_drop)
  ultimately show ?case using i Cons.prems by (simp add: put_def)
qed simp

lemma copy_chars_eq:
  "i + length w \<le> length b \<Longrightarrow> copy_chars w i h b = Some (h \<or> list_ex digit w, take i b @ map low w @ drop (i + length w) b)"
proof (induction w arbitrary: i h b)
  case (Cons c w)
  have t: "take (Suc i) (b[i := x]) = take i b @ [x]" for x using Cons.prems by (simp add: take_Suc_conv_app_nth)
  show ?case using Cons by (auto simp: put_def low_def t)
qed simp

lemma move_end_eq:
  "j \<le> i \<Longrightarrow> i + k \<le> length b \<Longrightarrow> move_end k j i b = Some (take j b @ take k (drop i b) @ drop (j + k) b)"
proof (induction k arbitrary: j i b)
  case (Suc k)
  have t: "take (Suc j) (b[j := x]) = take j b @ [x]" for x using Suc.prems by (simp add: take_Suc_conv_app_nth)
  have "take (Suc k) (drop i b) = b ! i # take k (drop (Suc i) b)" using Suc.prems by (simp add: Cons_nth_drop_Suc [symmetric])
  then show ?case using Suc by (simp add: put_def t)
qed simp

lemma length_copy_word: "length (copy_word w) \<le> length w \<and> length (copy_word w) \<le> 20 \<and> (w \<noteq> [] \<longrightarrow> copy_word w \<noteq> [])"
  by (auto simp: copy_word_def Let_def)

text \<open>The buffer is large enough: one more than the word, or only the word if it is longer than 20.\<close>

definition fits :: "string \<Rightarrow> char list \<Rightarrow> bool" where
  "fits w b \<longleftrightarrow> length w \<le> length b \<and> (length w < length b \<or> 21 \<le> length w)"

definition holds_word :: "string \<Rightarrow> char list \<Rightarrow> bool" where
  "holds_word w b \<longleftrightarrow> length w < length b \<and> take (length w) b = w \<and> b ! length w = CHR 0x00"

lemma copy_stemmer_word:
  assumes "fits w b"
  obtains b' where "copy_stemmer w b = Some (length (copy_word w), b')" "length b' = length b" "holds_word (copy_word w) b'"
proof -
  let ?b = "map low w @ drop (length w) b"
  have c: "copy_chars w 0 False b = Some (list_ex digit w, ?b)" using copy_chars_eq [of 0 w b False] assms by (simp add: fits_def)
  define mx where "mx = (if list_ex digit w then 3 else 10 :: nat)"
  have cw: "copy_word w = (if length w > mx * 2 then take mx (map low w) @ drop (length w - mx) (map low w) else map low w)"
    by (simp add: copy_word_def mx_def Let_def)
  define b2 where "b2 = (if length w > mx * 2 then take mx (map low w) @ drop (length w - mx) (map low w) @ drop (mx + mx) ?b else ?b)"
  have m: "(if length w > mx * 2 then do { z \<leftarrow> move_end mx mx (length w - mx) ?b; Some (mx * 2, z) } else Some (length w, ?b)) = Some (length (copy_word w), b2)"
    using move_end_eq [of mx "length w - mx" mx ?b] by (auto simp: b2_def cw)
  have l: "length b2 = length b" using assms by (auto simp: b2_def fits_def)
  have t: "take (length (copy_word w)) b2 = copy_word w" by (auto simp: b2_def cw)
  have i: "length (copy_word w) < length b" using assms length_copy_word [of w] by (auto simp: fits_def)
  have "copy_stemmer w b = do {
     (i, z) \<leftarrow> (if length w > mx * 2 then do { z \<leftarrow> move_end mx mx (length w - mx) ?b; Some (mx * 2, z) } else Some (length w, ?b));
     z \<leftarrow> put i (CHR 0x00) z;
     Some (i, z) }"
    unfolding copy_stemmer_def c mx_def Let_def by simp
  also have "\<dots> = Some (length (copy_word w), b2[length (copy_word w) := CHR 0x00])" unfolding m using i l by (simp add: put_def)
  finally show thesis using that i l t by (simp add: holds_word_def)
qed

lemma porter_stemmer_word:
  assumes "fits w b"
  shows "\<exists>b'. porter_stemmer w b = Some (length (porter_word w), b') \<and> length b' = length b \<and> holds_word (porter_word w) b' \<and>
    length (porter_word w) \<le> length w \<and> (w \<noteq> [] \<longrightarrow> porter_word w \<noteq> [])"
proof (cases "stemmable w")
  case False
  then have "porter_stemmer w b = copy_stemmer w b" "porter_word w = copy_word w"
    by (auto simp: porter_stemmer_def porter_word_def stemmable_def reverse_word_eq SIZE_REVERSE_def Let_def)
  then show ?thesis using copy_stemmer_word [OF assms] length_copy_word [of w] by metis
next
  case True
  then have w: "3 \<le> length w" "length w \<le> 20" "list_all (\<lambda>c. upper c \<or> letter c) w" by (auto simp: stemmable_def)
  let ?p = "(SIZE_REVERSE - 5 - length w, rev (map low w))"
  have "kept ?p (porter_steps ?p)" using w by (intro porter_steps_keeps) simp
  then obtain r z where z: "porter_steps ?p = Some (r, z)" "length z \<le> length w" "z \<noteq> []"
    using w by (cases "porter_steps ?p") (auto simp: keeps_def)
  have l: "length z < length b" using z(2) assms w by (auto simp: fits_def)
  have "flip_word z (length z) (b[length z := CHR 0x00]) = Some (rev z @ CHR 0x00 # drop (Suc (length z)) b)"
    using flip_word_eq [of z "length z" "b[length z := CHR 0x00]"] l by (simp add: drop_update_cancel upd_conv_take_nth_drop)
  then have "porter_stemmer w b = Some (length z, rev z @ CHR 0x00 # drop (Suc (length z)) b)"
    using w z l by (simp add: porter_stemmer_def reverse_word_eq SIZE_REVERSE_def put_def Let_def)
  moreover have "porter_word w = rev z" using True z by (simp add: porter_word_def)
  ultimately show ?thesis using z l by (auto simp: holds_word_def nth_append)
qed

section \<open>The measure of a word\<close>

text \<open>
  Vowels and consonants of a word in its normal order: a y is a vowel exactly if it follows a consonant. \<open>prev\<close> says
  what the letter before is. The measure is the number of places where a consonant follows a vowel.
\<close>

definition vowel_after :: "bool option \<Rightarrow> char \<Rightarrow> bool" where
  "vowel_after prev c \<longleftrightarrow> c \<in> {CHR ''a'', CHR ''e'', CHR ''i'', CHR ''o'', CHR ''u''} \<or> c = CHR ''y'' \<and> prev = Some False"

fun vowels :: "bool option \<Rightarrow> string \<Rightarrow> bool list" where
  "vowels prev [] = []"
| "vowels prev (c # w) = vowel_after prev c # vowels (Some (vowel_after prev c)) w"

fun vc :: "bool list \<Rightarrow> nat" where
  "vc (a # b # xs) = of_bool (a \<and> \<not> b) + vc (b # xs)"
| "vc _ = 0"

definition word_measure :: "string \<Rightarrow> nat" where
  "word_measure w = vc (vowels None w)"

lemma vowels_eq_Nil [simp]: "vowels p w = [] \<longleftrightarrow> w = []"
  by (cases w) auto

lemma vowels_snoc: "vowels p (w @ [c]) = vowels p w @ [vowel_after (if w = [] then p else Some (last (vowels p w))) c]"
  by (induction w arbitrary: p) auto

lemma vc_snoc: "xs \<noteq> [] \<Longrightarrow> vc (xs @ [b]) = vc xs + of_bool (last xs \<and> \<not> b)"
  by (induction xs rule: vc.induct) auto

lemma letter_cases:
  assumes "letter c"
  shows "cType ! (code c - 97) = (if c \<in> {CHR ''a'', CHR ''e'', CHR ''i'', CHR ''o'', CHR ''u''} then 0 else if c = CHR ''y'' then 2 else 1)"
proof -
  have "list_all (\<lambda>n. cType ! (n - 97) = (if n \<in> {97, 101, 105, 111, 117} then 0 else if n = 121 then 2 else 1)) [97..<123]"
    by (simp add: upt_conv_Cons cType_def)
  then have a: "\<forall>n \<in> set [97..<123]. cType ! (n - 97) = (if n \<in> {97, 101, 105, 111, 117} then 0 else if n = 121 then 2 else 1)"
    by (simp only: list_all_iff)
  have m: "code c \<in> set [97..<123]" using assms by (simp only: set_upt atLeastLessThan_iff) simp
  have "cType ! (code c - 97) = (if code c \<in> {97, 101, 105, 111, 117} then 0 else if code c = 121 then 2 else 1)"
    by (rule bspec [OF a m])
  moreover have "code c = code d \<longleftrightarrow> c = d" for d by simp
  from this [of "CHR ''a''"] this [of "CHR ''e''"] this [of "CHR ''i''"] this [of "CHR ''o''"] this [of "CHR ''u''"] this [of "CHR ''y''"]
  have "code c = 97 \<longleftrightarrow> c = CHR ''a''" "code c = 101 \<longleftrightarrow> c = CHR ''e''" "code c = 105 \<longleftrightarrow> c = CHR ''i''" "code c = 111 \<longleftrightarrow> c = CHR ''o''"
    "code c = 117 \<longleftrightarrow> c = CHR ''u''" "code c = 121 \<longleftrightarrow> c = CHR ''y''" by simp_all
  ultimately show ?thesis by simp
qed

text \<open>The classes of a reversed word, by the functions of the code.\<close>

fun rclasses :: "string \<Rightarrow> bool list" where
  "rclasses [] = []"
| "rclasses (x # z) = isVowel (x # z) # rclasses z"

lemma rclasses_spec:
  "list_all letter z \<Longrightarrow> rev (rclasses z) = vowels None (rev z) \<and> (z \<noteq> [] \<longrightarrow> isConsonant z = (\<not> isVowel z))"
proof (induction z)
  case (Cons x z)
  then have IH: "rev (rclasses z) = vowels None (rev z)" "z \<noteq> [] \<longrightarrow> isConsonant z = (\<not> isVowel z)" by simp_all
  have "z \<noteq> [] \<Longrightarrow> last (vowels None (rev z)) = isVowel z" using IH(1) [symmetric] by (cases z) simp_all
  then have "isVowel (x # z) = vowel_after (if z = [] then None else Some (last (vowels None (rev z)))) x"
    using letter_cases [of x] Cons.prems IH(2) by (auto simp: vowel_after_def Let_def)
  moreover have "isConsonant (x # z) = (\<not> isVowel (x # z))" using letter_cases [of x] Cons.prems IH(2) by (auto simp: Let_def)
  ultimately show ?case using IH(1) by (simp add: vowels_snoc)
qed simp

lemma rclasses_eq_Nil [simp]: "rclasses z = [] \<longleftrightarrow> z = []"
  by (cases z) auto

lemma rclasses_skip:
  "list_all letter z \<Longrightarrow> rclasses (skip_vowels z) = dropWhile id (rclasses z) \<and> list_all letter (skip_vowels z)"
  "list_all letter z \<Longrightarrow> rclasses (skip_consonants z) = dropWhile Not (rclasses z) \<and> list_all letter (skip_consonants z)"
proof -
  show "list_all letter z \<Longrightarrow> rclasses (skip_vowels z) = dropWhile id (rclasses z) \<and> list_all letter (skip_vowels z)"
    by (induction z) auto
  show "list_all letter z \<Longrightarrow> rclasses (skip_consonants z) = dropWhile Not (rclasses z) \<and> list_all letter (skip_consonants z)"
  proof (induction z)
    case (Cons x z)
    then show ?case using rclasses_spec [OF Cons.prems] by (auto simp del: isConsonant.simps isVowel.simps)
  qed simp
qed

lemma vc_rev_skip:
  "vc (rev (dropWhile id bs)) = vc (rev bs)"
  "dropWhile Not bs \<noteq> [] \<Longrightarrow> vc (rev bs) = vc (rev (dropWhile Not bs)) + of_bool (\<not> hd bs)"
  "dropWhile Not bs = [] \<Longrightarrow> vc (rev bs) = 0"
proof -
  have c: "vc (rev (b # bs)) = vc (rev bs) + of_bool (bs \<noteq> [] \<and> hd bs \<and> \<not> b)" for b bs
    by (cases "bs = []") (auto simp: vc_snoc last_rev)
  show "vc (rev (dropWhile id bs)) = vc (rev bs)" by (induction bs) (simp_all add: c del: rev.simps)
  show "dropWhile Not bs \<noteq> [] \<Longrightarrow> vc (rev bs) = vc (rev (dropWhile Not bs)) + of_bool (\<not> hd bs)"
  proof (induction bs)
    case (Cons b bs)
    then show ?case by (cases b; cases "bs = []"; cases "hd bs") (auto simp: c simp del: rev.simps)
  qed simp
  show "dropWhile Not bs = [] \<Longrightarrow> vc (rev bs) = 0"
  proof (induction bs)
    case (Cons b bs)
    then show ?case by (cases b; cases "bs = []"; cases "hd bs") (auto simp: c neq_Nil_conv simp del: rev.simps split: if_splits)
  qed simp
qed

lemma measure_classes: "list_all letter z \<Longrightarrow> word_measure (rev z) = vc (rev (rclasses z))"
  using rclasses_spec by (simp add: word_measure_def)

text \<open>What is left behind a run of vowels and one of consonants: the measure drops by one if there is anything left.\<close>

lemma measure_skip:
  assumes "list_all letter z"
  defines "v \<equiv> skip_vowels z"
  shows "v = [] \<Longrightarrow> word_measure (rev z) = 0"
    and "skip_consonants v = [] \<Longrightarrow> word_measure (rev z) = 0"
    and "skip_consonants v \<noteq> [] \<Longrightarrow> word_measure (rev z) = word_measure (rev (skip_consonants v)) + 1"
    and "list_all letter (skip_consonants v)"
proof -
  let ?b = "dropWhile id (rclasses z)"
  have v: "rclasses v = ?b" "list_all letter v" using rclasses_skip(1) [OF assms(1)] by (simp_all add: v_def)
  have c: "rclasses (skip_consonants v) = dropWhile Not ?b" "list_all letter (skip_consonants v)" using rclasses_skip(2) [OF v(2)] v(1) by simp_all
  have m: "word_measure (rev z) = vc (rev ?b)" using measure_classes [OF assms(1)] vc_rev_skip(1) by simp
  show "v = [] \<Longrightarrow> word_measure (rev z) = 0" using m v(1) by simp
  show "skip_consonants v = [] \<Longrightarrow> word_measure (rev z) = 0" using m c vc_rev_skip(3) [of ?b] by simp
  show "list_all letter (skip_consonants v)" by (rule c(2))
  assume n: "skip_consonants v \<noteq> []"
  then have d: "dropWhile Not ?b \<noteq> []" using c by (metis rclasses_eq_Nil)
  then have "?b \<noteq> []" by (metis dropWhile.simps(1))
  then have "\<not> hd ?b" using hd_dropWhile [of id "rclasses z"] by simp
  then show "word_measure (rev z) = word_measure (rev (skip_consonants v)) + 1"
    using m vc_rev_skip(2) [OF d] measure_classes [OF c(2)] c(1) by simp
qed

lemma m_functions:
  assumes "list_all letter z"
  shows "m_gt_0 z \<longleftrightarrow> word_measure (rev z) > 0" "m_eq_1 z \<longleftrightarrow> word_measure (rev z) = 1" "m_gt_1 z \<longleftrightarrow> word_measure (rev z) > 1"
proof -
  note 1 = measure_skip [OF assms] note 2 = measure_skip [OF 1(4)]
  show "m_gt_0 z \<longleftrightarrow> word_measure (rev z) > 0" using 1 by (auto simp: m_gt_0_def Let_def)
  show "m_eq_1 z \<longleftrightarrow> word_measure (rev z) = 1" 
    using 1 2 by (cases "skip_consonants (skip_vowels (skip_consonants (skip_vowels z))) = []") (auto simp: m_eq_1_def Let_def)
  show "m_gt_1 z \<longleftrightarrow> word_measure (rev z) > 1" using 1 2 by (auto simp: m_gt_1_def Let_def)
qed

lemma hasVowel_iff: "list_all letter z \<Longrightarrow> hasVowel z \<longleftrightarrow> True \<in> set (vowels None (rev z))"
proof -
  assume l: "list_all letter z"
  have "hasVowel z \<longleftrightarrow> dropWhile Not (rclasses z) \<noteq> []"
    using rclasses_skip(2) [OF l] by (metis hasVowel_def rclasses_eq_Nil)
  also have "\<dots> \<longleftrightarrow> True \<in> set (rclasses z)" by (auto simp: dropWhile_eq_Nil_conv)
  also have "rclasses z = rev (vowels None (rev z))" using rclasses_spec [OF l] by (metis rev_rev_ident)
  finally show ?thesis by simp
qed

text \<open>
  The four conditions of the stemmer compute what the definition of the measure asks for: a word is
  [C](VC)^m[V] for its number m of places where a consonant follows a vowel, and on the reversed word of
  letters \<open>m_gt_0\<close>, \<open>m_eq_1\<close> and \<open>m_gt_1\<close> test m > 0, m = 1 and m > 1, and \<open>hasVowel\<close> that there is a vowel,
  where a y counts as a vowel exactly behind a consonant.\<close>
theorem porter_measure:
  assumes "list_all letter w"
  shows "(m_gt_0 (rev w) \<longleftrightarrow> word_measure w > 0) \<and> (m_eq_1 (rev w) \<longleftrightarrow> word_measure w = 1) \<and>
    (m_gt_1 (rev w) \<longleftrightarrow> word_measure w > 1) \<and> (hasVowel (rev w) \<longleftrightarrow> True \<in> set (vowels None w))"
  using m_functions [of "rev w"] hasVowel_iff [of "rev w"] assms by simp

theorem porter_measure_witness:
  "m_eq_1 (rev ''trouble'') \<and> m_gt_1 (rev ''private'') \<and> \<not> m_gt_0 (rev ''tree'') \<and> hasVowel (rev ''sky'')"
  using porter_measure [of "''trouble''"] porter_measure [of "''private''"] porter_measure [of "''tree''"] porter_measure [of "''sky''"]
  by (simp add: word_measure_def vowel_after_def)

text \<open>
  C27. The stemmer stays inside its buffers and never makes a word longer: for every word, of any bytes, and every
  output buffer that has room for the word and its terminator, or for the word alone if it is longer than
  20 bytes, it returns a word that is no longer than the input, not empty unless the input is, stored with
  a terminator in the buffer. No byte is written outside the output buffer or in front of \<open>zReverse\<close>.\<close>
theorem porter_stemmer_safe:
  assumes "fits zIn zOut"
  shows "\<exists>out. porter_stemmer zIn zOut = Some (length (porter_word zIn), out) \<and> length out = length zOut \<and>
    take (length (porter_word zIn)) out = porter_word zIn \<and> out ! length (porter_word zIn) = CHR 0x00 \<and>
    length (porter_word zIn) \<le> length zIn \<and> (zIn \<noteq> [] \<longrightarrow> porter_word zIn \<noteq> [])"
  using porter_stemmer_word [OF assms] unfolding holds_word_def by blast

lemma ex_porter_word: "porter_word ''Running'' = ''run''"
  by code_simp

theorem porter_stemmer_safe_witness:
  "\<exists>out. porter_stemmer ''Running'' (replicate 8 (CHR ''x'')) = Some (3, out) \<and> take 3 out = ''run''"
  using porter_stemmer_safe [of "''Running''" "replicate 8 (CHR ''x'')"] by (auto simp: fits_def ex_porter_word numeral_eq_Suc)

section \<open>The tokens\<close>

type_synonym porter_state = "(char list \<Rightarrow> nat \<Rightarrow> char list option) \<times> porter_tokenizer_cursor"

definition porter_next :: "porter_state \<Rightarrow> (rc \<times> token option \<times> porter_state) option" where
  "porter_next = (\<lambda>(r, c). do { (rc, tk, c') \<leftarrow> porterNext r c; Some (rc, tk, r, c') })"

text \<open>
  A buffer, once allocated, has at least 21 bytes: that is why a word that fills it needs no byte for a terminator.
\<close>

definition cursor_ok :: "porter_tokenizer_cursor \<Rightarrow> bool" where
  "cursor_ok c \<longleftrightarrow> nInput c \<le> length (zInput c) \<and> length (Token c) = nAllocated c \<and> (nAllocated c = 0 \<or> 21 \<le> nAllocated c)"

definition porter_ok :: "porter_state \<Rightarrow> bool" where
  "porter_ok = (\<lambda>(r, c). alloc_ok r \<and> cursor_ok c)"

lemma porter_round:
  assumes "alloc_ok r" and ok: "cursor_ok c"
  shows "case next_run isDelim (take (nInput c) (zInput c)) (iOffset c) of
      None \<Rightarrow> \<exists>c'. porterNext r c = Some (SQLITE_DONE, None, c')
    | Some (s, w) \<Rightarrow> \<exists>c'. porterNext r c = Some (SQLITE_OK, Some (word_token porter_word (iToken c) (s, w)), c') \<and>
        cursor_ok c' \<and> zInput c' = zInput c \<and> nInput c' = nInput c \<and> iOffset c' = s + length w \<and> iToken c' = iToken c + 1"
proof -
  have n: "nInput c \<le> length (zInput c)" using ok by (simp add: cursor_ok_def)
  define s where "s = scan_while isDelim (zInput c) (nInput c) (iOffset c)"
  define e where "e = scan_while (\<lambda>ch. \<not> isDelim ch) (zInput c) (nInput c) s"
  note nr = scan_next_run [OF n s_def e_def]
  note step = porterNext.simps [of r c] s_def [symmetric] e_def [symmetric]
  show ?thesis
  proof (cases "s < e")
    case False
    have "porterNext r (c\<lparr>iOffset := e\<rparr>) = Some (SQLITE_DONE, None, c\<lparr>iOffset := e\<rparr>)"
      using nr(3) [OF False] by (simp add: porterNext.simps [of r "c\<lparr>iOffset := e\<rparr>"])
    moreover have "porterNext r c = (if iOffset c < nInput c then porterNext r (c\<lparr>iOffset := e\<rparr>) else Some (SQLITE_DONE, None, c))"
      using False by (subst step(1)) (simp add: step(2,3) Let_def)
    ultimately show ?thesis using False nr(1) by simp
  next
    case True
    have i: "iOffset c < nInput c" using True nr(4) scan_mono [of "iOffset c" isDelim "zInput c" "nInput c"] s_def by linarith
    let ?w = "take (e - s) (drop s (zInput c))"
    have lw: "length ?w = e - s" using True nr(4) n by simp
    obtain b0 where b0: "r (Token c) (e - s + 20) = Some b0" "length b0 = e - s + 20" using assms(1) unfolding alloc_ok_def by blast
    define b where "b = (if e - s > nAllocated c then b0 else Token c)"
    define m where "m = (if e - s > nAllocated c then e - s + 20 else nAllocated c)"
    have b: "length b = m" "fits ?w b" "21 \<le> m" using b0 ok True lw by (auto simp: b_def m_def fits_def cursor_ok_def)
    obtain out where out: "porter_stemmer ?w b = Some (length (porter_word ?w), out)" "length out = m" "take (length (porter_word ?w)) out = porter_word ?w"
      using porter_stemmer_word [OF b(2)] b(1) by (auto simp: holds_word_def)
    have "\<exists>c'. porterNext r c = Some (SQLITE_OK, Some (word_token porter_word (iToken c) (s, ?w)), c') \<and>
        Token c' = out \<and> nAllocated c' = m \<and> zInput c' = zInput c \<and> nInput c' = nInput c \<and> iOffset c' = e \<and> iToken c' = iToken c + 1"
    proof (cases "e - s > nAllocated c")
      case True
      then have "b = b0" "m = e - s + 20" by (simp_all add: b_def m_def)
      then show ?thesis using i \<open>s < e\<close> out b0(1) True lw by (simp add: step Let_def word_token_def)
    next
      case False
      then have "b = Token c" "m = nAllocated c" by (simp_all add: b_def m_def)
      then show ?thesis using i \<open>s < e\<close> out False lw by (simp add: step Let_def word_token_def)
    qed
    then show ?thesis using nr(1) True lw b out(2) n by (auto simp: cursor_ok_def)
  qed
qed

interpretation porter: word_tokenizer porter_next porter_ok "\<lambda>(r, c). take (nInput c) (zInput c)" "\<lambda>(r, c). iOffset c" "\<lambda>(r, c). iToken c"
  "\<lambda>_. isDelim" porter_word
proof (unfold_locales, goal_cases)
  case (1 x)
  obtain r c where "x = (r, c)" by (cases x)
  then show ?case using 1 porter_round [of r c] by (auto simp: porter_ok_def porter_next_def)
next
  case (2 x s w)
  obtain r c where "x = (r, c)" by (cases x)
  then show ?case using 2 porter_round [of r c] by (fastforce simp: porter_ok_def porter_next_def)
qed

lemma isDelim_iff: "isDelim c \<longleftrightarrow> code c < 128 \<and> \<not> (letter c \<or> upper c \<or> digit c \<or> c = CHR ''_'')"
proof -
  have "list_all (\<lambda>i. (i < 0x30 \<or> porterIdChar ! (i - 0x30) = 0) = (\<not> (97 \<le> i \<and> i \<le> 122 \<or> 65 \<le> i \<and> i \<le> 90 \<or> 48 \<le> i \<and> i \<le> 57 \<or> i = 95))) [0..<128]"
    by (simp add: upt_conv_Cons porterIdChar_def)
  then have a: "\<forall>i \<in> set [0..<128]. (i < 0x30 \<or> porterIdChar ! (i - 0x30) = 0) =
      (\<not> (97 \<le> i \<and> i \<le> 122 \<or> 65 \<le> i \<and> i \<le> 90 \<or> 48 \<le> i \<and> i \<le> 57 \<or> i = 95))" by (simp only: list_all_iff)
  have u: "code c = 95 \<longleftrightarrow> c = CHR ''_''" using of_char_eq_iff [of c "CHR ''_''", where 'a = nat] by (simp del: of_char_eq_iff)
  show ?thesis
  proof (cases "code c < 128")
    case True
    then have "code c \<in> set [0..<128]" by (simp only: set_upt atLeastLessThan_iff) simp
    from bspec [OF a this] show ?thesis using True u by (simp add: isDelim_def)
  qed (simp add: isDelim_def)
qed

text \<open>
  C28. The Porter tokenizer returns exactly the words of its input: calling \<open>porterNext\<close> until it is done ends, and
  gives one token for each maximal run of characters that are letters, digits, underscores or not
  ASCII, in order, stemmed, with its start and end offset and numbered from 0. The token buffer, which is
  enlarged only for a word longer than itself, is never overrun.\<close>
theorem porter_tokens:
  assumes "alloc_ok realloc" "porterOpen True (Some z) n = Some c" "n \<le> int (length z)"
  shows "all_tokens porter_next (realloc, c) = Some (SQLITE_DONE, word_tokens porter_word 0
      (runs (\<lambda>ch. code ch < 128 \<and> \<not> (letter ch \<or> upper ch \<or> digit ch \<or> ch = CHR ''_'')) (if n < 0 then z else take (nat n) z) 0))"
proof -
  have c: "c = \<lparr>zInput = z, nInput = (if n < 0 then length z else nat n), iOffset = 0, iToken = 0, Token = [], nAllocated = 0\<rparr>"
    using assms(2) by (auto simp: porterOpen_def)
  have d: "isDelim = (\<lambda>ch. code ch < 128 \<and> \<not> (letter ch \<or> upper ch \<or> digit ch \<or> ch = CHR ''_''))" by (rule ext) (rule isDelim_iff)
  have "porter_ok (realloc, c)" using assms(1,3) by (auto simp: porter_ok_def cursor_ok_def c)
  from porter.tokens [OF this] show ?thesis unfolding d by (auto simp: c)
qed

theorem porter_tokens_witness:
  "\<exists>c. porterOpen True (Some ''be running'') (-1) = Some c \<and>
     all_tokens porter_next (ex_realloc, c) = Some (SQLITE_DONE,
       [\<lparr>tk_text = ''be'', tk_start = 0, tk_end = 2, tk_pos = 0\<rparr>, \<lparr>tk_text = ''run'', tk_start = 3, tk_end = 10, tk_pos = 1\<rparr>])"
proof -
  obtain c where c: "porterOpen True (Some ''be running'') (-1) = Some c" by (simp add: porterOpen_def)
  have w: "porter_word ''be'' = ''be''" "porter_word ''running'' = ''run''" by code_simp+
  let ?P = "\<lambda>ch. code ch < 128 \<and> \<not> (letter ch \<or> upper ch \<or> digit ch \<or> ch = CHR ''_'')"
  have "runs ?P ''be running'' 0 = [(0, ''be''), (3, ''running'')]" by (simp add: runs.simps next_run_def)
  then show ?thesis using porter_tokens [OF ex_realloc_ok c] c w by (simp add: word_token_def)
qed

end
