(* ===== verification/BtPage.thy ===== *)
theory BtPage
  imports Buffer
begin

text \<open>
  The pages of a B-tree (src/btree/memorypage.go, src/btree/btree.go, with the constants of
  src/btree/btmutex.go): the decoded header, cells and their sizes, and the management of the space in
  the cell content area. Integers are natural numbers, with the wrap-around of a narrower field written
  out where it is assigned; the bytes of the page are words. A pointer into the page is its offset, and an
  index out of range is \<^term>\<open>None\<close>. \<open>IsLeaf\<close> and \<open>HasData\<close> are numbers, as \<open>decodeFlags\<close> computes them.

  The translation has renamed some identifiers in one place and not in another; a name without a declaration
  is read as the renamed one: \<open>PTF_IsLeaf\<close>, \<open>PTF_IsLeafDATA\<close>, \<open>PTF_IsIntegerKey\<close> and \<open>maxIsLeaf\<close>, \<open>minIsLeaf\<close> as the
  constants and fields that are declared, \<open>cbrk\<close> and \<open>iCellFirst\<close> in \<open>Defragment\<close> as \<open>ContentArea\<close> and
  \<open>FirstAllowableIndex\<close>, \<open>size\<close> and \<open>top\<close> in \<open>AllocateSpace\<close> as \<open>slot_size\<close> and \<open>index\<close>, \<open>apCell[i:]\<close> in \<open>assemblePage\<close>
  as the body of cell \<open>i\<close>. The assertion of \<open>cellSize\<close> on the debugging variable \<open>debuginfo\<close>, which is nowhere set, and
  the assertions that tie a page to its handle of the pager are left out.
\<close>

section \<open>Reading and writing the bytes of a page\<close>

definition get8 :: "byte list \<Rightarrow> nat \<Rightarrow> nat option" where
  "get8 d a = (if a < length d then Some (unat (d ! a)) else None)"

definition put8 :: "byte list \<Rightarrow> nat \<Rightarrow> nat \<Rightarrow> byte list option" where
  "put8 d a v = (if a < length d then Some (d[a := of_nat v]) else None)"

definition get16 :: "byte list \<Rightarrow> nat \<Rightarrow> nat option" where
  "get16 d a = map_option unat (ReadUint16 (drop a d))"

definition put16 :: "byte list \<Rightarrow> nat \<Rightarrow> nat \<Rightarrow> byte list option" where
  "put16 d a v = map_option (\<lambda>b. take a d @ b) (WriteUint16 (drop a d) (of_nat v))"

definition get_nz :: "byte list \<Rightarrow> nat \<Rightarrow> nat option" where
  "get_nz d a = map_option nat (ReadCompressedIntNotZero (drop a d))"

definition memcpy_at :: "byte list \<Rightarrow> nat \<Rightarrow> byte list \<Rightarrow> nat \<Rightarrow> nat \<Rightarrow> byte list option" where
  "memcpy_at d i s j n = (if i + n \<le> length d \<and> j + n \<le> length s then Some (take i d @ take n (drop j s) @ drop (i + n) d) else None)"

definition memset_at :: "byte list \<Rightarrow> nat \<Rightarrow> nat \<Rightarrow> byte list option" where
  "memset_at d i n = (if i + n \<le> length d then Some (take i d @ replicate n 0 @ drop (i + n) d) else None)"

section \<open>Data\<close>

definition PTF_INTKEY :: nat where "PTF_INTKEY = 0x01"
definition PTF_ZERODATA :: nat where "PTF_ZERODATA = 0x02"
definition PTF_LEAFDATA :: nat where "PTF_LEAFDATA = 0x04"
definition PTF_LEAF :: nat where "PTF_LEAF = 0x08"

record bt_shared =
  secure_delete :: bool
  bt_maxLocal :: nat
  bt_minLocal :: nat
  bt_maxLeaf :: nat
  bt_minLeaf :: nat
  bt_max1bytePayload :: nat
  pageSize :: nat
  usableSize :: nat

record memory_page =
  isInit :: bool
  nOverflow :: nat
  IsIntegerKey :: bool
  IsLeaf :: nat
  HasData :: nat
  hdrOffset :: nat
  childPtrSize :: nat
  max1bytePayload :: nat
  maxLocal :: nat
  minLocal :: nat
  cellOffset :: nat
  nFree :: nat
  maskPage :: nat
  aiOvfl :: "nat list"
  apOvfl :: "byte list list"
  aData :: "byte list"
  nCell :: nat
  pgno :: nat

definition MX_CELL :: "bt_shared \<Rightarrow> nat" where
  "MX_CELL bt = (pageSize bt - 8) div 6"

text \<open>The payload limits that \<open>lockBtree\<close> computes from the usable size.\<close>

definition set_payload_limits :: "bt_shared \<Rightarrow> bt_shared" where
  "set_payload_limits bt = (let mx = ((usableSize bt - 12) * 64 div 255 - 23) mod 65536 in
     bt \<lparr>bt_maxLocal := mx,
        bt_minLocal := ((usableSize bt - 12) * 32 div 255 - 23) mod 65536,
        bt_maxLeaf := (usableSize bt - 35) mod 65536,
        bt_minLeaf := ((usableSize bt - 12) * 32 div 255 - 23) mod 65536,
        bt_max1bytePayload := (if mx > 127 then 127 else mx)\<rparr>)"

section \<open>Page headers\<close>

definition decodeFlags :: "bt_shared \<Rightarrow> memory_page \<Rightarrow> nat \<Rightarrow> (rc \<times> memory_page) option" where
  "decodeFlags bt p flagByte = do {
     assertion (hdrOffset p = (if pgno p = 1 then 100 else 0));
     let leaf = drop_bit 3 flagByte mod 256;
     let flag = flagByte - (flagByte AND PTF_LEAF);
     let p = p \<lparr>IsLeaf := leaf, childPtrSize := nat ((4 - 4 * int leaf) mod 256)\<rparr>;
     if flag = (PTF_LEAFDATA OR PTF_INTKEY) then
       Some (SQLITE_OK, p \<lparr>IsIntegerKey := True, HasData := leaf, maxLocal := bt_maxLeaf bt,
         minLocal := bt_minLeaf bt, max1bytePayload := bt_max1bytePayload bt\<rparr>)
     else if flag = PTF_ZERODATA then
       Some (SQLITE_OK, p \<lparr>IsIntegerKey := False, HasData := 0, maxLocal := bt_maxLocal bt,
         minLocal := bt_minLocal bt, max1bytePayload := bt_max1bytePayload bt\<rparr>)
     else Some (SQLITE_CORRUPT, p)
   }"

definition zeroPage :: "bt_shared \<Rightarrow> memory_page \<Rightarrow> nat \<Rightarrow> memory_page option" where
  "zeroPage bt p flags = do {
     let hdr = hdrOffset p;
     let d = aData p;
     d \<leftarrow> (if secure_delete bt then memset_at d hdr (usableSize bt - hdr) else Some d);
     d \<leftarrow> put8 d hdr flags;
     let first = hdr + 8 + 4 * (if flags AND PTF_LEAF = 0 then 1 else 0);
     d \<leftarrow> memset_at d (hdr + 1) 4;
     d \<leftarrow> put8 d (hdr + 7) 0;
     d \<leftarrow> put16 d (hdr + 5) (usableSize bt);
     let p = p \<lparr>aData := d, nFree := (usableSize bt - first) mod 65536\<rparr>;
     (_, p) \<leftarrow> decodeFlags bt p flags;
     assertion (usableSize bt \<le> length d);
     assertion (512 \<le> pageSize bt \<and> pageSize bt \<le> 65536);
     Some (p \<lparr>hdrOffset := hdr, cellOffset := first, nOverflow := 0,
       maskPage := pageSize bt - 1, nCell := 0, isInit := True\<rparr>)
   }"

section \<open>Cells\<close>

definition FindCell :: "memory_page \<Rightarrow> nat \<Rightarrow> byte list option" where
  "FindCell p i = do {
     pc \<leftarrow> get16 (aData p) (cellOffset p + 2 * i);
     let a = maskPage p AND pc;
     assertion (a \<le> length (aData p));
     Some (drop a (aData p))
   }"

fun FindOverflowCell_loop :: "memory_page \<Rightarrow> nat \<Rightarrow> nat \<Rightarrow> byte list option" where
  "FindOverflowCell_loop p 0 cell = FindCell p cell"
| "FindOverflowCell_loop p (Suc i) cell = do {
     assertion (i < length (aiOvfl p) \<and> i < length (apOvfl p));
     let k = aiOvfl p ! i;
     if k = cell then Some (apOvfl p ! i)
     else if k < cell then FindOverflowCell_loop p i (cell - 1)
     else FindOverflowCell_loop p i cell
   }"

definition FindOverflowCell :: "memory_page \<Rightarrow> nat \<Rightarrow> byte list option" where
  "FindOverflowCell p cell = FindOverflowCell_loop p (nOverflow p) cell"

text \<open>
  \<open>cellSize\<close>: the loop over the bytes of an integer key has an empty body and leaves \<open>buffer\<close> where it is,
  so the key is not counted.
\<close>

definition cellSize :: "bt_shared \<Rightarrow> memory_page \<Rightarrow> byte list \<Rightarrow> nat option" where
  "cellSize bt p pCell = do {
     assertion (childPtrSize p \<le> length pCell);
     let buffer = drop (childPtrSize p) pCell;
     (nSize, buffer) \<leftarrow> (if IsIntegerKey p then
         (if HasData p \<noteq> 0 then ReadVarint32 buffer else Some (0, buffer))
       else ReadVarint32 buffer);
     let nSize = (if nSize > of_nat (maxLocal p) then
         (let n = of_nat (minLocal p) + (nSize - of_nat (minLocal p)) mod of_nat (usableSize bt - 4);
              n = (if n > of_nat (maxLocal p) then of_nat (minLocal p) else n) in n + 4)
       else nSize);
     let nSize = nSize + of_nat (length pCell - length buffer);
     Some (unat (if nSize < (4 :: uint32) then 4 else nSize) mod 65536)
   }"

section \<open>Initialising a page\<close>

text \<open>
  The check of every cell pointer; \<open>i\<close> is the cell, \<open>n\<close> the number of cells left. \<open>pc\<close> and \<open>sz\<close> are of type \<open>uint16\<close>,
  so their sum wraps.
\<close>

fun init_cells :: "bt_shared \<Rightarrow> memory_page \<Rightarrow> nat \<Rightarrow> nat \<Rightarrow> nat \<Rightarrow> nat \<Rightarrow> rc option" where
  "init_cells bt p iCellFirst iCellLast i 0 = Some SQLITE_OK"
| "init_cells bt p iCellFirst iCellLast i (Suc n) = do {
     pc \<leftarrow> get16 (aData p) (cellOffset p + i * 2);
     if pc < iCellFirst \<or> pc > iCellLast then Some SQLITE_CORRUPT
     else do {
       sz \<leftarrow> cellSize bt p (drop pc (aData p));
       if (pc + sz) mod 65536 > usableSize bt then Some SQLITE_CORRUPT
       else init_cells bt p iCellFirst iCellLast (i + 1) n
     }
   }"

text \<open>
  The walk along the free blocks: the sum of their sizes, or \<^term>\<open>None\<close> inside for a corrupt page. The sums of
  the check are of type \<open>uint16\<close> and wrap, so a block may link back to itself and the walk need not end; it is a
  partial function, whose value outside is \<^term>\<open>None\<close> then as for an index out of range.
\<close>

partial_function (option) init_free :: "nat \<Rightarrow> nat \<Rightarrow> nat \<Rightarrow> byte list \<Rightarrow> nat \<Rightarrow> nat \<Rightarrow> nat option option" where
  "init_free usable iCellFirst iCellLast d pc nfree =
     (if pc = 0 then Some (Some nfree)
      else if pc < iCellFirst \<or> pc > iCellLast then Some None
      else do {
        next \<leftarrow> get16 d pc;
        sz \<leftarrow> get16 d (pc + 2);
        if (next > 0 \<and> next \<le> (pc + sz + 3) mod 65536) \<or> (pc + sz) mod 65536 > usable then Some None
        else init_free usable iCellFirst iCellLast d next (nfree + sz) })"

text \<open>The rest of \<open>Initialize\<close>, once the flags are decoded and the offset of the cell pointers is known.\<close>

definition init_layout :: "bt_shared \<Rightarrow> memory_page \<Rightarrow> nat \<Rightarrow> (rc \<times> memory_page) option" where
  "init_layout bt p cellOff = do {
     let hdr = hdrOffset p;
     let data = aData p;
     let usable = usableSize bt;
     top \<leftarrow> get_nz data (hdr + 5);
     n \<leftarrow> get16 data (hdr + 3);
     let p = p \<lparr>nCell := n\<rparr>;
     if n > MX_CELL bt then Some (SQLITE_CORRUPT, p)
     else do {
       let iCellFirst = cellOff + 2 * n;
       let iCellLast = usable - 4;
       rc \<leftarrow> init_cells bt p iCellFirst (if IsLeaf p \<noteq> 0 then iCellLast else iCellLast - 1) 0 n;
       if rc \<noteq> SQLITE_OK then Some (rc, p)
       else do {
         pc \<leftarrow> get16 data (hdr + 1);
         frag \<leftarrow> get8 data (hdr + 7);
         r \<leftarrow> init_free usable iCellFirst iCellLast data pc (frag + top);
         case r of None \<Rightarrow> Some (SQLITE_CORRUPT, p)
         | Some nfree \<Rightarrow>
             if nfree > usable then Some (SQLITE_CORRUPT, p)
             else Some (SQLITE_OK, p \<lparr>nFree := nat ((int nfree - int iCellFirst) mod 65536), isInit := True\<rparr>)
       }
     }
   }"

definition Initialize :: "bt_shared \<Rightarrow> memory_page \<Rightarrow> (rc \<times> memory_page) option" where
  "Initialize bt p = (if isInit p then Some (SQLITE_OK, p) else do {
     let hdr = hdrOffset p;
     let data = aData p;
     flag \<leftarrow> get8 data hdr;
     (rc, p) \<leftarrow> decodeFlags bt p flag;
     if rc \<noteq> SQLITE_OK then Some (SQLITE_CORRUPT, p)
     else do {
       assertion (512 \<le> pageSize bt \<and> pageSize bt \<le> 65536);
       let cellOff = (if IsLeaf p \<noteq> 0 then hdr + 12 - 4 else hdr + 12);
       assertion (usableSize bt \<le> length data \<and> cellOff < length data);
       init_layout bt (p \<lparr>maskPage := (pageSize bt - 1) mod 65536, nOverflow := 0, cellOffset := cellOff\<rparr>) cellOff
     }
   })"

section \<open>Space in the cell content area\<close>

text \<open>\<open>freeSpace\<close>: the search for the place of the block in the list, as the address of the pointer to change
  and the block that follows; \<^term>\<open>None\<close> inside for a corrupt list.\<close>

function fs_find :: "byte list \<Rightarrow> nat \<Rightarrow> nat \<Rightarrow> (nat \<times> nat) option option" where
  "fs_find d start addr = (case get16 d addr of None \<Rightarrow> None
     | Some pbegin \<Rightarrow>
         if pbegin < start \<and> pbegin > 0 then
           (if pbegin < addr + 4 then Some None else fs_find d start pbegin)
         else Some (Some (addr, pbegin)))"
  by pat_completeness auto
termination
  by (relation "measure (\<lambda>(_, start, addr). start - addr)") auto

declare fs_find.simps [simp del]

text \<open>\<open>freeSpace\<close>: the loop that joins adjacent blocks. On a corrupt list it need not end.\<close>

partial_function (option) fs_coalesce :: "nat \<Rightarrow> nat \<Rightarrow> byte list \<Rightarrow> nat \<Rightarrow> (rc \<times> byte list) option" where
  "fs_coalesce hdr usable d addr = do {
     pbegin \<leftarrow> get16 d addr;
     if pbegin = 0 then Some (SQLITE_OK, d)
     else do {
       assertion (pbegin > addr);
       assertion (pbegin + 4 \<le> usable);
       pnext \<leftarrow> get16 d pbegin;
       psize \<leftarrow> get16 d (pbegin + 2);
       if pbegin + psize + 3 \<ge> pnext \<and> pnext > 0 then do {
         nfrag \<leftarrow> get8 d (hdr + 7);
         if pnext < pbegin + psize \<or> pnext - (pbegin + psize) > nfrag then Some (SQLITE_CORRUPT, d)
         else do {
           d \<leftarrow> put8 d (hdr + 7) (nfrag - (pnext - (pbegin + psize)));
           n \<leftarrow> get16 d pnext;
           d \<leftarrow> put16 d pbegin n;
           s \<leftarrow> get16 d (pnext + 2);
           d \<leftarrow> put16 d (pbegin + 2) (pnext + s - pbegin);
           fs_coalesce hdr usable d addr
         }
       } else fs_coalesce hdr usable d pbegin
     }
   }"

text \<open>The last test of \<open>freeSpace\<close>, on the page after the blocks have been joined.\<close>

definition fs_tail :: "nat \<Rightarrow> byte list \<Rightarrow> byte list option" where
  "fs_tail hdr d = do {
     b1 \<leftarrow> get8 d (hdr + 1);
     b2 \<leftarrow> get8 d (hdr + 2);
     b5 \<leftarrow> get8 d (hdr + 5);
     b6 \<leftarrow> get8 d (hdr + 6);
     if b1 = b5 \<and> b2 = b6 then do {
       pbegin \<leftarrow> get16 d (hdr + 1);
       d \<leftarrow> memcpy_at d (hdr + 1) d pbegin 2;
       s \<leftarrow> get16 d (pbegin + 2);
       b \<leftarrow> IncrementUint16 (drop (hdr + 5) d) (of_nat s);
       Some (take (hdr + 5) d @ b)
     } else Some d
   }"

definition freeSpace :: "bt_shared \<Rightarrow> memory_page \<Rightarrow> nat \<Rightarrow> nat \<Rightarrow> (rc \<times> memory_page) option" where
  "freeSpace bt p start sz = do {
     let hdr = hdrOffset p;
     let usable = usableSize bt;
     assertion (start \<ge> hdr + 6 + childPtrSize p);
     assertion (start + sz \<le> usable);
     d \<leftarrow> (if secure_delete bt then memset_at (aData p) start sz else Some (aData p));
     assertion (start + 4 \<le> usable);
     r \<leftarrow> fs_find d start (hdr + 1);
     case r of None \<Rightarrow> Some (SQLITE_CORRUPT, p \<lparr>aData := d\<rparr>)
     | Some (addr, pbegin) \<Rightarrow>
         if pbegin > usable - 4 then Some (SQLITE_CORRUPT, p \<lparr>aData := d\<rparr>)
         else do {
           assertion (pbegin > addr \<or> pbegin = 0);
           d \<leftarrow> put16 d addr start;
           d \<leftarrow> put16 d start pbegin;
           d \<leftarrow> put16 d (start + 2) sz;
           let p = p \<lparr>nFree := (nFree p + sz) mod 65536\<rparr>;
           (rc, d) \<leftarrow> fs_coalesce hdr usable d (hdr + 1);
           if rc \<noteq> SQLITE_OK then Some (rc, p \<lparr>aData := d\<rparr>)
           else do {
             d \<leftarrow> fs_tail hdr d;
             Some (SQLITE_OK, p \<lparr>aData := d\<rparr>)
           }
         }
   }"

text \<open>\<open>Defragment\<close>: the loop that moves every cell to the end of the page.\<close>

fun defrag_loop :: "bt_shared \<Rightarrow> memory_page \<Rightarrow> byte list \<Rightarrow> nat \<Rightarrow> nat \<Rightarrow> nat \<Rightarrow> byte list \<Rightarrow> nat \<Rightarrow> (rc \<times> byte list \<times> nat) option" where
  "defrag_loop bt p temp first i 0 d brk = Some (SQLITE_OK, d, brk)"
| "defrag_loop bt p temp first i (Suc n) d brk = do {
     pc \<leftarrow> get16 d (cellOffset p + i * 2);
     assertion (first \<le> pc \<and> pc + 4 \<le> usableSize bt);
     assertion (pc \<le> length temp);
     sz \<leftarrow> cellSize bt p (drop pc temp);
     if brk < first + sz then Some (SQLITE_CORRUPT, d, brk)
     else do {
       d \<leftarrow> memcpy_at d (brk - sz) temp pc sz;
       d \<leftarrow> put16 d (cellOffset p + i * 2) (brk - sz);
       defrag_loop bt p temp first (i + 1) n d (brk - sz)
     }
   }"

text \<open>\<open>temp\<close> is what the temporary space of the pager holds before the call.\<close>

definition Defragment :: "bt_shared \<Rightarrow> byte list \<Rightarrow> memory_page \<Rightarrow> (rc \<times> memory_page) option" where
  "Defragment bt temp p = do {
     let hdr = hdrOffset p;
     let data = aData p;
     let usable = usableSize bt;
     assertion (usable \<le> 65536);
     assertion (nOverflow p = 0);
     n \<leftarrow> get16 data (hdr + 3);
     assertion (nCell p = n);
     area \<leftarrow> get16 data (hdr + 5);
     assertion (area \<le> usable);
     temp \<leftarrow> memcpy_at temp area data area (usable - area);
     let first = cellOffset p + 2 * nCell p;
     (rc, d, brk) \<leftarrow> defrag_loop bt p temp first 0 (nCell p) data usable;
     if rc \<noteq> SQLITE_OK then Some (rc, p \<lparr>aData := d\<rparr>)
     else do {
       assertion (brk \<ge> first);
       d \<leftarrow> put16 d (hdr + 5) brk;
       d \<leftarrow> put8 d (hdr + 1) 0;
       d \<leftarrow> put8 d (hdr + 2) 0;
       d \<leftarrow> put8 d (hdr + 7) 0;
       d \<leftarrow> memset_at d first (brk - first);
       Some (if brk - first \<noteq> nFree p then SQLITE_CORRUPT else SQLITE_OK, p \<lparr>aData := d\<rparr>)
     }
   }"

text \<open>\<open>AllocateSpace\<close>: the search of the free list.\<close>

datatype slot = NoSlot | BadSlot | Slot nat "byte list"

function alloc_search :: "nat \<Rightarrow> nat \<Rightarrow> nat \<Rightarrow> nat \<Rightarrow> byte list \<Rightarrow> nat \<Rightarrow> slot option" where
  "alloc_search usable hdr nfrag nByte d addr = (case get16 d addr of None \<Rightarrow> None
     | Some pc \<Rightarrow>
       if pc = 0 then Some NoSlot
       else if pc > usable - 4 \<or> pc < addr + 4 then Some BadSlot
       else (case get16 d (pc + 2) of None \<Rightarrow> None
         | Some sz \<Rightarrow>
           if sz \<ge> nByte then
             (let x = sz - nByte in
              if x < 4 then do {
                d \<leftarrow> memcpy_at d addr d pc 2;
                d \<leftarrow> put8 d (hdr + 7) (nfrag + x);
                Some (Slot (pc + x) d)
              }
              else if sz + pc > usable then Some BadSlot
              else do {
                d \<leftarrow> put16 d (pc + 2) x;
                Some (Slot (pc + x) d)
              })
           else alloc_search usable hdr nfrag nByte d pc))"
  by pat_completeness auto
termination
  by (relation "measure (\<lambda>(usable, _, _, _, _, addr). usable - addr)") auto

declare alloc_search.simps [simp del]

text \<open>The allocation from the gap, the last part of \<open>AllocateSpace\<close>.\<close>

definition alloc_gap :: "bt_shared \<Rightarrow> byte list \<Rightarrow> memory_page \<Rightarrow> nat \<Rightarrow> nat \<Rightarrow> nat \<Rightarrow> (nat \<times> rc \<times> memory_page) option" where
  "alloc_gap bt temp p nByte gap index = do {
     (rc, p, index) \<leftarrow> (if gap + 2 + nByte > index then do {
         (rc, p) \<leftarrow> Defragment bt temp p;
         if rc \<noteq> SQLITE_OK then Some (rc, p, index)
         else do {
           index \<leftarrow> get_nz (aData p) (hdrOffset p + 5);
           assertion (gap + nByte \<le> index);
           Some (SQLITE_OK, p, index)
         }
       } else Some (SQLITE_OK, p, index));
     if rc \<noteq> SQLITE_OK then Some (index, rc, p)
     else do {
       let index = index - nByte;
       d \<leftarrow> put16 (aData p) (hdrOffset p + 5) index;
       assertion (index + nByte \<le> usableSize bt);
       Some (index, SQLITE_OK, p \<lparr>aData := d\<rparr>)
     }
   }"

definition AllocateSpace :: "bt_shared \<Rightarrow> byte list \<Rightarrow> memory_page \<Rightarrow> nat \<Rightarrow> (nat \<times> rc \<times> memory_page) option" where
  "AllocateSpace bt temp p nByte = do {
     let hdr = hdrOffset p;
     let data = aData p;
     let usable = usableSize bt;
     assertion (nFree p \<ge> nByte);
     assertion (nOverflow p = 0);
     assertion (nByte + 8 < usable);
     nfrag \<leftarrow> get8 data (hdr + 7);
     assertion (cellOffset p = (if IsLeaf p \<noteq> 0 then hdr + 8 else hdr + 12));
     let gap = cellOffset p + 2 * nCell p;
     index \<leftarrow> get_nz data (hdr + 5);
     if gap > index then Some (index, SQLITE_CORRUPT, p)
     else if nfrag \<ge> 60 then do {
       (rc, p) \<leftarrow> Defragment bt temp p;
       if rc \<noteq> SQLITE_OK then Some (index, rc, p)
       else do {
         index \<leftarrow> get_nz (aData p) (hdr + 5);
         alloc_gap bt temp p nByte gap index
       }
     }
     else if gap + 2 \<le> index then do {
       r \<leftarrow> alloc_search usable hdr nfrag nByte data (hdr + 1);
       case r of BadSlot \<Rightarrow> Some (index, SQLITE_CORRUPT, p)
       | Slot i d \<Rightarrow> Some (i, SQLITE_OK, p \<lparr>aData := d\<rparr>)
       | NoSlot \<Rightarrow> alloc_gap bt temp p nByte gap index
     }
     else alloc_gap bt temp p nByte gap index
   }"

section \<open>Removing and assembling cells\<close>

text \<open>\<open>dropCell\<close>: the loop that moves the pointers behind the removed one, \<open>n\<close> of them, down by one place.\<close>

fun drop_shift :: "byte list \<Rightarrow> nat \<Rightarrow> nat \<Rightarrow> byte list option" where
  "drop_shift d ptr 0 = Some d"
| "drop_shift d ptr (Suc n) = do { d \<leftarrow> memcpy_at d ptr d (ptr + 2) 2; drop_shift d (ptr + 2) n }"

definition dropCell :: "bt_shared \<Rightarrow> memory_page \<Rightarrow> nat \<Rightarrow> nat \<Rightarrow> rc \<Rightarrow> (rc \<times> memory_page) option" where
  "dropCell bt p idx sz pRC = (if pRC \<noteq> SQLITE_OK then Some (pRC, p) else do {
     assertion (idx < nCell p);
     cell \<leftarrow> FindCell p idx;
     s \<leftarrow> cellSize bt p cell;
     assertion (sz = s);
     let ptr = cellOffset p + 2 * idx;
     pc \<leftarrow> get16 (aData p) ptr;
     let hdr = hdrOffset p;
     top \<leftarrow> get16 (aData p) (hdr + 5);
     if pc < top \<or> pc + sz > usableSize bt then Some (SQLITE_CORRUPT, p)
     else do {
       (rc, p) \<leftarrow> freeSpace bt p pc sz;
       if rc \<noteq> SQLITE_OK then Some (rc, p)
       else do {
         assertion (even ptr);
         d \<leftarrow> drop_shift (aData p) ptr (nCell p - 1 - idx);
         let p = p \<lparr>nCell := nCell p - 1\<rparr>;
         d \<leftarrow> put16 d (hdr + 3) (nCell p);
         Some (SQLITE_OK, p \<lparr>aData := d, nFree := (nFree p + 2) mod 65536\<rparr>)
       }
     }
   })"

text \<open>\<open>assemblePage\<close>: the loop over the cells, from the last to the first.\<close>

fun assemble_loop :: "memory_page \<Rightarrow> byte list list \<Rightarrow> nat list \<Rightarrow> nat \<Rightarrow> byte list \<Rightarrow> nat \<Rightarrow> (byte list \<times> nat) option" where
  "assemble_loop p apCell aSize 0 d cellbody = Some (d, cellbody)"
| "assemble_loop p apCell aSize (Suc i) d cellbody = do {
     let sz = aSize ! i;
     assertion (sz \<le> cellbody);
     d \<leftarrow> put16 d (cellOffset p + 2 * i) (cellbody - sz);
     d \<leftarrow> memcpy_at d (cellbody - sz) (apCell ! i) 0 sz;
     assemble_loop p apCell aSize i d (cellbody - sz)
   }"

definition assemblePage :: "bt_shared \<Rightarrow> memory_page \<Rightarrow> nat \<Rightarrow> byte list list \<Rightarrow> nat list \<Rightarrow> memory_page option" where
  "assemblePage bt p n apCell aSize = do {
     let hdr = hdrOffset p;
     let usable = usableSize bt;
     assertion (nOverflow p = 0);
     assertion (n \<le> MX_CELL bt \<and> MX_CELL bt \<le> 10921);
     assertion (nCell p = 0);
     top \<leftarrow> get_nz (aData p) (hdr + 5);
     assertion (top = usable);
     assertion (n \<le> length apCell \<and> n \<le> length aSize);
     (d, cellbody) \<leftarrow> assemble_loop p apCell aSize n (aData p) usable;
     d \<leftarrow> put16 d (hdr + 3) n;
     d \<leftarrow> put16 d (hdr + 5) cellbody;
     Some (p \<lparr>aData := d, nFree := nat ((int (nFree p) - int (n * 2 + usable - cellbody)) mod 65536), nCell := n mod 65536\<rparr>)
   }"

end
