(* ===== verification/BtSpace.thy ===== *)
theory BtSpace
  imports BtPage
begin

text \<open>
  The specification of a page: the free blocks as a list, the regions of the cell content area, and the
  balance of the free bytes, with the lemmas on bytes that the proofs about the operations share.
\<close>

section \<open>Bytes\<close>

lemma word_unat_eqI: "unat v = unat w \<Longrightarrow> v = w" for v w :: "'a::len word"
  by (rule unsigned_word_eqI)

definition u16 :: "byte list \<Rightarrow> nat \<Rightarrow> nat" where
  "u16 d a = 256 * unat (d ! a) + unat (d ! (a + 1))"

definition upd16 :: "byte list \<Rightarrow> nat \<Rightarrow> nat \<Rightarrow> byte list" where
  "upd16 d a v = d[a := of_nat (v div 256), a + 1 := of_nat v]"

lemma unat_byte: "unat (x :: byte) < 256"
  using unsigned_less [of x] by simp

lemma unat_join: "unat (push_bit 8 (ucast (x :: byte)) OR ucast (y :: byte) :: uint16) = 256 * unat x + unat y"
proof -
  have e: "push_bit 8 (ucast x :: uint16) OR ucast y = push_bit 8 (ucast x) + ucast y"
    by (rule disjunctive_add_eq_or [symmetric]) (auto intro!: bit_word_eqI simp: bit_simps dest!: bit_imp_le_length [where w = y])
  have "unat (push_bit 8 (ucast x :: uint16)) = 256 * unat x"
    using unat_byte [of x] by (simp add: push_bit_eq_mult unat_word_ariths unsigned_ucast_eq take_bit_eq_mod)
  moreover have "unat (ucast y :: uint16) = unat y" using unat_byte [of y] by (simp add: unsigned_ucast_eq take_bit_eq_mod)
  ultimately show ?thesis
    unfolding e using unat_byte [of x] unat_byte [of y] by (simp add: unat_word_ariths)
qed

lemma get16_u16: "a + 2 \<le> length d \<Longrightarrow> get16 d a = Some (u16 d a)"
  by (simp add: get16_def ReadUint16_def u16_def unat_join)

lemma u16_less: "u16 d a < 65536"
  using unat_byte [of "d ! a"] unat_byte [of "d ! (a + 1)"] by (simp add: u16_def)

lemma drop_bit_8_of_nat: "(ucast (drop_bit 8 (of_nat v :: uint16)) :: byte) = of_nat (v div 256)"
proof (rule word_unat_eqI)
  have "unat (ucast (drop_bit 8 (of_nat v :: uint16)) :: byte) = (v mod 65536 div 256) mod 256"
    by (simp add: unat_drop_bit_eq unat_of_nat unsigned_ucast_eq take_bit_eq_mod ) (simp add: drop_bit_eq_div)
  also have "\<dots> = (v div 256) mod 256" using mod_mult2_eq [of v 256 256] by simp
  finally show "unat (ucast (drop_bit 8 (of_nat v :: uint16)) :: byte) = unat (of_nat (v div 256) :: byte)"
    by (simp add: unat_of_nat)
qed

lemma put16_upd16: "a + 2 \<le> length d \<Longrightarrow> put16 d a v = Some (upd16 d a v)"
proof -
  assume a: "a + 2 \<le> length d"
  have "ucast (of_nat v :: uint16) = (of_nat v :: byte)" by (rule word_unat_eqI) (simp add: unsigned_ucast_eq unat_of_nat take_bit_eq_mod mod_mod_cancel)
  moreover have "take a d @ (drop a d)[0 := x, 1 := y] = d[a := x, a + 1 := y]" for x y
    using a by (intro nth_equalityI) (auto simp: nth_append nth_list_update)
  ultimately show ?thesis
    using a by (simp add: put16_def WriteUint16_def upd16_def drop_bit_8_of_nat)
qed

lemma length_upd16 [simp]: "length (upd16 d a v) = length d"
  by (simp add: upd16_def)

lemma nth_upd16 [simp]: "i \<noteq> a \<Longrightarrow> i \<noteq> a + 1 \<Longrightarrow> upd16 d a v ! i = d ! i"
  by (simp add: upd16_def)

lemma u16_upd16_same [simp]: "a + 2 \<le> length d \<Longrightarrow> u16 (upd16 d a v) a = v mod 65536"
proof -
  assume "a + 2 \<le> length d"
  then have "u16 (upd16 d a v) a = 256 * (v div 256 mod 256) + v mod 256"
    by (simp add: u16_def upd16_def nth_list_update unat_of_nat)
  also have "\<dots> = v mod 65536" using mod_mult2_eq [of v 256 256] by simp
  finally show ?thesis .
qed

lemma u16_cong: "d ! a = e ! a \<Longrightarrow> d ! (a + 1) = e ! (a + 1) \<Longrightarrow> u16 d a = u16 e a"
  by (simp add: u16_def)

lemma u16_upd16_other [simp]: "b + 2 \<le> a \<or> a + 2 \<le> b \<Longrightarrow> u16 (upd16 d a v) b = u16 d b"
  by (rule u16_cong) (auto simp: upd16_def nth_list_update)

lemma u16_list_update [simp]: "i \<noteq> b \<Longrightarrow> i \<noteq> b + 1 \<Longrightarrow> u16 (d[i := v]) b = u16 d b"
  by (rule u16_cong) auto

lemma get8_nth: "a < length d \<Longrightarrow> get8 d a = Some (unat (d ! a))"
  by (simp add: get8_def)

lemma put8_upd: "a < length d \<Longrightarrow> put8 d a v = Some (d[a := of_nat v])"
  by (simp add: put8_def)

lemma and_ffff: "(x AND 0xffff) = x mod 65536" for x :: int
  using take_bit_eq_mask [of 16 x] by (simp add: take_bit_eq_mod mask_eq_exp_minus_1)

definition top_of :: "byte list \<Rightarrow> nat \<Rightarrow> nat" where
  "top_of d a = (if u16 d a = 0 then 65536 else u16 d a)"

lemma get_nz_top: "a + 2 \<le> length d \<Longrightarrow> get_nz d a = Some (top_of d a)"
proof -
  assume a: "a + 2 \<le> length d"
  then obtain w where w: "ReadUint16 (drop a d) = Some w" "unat w = u16 d a"
    using get16_u16 [OF a] by (auto simp: get16_def)
  have "nat ((uint w - 1) mod 65536 + 1) = top_of d a"
    using w(2) u16_less [of d a] by (auto simp: top_of_def uint_nat)
  then show ?thesis using w(1) by (simp add: get_nz_def ReadCompressedIntNotZero_def and_ffff)
qed

section \<open>Regions\<close>

type_synonym region = "nat \<times> nat"

definition apart :: "region \<Rightarrow> region \<Rightarrow> bool" where
  "apart r q \<longleftrightarrow> fst r + snd r \<le> fst q \<or> fst q + snd q \<le> fst r"

definition inside :: "region \<Rightarrow> nat \<Rightarrow> bool" where
  "inside r i \<longleftrightarrow> fst r \<le> i \<and> i < fst r + snd r"

definition regions :: "nat \<Rightarrow> nat \<Rightarrow> region list \<Rightarrow> bool" where
  "regions lo hi rs \<longleftrightarrow> (\<forall>r\<in>set rs. lo \<le> fst r \<and> fst r + snd r \<le> hi) \<and> sorted_wrt apart rs"

abbreviation total_size :: "region list \<Rightarrow> nat" where
  "total_size rs \<equiv> sum_list (map snd rs)"

lemma apart_sym: "apart r q = apart q r"
  by (auto simp: apart_def)

lemma regions_append:
  "regions lo hi (xs @ ys) \<longleftrightarrow> regions lo hi xs \<and> regions lo hi ys \<and> (\<forall>x\<in>set xs. \<forall>y\<in>set ys. apart x y)"
  by (auto simp: regions_def sorted_wrt_append)

lemma regions_Cons:
  "regions lo hi (x # xs) \<longleftrightarrow> lo \<le> fst x \<and> fst x + snd x \<le> hi \<and> (\<forall>y\<in>set xs. apart x y) \<and> regions lo hi xs"
  by (auto simp: regions_def)

lemma regions_Nil [simp]: "regions lo hi []"
  by (simp add: regions_def)

lemma regions_total: "regions lo hi rs \<Longrightarrow> total_size rs \<le> hi - lo"
proof -
  have *: "regions lo hi rs \<Longrightarrow> card (\<Union>r\<in>set rs. {fst r..<fst r + snd r}) = total_size rs"
  proof (induction rs)
    case (Cons r rs)
    have "card ({fst r..<fst r + snd r} \<union> (\<Union>q\<in>set rs. {fst q..<fst q + snd q})) =
      card {fst r..<fst r + snd r} + card (\<Union>q\<in>set rs. {fst q..<fst q + snd q})"
      using Cons.prems by (intro card_Un_disjoint) (fastforce simp: regions_Cons apart_def)+
    then show ?case using Cons by (simp add: regions_Cons)
  qed simp
  assume r: "regions lo hi rs"
  then have "(\<Union>r\<in>set rs. {fst r..<fst r + snd r}) \<subseteq> {lo..<hi}" by (force simp: regions_def)
  then have "card (\<Union>r\<in>set rs. {fst r..<fst r + snd r}) \<le> card {lo..<hi}" by (intro card_mono) auto
  then show ?thesis using * [OF r] by simp
qed

section \<open>The list of free blocks\<close>

fun chain :: "byte list \<Rightarrow> nat \<Rightarrow> region list \<Rightarrow> bool" where
  "chain d a [] \<longleftrightarrow> u16 d a = 0"
| "chain d a ((b, s) # fs) \<longleftrightarrow> u16 d a = b \<and> b > 0 \<and> u16 d (b + 2) = s \<and> chain d b fs"

text \<open>Blocks in ascending order, at least \<open>k\<close> bytes apart, none smaller than four bytes.\<close>

fun ascending :: "nat \<Rightarrow> nat \<Rightarrow> region list \<Rightarrow> bool" where
  "ascending k lo [] \<longleftrightarrow> True"
| "ascending k lo ((b, s) # fs) \<longleftrightarrow> lo \<le> b \<and> 4 \<le> s \<and> ascending k (b + s + k) fs"

lemma ascending_bounds: "ascending k lo fs \<Longrightarrow> r \<in> set fs \<Longrightarrow> lo \<le> fst r \<and> 4 \<le> snd r"
  by (induction k lo fs rule: ascending.induct) force+

lemma ascending_mono: "ascending k lo fs \<Longrightarrow> lo' \<le> lo \<Longrightarrow> k' \<le> k \<Longrightarrow> ascending k' lo' fs"
proof (induction k lo fs arbitrary: lo' rule: ascending.induct)
  case (2 k lo b s fs)
  then show ?case using "2.IH" [of "b + s + k'"] by simp
qed simp

lemma chain_move:
  assumes "chain d a fs" "u16 e b = u16 d a" "\<forall>r\<in>set fs. \<forall>i. fst r \<le> i \<and> i < fst r + 4 \<longrightarrow> e ! i = d ! i"
  shows "chain e b fs"
  using assms
proof (induction d a fs arbitrary: b rule: chain.induct)
  case (2 d a c s fs)
  have "u16 e c = u16 d c" "u16 e (c + 2) = u16 d (c + 2)"
    using "2.prems"(3) by (auto intro!: u16_cong)
  then show ?case using 2 by simp
qed simp

fun coal :: "region list \<Rightarrow> region list" where
  "coal ((b, s) # (c, t) # fs) = (if c \<le> b + s + 3 then coal ((b, c + t - b) # fs) else (b, s) # coal ((c, t) # fs))"
| "coal fs = fs"

lemma coal_bounds:
  "ascending 0 lo fs \<Longrightarrow> \<forall>r\<in>set fs. fst r + snd r \<le> hi \<Longrightarrow> r \<in> set (coal fs) \<Longrightarrow> lo \<le> fst r \<and> 4 \<le> snd r \<and> fst r + snd r \<le> hi"
proof (induction fs arbitrary: lo rule: coal.induct)
  case (1 b s c t fs)
  show ?case
  proof (cases "c \<le> b + s + 3")
    case True
    then show ?thesis using 1 by (intro "1.IH"(1)) auto
  next
    case False
    then have "r = (b, s) \<or> b + s \<le> fst r \<and> 4 \<le> snd r \<and> fst r + snd r \<le> hi"
      using 1 "1.IH"(2) [of "b + s"] by auto
    then show ?thesis using 1 by auto
  qed
qed auto

lemma coal_ascending: "ascending 0 lo fs \<Longrightarrow> ascending 4 lo (coal fs)"
proof (induction fs arbitrary: lo rule: coal.induct)
  case (1 b s c t fs)
  then show ?case using "1.IH"(2) [of "b + s + 4"] by auto
qed auto

lemma coal_apart:
  assumes "ascending 0 lo fs" "\<forall>q\<in>set fs. apart r q" "4 \<le> snd r" "q \<in> set (coal fs)"
  shows "apart r q"
  using assms
proof (induction fs arbitrary: lo rule: coal.induct)
  case (1 b s c t fs)
  show ?case
  proof (cases "c \<le> b + s + 3")
    case True
    then have "apart r (b, c + t - b)" using "1.prems" by (auto simp: apart_def)
    then show ?thesis using True 1 by (intro "1.IH"(1) [of lo]) auto
  next
    case False
    then show ?thesis using 1 "1.IH"(2) [of "b + s"] by auto
  qed
qed auto

lemma ascending_regions: "ascending k lo fs \<Longrightarrow> \<forall>r\<in>set fs. fst r + snd r \<le> hi \<Longrightarrow> regions lo hi fs"
proof (induction k lo fs rule: ascending.induct)
  case (2 k lo b s fs)
  then have "regions (b + s + k) hi fs" by simp
  then show ?case using 2 by (fastforce simp: regions_Cons apart_def regions_def dest: ascending_bounds)
qed simp

end
