(* ===== verification/BtFree.thy ===== *)
theory BtFree
  imports BtSpace
begin

text \<open>
  \<open>freeSpace\<close>: a block that is given back joins the list of free blocks, and the balance of free bytes holds.
\<close>

section \<open>The layout of the space on a page\<close>

text \<open>
  \<open>layout usable hdr first d rs fs\<close>: in the bytes \<open>d\<close> of a page whose header is at \<open>hdr\<close> and whose cell pointers
  end at \<open>first\<close>, the cell content area, up to \<open>usable\<close>, consists of the cells \<open>rs\<close>, the free blocks \<open>fs\<close> of the
  list in the header, and as many fragment bytes as the header says.
\<close>

definition layout :: "nat \<Rightarrow> nat \<Rightarrow> nat \<Rightarrow> byte list \<Rightarrow> region list \<Rightarrow> region list \<Rightarrow> bool" where
  "layout usable hdr first d rs fs \<longleftrightarrow>
     hdr + 8 \<le> first \<and> first \<le> top_of d (hdr + 5) \<and> top_of d (hdr + 5) \<le> usable \<and> usable \<le> 65536 \<and> usable \<le> length d \<and>
     chain d (hdr + 1) fs \<and> ascending 4 (top_of d (hdr + 5)) fs \<and>
     regions (top_of d (hdr + 5)) usable (rs @ fs) \<and> (\<forall>r\<in>set rs. 4 \<le> snd r) \<and>
     total_size rs + total_size fs + unat (d ! (hdr + 7)) = usable - top_of d (hdr + 5)"

text \<open>The free bytes of a page, the way \<open>Initialize\<close> counts them.\<close>

definition free_bytes :: "nat \<Rightarrow> nat \<Rightarrow> byte list \<Rightarrow> region list \<Rightarrow> nat" where
  "free_bytes hdr first d fs = top_of d (hdr + 5) + unat (d ! (hdr + 7)) + total_size fs - first"

lemma free_bytes_cells:
  "layout usable hdr first d rs fs \<Longrightarrow> free_bytes hdr first d fs + first + total_size rs = usable"
  unfolding layout_def free_bytes_def by linarith

section \<open>Joining adjacent blocks\<close>

lemma coal_total_Cons:
  "c \<le> b + s + 3 \<Longrightarrow> b + s \<le> c \<Longrightarrow> total_size (coal ((b, s) # (c, t) # fs)) = total_size (coal ((b, c + t - b) # fs))"
  by simp

lemma coal_total: "ascending 0 lo fs \<Longrightarrow> total_size fs \<le> total_size (coal fs)"
proof (induction fs arbitrary: lo rule: coal.induct [case_names two none single])
  case (two b s c t fs)
  show ?case
  proof (cases "c \<le> b + s + 3")
    case True
    then have "total_size ((b, c + t - b) # fs) \<le> total_size (coal ((b, c + t - b) # fs))"
      using two by (intro two.IH(1) [of lo]) auto
    then show ?thesis using True two by auto
  next
    case False
    then show ?thesis using two two.IH(2) [of "b + s"] by auto
  qed
qed auto

lemma coal_hd: "ascending 0 lo ((b, s) # fs) \<Longrightarrow> \<exists>s' gs. coal ((b, s) # fs) = (b, s') # gs \<and> s \<le> s'"
proof (induction fs arbitrary: s lo)
  case (Cons q fs)
  obtain c t where q: "q = (c, t)" by (cases q)
  show ?case
  proof (cases "c \<le> b + s + 3")
    case True
    then have "\<exists>s' gs. coal ((b, c + t - b) # fs) = (b, s') # gs \<and> c + t - b \<le> s'"
      using Cons.prems by (intro Cons.IH [of lo]) (auto simp: q)
    then show ?thesis using True Cons.prems by (auto simp: q)
  qed (simp add: q)
qed simp

lemma fs_coalesce_merge:
  assumes "u16 d addr = b" "b > addr" "u16 d b = c" "c > 0" "u16 d (b + 2) = s" "4 \<le> s" "b + s \<le> c" "c \<le> b + s + 3"
    "u16 d (c + 2) = t" "4 \<le> t" "c + t \<le> usable" "usable \<le> length d" "c - (b + s) \<le> unat (d ! (hdr + 7))" "hdr + 8 \<le> b"
    "addr + 2 \<le> length d"
  shows "fs_coalesce hdr usable d addr = fs_coalesce hdr usable
    (upd16 (upd16 (d[hdr + 7 := of_nat (unat (d ! (hdr + 7)) - (c - (b + s)))]) b (u16 d c)) (b + 2) (c + t - b)) addr"
  using assms by (subst fs_coalesce.simps) (simp add: get16_u16 put16_upd16 get8_nth put8_upd)

lemma fs_coalesce_keep:
  assumes "u16 d addr = b" "b > addr" "u16 d b = c" "u16 d (b + 2) = s" "c = 0 \<or> b + s + 3 < c" "b + 4 \<le> usable" "usable \<le> length d"
    "addr + 2 \<le> length d"
  shows "fs_coalesce hdr usable d addr = fs_coalesce hdr usable d b"
  using assms by (subst fs_coalesce.simps) (auto simp: get16_u16)

lemma fs_coalesce_end:
  assumes "u16 d addr = 0" "addr + 2 \<le> length d"
  shows "fs_coalesce hdr usable d addr = Some (SQLITE_OK, d)"
  using assms by (subst fs_coalesce.simps) (simp add: get16_u16)

lemma unat_of_nat_byte: "n < 256 \<Longrightarrow> unat (of_nat n :: byte) = n"
  by (simp add: unat_of_nat)

text \<open>What \<open>fs_coalesce\<close> leaves: the joined list, the fragments that were used up, and every other byte.\<close>

definition coalesced :: "nat \<Rightarrow> byte list \<Rightarrow> nat \<Rightarrow> region list \<Rightarrow> byte list \<Rightarrow> bool" where
  "coalesced hdr d addr fs e \<longleftrightarrow> length e = length d \<and> chain e addr (coal fs) \<and>
     unat (e ! (hdr + 7)) + total_size (coal fs) = unat (d ! (hdr + 7)) + total_size fs \<and>
     (\<forall>i. i \<noteq> hdr + 7 \<longrightarrow> (\<forall>r\<in>set (coal fs). \<not> inside r i) \<longrightarrow> e ! i = d ! i)"

lemma fs_coalesce_ok:
  assumes "chain d addr fs" "ascending 0 lo fs" "\<forall>r\<in>set fs. fst r + snd r \<le> usable" "addr + 4 \<le> lo" "hdr + 8 \<le> lo"
    "addr = hdr + 1 \<or> hdr + 8 \<le> addr" "usable \<le> length d" "usable \<le> 65536" "addr + 2 \<le> length d"
    "total_size (coal fs) \<le> total_size fs + unat (d ! (hdr + 7))"
  shows "\<exists>e. fs_coalesce hdr usable d addr = Some (SQLITE_OK, e) \<and> coalesced hdr d addr fs e"
  using assms
proof (induction fs arbitrary: d addr lo rule: coal.induct [case_names two none single])
  case (two b s c t fs)
  have ch: "u16 d addr = b" "0 < b" "u16 d (b + 2) = s" "u16 d b = c" "0 < c" "u16 d (c + 2) = t" "chain d c fs"
    using two.prems(1) by auto
  have as: "lo \<le> b" "4 \<le> s" "b + s \<le> c" "4 \<le> t" "ascending 0 (c + t) fs" "c + t \<le> usable"
    using two.prems(2,3) by auto
  show ?case
  proof (cases "c \<le> b + s + 3")
    case True
    let ?g = "c - (b + s)"
    let ?e = "upd16 (upd16 (d[hdr + 7 := of_nat (unat (d ! (hdr + 7)) - ?g)]) b (u16 d c)) (b + 2) (c + t - b)"
    have tot: "total_size (coal ((b, c + t - b) # fs)) \<le> s + t + total_size fs + unat (d ! (hdr + 7))"
      using two.prems(10) True by simp
    have "total_size ((b, c + t - b) # fs) \<le> total_size (coal ((b, c + t - b) # fs))"
      using as by (intro coal_total [of b]) auto
    then have g: "?g \<le> unat (d ! (hdr + 7))" using tot as by simp
    have e7: "unat (?e ! (hdr + 7)) = unat (d ! (hdr + 7)) - ?g"
      using as two.prems(5,7) unat_byte [of "d ! (hdr + 7)"] by (simp add: unat_of_nat_byte)
    have bl: "\<forall>r\<in>set fs. \<forall>i. fst r \<le> i \<and> i < fst r + 4 \<longrightarrow> ?e ! i = d ! i"
      using as two.prems(5) ascending_bounds [of 0 "c + t" fs] by fastforce
    have "chain ?e b fs"
      using as two.prems(5,7) u16_less [of d c] by (intro chain_move [OF ch(7) _ bl]) simp
    moreover have "u16 ?e addr = b" "u16 ?e (b + 2) = c + t - b"
      using as two.prems ch(1,2) by auto
    ultimately have che: "chain ?e addr ((b, c + t - b) # fs)" using ch(2) by simp
    have "\<exists>e. fs_coalesce hdr usable ?e addr = Some (SQLITE_OK, e) \<and> coalesced hdr ?e addr ((b, c + t - b) # fs) e"
      using True che as two.prems tot g e7 by (intro two.IH(1) [of _ _ lo]) auto
    then obtain e where e: "fs_coalesce hdr usable ?e addr = Some (SQLITE_OK, e)" "coalesced hdr ?e addr ((b, c + t - b) # fs) e" by blast
    obtain s' gs where hd: "coal ((b, c + t - b) # fs) = (b, s') # gs" "c + t - b \<le> s'"
      using coal_hd [of b b "c + t - b" fs] as by (auto simp: le_diff_conv2)
    have "e ! i = d ! i" if "i \<noteq> hdr + 7" "\<forall>r\<in>set (coal ((b, c + t - b) # fs)). \<not> inside r i" for i
    proof -
      have "i < b \<or> b + 4 \<le> i" using that(2) hd as by (auto simp: inside_def)
      then have "?e ! i = d ! i" using that(1) by auto
      then show ?thesis using e(2) that unfolding coalesced_def by auto
    qed
    moreover have "fs_coalesce hdr usable d addr = Some (SQLITE_OK, e)"
      using fs_coalesce_merge [OF ch(1) _ ch(4,5,3) as(2,3) True ch(6) as(4,6)] e(1) g as two.prems by auto
    ultimately show ?thesis using True e(2) e7 g as unfolding coalesced_def by auto
  next
    case False
    have "\<exists>e. fs_coalesce hdr usable d b = Some (SQLITE_OK, e) \<and> coalesced hdr d b ((c, t) # fs) e"
      using False ch as two.prems by (intro two.IH(2) [of _ _ "b + s"]) auto
    then obtain e where e: "fs_coalesce hdr usable d b = Some (SQLITE_OK, e)" "coalesced hdr d b ((c, t) # fs) e" by blast
    have fr: "e ! i = d ! i" if "i \<noteq> hdr + 7" "i < b + s" for i
      using e(2) that coal_bounds [of "b + s" "(c, t) # fs" usable] as two.prems(3)
      unfolding coalesced_def inside_def by fastforce
    have "u16 e addr = b" using ch(1) as two.prems by (subst u16_cong [of e _ d]) (auto intro!: fr)
    moreover have "u16 e (b + 2) = s" using ch(3) as two.prems by (subst u16_cong [of e _ d]) (auto intro!: fr)
    moreover have "fs_coalesce hdr usable d addr = Some (SQLITE_OK, e)"
      using fs_coalesce_keep [OF ch(1) _ ch(4,3)] False as two.prems e(1) by auto
    ultimately show ?thesis using False e(2) ch(2) unfolding coalesced_def by auto
  qed
next
  case (none d)
  then show ?case using fs_coalesce_end [of d addr hdr usable] by (auto simp: coalesced_def)
next
  case (single v)
  obtain b s where v: "v = (b, s)" by (cases v)
  have "fs_coalesce hdr usable d addr = fs_coalesce hdr usable d b"
    using single by (intro fs_coalesce_keep [where c = 0 and s = s]) (auto simp: v)
  then show ?case using single fs_coalesce_end [of d b hdr usable] by (auto simp: coalesced_def v)
qed

section \<open>Inserting a block\<close>

lemma fs_find_insert:
  assumes "chain d addr fs" "ascending 0 lo fs" "addr + 4 \<le> lo" "addr + 4 \<le> start" "\<forall>q\<in>set fs. apart (start, sz) q" "4 \<le> sz"
    "start + sz \<le> usable" "\<forall>r\<in>set fs. fst r + snd r \<le> usable" "usable \<le> length d" "usable \<le> 65536" "start > 0"
  shows "\<exists>fs1 fs2 a n. fs = fs1 @ fs2 \<and> fs_find d start addr = Some (Some (a, n)) \<and> (a < n \<or> n = 0) \<and> n \<le> usable - 4 \<and>
    (\<forall>r\<in>set fs1. fst r + snd r \<le> start) \<and> (\<forall>r\<in>set fs2. start + sz \<le> fst r) \<and> (a = addr \<or> lo \<le> a \<and> a + 4 \<le> start) \<and>
    a + 2 \<le> length d \<and> (a = addr \<or> (\<exists>r\<in>set fs1. a = fst r)) \<and>
    chain (upd16 (upd16 (upd16 d a start) start n) (start + 2) sz) addr (fs1 @ (start, sz) # fs2)"
  using assms
proof (induction fs arbitrary: addr lo)
  case Nil
  have e: "fs_find d start addr = Some (Some (addr, 0))"
    using Nil by (subst fs_find.simps) (simp add: get16_u16)
  have "chain (upd16 (upd16 (upd16 d addr start) start 0) (start + 2) sz) addr [(start, sz)]"
    using Nil by simp
  then show ?case using e Nil by (intro exI [of _ "[]"] exI [of _ addr] exI [of _ 0]) simp
next
  case (Cons q fs)
  obtain b s where q: "q = (b, s)" by (cases q)
  have ch: "u16 d addr = b" "0 < b" "u16 d (b + 2) = s" "chain d b fs" using Cons.prems(1) by (auto simp: q)
  have as: "lo \<le> b" "4 \<le> s" "ascending 0 (b + s) fs" "b + s \<le> usable" using Cons.prems(2,8) by (auto simp: q)
  have ap: "start + sz \<le> b \<or> b + s \<le> start" using Cons.prems(5) by (simp add: q apart_def)
  show ?case
  proof (cases "b < start")
    case False
    have e: "fs_find d start addr = Some (Some (addr, b))"
      using False Cons.prems ch by (subst fs_find.simps) (simp add: get16_u16)
    let ?e = "upd16 (upd16 (upd16 d addr start) start b) (start + 2) sz"
    have fs2: "\<forall>r\<in>set (q # fs). start + sz \<le> fst r"
      using False ap as ascending_bounds [OF as(3)] Cons.prems(6) by (auto simp: q) fastforce+
    have "chain ?e start (q # fs)"
      using Cons.prems fs2 as ch by (intro chain_move [OF Cons.prems(1)]) (auto simp: q)
    then have "chain ?e addr ((start, sz) # q # fs)"
      using Cons.prems by simp
    then show ?thesis using e fs2 Cons.prems as by (intro exI [of _ "[]"] exI [of _ "q # fs"] exI [of _ addr] exI [of _ b]) (auto simp: q)
  next
    case True
    have "\<exists>fs1 fs2 a n. fs = fs1 @ fs2 \<and> fs_find d start b = Some (Some (a, n)) \<and> (a < n \<or> n = 0) \<and> n \<le> usable - 4 \<and>
      (\<forall>r\<in>set fs1. fst r + snd r \<le> start) \<and> (\<forall>r\<in>set fs2. start + sz \<le> fst r) \<and> (a = b \<or> b + s \<le> a \<and> a + 4 \<le> start) \<and>
      a + 2 \<le> length d \<and> (a = b \<or> (\<exists>r\<in>set fs1. a = fst r)) \<and>
      chain (upd16 (upd16 (upd16 d a start) start n) (start + 2) sz) b (fs1 @ (start, sz) # fs2)"
      using True ch as ap Cons.prems by (intro Cons.IH) (auto simp: q)
    then obtain fs1 fs2 a n where r: "fs = fs1 @ fs2" "fs_find d start b = Some (Some (a, n))" "a < n \<or> n = 0" "n \<le> usable - 4"
      "\<forall>r\<in>set fs1. fst r + snd r \<le> start" "\<forall>r\<in>set fs2. start + sz \<le> fst r" "a = b \<or> b + s \<le> a \<and> a + 4 \<le> start" "a + 2 \<le> length d"
      "a = b \<or> (\<exists>r\<in>set fs1. a = fst r)"
      "chain (upd16 (upd16 (upd16 d a start) start n) (start + 2) sz) b (fs1 @ (start, sz) # fs2)" by blast
    have e: "fs_find d start addr = Some (Some (a, n))"
      using True Cons.prems ch as r(2) by (subst fs_find.simps) (simp add: get16_u16)
    let ?e = "upd16 (upd16 (upd16 d a start) start n) (start + 2) sz"
    have "u16 ?e addr = b" "u16 ?e (b + 2) = s"
      using True ap r(7) as ch Cons.prems by auto
    then have c: "chain ?e addr ((q # fs1) @ (start, sz) # fs2)" using r(10) ch(2) by (simp add: q)
    have h1: "a = addr \<or> lo \<le> a \<and> a + 4 \<le> start" using r(7) as(1,2) ap True by linarith
    have h2: "a = addr \<or> (\<exists>r\<in>set (q # fs1). a = fst r)" using r(9) by (auto simp: q)
    have h3: "\<forall>r\<in>set (q # fs1). fst r + snd r \<le> start" using r(5) ap True by (auto simp: q)
    show ?thesis
      by (rule exI [of _ "q # fs1"], rule exI [of _ fs2], rule exI [of _ a], rule exI [of _ n])
        (use e r(1,3,4,6,8) h1 h2 h3 c in \<open>simp only: append_Cons simp_thms\<close>)
  qed
qed

section \<open>The operation\<close>

lemma layout_same_bytes:
  assumes "layout usable hdr first d rs fs" "length e = length d" "\<forall>i\<in>{hdr + 1, hdr + 2, hdr + 5, hdr + 6, hdr + 7}. e ! i = d ! i"
    "\<forall>r\<in>set fs. \<forall>i. fst r \<le> i \<and> i < fst r + 4 \<longrightarrow> e ! i = d ! i"
  shows "layout usable hdr first e rs fs" "free_bytes hdr first e fs = free_bytes hdr first d fs"
proof -
  have t: "top_of e (hdr + 5) = top_of d (hdr + 5)"
    using assms(3) by (simp add: top_of_def u16_def add.commute)
  have u: "u16 e (hdr + 1) = u16 d (hdr + 1)" using assms(3) by (simp add: u16_def)
  have "chain d (hdr + 1) fs" using assms(1) by (simp add: layout_def)
  then have "chain e (hdr + 1) fs" by (rule chain_move [OF _ u assms(4)])
  moreover have "e ! (hdr + 7) = d ! (hdr + 7)" using assms(3) by simp
  ultimately show "layout usable hdr first e rs fs" "free_bytes hdr first e fs = free_bytes hdr first d fs"
    using assms(1,2) t by (simp_all add: layout_def free_bytes_def)
qed

text \<open>The bytes that the operations on free space leave alone: the cells \<open>rs\<close>, and the header and the cell pointers
  except for the fields that describe the space.\<close>

definition keeps :: "nat \<Rightarrow> nat \<Rightarrow> region list \<Rightarrow> byte list \<Rightarrow> byte list \<Rightarrow> bool" where
  "keeps hdr first rs d e \<longleftrightarrow> length e = length d \<and>
     (\<forall>i. i < first \<and> i \<notin> {hdr + 1, hdr + 2, hdr + 5, hdr + 6, hdr + 7} \<longrightarrow> e ! i = d ! i) \<and>
     (\<forall>r\<in>set rs. \<forall>i. inside r i \<longrightarrow> e ! i = d ! i)"

lemma keeps_chain: "keeps hdr first rs d e \<Longrightarrow> keeps hdr first rs e f \<Longrightarrow> keeps hdr first rs d f"
  by (auto simp: keeps_def)

lemma keeps_same [simp]: "keeps hdr first rs d d"
  by (simp add: keeps_def)

text \<open>The last step of \<open>freeSpace\<close>: a free block at the start of the cell content area joins the gap.\<close>

lemma layout_drop_first:
  assumes "layout usable hdr first d rs ((b, s) # gs)" "b = top_of d (hdr + 5)"
  defines "e \<equiv> upd16 (upd16 d (hdr + 1) (u16 d b)) (hdr + 5) (b + s)"
  shows "layout usable hdr first e rs gs"
proof -
  have l: "hdr + 8 \<le> first" "first \<le> b" "usable \<le> 65536" "usable \<le> length d" "chain d b gs" "4 \<le> s" "ascending 4 (b + s + 4) gs"
    "b + s \<le> usable" "regions b usable rs" "regions b usable gs" "\<forall>x\<in>set rs. \<forall>y\<in>set ((b, s) # gs). apart x y" "\<forall>r\<in>set rs. 4 \<le> snd r"
    "total_size rs + (s + total_size gs) + unat (d ! (hdr + 7)) = usable - b"
    using assms(1) by (auto simp: layout_def assms(2) [symmetric] regions_append regions_Cons)
  have "u16 e (hdr + 5) = (b + s) mod 65536" using l by (simp add: e_def)
  then have t: "top_of e (hdr + 5) = b + s"
    using l by (cases "b + s = 65536") (auto simp: top_of_def)
  have "u16 e (hdr + 1) = u16 d b" using l u16_less [of d b] by (simp add: e_def)
  then have "chain e (hdr + 1) gs"
    by (rule chain_move [OF l(5)]) (use l ascending_bounds [OF l(7)] in \<open>fastforce simp: e_def\<close>)
  moreover have "regions (b + s) usable (rs @ gs)"
  proof -
    have "\<forall>r\<in>set rs. b + s \<le> fst r" using l(9,11,12) by (fastforce simp: regions_def apart_def)
    moreover have "\<forall>r\<in>set gs. b + s \<le> fst r" using ascending_bounds [OF l(7)] by fastforce
    ultimately show ?thesis using l(9,10,11) by (simp add: regions_def sorted_wrt_append ball_Un)
  qed
  moreover have "ascending 4 (b + s) gs" by (rule ascending_mono [OF l(7)]) auto
  moreover have "e ! (hdr + 7) = d ! (hdr + 7)" by (simp add: e_def)
  ultimately show ?thesis using l t by (simp add: layout_def e_def)
qed

lemma ascending_insert:
  "ascending 4 lo (fs1 @ fs2) \<Longrightarrow> \<forall>r\<in>set fs1. fst r + snd r \<le> start \<Longrightarrow> \<forall>r\<in>set fs2. start + sz \<le> fst r \<Longrightarrow> 4 \<le> sz \<Longrightarrow> lo \<le> start \<Longrightarrow>
    ascending 0 lo (fs1 @ (start, sz) # fs2)"
proof (induction fs1 arbitrary: lo)
  case Nil
  then show ?case by (cases fs2) (auto intro: ascending_mono)
next
  case (Cons r fs1)
  obtain b s where r: "r = (b, s)" by (cases r)
  have "ascending 4 (b + s) (fs1 @ fs2)" using Cons.prems(1) by (auto simp: r intro: ascending_mono)
  then have "ascending 0 (b + s) (fs1 @ (start, sz) # fs2)" using Cons.prems by (intro Cons.IH) (auto simp: r)
  then show ?case using Cons.prems(1) by (simp add: r)
qed

text \<open>The block joins the list: the layout without the cell, and the bytes that stay.\<close>

lemma layout_insert:
  assumes l: "layout usable hdr first d (rs1 @ (start, sz) # rs2) fs"
    and e: "length e = length d" "\<forall>i\<in>{hdr + 5, hdr + 6, hdr + 7}. e ! i = d ! i" "chain e (hdr + 1) (fs1 @ (start, sz) # fs2)" "fs = fs1 @ fs2"
      "\<forall>r\<in>set fs1. fst r + snd r \<le> start" "\<forall>r\<in>set fs2. start + sz \<le> fst r"
  shows "\<exists>f. fs_coalesce hdr usable e (hdr + 1) = Some (SQLITE_OK, f) \<and> coalesced hdr e (hdr + 1) (fs1 @ (start, sz) # fs2) f \<and>
    layout usable hdr first f (rs1 @ rs2) (coal (fs1 @ (start, sz) # fs2))"
proof -
  let ?top = "top_of d (hdr + 5)" and ?gs = "fs1 @ (start, sz) # fs2"
  have L: "hdr + 8 \<le> first" "first \<le> ?top" "?top \<le> usable" "usable \<le> 65536" "usable \<le> length d" "ascending 4 ?top (fs1 @ fs2)"
    "regions ?top usable (rs1 @ rs2)" "\<forall>r\<in>set (rs1 @ rs2). 4 \<le> snd r" "4 \<le> sz" "?top \<le> start" "start + sz \<le> usable"
    "total_size (rs1 @ rs2) + total_size ?gs + unat (d ! (hdr + 7)) = usable - ?top"
    "\<forall>r\<in>set (rs1 @ rs2). \<forall>q\<in>set ?gs. apart r q" "\<forall>r\<in>set ?gs. fst r + snd r \<le> usable"
    using l by (simp_all add: layout_def e(4) regions_append regions_Cons apart_sym regions_def sorted_wrt_append ball_Un)
  have asc: "ascending 0 ?top ?gs"
    by (rule ascending_insert) (use L(6,9,10) e(5,6) in auto)
  have cr: "regions ?top usable (rs1 @ rs2 @ coal ?gs)"
  proof -
    have "regions ?top usable (coal ?gs)"
      using coal_ascending [OF asc] coal_bounds [OF asc L(14)] by (intro ascending_regions) auto
    moreover have "apart r q" if "r \<in> set (rs1 @ rs2)" "q \<in> set (coal ?gs)" for r q
      using L(8,13) that by (intro coal_apart [OF asc]) auto
    ultimately show ?thesis using L(7) by (simp add: regions_append ball_Un del: append_assoc add: append_assoc [symmetric])
  qed
  have t: "total_size (coal ?gs) \<le> total_size ?gs + unat (e ! (hdr + 7))"
    using regions_total [OF cr] L(12) e(2) by simp
  obtain f where f: "fs_coalesce hdr usable e (hdr + 1) = Some (SQLITE_OK, f)" "coalesced hdr e (hdr + 1) ?gs f"
    using fs_coalesce_ok [OF e(3) asc L(14), of hdr] t L e(1) by auto
  have fi: "f ! i = e ! i" if "i \<noteq> hdr + 7" "i < ?top" for i
    using f(2) that coal_bounds [OF asc L(14)] unfolding coalesced_def inside_def by fastforce
  have "f ! (hdr + 5) = d ! (hdr + 5)" "f ! (hdr + 6) = d ! (hdr + 6)"
    using e(2) L(1,2) fi [of "hdr + 5"] fi [of "hdr + 6"] by simp_all
  then have "top_of f (hdr + 5) = ?top" by (simp add: top_of_def u16_def add.commute)
  then have "layout usable hdr first f (rs1 @ rs2) (coal ?gs)"
    using f(2) L cr coal_ascending [OF asc] e(1,2) by (simp add: layout_def coalesced_def)
  then show ?thesis using f by blast
qed

lemma nth_memset:
  "i + n \<le> length d \<Longrightarrow> \<not> inside (i, n) j \<Longrightarrow> (take i d @ replicate n 0 @ drop (i + n) d) ! j = d ! j"
  by (auto simp: nth_append inside_def)

lemma memcpy_2: "a + 2 \<le> length d \<Longrightarrow> b + 2 \<le> length d \<Longrightarrow> memcpy_at d a d b 2 = Some (upd16 d a (u16 d b))"
proof -
  assume a: "a + 2 \<le> length d" "b + 2 \<le> length d"
  have "of_nat (u16 d b div 256) = d ! b" "of_nat (u16 d b) = d ! (b + 1)"
    using unat_byte [of "d ! (b + 1)"] unat_byte [of "d ! b"]
    by (rule_tac [!] word_unat_eqI, simp_all only: unat_of_nat u16_def, simp_all)
  moreover have "take 2 (drop b d) = [d ! b, d ! (b + 1)]"
    using a(2) by (simp add: take_Suc_conv_app_nth numeral_2_eq_2)
  moreover have "take a d @ [x, y] @ drop (a + 2) d = d[a := x, a + 1 := y]" for x y
    using a(1) by (intro nth_equalityI) (auto simp: nth_append nth_list_update nth_Cons split: nat.splits intro!: arg_cong [where f = "nth d"])
  ultimately show ?thesis using a by (simp add: memcpy_at_def upd16_def)
qed

lemma incr16: "a + 2 \<le> length d \<Longrightarrow> \<exists>b. IncrementUint16 (drop a d) (of_nat v) = Some b \<and> take a d @ b = upd16 d a (u16 d a + v)"
proof -
  assume a: "a + 2 \<le> length d"
  obtain w where w: "ReadUint16 (drop a d) = Some w" "unat w = u16 d a" using get16_u16 [OF a] by (auto simp: get16_def)
  then have "w + of_nat v = of_nat (u16 d a + v)" by (simp flip: w(2))
  then show ?thesis using put16_upd16 [OF a, of "u16 d a + v"] w(1) by (auto simp: put16_def IncrementUint16_def)
qed

lemma join_inj: "256 * x + y = 256 * x' + (y' :: nat) \<Longrightarrow> y < 256 \<Longrightarrow> y' < 256 \<Longrightarrow> x = x' \<and> y = y'"
  by (metis add.commute div_mult_self2 div_less add_0 mod_mult_self2 mod_less zero_neq_numeral)

lemma coal_nonempty: "fs \<noteq> [] \<Longrightarrow> coal fs \<noteq> []"
  by (induction fs rule: coal.induct) auto

lemma fs_tail_layout:
  assumes l: "layout usable hdr first d rs ((b, s) # gs)"
  shows "\<exists>e gs'. fs_tail hdr d = Some e \<and> layout usable hdr first e rs gs' \<and> keeps hdr first rs d e"
proof -
  have L: "hdr + 8 \<le> first" "first \<le> b" "b + s \<le> usable" "4 \<le> s" "usable \<le> length d" "u16 d (hdr + 1) = b" "u16 d (b + 2) = s" "first \<le> top_of d (hdr + 5)"
    "\<forall>r\<in>set rs. top_of d (hdr + 5) \<le> fst r"
    using l by (auto simp: layout_def regions_append regions_Cons regions_def)
  have u: "unat (d ! (hdr + 1)) = unat (d ! (hdr + 5)) \<and> unat (d ! (hdr + 2)) = unat (d ! (hdr + 6)) \<longleftrightarrow> b = u16 d (hdr + 5)"
    using unat_byte [of "d ! (hdr + 2)"] unat_byte [of "d ! (hdr + 6)"] 
      join_inj [of "unat (d ! (hdr + 1))" "unat (d ! (hdr + 2))" "unat (d ! (hdr + 5))" "unat (d ! (hdr + 6))"]
    unfolding L(6) [symmetric] by (auto simp: u16_def add.commute)
  show ?thesis
  proof (cases "b = u16 d (hdr + 5)")
    case True
    let ?e = "upd16 (upd16 d (hdr + 1) (u16 d b)) (hdr + 5) (b + s)"
    have t: "top_of d (hdr + 5) = b" using True L(1,2) by (simp add: top_of_def)
    obtain x where x: "IncrementUint16 (drop (hdr + 5) (upd16 d (hdr + 1) (u16 d b))) (of_nat s) = Some x"
      "take (hdr + 5) (upd16 d (hdr + 1) (u16 d b)) @ x = ?e"
      using incr16 [of "hdr + 5" "upd16 d (hdr + 1) (u16 d b)" s] True L by auto
    have "fs_tail hdr d = Some ?e"
      using True u L x by (simp add: fs_tail_def get8_nth get16_u16 memcpy_2)
    moreover have "layout usable hdr first ?e rs gs" by (rule layout_drop_first [OF l t [symmetric]])
    moreover have "keeps hdr first rs d ?e" using L t by (auto simp: keeps_def inside_def)
    ultimately show ?thesis by blast
  next
    case False
    then have "fs_tail hdr d = Some d" using u L by (auto simp: fs_tail_def get8_nth)
    then show ?thesis using l by auto
  qed
qed

lemma freeSpace_layout:
  assumes l: "layout usable hdr first (aData p) (rs1 @ (start, sz) # rs2) fs"
    and p: "usable = usableSize bt" "hdr = hdrOffset p" "hdr + 6 + childPtrSize p \<le> first" "nFree p = free_bytes hdr first (aData p) fs"
  shows "\<exists>d gs. freeSpace bt p start sz = Some (SQLITE_OK, p \<lparr>aData := d, nFree := free_bytes hdr first d gs\<rparr>) \<and>
    layout usable hdr first d (rs1 @ rs2) gs \<and> keeps hdr first (rs1 @ rs2) (aData p) d \<and> free_bytes hdr first d gs = nFree p + sz"
proof -
  let ?d = "aData p" and ?top = "top_of (aData p) (hdr + 5)"
  define d0 where "d0 = (if secure_delete bt then take start ?d @ replicate sz 0 @ drop (start + sz) ?d else ?d)"
  have L: "hdr + 8 \<le> first" "first \<le> ?top" "?top \<le> usable" "usable \<le> 65536" "usable \<le> length ?d" "chain ?d (hdr + 1) fs" "ascending 4 ?top fs"
    "4 \<le> sz" "?top \<le> start" "start + sz \<le> usable" "\<forall>q\<in>set fs. apart (start, sz) q" "\<forall>q\<in>set fs. fst q + snd q \<le> usable"
    "\<forall>r\<in>set (rs1 @ rs2). apart (start, sz) r" "\<forall>r\<in>set (rs1 @ rs2). ?top \<le> fst r"
    using l by (simp_all add: layout_def regions_append regions_Cons apart_sym regions_def sorted_wrt_append ball_Un)
  have d0: "(if secure_delete bt then memset_at ?d start sz else Some ?d) = Some d0" "length d0 = length ?d"
    using L by (auto simp: d0_def memset_at_def)
  have d0i: "d0 ! i = ?d ! i" if "\<not> inside (start, sz) i" for i
    using that L nth_memset [of start sz ?d i] by (simp add: d0_def)
  have c0: "chain d0 (hdr + 1) fs"
    by (rule chain_move [OF L(6)]) (use L in \<open>fastforce intro!: u16_cong d0i dest: ascending_bounds simp: inside_def apart_def\<close>)+
  have asc0: "ascending 0 ?top fs" by (rule ascending_mono [OF L(7)]) auto
  have s0: "hdr + 1 + 4 \<le> ?top" "hdr + 1 + 4 \<le> start" "usable \<le> length d0" "0 < start" using L d0(2) by auto
  obtain fs1 fs2 a n where F: "fs = fs1 @ fs2" "fs_find d0 start (hdr + 1) = Some (Some (a, n))" "a < n \<or> n = 0" "n \<le> usable - 4"
    "\<forall>r\<in>set fs1. fst r + snd r \<le> start" "\<forall>r\<in>set fs2. start + sz \<le> fst r" "a = hdr + 1 \<or> ?top \<le> a \<and> a + 4 \<le> start"
    "a + 2 \<le> length d0" "a = hdr + 1 \<or> (\<exists>r\<in>set fs1. a = fst r)"
    "chain (upd16 (upd16 (upd16 d0 a start) start n) (start + 2) sz) (hdr + 1) (fs1 @ (start, sz) # fs2)"
    using fs_find_insert [OF c0 asc0 s0(1,2) L(11,8,10,12) s0(3) L(4) s0(4)] by blast
  define e where "e = upd16 (upd16 (upd16 d0 a start) start n) (start + 2) sz"
  have el: "length e = length ?d" using d0(2) by (simp add: e_def)
  have ei: "e ! i = ?d ! i" if "i < first" "i \<noteq> hdr + 1" "i \<noteq> hdr + 2" for i
    using that L(1,2,9) F(7) d0i [of i] by (auto simp: inside_def e_def)
  have e57: "\<forall>i\<in>{hdr + 5, hdr + 6, hdr + 7}. e ! i = ?d ! i" using L(1) by (auto intro!: ei)
  obtain f where f: "fs_coalesce hdr usable e (hdr + 1) = Some (SQLITE_OK, f)" "coalesced hdr e (hdr + 1) (fs1 @ (start, sz) # fs2) f"
    "layout usable hdr first f (rs1 @ rs2) (coal (fs1 @ (start, sz) # fs2))"
    using layout_insert [OF l el e57 F(10) [folded e_def] F(1,5,6)] by auto
  have "coal (fs1 @ (start, sz) # fs2) \<noteq> []"
    using coal_nonempty by blast
  then obtain b s gs where g: "coal (fs1 @ (start, sz) # fs2) = (b, s) # gs" by (metis list.exhaust surj_pair)
  obtain h gs' where h: "fs_tail hdr f = Some h" "layout usable hdr first h (rs1 @ rs2) gs'" "keeps hdr first (rs1 @ rs2) f h"
    using fs_tail_layout [OF f(3) [unfolded g]] by blast
  have "keeps hdr first (rs1 @ rs2) ?d f"
  proof -
    have "f ! i = ?d ! i" if "i < first" "i \<notin> {hdr + 1, hdr + 2, hdr + 5, hdr + 6, hdr + 7}" for i
    proof -
      have "\<forall>r\<in>set (coal (fs1 @ (start, sz) # fs2)). first \<le> fst r"
        using f(3) ascending_bounds [of 4 "top_of f (hdr + 5)"] by (fastforce simp: layout_def)
      then have "\<forall>r\<in>set (coal (fs1 @ (start, sz) # fs2)). \<not> inside r i" using that by (fastforce simp: inside_def)
      then have "f ! i = e ! i" using f(2) that unfolding coalesced_def by blast
      then show ?thesis using ei that by simp
    qed
    moreover have "f ! i = ?d ! i" if r: "r \<in> set (rs1 @ rs2)" "inside r i" for r i
    proof -
      have ap: "apart r q" if "q \<in> set (coal (fs1 @ (start, sz) # fs2))" for q
        using f(3) r(1) that by (auto simp: layout_def regions_append)
      have top: "?top \<le> i" using L(14) r by (fastforce simp: inside_def)
      have "\<forall>r\<in>set (coal (fs1 @ (start, sz) # fs2)). \<not> inside r i" using ap r(2) by (fastforce simp: inside_def apart_def)
      moreover have "i \<noteq> hdr + 7" using top L(1,2) by linarith
      ultimately have "f ! i = e ! i" using f(2) unfolding coalesced_def by blast
      also have "\<dots> = d0 ! i"
      proof -
        have "4 \<le> snd q \<and> apart r q" if "q \<in> set fs1" for q
          using l r(1) that ascending_bounds [OF L(7), of q] by (auto simp: layout_def regions_append regions_Cons F(1) apart_sym)
        then have "i \<noteq> a \<and> i \<noteq> a + 1" using F(9) top L(1,2) r(2) by (fastforce simp: inside_def apart_def)
        moreover have "i < start \<or> start + 4 \<le> i" using L(8,13) r by (fastforce simp: inside_def apart_def)
        ultimately show ?thesis by (auto simp: e_def)
      qed
      also have "\<dots> = ?d ! i" using L(13) r by (intro d0i) (fastforce simp: inside_def apart_def)
      finally show ?thesis .
    qed
    ultimately show ?thesis using f(2) el by (simp add: keeps_def coalesced_def)
  qed
  then have k: "keeps hdr first (rs1 @ rs2) ?d h" using h(3) keeps_chain by blast
  have fb: "free_bytes hdr first h gs' = nFree p + sz" "nFree p + sz < 65536"
    using free_bytes_cells [OF h(2)] free_bytes_cells [OF l] L(1,4) p(4) by auto
  have "freeSpace bt p start sz = Some (SQLITE_OK, p \<lparr>aData := h, nFree := nFree p + sz\<rparr>)"
    using L(8,9,10) s0 p(1,2,3) L(1,2) d0 F(2,3,4,8) f(1) h(1) fb(2)
    by (simp add: freeSpace_def put16_upd16 e_def)
  then show ?thesis using h(2) k fb by (intro exI [of _ h] exI [of _ gs']) simp
qed

end
