(* ===== verification/BtCells.thy ===== *)
theory BtCells
  imports BtFree
begin

text \<open>
  The cells of a page: the size of a cell depends only on the bytes of the cell, the invariant of a page
  with its cells, and \<open>Defragment\<close>.
\<close>

section \<open>The size of a cell depends on its own bytes\<close>

lemma varint_decode_local:
  "varint_decode n v p = Some (x, r) \<Longrightarrow> n \<le> 8 \<Longrightarrow>
    \<exists>q. p = q @ r \<and> n + length q \<le> 9 \<and> (\<forall>r'. varint_decode n v (q @ r') = Some (x, r'))"
proof (induction n v p rule: varint_decode.induct)
  case (2 n v b bs)
  show ?case
  proof (cases "n \<noteq> 8 \<and> bit b 7")
    case True
    then have "\<exists>q. bs = q @ r \<and> n + 1 + length q \<le> 9 \<and>
      (\<forall>r'. varint_decode (n + 1) (push_bit 7 v OR ucast (b AND 0x7f)) (q @ r') = Some (x, r'))"
      using 2 by (intro "2.IH") auto
    then obtain q where "bs = q @ r" "n + 1 + length q \<le> 9"
      "\<forall>r'. varint_decode (n + 1) (push_bit 7 v OR ucast (b AND 0x7f)) (q @ r') = Some (x, r')" by blast
    then show ?thesis using True by (intro exI [of _ "b # q"]) simp
  next
    case False
    then show ?thesis using "2.prems" by (intro exI [of _ "[b]"]) (auto split: if_splits)
  qed
qed simp

lemma ReadVarint32_local:
  assumes "ReadVarint32 p = Some (x, r)"
  shows "\<exists>q. p = q @ r \<and> length q \<le> 9 \<and> (\<forall>r'. ReadVarint32 (q @ r') = Some (x, r'))"
proof -
  obtain c p1 where p: "p = c # p1" using assms by (cases p) (auto simp: ReadVarint32_def)
  show ?thesis
  proof (cases "bit c 7")
    case False
    then show ?thesis using assms by (intro exI [of _ "[c]"]) (simp add: p ReadVarint32_split)
  next
    case c: True
    then obtain d p2 where p1: "p1 = d # p2" using assms by (cases p1) (auto simp: p ReadVarint32_def less_80)
    show ?thesis
    proof (cases "bit d 7")
      case False
      then show ?thesis using assms c by (intro exI [of _ "[c, d]"]) (simp add: p p1 ReadVarint32_split)
    next
      case d: True
      then obtain b p3 where p2: "p2 = b # p3" using assms c by (cases p2) (auto simp: p p1 ReadVarint32_def less_80 and_80)
      show ?thesis
      proof (cases "bit b 7")
        case False
        then show ?thesis using assms c d by (intro exI [of _ "[c, d, b]"]) (simp add: p p1 p2 ReadVarint32_split)
      next
        case b: True
        obtain y where y: "varint_decode 0 0 p = Some (y, r)" "x = (if unat y < 2 ^ 32 then ucast y else 0xffffffff)"
          using assms c d b by (auto simp: p p1 p2 ReadVarint32_split ReadVarint64_decode split: option.splits prod.splits)
        obtain q where q: "p = q @ r" "length q \<le> 9" "\<forall>r'. varint_decode 0 0 (q @ r') = Some (y, r')"
          using varint_decode_local [OF y(1)] by auto
        have "\<exists>q'. q = c # d # b # q'"
        proof -
          have "varint_decode 0 0 q \<noteq> None" using q(3) [rule_format, of "[]"] by simp
          then show ?thesis using q(1) c d b
            by (cases q; cases "tl q"; cases "tl (tl q)") (auto simp: p p1 p2)
        qed
        then obtain q' where q': "q = c # d # b # q'" by blast
        have "ReadVarint32 (q @ r') = Some (x, r')" for r'
          using q(3) c d b y(2) by (simp add: q' ReadVarint32_split ReadVarint64_decode)
        then show ?thesis using q by blast
      qed
    qed
  qed
qed

definition limits_ok :: "bt_shared \<Rightarrow> memory_page \<Rightarrow> bool" where
  "limits_ok bt p \<longleftrightarrow> minLocal p \<le> maxLocal p \<and> maxLocal p + 35 \<le> 65536 \<and> childPtrSize p \<le> 4 \<and> 4 < usableSize bt \<and> usableSize bt \<le> 65536"

text \<open>The size of the part of a cell behind the header, with the overflow page number.\<close>

definition local_size :: "bt_shared \<Rightarrow> memory_page \<Rightarrow> uint32 \<Rightarrow> uint32" where
  "local_size bt p nSize = (if nSize > of_nat (maxLocal p) then
     (let n = of_nat (minLocal p) + (nSize - of_nat (minLocal p)) mod of_nat (usableSize bt - 4);
          n = (if n > of_nat (maxLocal p) then of_nat (minLocal p) else n) in n + 4)
   else nSize)"

lemma local_size_bound:
  assumes "limits_ok bt p"
  shows "unat (local_size bt p n) \<le> maxLocal p + 4"
proof -
  have m: "unat (of_nat (maxLocal p) :: uint32) = maxLocal p" "unat (of_nat (minLocal p) :: uint32) = minLocal p"
    using assms by (auto simp: limits_ok_def unat_of_nat)
  have le: "unat w \<le> maxLocal p" if "\<not> w > (of_nat (maxLocal p) :: uint32)" for w :: uint32
    using that m(1) by (simp add: word_less_nat_alt)
  have "unat (w + 4) \<le> maxLocal p + 4" if "unat w \<le> maxLocal p" for w :: uint32
    using that by (simp add: unat_word_ariths)
  then show ?thesis using le [THEN trans_le_add1] le m assms by (auto simp: local_size_def Let_def limits_ok_def)
qed

text \<open>The reader of the payload size, and the size of a cell from it.\<close>

definition read_size :: "memory_page \<Rightarrow> byte list \<Rightarrow> (uint32 \<times> byte list) option" where
  "read_size p b = (if IsIntegerKey p then if HasData p \<noteq> 0 then ReadVarint32 b else Some (0, b) else ReadVarint32 b)"

lemma read_size_local:
  "read_size p b = Some (n, r) \<Longrightarrow> \<exists>q. b = q @ r \<and> length q \<le> 9 \<and> (\<forall>r'. read_size p (q @ r') = Some (n, r'))"
  using ReadVarint32_local [of b n r] by (auto simp: read_size_def split: if_splits)

lemma cellSize_eq:
  "cellSize bt p c = (if childPtrSize p \<le> length c then
     (case read_size p (drop (childPtrSize p) c) of None \<Rightarrow> None
      | Some (n, r) \<Rightarrow> let m = local_size bt p n + of_nat (length c - length r) in Some (unat (if m < 4 then 4 else m) mod 65536))
   else None)"
  by (auto simp: cellSize_def local_size_def read_size_def Let_def split: option.splits prod.splits)

lemma cellSize_read:
  assumes "limits_ok bt p" "childPtrSize p \<le> length c" "read_size p (drop (childPtrSize p) c) = Some (n, r)"
    "length c - length r = j" "j \<le> 13"
  shows "cellSize bt p c = Some (max 4 (unat (local_size bt p n) + j))"
proof -
  define m where "m = local_size bt p n + of_nat j"
  have "unat m = unat (local_size bt p n) + j"
    using local_size_bound [OF assms(1), of n] assms(1,5) by (simp add: m_def unat_word_ariths unat_of_nat limits_ok_def)
  moreover have "unat m mod 65536 = unat m" 
    using calculation local_size_bound [OF assms(1), of n] assms(1,5) by (simp add: limits_ok_def)
  ultimately show ?thesis
    using assms(2,3,4) by (auto simp: cellSize_eq m_def [symmetric] Let_def word_less_nat_alt)
qed

lemma cellSize_local:
  assumes c: "cellSize bt p c = Some s" "limits_ok bt p" and c': "take s c' = take s c" "s \<le> length c'"
  shows "cellSize bt p c' = Some s"
proof -
  let ?k = "childPtrSize p"
  have k: "?k \<le> length c" using c(1) by (auto simp: cellSize_eq split: if_splits)
  obtain n r where r: "read_size p (drop ?k c) = Some (n, r)"
    using c(1) k by (auto simp: cellSize_eq split: option.splits)
  obtain q where q: "drop ?k c = q @ r" "length q \<le> 9" "\<forall>r'. read_size p (q @ r') = Some (n, r')"
    using read_size_local [OF r] by blast
  have "length c - ?k = length q + length r" using arg_cong [OF q(1), of length] by simp
  then have j: "length c - length r = ?k + length q" "?k + length q \<le> 13"
    using k q(2) c(2) by (auto simp: limits_ok_def)
  have s: "s = max 4 (unat (local_size bt p n) + (?k + length q))"
    using cellSize_read [OF c(2) k r j] c(1) by simp
  have ks: "?k + length q \<le> s" using s by simp
  have "take (?k + length q) c' = take (?k + length q) (take s c')" using ks by (simp add: min_def)
  also have "\<dots> = take (?k + length q) c" using ks by (simp add: c'(1) min_def)
  also have "\<dots> = take ?k c @ q" using q(1) by (simp add: take_add)
  finally have "drop ?k (take (?k + length q) c') = q" using k by simp
  then have "drop ?k c' = q @ drop (?k + length q) c'"
    by (metis add.commute append_take_drop_id drop_drop drop_take add_diff_cancel_left')
  then have "cellSize bt p c' = Some (max 4 (unat (local_size bt p n) + (?k + length q)))"
    using q(3) s c'(2) j(2) by (intro cellSize_read [OF c(2), where r = "drop (?k + length q) c'"]) auto
  then show ?thesis using s by simp
qed

section \<open>The invariant of a page\<close>

text \<open>
  \<open>page_ok bt p cs fs\<close>: the decoded page agrees with its bytes, the cell pointers name the regions \<open>cs\<close> in order, each
  of the size that \<open>cellSize\<close> finds, and \<open>fs\<close> are the free blocks.
\<close>

definition page_ok :: "bt_shared \<Rightarrow> memory_page \<Rightarrow> region list \<Rightarrow> region list \<Rightarrow> bool" where
  "page_ok bt p cs fs \<longleftrightarrow>
     layout (usableSize bt) (hdrOffset p) (cellOffset p + 2 * nCell p) (aData p) cs fs \<and> limits_ok bt p \<and>
     cellOffset p = hdrOffset p + (if IsLeaf p \<noteq> 0 then 8 else 12) \<and> childPtrSize p = (if IsLeaf p \<noteq> 0 then 0 else 4) \<and>
     nOverflow p = 0 \<and> length cs = nCell p \<and> u16 (aData p) (hdrOffset p + 3) = nCell p \<and>
     nFree p = free_bytes (hdrOffset p) (cellOffset p + 2 * nCell p) (aData p) fs \<and>
     (\<forall>i<nCell p. u16 (aData p) (cellOffset p + 2 * i) = fst (cs ! i) \<and>
        cellSize bt p (drop (fst (cs ! i)) (aData p)) = Some (snd (cs ! i)))"

definition contents :: "byte list \<Rightarrow> region list \<Rightarrow> byte list list" where
  "contents d cs = map (\<lambda>r. take (snd r) (drop (fst r) d)) cs"

lemma take_drop_cong:
  assumes "length e = length d" "\<forall>i. inside (a, s) i \<longrightarrow> e ! i = d ! i"
  shows "take s (drop a e) = take s (drop a d)"
  by (rule nth_equalityI) (use assms in \<open>auto simp: inside_def\<close>)

lemma keeps_contents: "keeps hdr first cs d e \<Longrightarrow> contents e cs = contents d cs"
  unfolding contents_def keeps_def by (intro map_cong take_drop_cong) auto

lemma cellSize_cong [simp]: "cellSize bt (p \<lparr>aData := d\<rparr>) c = cellSize bt p c" "cellSize bt (p \<lparr>nFree := n\<rparr>) c = cellSize bt p c"
  "cellSize bt (p \<lparr>nCell := m\<rparr>) c = cellSize bt p c"
  by (simp_all add: cellSize_def Let_def cong: if_cong)

lemma limits_ok_cong [simp]: "limits_ok bt (p \<lparr>aData := d\<rparr>) = limits_ok bt p" "limits_ok bt (p \<lparr>nFree := n\<rparr>) = limits_ok bt p"
  "limits_ok bt (p \<lparr>nCell := m\<rparr>) = limits_ok bt p"
  by (simp_all add: limits_ok_def)

section \<open>Defragmentation\<close>

text \<open>Cells packed below \<open>brk\<close>, the first one highest.\<close>

fun packed :: "nat \<Rightarrow> nat list \<Rightarrow> region list" where
  "packed brk [] = []"
| "packed brk (s # ss) = (brk - s, s) # packed (brk - s) ss"

lemma length_packed [simp]: "length (packed brk ss) = length ss"
  by (induction ss arbitrary: brk) auto

lemma snd_packed [simp]: "map snd (packed brk ss) = ss"
  by (induction ss arbitrary: brk) auto

lemma snd_packed_nth: "j < length ss \<Longrightarrow> snd (packed brk ss ! j) = ss ! j"
  by (metis length_packed nth_map snd_packed)

lemma packed_regions: "sum_list ss \<le> brk \<Longrightarrow> regions (brk - sum_list ss) brk (packed brk ss)"
proof (induction ss arbitrary: brk)
  case (Cons s ss)
  have r: "regions (brk - s - sum_list ss) (brk - s) (packed (brk - s) ss)" using Cons.prems by (intro Cons.IH) simp
  then have "\<forall>y\<in>set (packed (brk - s) ss). apart (brk - s, s) y" by (auto simp: regions_def apart_def)
  moreover have "regions (brk - s - sum_list ss) brk (packed (brk - s) ss)" using r by (fastforce simp: regions_def)
  ultimately show ?case using Cons.prems by (simp add: regions_Cons)
qed simp

lemma nth_memcpy:
  assumes "memcpy_at d i s j n = Some e"
  shows "length e = length d" "k < i \<or> i + n \<le> k \<Longrightarrow> e ! k = d ! k" "take n (drop i e) = take n (drop j s)"
proof -
  define x where "x = take n (drop j s)"
  have l: "i + n \<le> length d" "length x = n" and e: "e = take i d @ x @ drop (i + n) d"
    using assms by (auto simp: memcpy_at_def x_def split: if_splits)
  show "length e = length d" "k < i \<or> i + n \<le> k \<Longrightarrow> e ! k = d ! k" using l by (auto simp: e nth_append)
  show "take n (drop i e) = take n (drop j s)" using l by (simp add: e flip: x_def)
qed

text \<open>The outcome of the loop of \<open>Defragment\<close> on the cells \<open>cs\<close>, whose pointers start at \<open>a\<close>.\<close>

definition moved :: "byte list \<Rightarrow> byte list \<Rightarrow> nat \<Rightarrow> nat \<Rightarrow> region list \<Rightarrow> byte list \<Rightarrow> bool" where
  "moved temp d a brk cs e \<longleftrightarrow> length e = length d \<and>
     (\<forall>j<length cs. u16 e (a + 2 * j) = fst (packed brk (map snd cs) ! j)) \<and>
     contents e (packed brk (map snd cs)) = contents temp cs \<and>
     (\<forall>k. (k < a \<or> a + 2 * length cs \<le> k) \<and> (k < brk - total_size cs \<or> brk \<le> k) \<longrightarrow> e ! k = d ! k)"

lemma defrag_loop_ok:
  assumes "\<forall>j<length cs. u16 d (cellOffset p + i * 2 + 2 * j) = fst (cs ! j) \<and> cellSize bt p (drop (fst (cs ! j)) temp) = Some (snd (cs ! j))"
    "\<forall>r\<in>set cs. first \<le> fst r \<and> 4 \<le> snd r \<and> fst r + snd r \<le> usableSize bt" "usableSize bt \<le> length temp" "first + total_size cs \<le> brk" "brk \<le> 65536" "brk \<le> length d"
    "cellOffset p + i * 2 + 2 * length cs \<le> first"
  shows "\<exists>e. defrag_loop bt p temp first i (length cs) d brk = Some (SQLITE_OK, e, brk - total_size cs) \<and> moved temp d (cellOffset p + i * 2) brk cs e"
  using assms
proof (induction cs arbitrary: i d brk)
  case Nil
  then show ?case by (simp add: moved_def contents_def)
next
  case (Cons r cs)
  obtain pc s where r: "r = (pc, s)" by (cases r)
  let ?a = "cellOffset p + i * 2"
  have c0: "u16 d ?a = pc" "cellSize bt p (drop pc temp) = Some s" using Cons.prems(1) by (auto simp: r)
  have b: "first \<le> pc" "4 \<le> s" "pc + s \<le> usableSize bt" "first + s + total_size cs \<le> brk" using Cons.prems(2,4) by (auto simp: r)
  obtain d1 where d1: "memcpy_at d (brk - s) temp pc s = Some d1"
    using Cons.prems b by (auto simp: memcpy_at_def)
  let ?d2 = "upd16 d1 ?a (brk - s)"
  have d2: "?d2 ! k = d ! k" if "k < ?a \<or> ?a + 2 \<le> k" "k < brk - s \<or> brk \<le> k" for k
    using that nth_memcpy(2) [OF d1] b by auto
  have "\<exists>e. defrag_loop bt p temp first (i + 1) (length cs) ?d2 (brk - s) = Some (SQLITE_OK, e, brk - s - total_size cs) \<and>
      moved temp ?d2 (cellOffset p + (i + 1) * 2) (brk - s) cs e"
  proof (rule Cons.IH)
    show "\<forall>j<length cs. u16 ?d2 (cellOffset p + (i + 1) * 2 + 2 * j) = fst (cs ! j) \<and> cellSize bt p (drop (fst (cs ! j)) temp) = Some (snd (cs ! j))"
    proof (intro allI impI)
      fix j assume j: "j < length cs"
      have "u16 ?d2 (?a + 2 * Suc j) = u16 d (?a + 2 * Suc j)"
        using j Cons.prems(7) b by (intro u16_cong d2) auto
      then show "u16 ?d2 (cellOffset p + (i + 1) * 2 + 2 * j) = fst (cs ! j) \<and> cellSize bt p (drop (fst (cs ! j)) temp) = Some (snd (cs ! j))"
        using Cons.prems(1) [rule_format, of "Suc j"] j by (simp add: algebra_simps)
    qed
  qed (use Cons.prems b nth_memcpy(1) [OF d1] in auto)
  then obtain e where e: "defrag_loop bt p temp first (i + 1) (length cs) ?d2 (brk - s) = Some (SQLITE_OK, e, brk - s - total_size cs)"
      "moved temp ?d2 (cellOffset p + (i + 1) * 2) (brk - s) cs e" by blast
  have "defrag_loop bt p temp first i (length (r # cs)) d brk = Some (SQLITE_OK, e, brk - total_size (r # cs))"
    using c0 b d1 e(1) Cons.prems nth_memcpy(1) [OF d1] by (simp add: r get16_u16 put16_upd16)
  moreover have "moved temp d ?a brk (r # cs) e"
  proof -
    have fr: "e ! k = ?d2 ! k" if "k < ?a + 2 \<or> ?a + 2 + 2 * length cs \<le> k" "k < brk - s - total_size cs \<or> brk - s \<le> k" for k
      using e(2) that unfolding moved_def by (auto simp: algebra_simps)
    have len: "length e = length d" using e(2) nth_memcpy(1) [OF d1] by (simp add: moved_def)
    have "u16 e ?a = u16 ?d2 ?a" using b Cons.prems(7) by (intro u16_cong fr) auto
    then have p0: "u16 e ?a = brk - s" using b Cons.prems nth_memcpy(1) [OF d1] by simp
    have "u16 e (?a + 2 * j) = fst (packed brk (map snd (r # cs)) ! j)" if "j < length (r # cs)" for j
      using that p0 e(2) unfolding moved_def by (cases j) (auto simp: r algebra_simps)
    moreover have "take s (drop (brk - s) e) = take s (drop pc temp)"
    proof -
      have "take s (drop (brk - s) e) = take s (drop (brk - s) d1)"
      proof (rule take_drop_cong)
        show "\<forall>k. inside (brk - s, s) k \<longrightarrow> e ! k = d1 ! k"
        proof (intro allI impI)
          fix k assume "inside (brk - s, s) k"
          then have k: "brk - s \<le> k" "?a + 2 + 2 * length cs \<le> k" using b Cons.prems(7) by (auto simp: inside_def)
          then show "e ! k = d1 ! k" by (subst fr) auto
        qed
      qed (use len nth_memcpy(1) [OF d1] in simp)
      then show ?thesis using nth_memcpy(3) [OF d1] by simp
    qed
    moreover have "contents e (packed (brk - s) (map snd cs)) = contents temp cs" using e(2) by (simp add: moved_def)
    moreover have "e ! k = d ! k" if "k < ?a \<or> ?a + 2 * length (r # cs) \<le> k" "k < brk - total_size (r # cs) \<or> brk \<le> k" for k
    proof -
      have "e ! k = ?d2 ! k" using that by (intro fr) (auto simp: r)
      also have "\<dots> = d ! k" using that by (intro d2) (auto simp: r)
      finally show ?thesis .
    qed
    ultimately show ?thesis using len by (simp add: moved_def contents_def r)
  qed
  ultimately show ?case by blast
qed

lemma slice_slice: "a \<le> b \<Longrightarrow> b + s \<le> u \<Longrightarrow> take s (drop b x) = take s (drop (b - a) (take (u - a) (drop a x)))"
  by (simp add: drop_take min_def)

lemma contents_nth: "i < length cs \<Longrightarrow> contents d cs ! i = take (snd (cs ! i)) (drop (fst (cs ! i)) d)"
  by (simp add: contents_def)

lemma cellSize_moved:
  assumes "cellSize bt p (drop a d) = Some s" "limits_ok bt p" "take s (drop b e) = take s (drop a d)" "b + s \<le> length e"
  shows "cellSize bt p (drop b e) = Some s"
  using cellSize_local [OF assms(1,2)] assms(3,4) by simp

lemma page_cells:
  assumes "page_ok bt p cs fs" "r \<in> set cs"
  shows "cellOffset p + 2 * nCell p \<le> fst r" "4 \<le> snd r" "fst r + snd r \<le> usableSize bt" "top_of (aData p) (hdrOffset p + 5) \<le> fst r"
    "top_of (aData p) (hdrOffset p + 5) = u16 (aData p) (hdrOffset p + 5)"
proof -
  have l: "cellOffset p + 2 * nCell p \<le> top_of (aData p) (hdrOffset p + 5)" "usableSize bt \<le> 65536" "4 \<le> snd r" "fst r + snd r \<le> usableSize bt" "top_of (aData p) (hdrOffset p + 5) \<le> fst r"
    using assms by (auto simp: page_ok_def layout_def regions_def)
  then show "cellOffset p + 2 * nCell p \<le> fst r" "4 \<le> snd r" "fst r + snd r \<le> usableSize bt" "top_of (aData p) (hdrOffset p + 5) \<le> fst r"
    "top_of (aData p) (hdrOffset p + 5) = u16 (aData p) (hdrOffset p + 5)"
    by (auto simp: top_of_def split: if_splits)
qed

lemma page_ok_update:
  assumes "page_ok bt p cs fs" "layout (usableSize bt) (hdrOffset p) (cellOffset p + 2 * n) d cs' fs'" "length cs' = n" "u16 d (hdrOffset p + 3) = n"
    "m = free_bytes (hdrOffset p) (cellOffset p + 2 * n) d fs'"
    "\<forall>i<n. u16 d (cellOffset p + 2 * i) = fst (cs' ! i) \<and> cellSize bt p (drop (fst (cs' ! i)) d) = Some (snd (cs' ! i))"
  shows "page_ok bt (p \<lparr>aData := d, nFree := m, nCell := n\<rparr>) cs' fs'"
  using assms unfolding page_ok_def by simp

lemma top_of_mod: "u16 d a = v mod 65536 \<Longrightarrow> 0 < v \<Longrightarrow> v \<le> 65536 \<Longrightarrow> top_of d a = v"
  by (cases "v = 65536") (auto simp: top_of_def)

lemma Defragment_ok:
  assumes ok: "page_ok bt p cs fs" and temp: "usableSize bt \<le> length temp"
  defines "cs' \<equiv> packed (usableSize bt) (map snd cs)"
  shows "\<exists>d. Defragment bt temp p = Some (SQLITE_OK, p \<lparr>aData := d\<rparr>) \<and> page_ok bt (p \<lparr>aData := d\<rparr>) cs' [] \<and>
    contents d cs' = contents (aData p) cs \<and> top_of d (hdrOffset p + 5) = cellOffset p + 2 * nCell p + nFree p"
proof -
  define data hdr usable first where v: "data = aData p" "hdr = hdrOffset p" "usable = usableSize bt" "first = cellOffset p + 2 * nCell p"
  define brk where "brk = usable - total_size cs"
  have P: "layout usable hdr first data cs fs" "limits_ok bt p" "hdr + 8 \<le> cellOffset p" "length cs = nCell p" "u16 data (hdr + 3) = nCell p"
    "nFree p = free_bytes hdr first data fs" "nOverflow p = 0" "usable \<le> 65536" "usable \<le> length data" "first \<le> top_of data (hdr + 5)" "top_of data (hdr + 5) \<le> usable"
    "\<forall>r\<in>set cs. 4 \<le> snd r"
    using ok by (auto simp: page_ok_def v layout_def)
  have br: "first + total_size cs + nFree p = usable" "first + nFree p = brk"
    using free_bytes_cells [OF P(1)] P(6) by (auto simp: brk_def)
  define area where "area = u16 data (hdr + 5)"
  have ar: "area \<le> top_of data (hdr + 5)" by (simp add: area_def top_of_def)
  obtain t where t: "memcpy_at temp area data area (usable - area) = Some t"
    using ar P(9,11) temp by (auto simp: memcpy_at_def v)
  have ts: "take (snd r) (drop (fst r) t) = take (snd r) (drop (fst r) data)" if "r \<in> set cs" for r
  proof -
    have "area \<le> fst r" "fst r + snd r \<le> usable" using page_cells [OF ok that] ar by (auto simp: v)
    then show ?thesis using nth_memcpy(3) [OF t] slice_slice [of area "fst r" "snd r" usable] by metis
  qed
  have tl: "usable \<le> length t" using nth_memcpy(1) [OF t] temp by (simp add: v)
  have szt: "u16 data (cellOffset p + 2 * j) = fst (cs ! j) \<and> cellSize bt p (drop (fst (cs ! j)) t) = Some (snd (cs ! j))" if "j < length cs" for j
  proof -
    have "cellSize bt p (drop (fst (cs ! j)) data) = Some (snd (cs ! j))" "u16 data (cellOffset p + 2 * j) = fst (cs ! j)"
      using ok that by (auto simp: page_ok_def v)
    moreover have "cs ! j \<in> set cs" using that by simp
    moreover have "fst (cs ! j) + snd (cs ! j) \<le> length t" using page_cells(3) [OF ok, of "cs ! j"] that tl by (simp add: v(3))
    ultimately show ?thesis by (simp add: cellSize_moved [OF _ P(2) ts])
  qed
  have "\<exists>e. defrag_loop bt p t first 0 (length cs) data usable = Some (SQLITE_OK, e, usable - total_size cs) \<and> moved t data (cellOffset p + 0 * 2) usable cs e"
    using szt page_cells [OF ok] br P tl by (intro defrag_loop_ok) (auto simp: v)
  then obtain e where e: "defrag_loop bt p t first 0 (nCell p) data usable = Some (SQLITE_OK, e, brk)" "moved t data (cellOffset p) usable cs e"
    by (auto simp: brk_def P(4))
  have el: "length e = length data" using e(2) by (simp add: moved_def)
  define f where "f = (upd16 e (hdr + 5) brk)[hdr + 1 := 0, hdr + 2 := 0, hdr + 7 := 0]"
  define g where "g = take first f @ replicate (brk - first) 0 @ drop brk f"
  have B: "hdr + 8 \<le> first" "first \<le> length data" "brk \<le> length data" "area \<le> usable" "first \<le> brk" "brk - first = nFree p"
    using P(3,8,9,10,11) ar br by (auto simp: v(4))
  have "Defragment bt temp p = Some (SQLITE_OK, p \<lparr>aData := g\<rparr>)"
    using B P(4,5,7,8) el br t e(1) by (simp add: Defragment_def v [symmetric] get16_u16 put16_upd16 put8_upd memset_at_def area_def [symmetric] f_def g_def)
  moreover have "page_ok bt (p \<lparr>aData := g\<rparr>) cs' []" "contents g cs' = contents data cs" "top_of g (hdr + 5) = brk"
  proof -
    have fl: "length f = length data" by (simp add: f_def el)
    have gl: "length g = length data" using B by (simp add: g_def fl)
    have gf: "g ! k = f ! k" if "k < first \<or> brk \<le> k" for k
      using that B(1,2,3,5) fl by (auto simp: g_def nth_append)
    have ge: "g ! k = e ! k" if "k < first \<or> brk \<le> k" "k \<notin> {hdr + 1, hdr + 2, hdr + 5, hdr + 6, hdr + 7}" for k
      using that gf [OF that(1)] by (auto simp: f_def)
    have "u16 g (hdr + 5) = u16 f (hdr + 5)" "u16 g (hdr + 1) = u16 f (hdr + 1)" "g ! (hdr + 7) = f ! (hdr + 7)"
      using B(1) by (auto intro!: u16_cong gf)
    moreover have "u16 f (hdr + 5) = brk mod 65536" using B(1,2) el by (simp add: f_def)
    moreover have "u16 f (hdr + 1) = 0" "unat (f ! (hdr + 7)) = 0" using B(1,2) el by (simp_all add: f_def u16_def)
    ultimately have h: "u16 g (hdr + 5) = brk mod 65536" "u16 g (hdr + 1) = 0" "unat (g ! (hdr + 7)) = 0" by simp_all
    show top: "top_of g (hdr + 5) = brk"
      using h(1) B(1,5) br P(8) by (intro top_of_mod) auto
    have rg: "regions brk usable cs'"
      using packed_regions [of "map snd cs" usable] br by (simp add: cs'_def brk_def v(3))
    have "\<forall>x\<in>set (map snd cs'). 4 \<le> x" unfolding cs'_def snd_packed using P(12) by simp
    then have m4: "\<forall>r\<in>set cs'. 4 \<le> snd r" by simp
    have sl: "take (snd r) (drop (fst r) g) = take (snd r) (drop (fst r) e)" if "r \<in> set cs'" for r
      using that rg B(1,5) gl el by (cases r) (auto intro!: take_drop_cong ge simp: inside_def regions_def)
    show cg: "contents g cs' = contents data cs"
    proof -
      have "contents g cs' = contents e cs'" using sl by (simp add: contents_def)
      also have "\<dots> = contents t cs" using e(2) by (simp add: moved_def cs'_def v(3))
      also have "\<dots> = contents data cs" using ts by (simp add: contents_def)
      finally show ?thesis .
    qed
    have lay: "layout usable hdr first g cs' []"
      using B(1,3,5) P(8,9) br top h rg gl m4 by (simp add: layout_def cs'_def brk_def)
    have ptr: "u16 g (cellOffset p + 2 * j) = fst (cs' ! j) \<and> cellSize bt p (drop (fst (cs' ! j)) g) = Some (snd (cs' ! j))" if "j < nCell p" for j
    proof -
      have j: "j < length cs" "cs' ! j \<in> set cs'" "snd (cs' ! j) = snd (cs ! j)"
        using that P(4) by (auto simp: cs'_def snd_packed_nth)
      have "u16 g (cellOffset p + 2 * j) = u16 e (cellOffset p + 2 * j)"
        using that B(1) P(3) by (intro u16_cong ge) (auto simp: v(4))
      also have "\<dots> = fst (cs' ! j)" using e(2) j(1) by (simp add: moved_def cs'_def v(3))
      moreover have "cellSize bt p (drop (fst (cs' ! j)) g) = Some (snd (cs ! j))"
      proof (rule cellSize_moved [OF _ P(2)])
        show "cellSize bt p (drop (fst (cs ! j)) data) = Some (snd (cs ! j))" using ok that by (simp add: page_ok_def v(1))
        show "take (snd (cs ! j)) (drop (fst (cs' ! j)) g) = take (snd (cs ! j)) (drop (fst (cs ! j)) data)"
          using arg_cong [OF cg, of "\<lambda>xs. xs ! j"] j by (simp add: contents_nth cs'_def)
        show "fst (cs' ! j) + snd (cs ! j) \<le> length g" using rg j gl P(9) by (fastforce simp: regions_def)
      qed
      ultimately show ?thesis using j(3) by simp
    qed
    have "e ! k = data ! k" if "k < cellOffset p" for k
      using e(2) that B(5) unfolding moved_def by (auto simp: brk_def v(4))
    then have "u16 g (hdr + 3) = u16 data (hdr + 3)"
      using B(1) P(3) by (intro u16_cong) (auto simp: ge)
    then have "u16 g (hdr + 3) = nCell p" using P(5) by simp
    then have "page_ok bt (p \<lparr>aData := g, nFree := nFree p, nCell := nCell p\<rparr>) cs' []"
      using lay ptr top h(3) br B(1) P(4) by (intro page_ok_update [OF ok]) (auto simp: v free_bytes_def cs'_def)
    moreover have "p \<lparr>aData := g, nFree := nFree p, nCell := nCell p\<rparr> = p \<lparr>aData := g\<rparr>" by (cases p) simp
    ultimately show "page_ok bt (p \<lparr>aData := g\<rparr>) cs' []" by simp
  qed
  ultimately show ?thesis using br by (auto simp: v)
qed

end
