(* ===== verification/BtAlloc.thy ===== *)
theory BtAlloc
  imports BtCells
begin

text \<open>
  \<open>AllocateSpace\<close> finds room for a cell whenever the page has enough free bytes, and \<open>dropCell\<close> removes a cell.
\<close>

section \<open>Allocation from the gap\<close>

lemma layout_weaken: "layout usable hdr first d rs fs \<Longrightarrow> first \<le> first' \<Longrightarrow> first' \<le> top_of d (hdr + 5) \<Longrightarrow> layout usable hdr first' d rs fs"
  by (auto simp: layout_def)

lemma layout_low:
  assumes "layout usable hdr first d rs fs" "r \<in> set (rs @ fs)"
  shows "first \<le> fst r"
proof -
  have "regions (top_of d (hdr + 5)) usable (rs @ fs)" "first \<le> top_of d (hdr + 5)" using assms(1) by (auto simp: layout_def)
  then show ?thesis using assms(2) unfolding regions_def by (metis le_trans)
qed

lemma layout_gap:
  assumes l: "layout usable hdr first d rs fs" and n: "first + n \<le> top_of d (hdr + 5)" "4 \<le> n"
  shows "layout usable hdr first (upd16 d (hdr + 5) (top_of d (hdr + 5) - n)) ((top_of d (hdr + 5) - n, n) # rs) fs"
proof -
  let ?top = "top_of d (hdr + 5)"
  let ?e = "upd16 d (hdr + 5) (?top - n)"
  have L: "hdr + 8 \<le> first" "?top \<le> usable" "usable \<le> 65536" "usable \<le> length d" "chain d (hdr + 1) fs" "ascending 4 ?top fs"
    "regions ?top usable (rs @ fs)" "\<forall>r\<in>set rs. 4 \<le> snd r" "total_size rs + total_size fs + unat (d ! (hdr + 7)) = usable - ?top"
    using l by (auto simp: layout_def)
  have "u16 ?e (hdr + 5) = (?top - n) mod 65536" using L(1,2,4) n by simp
  then have t: "top_of ?e (hdr + 5) = ?top - n" using n L(1,2,3) by (intro top_of_mod) auto
  have "chain ?e (hdr + 1) fs"
    by (rule chain_move [OF L(5)]) (use L(1) n ascending_bounds [OF L(6)] in fastforce)+
  moreover have "ascending 4 (?top - n) fs" by (rule ascending_mono [OF L(6)]) auto
  moreover have "regions (?top - n) usable (((?top - n, n) # rs) @ fs)"
  proof -
    have "\<forall>y\<in>set (rs @ fs). ?top \<le> fst y" using L(7) by (simp add: regions_def)
    then have "\<forall>y\<in>set (rs @ fs). apart (?top - n, n) y \<and> ?top - n \<le> fst y" using n(1) by (fastforce simp: apart_def)
    then show ?thesis using L(2,7) n(1) by (simp add: regions_def)
  qed
  ultimately show ?thesis using L n t by (auto simp: layout_def)
qed

section \<open>Allocation from a free block\<close>

text \<open>
  \<open>slot_cut hdr nfrag n d addr fs idx e\<close>: a block of \<open>fs\<close> has given its last \<open>n\<close> bytes, at \<open>idx\<close>, and stays in the list with
  the rest, or has left the list with up to three bytes that became fragments.
\<close>

definition slot_cut :: "nat \<Rightarrow> nat \<Rightarrow> nat \<Rightarrow> byte list \<Rightarrow> nat \<Rightarrow> region list \<Rightarrow> nat \<Rightarrow> byte list \<Rightarrow> bool" where
  "slot_cut hdr nfrag n d addr fs idx e \<longleftrightarrow>
     (\<exists>fs1 pc sz fs2 fs'. fs = fs1 @ (pc, sz) # fs2 \<and> n \<le> sz \<and> idx = pc + (sz - n) \<and>
       length e = length d \<and> chain e addr (fs1 @ fs' @ fs2) \<and>
       (sz - n < 4 \<and> fs' = [] \<and> unat (e ! (hdr + 7)) = nfrag + (sz - n) \<or> 4 \<le> sz - n \<and> fs' = [(pc, sz - n)] \<and> e ! (hdr + 7) = d ! (hdr + 7)) \<and>
       (\<forall>i. i \<notin> {hdr + 7, addr, addr + 1} \<and> (\<forall>r\<in>set fs. \<not> inside r i) \<longrightarrow> e ! i = d ! i))"

lemma slot_cut_here:
  assumes "fs = (pc, sz) # fs2" "n \<le> sz" "idx = pc + (sz - n)" "length e = length d" "chain e addr (fs' @ fs2)"
    "sz - n < 4 \<and> fs' = [] \<and> unat (e ! (hdr + 7)) = nfrag + (sz - n) \<or> 4 \<le> sz - n \<and> fs' = [(pc, sz - n)] \<and> e ! (hdr + 7) = d ! (hdr + 7)"
    "\<forall>i. i \<notin> {hdr + 7, addr, addr + 1} \<and> (\<forall>r\<in>set fs. \<not> inside r i) \<longrightarrow> e ! i = d ! i"
  shows "slot_cut hdr nfrag n d addr fs idx e"
  unfolding slot_cut_def
  by (rule exI [of _ "[]"], rule exI [of _ pc], rule exI [of _ sz], rule exI [of _ fs2], rule exI [of _ fs']) (use assms in simp)

lemma slot_cut_later:
  assumes c: "slot_cut hdr nfrag n d b fs idx e" and ch: "u16 d addr = b" "0 < b" "u16 d (b + 2) = s" "4 \<le> s" "addr + 4 \<le> b" "hdr + 8 \<le> b"
    and addr: "addr = hdr + 1 \<or> hdr + 8 \<le> addr" and below: "\<forall>q\<in>set fs. b + s \<le> fst q \<and> 4 \<le> snd q"
  shows "slot_cut hdr nfrag n d addr ((b, s) # fs) idx e"
proof -
  obtain fs1 pc sz fs2 fs' where r: "fs = fs1 @ (pc, sz) # fs2" "n \<le> sz" "idx = pc + (sz - n)" "length e = length d" "chain e b (fs1 @ fs' @ fs2)"
    "sz - n < 4 \<and> fs' = [] \<and> unat (e ! (hdr + 7)) = nfrag + (sz - n) \<or> 4 \<le> sz - n \<and> fs' = [(pc, sz - n)] \<and> e ! (hdr + 7) = d ! (hdr + 7)"
    "\<forall>i. i \<notin> {hdr + 7, b, b + 1} \<and> (\<forall>r\<in>set fs. \<not> inside r i) \<longrightarrow> e ! i = d ! i"
    using c unfolding slot_cut_def by blast
  have fr: "e ! i = d ! i" if "i \<notin> {hdr + 7, b, b + 1}" "i < b + s" for i
    using r(7) [rule_format, of i] that below by (fastforce simp: inside_def)
  have "u16 e addr = b" "u16 e (b + 2) = s"
    using ch addr by (auto simp: u16_cong [OF fr fr])
  then have "chain e addr (((b, s) # fs1) @ fs' @ fs2)" using r(5) ch(2) by simp
  moreover have "e ! i = d ! i" if "i \<notin> {hdr + 7, addr, addr + 1}" "\<forall>r\<in>set ((b, s) # fs). \<not> inside r i" for i
    using that r(7) ch(4) by (auto simp: inside_def)
  ultimately show ?thesis unfolding slot_cut_def
    by (intro exI [of _ "(b, s) # fs1"] exI [of _ pc] exI [of _ sz] exI [of _ fs2] exI [of _ fs']) (use r in simp)
qed

lemma alloc_search_ok:
  assumes "chain d addr fs" "ascending 0 lo fs" "addr + 4 \<le> lo" "hdr + 8 \<le> lo" "addr = hdr + 1 \<or> hdr + 8 \<le> addr"
    "\<forall>r\<in>set fs. fst r + snd r \<le> usable" "usable \<le> length d" "usable \<le> 65536" "nfrag < 60" "addr + 2 \<le> length d" "4 \<le> n"
  shows "alloc_search usable hdr nfrag n d addr = Some NoSlot \<or>
    (\<exists>idx e. alloc_search usable hdr nfrag n d addr = Some (Slot idx e) \<and> slot_cut hdr nfrag n d addr fs idx e)"
  using assms
proof (induction fs arbitrary: addr lo)
  case Nil
  then show ?case by (simp add: alloc_search.simps get16_u16)
next
  case (Cons r fs)
  obtain b s where r: "r = (b, s)" by (cases r)
  have ch: "u16 d addr = b" "0 < b" "u16 d (b + 2) = s" "chain d b fs" using Cons.prems(1) by (auto simp: r)
  have as: "lo \<le> b" "4 \<le> s" "ascending 0 (b + s) fs" "b + s \<le> usable" using Cons.prems(2,6) by (auto simp: r)
  have nxt: "alloc_search usable hdr nfrag n d addr = (if n \<le> s then
      (if s - n < 4 then Some (Slot (b + (s - n)) ((upd16 d addr (u16 d b))[hdr + 7 := of_nat (nfrag + (s - n))]))
       else Some (Slot (b + (s - n)) (upd16 d (b + 2) (s - n))))
    else alloc_search usable hdr nfrag n d b)"
    using Cons.prems ch as by (subst alloc_search.simps) (auto simp: get16_u16 memcpy_2 put8_upd put16_upd16 Let_def)
  have below: "\<forall>q\<in>set fs. b + s \<le> fst q \<and> 4 \<le> snd q" using ascending_bounds [OF as(3)] by blast
  consider "n \<le> s" "s - n < 4" | "n \<le> s" "4 \<le> s - n" | "s < n" by linarith
  then show ?case
  proof cases
    case 1
    let ?e = "(upd16 d addr (u16 d b))[hdr + 7 := of_nat (nfrag + (s - n))]"
    have c: "chain ?e addr fs"
      by (rule chain_move [OF ch(4)]) (use Cons.prems ch(1) as below u16_less [of d b] in \<open>fastforce\<close>)+
    have "unat (of_nat (nfrag + (s - n)) :: byte) = nfrag + (s - n)" using 1 Cons.prems(9) by (intro unat_of_nat_byte) simp
    then have f: "unat (?e ! (hdr + 7)) = nfrag + (s - n)" using Cons.prems(4,7) as(1,4) by simp
    have "slot_cut hdr nfrag n d addr (r # fs) (b + (s - n)) ?e"
      by (rule slot_cut_here [where fs' = "[]"]) (use 1 c f in \<open>auto simp: r\<close>)
    then show ?thesis using 1 nxt by auto
  next
    case 2
    let ?e = "upd16 d (b + 2) (s - n)"
    have "chain ?e b fs" by (rule chain_move [OF ch(4)]) (use below as in fastforce)+
    then have c: "chain ?e addr ((b, s - n) # fs)" using ch as Cons.prems 2 by simp
    have f: "?e ! (hdr + 7) = d ! (hdr + 7)" using as Cons.prems(4) by simp
    have "slot_cut hdr nfrag n d addr (r # fs) (b + (s - n)) ?e"
      by (rule slot_cut_here [where fs' = "[(b, s - n)]"]) (use 2 c f as in \<open>auto simp: r inside_def\<close>)
    then show ?thesis using 2 nxt by auto
  next
    case 3
    have "alloc_search usable hdr nfrag n d b = Some NoSlot \<or>
      (\<exists>idx e. alloc_search usable hdr nfrag n d b = Some (Slot idx e) \<and> slot_cut hdr nfrag n d b fs idx e)"
      using Cons.prems as ch by (intro Cons.IH [of b "b + s"]) auto
    moreover have "slot_cut hdr nfrag n d addr (r # fs) idx e" if "slot_cut hdr nfrag n d b fs idx e" for idx e
      unfolding r using that ch as Cons.prems below by (intro slot_cut_later [of _ _ _ _ b]) auto
    ultimately show ?thesis using 3 nxt by auto
  qed
qed

lemma ascending_cut:
  "ascending k lo (fs1 @ (b, s) # fs2) \<Longrightarrow> ascending k lo (fs1 @ fs2)"
  "ascending k lo (fs1 @ (b, s) # fs2) \<Longrightarrow> 4 \<le> x \<Longrightarrow> x \<le> s \<Longrightarrow> ascending k lo (fs1 @ (b, x) # fs2)"
  by (induction fs1 arbitrary: lo) (auto intro: ascending_mono)

lemma layout_slot:
  assumes l: "layout usable hdr first d rs fs" and c: "slot_cut hdr (unat (d ! (hdr + 7))) n d (hdr + 1) fs idx e" and n: "4 \<le> n"
  shows "\<exists>fs'. layout usable hdr first e ((idx, n) # rs) fs' \<and> keeps hdr first rs d e \<and> top_of e (hdr + 5) = top_of d (hdr + 5)"
proof -
  let ?top = "top_of d (hdr + 5)"
  obtain fs1 pc sz fs2 fs' where r: "fs = fs1 @ (pc, sz) # fs2" "n \<le> sz" "idx = pc + (sz - n)" "length e = length d" "chain e (hdr + 1) (fs1 @ fs' @ fs2)"
    "sz - n < 4 \<and> fs' = [] \<and> unat (e ! (hdr + 7)) = unat (d ! (hdr + 7)) + (sz - n) \<or> 4 \<le> sz - n \<and> fs' = [(pc, sz - n)] \<and> e ! (hdr + 7) = d ! (hdr + 7)"
    "\<forall>i. i \<notin> {hdr + 7, hdr + 1, hdr + 1 + 1} \<and> (\<forall>r\<in>set fs. \<not> inside r i) \<longrightarrow> e ! i = d ! i"
    using c unfolding slot_cut_def by blast
  have L: "hdr + 8 \<le> first" "first \<le> ?top" "?top \<le> usable" "usable \<le> 65536" "usable \<le> length d" "ascending 4 ?top fs"
    "regions ?top usable (rs @ fs)" "\<forall>r\<in>set rs. 4 \<le> snd r" "total_size rs + total_size fs + unat (d ! (hdr + 7)) = usable - ?top"
    using l by (auto simp: layout_def)
  have low: "\<forall>q\<in>set fs. ?top \<le> fst q" using ascending_bounds [OF L(6)] by blast
  have fr: "e ! i = d ! i" if "i < first" "i \<notin> {hdr + 1, hdr + 2, hdr + 7}" for i
    using r(7) [rule_format, of i] that low L(2) by (fastforce simp: inside_def)
  have "u16 e (hdr + 5) = u16 d (hdr + 5)" using L(1) by (intro u16_cong fr) auto
  then have t: "top_of e (hdr + 5) = ?top" by (simp add: top_of_def)
  have asc: "ascending 4 ?top (fs1 @ fs' @ fs2)"
    using r(6) ascending_cut [OF L(6) [unfolded r(1)]] by auto
  have reg: "regions ?top usable (((idx, n) # rs) @ fs1 @ fs' @ fs2)"
    using L(7) r(2,3,6) unfolding r(1) by (auto simp: regions_append regions_Cons apart_def)
  have "layout usable hdr first e ((idx, n) # rs) (fs1 @ fs' @ fs2)"
    using L r t asc reg n by (auto simp: layout_def)
  moreover have "keeps hdr first rs d e"
  proof -
    have "e ! i = d ! i" if q: "q \<in> set rs" "inside q i" for q i
    proof -
      have "\<forall>r\<in>set fs. apart q r" "?top \<le> fst q" using L(7) q(1) by (auto simp: regions_append) (auto simp: regions_def)
      then have "\<forall>r\<in>set fs. \<not> inside r i" "first \<le> i" using q(2) L(2) by (fastforce simp: inside_def apart_def)+
      then show ?thesis using r(7) L(1) by auto
    qed
    then show ?thesis using fr r(4) by (simp add: keeps_def)
  qed
  ultimately show ?thesis using t by blast
qed

section \<open>The operation\<close>

text \<open>
  \<open>allocated bt p cs n idx d\<close>: in the new bytes \<open>d\<close> of the page there is room for \<open>n\<close> bytes at \<open>idx\<close> and for one more cell
  pointer, apart from the cells, which may have moved but have kept their order and their contents.
\<close>

definition allocated :: "bt_shared \<Rightarrow> memory_page \<Rightarrow> region list \<Rightarrow> nat \<Rightarrow> nat \<Rightarrow> byte list \<Rightarrow> bool" where
  "allocated bt p cs n idx d \<longleftrightarrow> (\<exists>cs' fs'.
     layout (usableSize bt) (hdrOffset p) (cellOffset p + 2 * nCell p + 2) d ((idx, n) # cs') fs' \<and>
     map snd cs' = map snd cs \<and> contents d cs' = contents (aData p) cs \<and>
     (\<forall>i<nCell p. u16 d (cellOffset p + 2 * i) = fst (cs' ! i)) \<and> u16 d (hdrOffset p + 3) = nCell p \<and>
     free_bytes (hdrOffset p) (cellOffset p + 2 * nCell p + 2) d fs' + n + 2 = nFree p)"

lemma page_layout:
  "page_ok bt p cs fs \<Longrightarrow> layout (usableSize bt) (hdrOffset p) (cellOffset p + 2 * nCell p) (aData p) cs fs"
  unfolding page_ok_def by blast

lemma allocatedI:
  assumes ok: "page_ok bt p cs fs"
    and l: "layout (usableSize bt) (hdrOffset p) (cellOffset p + 2 * nCell p) d ((idx, n) # cs) fs'"
    and k: "keeps (hdrOffset p) (cellOffset p + 2 * nCell p) cs (aData p) d"
    and t: "cellOffset p + 2 * nCell p + 2 \<le> top_of d (hdrOffset p + 5)"
  shows "allocated bt p cs n idx d"
proof -
  have P: "hdrOffset p + 8 \<le> cellOffset p" "u16 (aData p) (hdrOffset p + 3) = nCell p" "length cs = nCell p"
    "layout (usableSize bt) (hdrOffset p) (cellOffset p + 2 * nCell p) (aData p) cs fs"
    "nFree p = free_bytes (hdrOffset p) (cellOffset p + 2 * nCell p) (aData p) fs"
    "\<forall>i<nCell p. u16 (aData p) (cellOffset p + 2 * i) = fst (cs ! i)"
    using ok by (auto simp: page_ok_def)
  have l2: "layout (usableSize bt) (hdrOffset p) (cellOffset p + 2 * nCell p + 2) d ((idx, n) # cs) fs'"
    using layout_weaken [OF l _ t] by simp
  have kk: "d ! i = aData p ! i" if "i < cellOffset p + 2 * nCell p" "i \<notin> {hdrOffset p + 1, hdrOffset p + 2, hdrOffset p + 5, hdrOffset p + 6, hdrOffset p + 7}" for i
    using k that unfolding keeps_def by blast
  have "u16 d (cellOffset p + 2 * i) = fst (cs ! i)" if "i < nCell p" for i
    using P(1,6) that by (subst u16_cong [OF kk kk]) auto
  moreover have "u16 d (hdrOffset p + 3) = nCell p"
    using P(1,2) by (subst u16_cong [OF kk kk]) auto
  moreover have "free_bytes (hdrOffset p) (cellOffset p + 2 * nCell p + 2) d fs' + n + 2 = nFree p"
    using free_bytes_cells [OF l2] free_bytes_cells [OF P(4)] P(5) by simp
  ultimately show ?thesis
    using l2 keeps_contents [OF k] unfolding allocated_def by (intro exI [of _ cs] exI [of _ fs']) simp
qed

lemma alloc_gap_top:
  assumes ok: "page_ok bt p cs fs" and n: "4 \<le> n" "cellOffset p + 2 * nCell p + 2 + n \<le> top_of (aData p) (hdrOffset p + 5)"
  shows "\<exists>idx d. alloc_gap bt temp p n (cellOffset p + 2 * nCell p) (top_of (aData p) (hdrOffset p + 5)) = Some (idx, SQLITE_OK, p \<lparr>aData := d\<rparr>) \<and>
    allocated bt p cs n idx d"
proof -
  let ?top = "top_of (aData p) (hdrOffset p + 5)"
  let ?d = "upd16 (aData p) (hdrOffset p + 5) (?top - n)"
  have l: "layout (usableSize bt) (hdrOffset p) (cellOffset p + 2 * nCell p) (aData p) cs fs" using ok by (rule page_layout)
  then have b: "hdrOffset p + 8 \<le> cellOffset p + 2 * nCell p" "?top \<le> usableSize bt" "usableSize bt \<le> length (aData p)" "usableSize bt \<le> 65536"
    "\<forall>r\<in>set cs. ?top \<le> fst r"
    by (auto simp: layout_def regions_def)
  have l2: "layout (usableSize bt) (hdrOffset p) (cellOffset p + 2 * nCell p) ?d ((?top - n, n) # cs) fs"
    using layout_gap [OF l _ n(1)] n(2) by simp
  have "u16 ?d (hdrOffset p + 5) = (?top - n) mod 65536" using b n by simp
  then have t: "top_of ?d (hdrOffset p + 5) = ?top - n" using n b by (intro top_of_mod) auto
  have "allocated bt p cs n (?top - n) ?d"
    by (rule allocatedI [OF ok l2]) (use b n t in \<open>auto simp: keeps_def inside_def\<close>)
  moreover have "alloc_gap bt temp p n (cellOffset p + 2 * nCell p) ?top = Some (?top - n, SQLITE_OK, p \<lparr>aData := ?d\<rparr>)"
    using b n by (simp add: alloc_gap_def put16_upd16 Let_def)
  ultimately show ?thesis by blast
qed

lemma allocated_defrag:
  assumes "page_ok bt p cs fs" "allocated bt (p \<lparr>aData := e\<rparr>) cs' n idx d" "map snd cs' = map snd cs" "contents e cs' = contents (aData p) cs"
  shows "allocated bt p cs n idx d"
  using assms unfolding allocated_def by auto

lemma alloc_after_defrag:
  assumes ok: "page_ok bt p cs fs" and temp: "usableSize bt \<le> length temp" and n: "4 \<le> n" "n + 2 \<le> nFree p"
  shows "\<exists>e idx d. Defragment bt temp p = Some (SQLITE_OK, p \<lparr>aData := e\<rparr>) \<and>
    get_nz e (hdrOffset p + 5) = Some (cellOffset p + 2 * nCell p + nFree p) \<and>
    alloc_gap bt temp (p \<lparr>aData := e\<rparr>) n (cellOffset p + 2 * nCell p) (cellOffset p + 2 * nCell p + nFree p) = Some (idx, SQLITE_OK, p \<lparr>aData := d\<rparr>) \<and>
    allocated bt p cs n idx d"
proof -
  let ?cs = "packed (usableSize bt) (map snd cs)"
  obtain e where e: "Defragment bt temp p = Some (SQLITE_OK, p \<lparr>aData := e\<rparr>)" "page_ok bt (p \<lparr>aData := e\<rparr>) ?cs []"
    "contents e ?cs = contents (aData p) cs" "top_of e (hdrOffset p + 5) = cellOffset p + 2 * nCell p + nFree p"
    using Defragment_ok [OF ok temp] by blast
  obtain idx d where a: "alloc_gap bt temp (p \<lparr>aData := e\<rparr>) n (cellOffset p + 2 * nCell p) (cellOffset p + 2 * nCell p + nFree p) = Some (idx, SQLITE_OK, p \<lparr>aData := d\<rparr>)"
    "allocated bt (p \<lparr>aData := e\<rparr>) ?cs n idx d"
    using alloc_gap_top [OF e(2) n(1), of temp] e(4) n(2) by auto
  have "hdrOffset p + 7 \<le> length e" using e(2) by (auto simp: page_ok_def layout_def)
  then have "get_nz e (hdrOffset p + 5) = Some (cellOffset p + 2 * nCell p + nFree p)" using e(4) by (simp add: get_nz_top)
  then show ?thesis using e(1) a allocated_defrag [OF ok a(2) snd_packed e(3)] by blast
qed

lemma AllocateSpace_ok:
  assumes ok: "page_ok bt p cs fs" and temp: "usableSize bt \<le> length temp" and n: "4 \<le> n" "n + 2 \<le> nFree p"
  shows "\<exists>idx d. AllocateSpace bt temp p n = Some (idx, SQLITE_OK, p \<lparr>aData := d\<rparr>) \<and> allocated bt p cs n idx d"
proof -
  define hdr first where v: "hdr = hdrOffset p" "first = cellOffset p + 2 * nCell p"
  let ?d = "aData p" and ?top = "top_of (aData p) (hdr + 5)" and ?U = "usableSize bt"
  have l: "layout ?U hdr first ?d cs fs" using page_layout [OF ok] by (simp add: v)
  have P: "nFree p = free_bytes hdr first ?d fs" "nOverflow p = 0" "cellOffset p = hdr + (if IsLeaf p \<noteq> 0 then 8 else 12)"
    using ok by (auto simp: page_ok_def v)
  have L: "hdr + 8 \<le> first" "first \<le> ?top" "?top \<le> ?U" "?U \<le> 65536" "?U \<le> length ?d" "chain ?d (hdr + 1) fs" "ascending 4 ?top fs" "\<forall>r\<in>set fs. fst r + snd r \<le> ?U"
    using l by (auto simp: layout_def regions_def)
  have small: "n + 8 < ?U" using free_bytes_cells [OF l] P(1) n(2) L(1) by linarith
  obtain e idx d where D: "Defragment bt temp p = Some (SQLITE_OK, p \<lparr>aData := e\<rparr>)" "get_nz e (hdr + 5) = Some (first + nFree p)"
    "alloc_gap bt temp (p \<lparr>aData := e\<rparr>) n first (first + nFree p) = Some (idx, SQLITE_OK, p \<lparr>aData := d\<rparr>)" "allocated bt p cs n idx d"
    using alloc_after_defrag [OF ok temp n] unfolding v by blast
  have gap: "\<exists>idx d. alloc_gap bt temp p n first ?top = Some (idx, SQLITE_OK, p \<lparr>aData := d\<rparr>) \<and> allocated bt p cs n idx d"
  proof (cases "first + 2 + n \<le> ?top")
    case True
    then show ?thesis using alloc_gap_top [OF ok n(1)] by (simp add: v)
  next
    case False
    have "alloc_gap bt temp p n first ?top = alloc_gap bt temp (p \<lparr>aData := e\<rparr>) n first (first + nFree p)"
      using False D(1,2) n(2) by (simp add: alloc_gap_def v)
    then show ?thesis using D(3,4) by auto
  qed
  have start: "AllocateSpace bt temp p n = (if unat (?d ! (hdr + 7)) \<ge> 60 then alloc_gap bt temp (p \<lparr>aData := e\<rparr>) n first (first + nFree p)
    else if first + 2 \<le> ?top then (case alloc_search ?U hdr (unat (?d ! (hdr + 7))) n ?d (hdr + 1) of None \<Rightarrow> None
      | Some BadSlot \<Rightarrow> Some (?top, SQLITE_CORRUPT, p) | Some (Slot i d) \<Rightarrow> Some (i, SQLITE_OK, p \<lparr>aData := d\<rparr>) | Some NoSlot \<Rightarrow> alloc_gap bt temp p n first ?top)
    else alloc_gap bt temp p n first ?top)"
  proof -
    have A: "n \<le> nFree p" "get8 ?d (hdr + 7) = Some (unat (?d ! (hdr + 7)))" "get_nz ?d (hdr + 5) = Some ?top" "\<not> ?top < first"
      "cellOffset p = (if IsLeaf p \<noteq> 0 then hdr + 8 else hdr + 12)"
      using n L P(3) by (auto simp: get8_nth get_nz_top)
    show ?thesis unfolding AllocateSpace_def v [symmetric] Let_def
      using A P(2) small D(1,2)
      by (cases "alloc_search ?U hdr (unat (?d ! (hdr + 7))) n ?d (hdr + 1)") (simp_all split: slot.split)
  qed
  show ?thesis
  proof (cases "unat (?d ! (hdr + 7)) \<ge> 60 \<or> \<not> first + 2 \<le> ?top")
    case True
    then show ?thesis using start gap D(3,4) by auto
  next
    case False
    have "alloc_search ?U hdr (unat (?d ! (hdr + 7))) n ?d (hdr + 1) = Some NoSlot \<or>
      (\<exists>idx e. alloc_search ?U hdr (unat (?d ! (hdr + 7))) n ?d (hdr + 1) = Some (Slot idx e) \<and> slot_cut hdr (unat (?d ! (hdr + 7))) n ?d (hdr + 1) fs idx e)"
      by (rule alloc_search_ok [where lo = ?top]) (use L False n ascending_mono [OF L(7)] in auto)
    then consider "alloc_search ?U hdr (unat (?d ! (hdr + 7))) n ?d (hdr + 1) = Some NoSlot"
      | idx e where "alloc_search ?U hdr (unat (?d ! (hdr + 7))) n ?d (hdr + 1) = Some (Slot idx e)" "slot_cut hdr (unat (?d ! (hdr + 7))) n ?d (hdr + 1) fs idx e"
      by blast
    then show ?thesis
    proof cases
      case 1
      then show ?thesis using start gap False by simp
    next
      case c: (2 idx e)
      obtain fs' where s: "layout ?U hdr first e ((idx, n) # cs) fs'" "keeps hdr first cs ?d e" "top_of e (hdr + 5) = ?top" using layout_slot [OF l c(2) n(1)] by blast
      then have "first + 2 \<le> top_of e (hdr + 5)" using False by simp
      then have "allocated bt p cs n idx e" using allocatedI [OF ok] s by (simp add: v)
      then show ?thesis using start False c(1) by (intro exI [of _ idx] exI [of _ e]) simp
    qed
  qed
qed

section \<open>Removing a cell\<close>

lemma drop_shift_ok:
  "ptr + 2 * n + 2 \<le> length d \<Longrightarrow> \<exists>e. drop_shift d ptr n = Some e \<and> length e = length d \<and>
    (\<forall>j<n. u16 e (ptr + 2 * j) = u16 d (ptr + 2 * j + 2)) \<and> (\<forall>i. i < ptr \<or> ptr + 2 * n \<le> i \<longrightarrow> e ! i = d ! i)"
proof (induction n arbitrary: d ptr)
  case (Suc n)
  let ?d = "upd16 d ptr (u16 d (ptr + 2))"
  obtain e where e: "drop_shift ?d (ptr + 2) n = Some e" "length e = length d"
    "\<forall>j<n. u16 e (ptr + 2 + 2 * j) = u16 ?d (ptr + 2 + 2 * j + 2)" "\<forall>i. i < ptr + 2 \<or> ptr + 2 + 2 * n \<le> i \<longrightarrow> e ! i = ?d ! i"
    using Suc.IH [of "ptr + 2" ?d] Suc.prems by auto
  have "u16 e ptr = u16 ?d ptr" using e(4) by (intro u16_cong) auto
  then have z: "u16 e ptr = u16 d (ptr + 2)" using Suc.prems u16_less [of d "ptr + 2"] by simp
  have "u16 e (ptr + 2 * j) = u16 d (ptr + 2 * j + 2)" if "j < Suc n" for j
  proof (cases j)
    case (Suc k)
    then show ?thesis using e(3) [rule_format, of k] that by (simp add: algebra_simps)
  qed (use z in simp)
  moreover have "e ! i = d ! i" if "i < ptr \<or> ptr + 2 * Suc n \<le> i" for i
    using e(4) [rule_format, of i] that by auto
  ultimately show ?case using e(1,2) Suc.prems by (simp add: memcpy_2)
qed simp

lemma mask_id: "a < 2 ^ k \<Longrightarrow> (2 ^ k - 1) AND a = (a :: nat)"
  by (metis and.commute take_bit_eq_mask mask_eq_exp_minus_1 take_bit_nat_eq_self_iff)

lemma nth_remove: "i < length xs \<Longrightarrow> j < length xs - 1 \<Longrightarrow> (take i xs @ drop (Suc i) xs) ! j = (if j < i then xs ! j else xs ! Suc j)"
  by (auto simp: nth_append)

lemma FindCell_cell:
  assumes ok: "page_ok bt p cs fs" and i: "i < nCell p" and m: "maskPage p = 2 ^ k - 1" "usableSize bt \<le> 2 ^ k"
  shows "FindCell p i = Some (drop (fst (cs ! i)) (aData p))"
proof -
  have "length cs = nCell p" "u16 (aData p) (cellOffset p + 2 * i) = fst (cs ! i)" using ok i unfolding page_ok_def by blast+
  moreover have "4 \<le> snd (cs ! i)" "fst (cs ! i) + snd (cs ! i) \<le> usableSize bt" using page_cells [OF ok, of "cs ! i"] i calculation(1) by auto
  moreover have "maskPage p AND fst (cs ! i) = fst (cs ! i)" unfolding m(1) using calculation m(2) by (intro mask_id) simp
  moreover have "cellOffset p + 2 * i + 2 \<le> length (aData p)" "usableSize bt \<le> length (aData p)"
    using page_layout [OF ok] i by (auto simp: layout_def)
  ultimately show ?thesis by (simp add: FindCell_def get16_u16)
qed

lemma dropCell_ok:
  assumes ok: "page_ok bt p cs fs" and i: "i < nCell p" and sz: "sz = snd (cs ! i)"
    and m: "maskPage p = 2 ^ k - 1" "usableSize bt \<le> 2 ^ k" and ev: "even (hdrOffset p)"
  shows "\<exists>d n fs'. dropCell bt p i sz SQLITE_OK = Some (SQLITE_OK, p \<lparr>aData := d, nFree := n, nCell := nCell p - 1\<rparr>) \<and>
    page_ok bt (p \<lparr>aData := d, nFree := n, nCell := nCell p - 1\<rparr>) (take i cs @ drop (Suc i) cs) fs' \<and>
    contents d (take i cs @ drop (Suc i) cs) = take i (contents (aData p) cs) @ drop (Suc i) (contents (aData p) cs)"
proof -
  define hdr first co pc where v: "hdr = hdrOffset p" "first = cellOffset p + 2 * nCell p" "co = cellOffset p" "pc = fst (cs ! i)"
  let ?d = "aData p" and ?U = "usableSize bt" and ?cs = "take i cs @ drop (Suc i) cs"
  have l: "layout ?U hdr first ?d cs fs" using page_layout [OF ok] by (simp add: v)
  have P: "nFree p = free_bytes hdr first ?d fs" "hdr + 8 \<le> co" "length cs = nCell p" "hdr + 6 + childPtrSize p \<le> first" "even co"
    "u16 ?d (co + 2 * i) = pc" "cellSize bt p (drop pc ?d) = Some sz" "limits_ok bt p"
    using ok i ev sz by (auto simp: page_ok_def v)
  have L: "first \<le> top_of ?d (hdr + 5)" "?U \<le> 65536" "?U \<le> length ?d" using l by (auto simp: layout_def)
  have in_cs: "cs ! i \<in> set cs" using i P(3) by simp
  have C: "first \<le> pc" "4 \<le> sz" "pc + sz \<le> ?U" "u16 ?d (hdr + 5) \<le> pc" using page_cells [OF ok in_cs] by (auto simp: v sz)
  have cs: "cs = take i cs @ (pc, sz) # drop (Suc i) cs" using id_take_nth_drop [of i cs] i P(3) by (simp add: v sz)
  have l': "layout ?U hdr first ?d (take i cs @ (pc, sz) # drop (Suc i) cs) fs" by (subst cs [symmetric]) (rule l)
  obtain d1 gs where f: "freeSpace bt p pc sz = Some (SQLITE_OK, p \<lparr>aData := d1, nFree := free_bytes hdr first d1 gs\<rparr>)"
    "layout ?U hdr first d1 ?cs gs" "keeps hdr first ?cs ?d d1" "free_bytes hdr first d1 gs = nFree p + sz"
    using freeSpace_layout [OF l' refl v(1) P(4,1)] by blast
  let ?ptr = "co + 2 * i" and ?n = "nCell p - 1"
  have d1l: "length d1 = length ?d" using f(3) by (simp add: keeps_def)
  have fst_eq: "?ptr + 2 * (?n - i) + 2 = first" using i by (simp add: v)
  obtain d2 where d2: "drop_shift d1 ?ptr (?n - i) = Some d2" "length d2 = length d1"
    "\<forall>j<?n - i. u16 d2 (?ptr + 2 * j) = u16 d1 (?ptr + 2 * j + 2)" "\<forall>k. k < ?ptr \<or> ?ptr + 2 * (?n - i) \<le> k \<longrightarrow> d2 ! k = d1 ! k"
    using drop_shift_ok [of ?ptr "?n - i" d1] fst_eq L(1,3) l d1l by (auto simp: layout_def)
  define d3 where "d3 = upd16 d2 (hdr + 3) ?n"
  have d3l: "length d3 = length ?d" by (simp add: d3_def d2(2) d1l)
  have d31: "d3 ! x = d1 ! x" if "x < ?ptr \<or> first \<le> x" "x \<noteq> hdr + 3" "x \<noteq> hdr + 4" for x
    using d2(4) [rule_format, of x] that fst_eq by (auto simp: d3_def)
  have d1d: "d1 ! x = ?d ! x" if "x < first" "x \<notin> {hdr + 1, hdr + 2, hdr + 5, hdr + 6, hdr + 7}" for x
    using f(3) that unfolding keeps_def by blast
  have cell: "inside r x \<Longrightarrow> d3 ! x = ?d ! x" if "r \<in> set ?cs" for r x
  proof -
    assume x: "inside r x"
    have "first \<le> fst r" by (rule layout_low [OF f(2)]) (use that in auto)
    then have "first \<le> x" using x by (simp add: inside_def)
    then have "d3 ! x = d1 ! x" using P(2) by (intro d31) (auto simp: v)
    also have "\<dots> = ?d ! x" using f(3) that x unfolding keeps_def by blast
    finally show ?thesis .
  qed
  have lay: "layout ?U hdr (co + 2 * ?n) d3 ?cs gs" "free_bytes hdr (co + 2 * ?n) d3 gs = nFree p + sz + 2"
  proof -
    have h: "\<forall>x\<in>{hdr + 1, hdr + 2, hdr + 5, hdr + 6, hdr + 7}. d3 ! x = d1 ! x" using P(2) by (auto intro!: d31)
    have "first \<le> fst r" if "r \<in> set gs" for r by (rule layout_low [OF f(2)]) (use that in auto)
    then have "\<forall>r\<in>set gs. \<forall>x. fst r \<le> x \<and> x < fst r + 4 \<longrightarrow> d3 ! x = d1 ! x" using P(2) by (fastforce intro!: d31 simp: v)
    then have l3: "layout ?U hdr first d3 ?cs gs" using layout_same_bytes(1) [OF f(2) _ h] d3l d1l by simp
    then show l4: "layout ?U hdr (co + 2 * ?n) d3 ?cs gs" using P(2) by (auto simp: layout_def v)
    show "free_bytes hdr (co + 2 * ?n) d3 gs = nFree p + sz + 2"
      using free_bytes_cells [OF l4] free_bytes_cells [OF f(2)] f(4) i by (simp add: v)
  qed
  have num: "u16 d3 (hdr + 3) = ?n"
  proof -
    have "nCell p < 65536" using ok u16_less [of ?d "hdr + 3"] by (simp add: page_ok_def v)
    moreover have "hdr + 3 + 2 \<le> length d2" using l P(2) d2(2) d1l by (auto simp: layout_def)
    ultimately show ?thesis by (simp add: d3_def)
  qed
  have ptrs: "u16 d3 (co + 2 * j) = fst (?cs ! j) \<and> cellSize bt p (drop (fst (?cs ! j)) d3) = Some (snd (?cs ! j))" if j: "j < ?n" for j
  proof -
    have r: "?cs ! j \<in> set ?cs" using j i P(3) by (intro nth_mem) simp
    have old: "u16 ?d (co + 2 * x) = fst (cs ! x) \<and> cellSize bt p (drop (fst (cs ! x)) ?d) = Some (snd (cs ! x))" if "x < nCell p" for x
      using ok that unfolding page_ok_def v by blast
    have d1p: "u16 d1 (co + 2 * x) = fst (cs ! x)" if "x < nCell p" for x
      using old [OF that] P(2) that by (subst u16_cong [OF d1d d1d]) (auto simp: v)
    have nj: "?cs ! j = (if j < i then cs ! j else cs ! Suc j)" using j i P(3) by (intro nth_remove) auto
    have "u16 d3 (co + 2 * j) = fst (?cs ! j)"
      proof (cases "j < i")
      case True
      have "u16 d3 (co + 2 * j) = u16 d1 (co + 2 * j)" using True P(2) by (intro u16_cong d31) auto
      then show ?thesis using True d1p [of j] i by (simp add: nj)
    next
      case False
      have "u16 d3 (co + 2 * j) = u16 d2 (co + 2 * j)" using P(2) by (simp add: d3_def)
      also have "\<dots> = u16 d1 (co + 2 * Suc j)"
        using d2(3) [rule_format, of "j - i"] False j by (simp add: algebra_simps)
      finally show ?thesis using False d1p [of "Suc j"] j by (simp add: nj)
    qed
    moreover have "cellSize bt p (drop (fst (?cs ! j)) d3) = Some (snd (?cs ! j))"
    proof (rule cellSize_moved [OF _ P(8)])
      show "cellSize bt p (drop (fst (?cs ! j)) ?d) = Some (snd (?cs ! j))" using old [of j] old [of "Suc j"] j i by (auto simp: nj)
      show "take (snd (?cs ! j)) (drop (fst (?cs ! j)) d3) = take (snd (?cs ! j)) (drop (fst (?cs ! j)) ?d)"
        using cell [OF r] d3l by (intro take_drop_cong) auto
      show "fst (?cs ! j) + snd (?cs ! j) \<le> length d3" using page_cells(3) [OF ok, of "?cs ! j"] r L(3) d3l by (fastforce dest: in_set_takeD in_set_dropD)
    qed
    ultimately show ?thesis by simp
  qed
  have "dropCell bt p i sz SQLITE_OK = Some (SQLITE_OK, p \<lparr>aData := d3, nFree := nFree p + sz + 2, nCell := ?n\<rparr>)"
  proof -
    have "FindCell p i = Some (drop pc ?d)" using FindCell_cell [OF ok i m] by (simp add: v)
    moreover have "nFree p + sz + 2 < 65536" using free_bytes_cells [OF lay(1)] lay(2) L(2) P(2) by simp
    moreover have "hdr + 8 \<le> length ?d" "?ptr + 2 \<le> length ?d" using l P(2) i by (auto simp: layout_def v)
    ultimately show ?thesis
      using i P(5,6,7) C d2(1) f(1,4) d1l d2(2) by (simp add: dropCell_def v [symmetric] get16_u16 put16_upd16 d3_def Let_def)
  qed
  moreover have "page_ok bt (p \<lparr>aData := d3, nFree := nFree p + sz + 2, nCell := ?n\<rparr>) ?cs gs"
    using lay num ptrs i P(3) by (intro page_ok_update [OF ok]) (auto simp: v)
  moreover have "contents d3 ?cs = contents ?d ?cs"
    unfolding contents_def using cell d3l by (intro map_cong take_drop_cong) auto
  moreover have "contents ?d ?cs = take i (contents ?d cs) @ drop (Suc i) (contents ?d cs)"
    by (simp add: contents_def take_map drop_map)
  ultimately show ?thesis by auto
qed

end
