(* ===== verification/BtInit.thy ===== *)
theory BtInit
  imports BtAlloc
begin

text \<open>
  \<open>zeroPage\<close>, \<open>assemblePage\<close> and \<open>Initialize\<close>: an empty page, a page built from a list of cells, and the check of a page
  read from disk.
\<close>

section \<open>Assembling a page\<close>

text \<open>Cells laid out below \<open>brk\<close>, the last one highest.\<close>

definition laid :: "nat \<Rightarrow> nat list \<Rightarrow> region list" where
  "laid brk ss = rev (packed brk (rev ss))"

lemma laid_simps [simp]: "laid brk [] = []" "laid brk (ss @ [s]) = laid (brk - s) ss @ [(brk - s, s)]"
  by (simp_all add: laid_def)









section \<open>An empty page\<close>

definition bt_ok :: "bt_shared \<Rightarrow> bool" where
  "bt_ok bt \<longleftrightarrow> 512 \<le> pageSize bt \<and> pageSize bt \<le> 65536 \<and> 480 \<le> usableSize bt \<and> usableSize bt \<le> pageSize bt \<and>
     bt_minLocal bt \<le> bt_maxLocal bt \<and> bt_maxLocal bt + 35 \<le> 65536 \<and> bt_minLeaf bt \<le> bt_maxLeaf bt \<and> bt_maxLeaf bt + 35 \<le> 65536"

lemma set_payload_limits_ok:
  assumes "512 \<le> pageSize bt" "pageSize bt \<le> 65536" "480 \<le> usableSize bt" "usableSize bt \<le> pageSize bt"
  shows "bt_ok (set_payload_limits bt)"
proof -
  let ?u = "usableSize bt - 12"
  have a: "?u * 32 div 255 \<le> ?u * 64 div 255" by (intro div_le_mono) simp
  have b: "?u * 64 div 255 \<le> 65536 * 64 div 255" using assms by (intro div_le_mono) simp
  have c: "?u * 32 div 255 \<le> ?u" using div_le_mono [of "?u * 32" "?u * 255" 255] by simp
  define x y where v: "x = ?u * 32 div 255" "y = ?u * 64 div 255"
  have m: "(x - 23) mod 65536 = x - 23" "(y - 23) mod 65536 = y - 23" "(usableSize bt - 35) mod 65536 = usableSize bt - 35"
    using assms b a by (auto simp: v)
  show ?thesis using assms a b c unfolding bt_ok_def set_payload_limits_def Let_def v [symmetric] by (auto simp: m)
qed

text \<open>The fields that \<open>decodeFlags\<close> sets for the four legal flag bytes.\<close>

definition decoded :: "bt_shared \<Rightarrow> memory_page \<Rightarrow> nat \<Rightarrow> memory_page" where
  "decoded bt p flags = p \<lparr>IsLeaf := (if flags \<in> {10, 13} then 1 else 0), childPtrSize := (if flags \<in> {10, 13} then 0 else 4),
     IsIntegerKey := (flags \<in> {5, 13}), HasData := (if flags = 13 then 1 else 0),
     maxLocal := (if flags \<in> {5, 13} then bt_maxLeaf bt else bt_maxLocal bt),
     minLocal := (if flags \<in> {5, 13} then bt_minLeaf bt else bt_minLocal bt), max1bytePayload := bt_max1bytePayload bt\<rparr>"

lemma decodeFlags_legal:
  assumes "hdrOffset p = (if pgno p = 1 then 100 else 0)"
  shows "flags = 2 \<Longrightarrow> decodeFlags bt p flags = Some (SQLITE_OK, decoded bt p flags)"
    "flags = 5 \<Longrightarrow> decodeFlags bt p flags = Some (SQLITE_OK, decoded bt p flags)"
    "flags = 10 \<Longrightarrow> decodeFlags bt p flags = Some (SQLITE_OK, decoded bt p flags)"
    "flags = 13 \<Longrightarrow> decodeFlags bt p flags = Some (SQLITE_OK, decoded bt p flags)"
  using assms by (simp_all add: decodeFlags_def decoded_def PTF_INTKEY_def PTF_ZERODATA_def PTF_LEAFDATA_def PTF_LEAF_def Let_def)

lemma decoded_flags: "hdrOffset p = (if pgno p = 1 then 100 else 0) \<Longrightarrow> flags \<in> {2, 5, 10, 13} \<Longrightarrow> decodeFlags bt p flags = Some (SQLITE_OK, decoded bt p flags)"
  using decodeFlags_legal [of p flags bt] by blast


section \<open>The check of a page\<close>

definition cell_fits :: "bt_shared \<Rightarrow> memory_page \<Rightarrow> nat \<Rightarrow> nat \<Rightarrow> nat \<Rightarrow> bool" where
  "cell_fits bt p lo hi i \<longleftrightarrow> (\<exists>pc sz. get16 (aData p) (cellOffset p + 2 * i) = Some pc \<and> lo \<le> pc \<and> pc \<le> hi \<and>
     cellSize bt p (drop pc (aData p)) = Some sz \<and> (pc + sz) mod 65536 \<le> usableSize bt)"

lemma init_cells_iff:
  "init_cells bt p lo hi i n = Some SQLITE_OK \<longleftrightarrow> (\<forall>j<n. cell_fits bt p lo hi (i + j))"
proof (induction n arbitrary: i)
  case (Suc n)
  have "init_cells bt p lo hi i (Suc n) = Some SQLITE_OK \<longleftrightarrow> cell_fits bt p lo hi i \<and> init_cells bt p lo hi (i + 1) n = Some SQLITE_OK"
    by (cases "get16 (aData p) (cellOffset p + i * 2)"; cases "cellSize bt p (drop (the (get16 (aData p) (cellOffset p + i * 2))) (aData p))")
      (auto simp: cell_fits_def mult.commute)
  also have "\<dots> \<longleftrightarrow> (\<forall>j<Suc n. cell_fits bt p lo hi (i + j))"
    unfolding Suc.IH by (simp add: All_less_Suc2)
  finally show ?case .
qed simp



lemma get16_Some: "get16 d a = Some v \<longleftrightarrow> a + 2 \<le> length d \<and> v = u16 d a"
  by (cases "a + 2 \<le> length d") (auto simp: get16_u16, auto simp: get16_def ReadUint16_def assertion_def split: if_splits)

text \<open>
  What the walk has checked when it ends within 32768 bytes, where the sums cannot wrap: the size of a block is at
  most the total that the walk returns.
\<close>

definition walked :: "nat \<Rightarrow> nat \<Rightarrow> byte list \<Rightarrow> nat \<Rightarrow> nat \<Rightarrow> nat \<Rightarrow> region list \<Rightarrow> bool" where
  "walked usable first d pc n m fs \<longleftrightarrow> m = n + total_size fs \<and>
     (\<forall>r\<in>set fs. pc \<le> fst r \<and> first \<le> fst r \<and> fst r + snd r \<le> usable) \<and>
     sorted_wrt (\<lambda>r q. fst r + snd r + 3 < fst q) fs"

lemma init_free_walk:
  assumes "init_free usable first hi d pc n = Some y"
  shows "\<forall>a m. y = Some m \<longrightarrow> u16 d a = pc \<longrightarrow> hi + 4 \<le> 32768 \<longrightarrow> m \<le> 32768 \<longrightarrow>
    (\<exists>fs. chain d a fs \<and> walked usable first d pc n m fs)"
proof (rule init_free.raw_induct [where P = "\<lambda>usable first hi d pc n y. \<forall>a m. y = Some m \<longrightarrow> u16 d a = pc \<longrightarrow>
    hi + 4 \<le> 32768 \<longrightarrow> m \<le> 32768 \<longrightarrow> (\<exists>fs. chain d a fs \<and> walked usable first d pc n m fs)", OF _ assms], goal_cases)
  case step: (1 f usable first hi d pc n y)
  have "\<exists>fs. chain d a fs \<and> walked usable first d pc n m fs"
    if p: "y = Some m" "u16 d a = pc" "hi + 4 \<le> 32768" "m \<le> 32768" for a m
  proof (cases "pc = 0")
    case True
    then show ?thesis using step(2) p by (intro exI [of _ "[]"]) (auto simp: walked_def)
  next
    case False
    let ?s = "u16 d (pc + 2)" and ?nx = "u16 d pc"
    have c: "first \<le> pc" "pc \<le> hi" "?nx = 0 \<or> (pc + ?s + 3) mod 65536 < ?nx" "(pc + ?s) mod 65536 \<le> usable"
      "f usable first hi d ?nx (n + ?s) = Some (Some m)"
      using step(2) p False by (auto simp: get16_Some bind_eq_Some_conv split: if_splits)
    obtain fs where fs: "chain d pc fs" "walked usable first d ?nx (n + ?s) m fs"
      using step(1) [OF c(5)] p by blast
    have nw: "(pc + ?s + 3) mod 65536 = pc + ?s + 3" "(pc + ?s) mod 65536 = pc + ?s"
      using fs(2) c(2) p by (auto simp: walked_def)
    have "fs \<noteq> [] \<Longrightarrow> 0 < ?nx" using fs(1) by (cases fs) auto
    then have "\<forall>q\<in>set fs. pc + ?s + 3 < fst q" using fs(2) c(3) nw by (cases fs) (fastforce simp: walked_def)+
    moreover have "chain d a ((pc, ?s) # fs)" using fs(1) p False by simp
    ultimately show ?thesis using fs(2) c nw by (intro exI [of _ "(pc, ?s) # fs"]) (fastforce simp: walked_def)
  qed
  then show ?case by blast
qed

lemmas init_free_sound = init_free_walk [rule_format]

lemma decodeFlags_keeps: "decodeFlags bt p f = Some (rc, q) \<Longrightarrow> aData q = aData p \<and> hdrOffset q = hdrOffset p"
  by (auto simp: decodeFlags_def Let_def bind_eq_Some_conv split: if_splits)

lemma decodeFlags_ok:
  assumes "decodeFlags bt p f = Some (SQLITE_OK, q)"
  shows "childPtrSize q \<le> 4 \<and> (maxLocal q, minLocal q) \<in> {(bt_maxLeaf bt, bt_minLeaf bt), (bt_maxLocal bt, bt_minLocal bt)}"
proof -
  have "childPtrSize q = nat ((4 - 4 * int (drop_bit 3 f mod 256)) mod 256)"
    using assms by (auto simp: decodeFlags_def Let_def bind_eq_Some_conv split: if_splits)
  moreover have "f - (f AND 8) = 2 \<or> f - (f AND 8) = 5"
    using assms by (auto simp: decodeFlags_def Let_def bind_eq_Some_conv PTF_LEAF_def PTF_ZERODATA_def PTF_LEAFDATA_def PTF_INTKEY_def split: if_splits)
  then have "f \<in> {2, 5, 10, 13}"
  proof -
    have "f AND 8 = 8 * (f div 8 mod 2)"
      by (simp add: and_nat_unfold [of f 8] and_nat_unfold [of _ 4] and_nat_unfold [of _ 2] and_one_eq div_mult2_eq [symmetric])
    then have "f AND 8 = 0 \<or> f AND 8 = 8" by (cases "f div 8 mod 2 = 0") auto
    then show ?thesis using \<open>f - (f AND 8) = 2 \<or> f - (f AND 8) = 5\<close> by auto
  qed
  ultimately have "childPtrSize q \<le> 4" by (auto simp: drop_bit_eq_div)
  moreover have "(maxLocal q, minLocal q) \<in> {(bt_maxLeaf bt, bt_minLeaf bt), (bt_maxLocal bt, bt_minLocal bt)}"
    using assms by (auto simp: decodeFlags_def Let_def bind_eq_Some_conv split: if_splits)
  ultimately show ?thesis by simp
qed

text \<open>Payload limits of pages with at most 32768 usable bytes, and the size of a cell under them.\<close>

definition bt_small :: "bt_shared \<Rightarrow> bool" where
  "bt_small bt \<longleftrightarrow> bt_ok bt \<and> usableSize bt \<le> 32768 \<and> bt_maxLocal bt + 35 \<le> usableSize bt \<and> bt_maxLeaf bt + 35 \<le> usableSize bt"

lemma set_payload_limits_small:
  assumes "512 \<le> pageSize bt" "pageSize bt \<le> 65536" "480 \<le> usableSize bt" "usableSize bt \<le> pageSize bt" "usableSize bt \<le> 32768"
  shows "bt_small (set_payload_limits bt)"
proof -
  let ?u = "usableSize bt - 12"
  have "?u * 64 div 255 \<le> ?u" using div_le_mono [of "?u * 64" "?u * 255" 255] by simp
  then have "(?u * 64 div 255 - 23) mod 65536 + 35 \<le> usableSize bt"
    using mod_less_eq_dividend [of "?u * 64 div 255 - 23" 65536] assms by linarith
  then show ?thesis using set_payload_limits_ok [OF assms(1-4)] assms by (simp add: bt_small_def set_payload_limits_def Let_def)
qed

lemma cellSize_le:
  assumes "limits_ok bt p" "cellSize bt p c = Some sz"
  shows "sz \<le> maxLocal p + 17"
proof -
  obtain n r where r: "childPtrSize p \<le> length c" "read_size p (drop (childPtrSize p) c) = Some (n, r)"
    using assms(2) by (auto simp: cellSize_eq split: if_splits option.splits)
  obtain b where b: "drop (childPtrSize p) c = b @ r" "length b \<le> 9" using read_size_local [OF r(2)] by blast
  have "length c - length r \<le> 13" using arg_cong [OF b(1), of length] b(2) r(1) assms(1) unfolding limits_ok_def length_drop length_append by linarith
  then show ?thesis
    using cellSize_read [OF assms(1) r refl] local_size_bound [OF assms(1), of n] assms(2) by auto
qed

lemma Initialize_sound:
  assumes "\<not> isInit p" "Initialize bt p = Some (SQLITE_OK, q)" "bt_small bt"
  shows "nCell q = u16 (aData q) (hdrOffset q + 3) \<and> nCell q \<le> MX_CELL bt" (is ?N)
    "\<forall>i<nCell q. \<exists>pc sz. u16 (aData q) (cellOffset q + 2 * i) = pc \<and> cellOffset q + 2 * nCell q \<le> pc \<and>
      cellSize bt q (drop pc (aData q)) = Some sz \<and> pc + sz \<le> usableSize bt" (is ?C)
    "\<exists>fs. chain (aData q) (hdrOffset q + 1) fs \<and> (\<forall>r\<in>set fs. cellOffset q + 2 * nCell q \<le> fst r \<and> fst r + snd r \<le> usableSize bt) \<and>
      sorted_wrt (\<lambda>r q. fst r + snd r + 3 < fst q) fs \<and>
      top_of (aData q) (hdrOffset q + 5) + unat (aData q ! (hdrOffset q + 7)) + total_size fs \<le> usableSize bt \<and>
      nFree q = nat ((int (top_of (aData q) (hdrOffset q + 5) + unat (aData q ! (hdrOffset q + 7)) + total_size fs) - int (cellOffset q + 2 * nCell q)) mod 65536)" (is ?F)
    "aData q = aData p \<and> hdrOffset q = hdrOffset p"
proof -
  define U where "U = usableSize bt"
  obtain f p1 where f: "get8 (aData p) (hdrOffset p) = Some f" "decodeFlags bt p f = Some (SQLITE_OK, p1)"
    "init_layout bt (p1 \<lparr>maskPage := (pageSize bt - 1) mod 65536, nOverflow := 0, cellOffset := if IsLeaf p1 \<noteq> 0 then hdrOffset p + 12 - 4 else hdrOffset p + 12\<rparr>)
       (if IsLeaf p1 \<noteq> 0 then hdrOffset p + 12 - 4 else hdrOffset p + 12) = Some (SQLITE_OK, q)"
    using assms by (auto simp: Initialize_def Let_def bind_eq_Some_conv simp del: One_nat_def split: if_splits)
  have k: "aData p1 = aData p" "hdrOffset p1 = hdrOffset p" using decodeFlags_keeps [OF f(2)] by auto
  define d h co where v: "d = aData p" "h = hdrOffset p" "co = (if IsLeaf p1 \<noteq> 0 then h + 12 - 4 else h + 12)"
  have il: "init_layout bt (p1 \<lparr>maskPage := (pageSize bt - 1) mod 65536, nOverflow := 0, cellOffset := co\<rparr>) co = Some (SQLITE_OK, q)"
    using f(3) by (simp only: v)
  obtain top n frag pc m where r: "get_nz d (h + 5) = Some top" "get16 d (h + 3) = Some n" "n \<le> MX_CELL bt"
    "init_cells bt (p1 \<lparr>maskPage := (pageSize bt - 1) mod 65536, nOverflow := 0, cellOffset := co, nCell := n\<rparr>) (co + 2 * n) (if IsLeaf p1 \<noteq> 0 then U - 4 else U - 4 - 1) 0 n = Some SQLITE_OK"
    "get16 d (h + 1) = Some pc" "get8 d (h + 7) = Some frag" "init_free U (co + 2 * n) (U - 4) d pc (frag + top) = Some (Some m)" "m \<le> U"
    "q = p1 \<lparr>maskPage := (pageSize bt - 1) mod 65536, nOverflow := 0, cellOffset := co, nCell := n, nFree := nat ((int m - int (co + 2 * n)) mod 65536), isInit := True\<rparr>"
    using il by (auto simp: init_layout_def Let_def bind_eq_Some_conv U_def k v(1,2) simp del: One_nat_def split: if_splits option.splits)
  let ?q = "p1 \<lparr>maskPage := (pageSize bt - 1) mod 65536, nOverflow := 0, cellOffset := co, nCell := n\<rparr>"
  have g: "n = u16 d (h + 3)" "pc = u16 d (h + 1)" "frag = unat (d ! (h + 7))" "top = top_of d (h + 5)"
    using r(1,2,5,6) get_nz_top [of "h + 5" d] by (auto simp: get16_Some get8_def split: if_splits)
  have cs: "cellSize bt q c = cellSize bt ?q c" for c by (simp add: r(9) cellSize_def Let_def cong: if_cong)
  have fields: "aData q = d" "hdrOffset q = h" "cellOffset q = co" "nCell q = n" "nFree q = nat ((int m - int (co + 2 * n)) mod 65536)"
    by (simp_all add: r(9) k v)
  show "aData q = aData p \<and> hdrOffset q = hdrOffset p" using fields v by simp
  show ?N using fields g(1) r(3) by simp
  have lim: "limits_ok bt ?q" "maxLocal ?q + 35 \<le> U"
    using decodeFlags_ok [OF f(2)] assms(3) by (auto simp: limits_ok_def bt_small_def bt_ok_def U_def)
  show ?C
  proof (intro allI impI)
    fix i assume i: "i < nCell q"
    obtain pc sz where c: "get16 d (co + 2 * i) = Some pc" "co + 2 * n \<le> pc" "pc \<le> U" "cellSize bt ?q (drop pc d) = Some sz" "(pc + sz) mod 65536 \<le> U"
      using r(4) i k unfolding init_cells_iff by (auto simp: cell_fits_def fields v U_def split: if_splits)
    then have "pc + sz < 65536" using cellSize_le [OF lim(1) c(4)] lim(2) assms(3) by (simp add: bt_small_def U_def)
    then show "\<exists>pc sz. u16 (aData q) (cellOffset q + 2 * i) = pc \<and> cellOffset q + 2 * nCell q \<le> pc \<and>
      cellSize bt q (drop pc (aData q)) = Some sz \<and> pc + sz \<le> usableSize bt"
      using c by (auto simp: get16_Some fields cs U_def)
  qed
  have "\<exists>fs. chain d (h + 1) fs \<and> walked U (co + 2 * n) d pc (frag + top) m fs"
    using init_free_sound [OF r(7) refl, of "h + 1"] g r(8) assms(3) by (auto simp: bt_small_def bt_ok_def U_def)
  then show ?F using g r(8) unfolding fields U_def walked_def by (auto simp: add.commute add.left_commute)
qed

section \<open>Properties\<close>

text \<open>
  C9. \<open>freeSpace\<close> on a well-formed page: giving back a cell succeeds, takes the cell out of the layout, joins its
  bytes with adjacent free blocks and fragments so that the list stays ascending with gaps of at least four
  bytes, adds exactly the size of the cell to \<open>nFree\<close>, and changes neither another cell nor a cell pointer.
\<close>

theorem freeSpace_balance:
  assumes "layout (usableSize bt) (hdrOffset p) first (aData p) (rs1 @ (start, sz) # rs2) fs"
    and "hdrOffset p + 6 + childPtrSize p \<le> first" "nFree p = free_bytes (hdrOffset p) first (aData p) fs"
  shows "\<exists>d gs. freeSpace bt p start sz = Some (SQLITE_OK, p \<lparr>aData := d, nFree := nFree p + sz\<rparr>) \<and>
    layout (usableSize bt) (hdrOffset p) first d (rs1 @ rs2) gs \<and> nFree p + sz = free_bytes (hdrOffset p) first d gs \<and>
    keeps (hdrOffset p) first (rs1 @ rs2) (aData p) d"
  using freeSpace_layout [OF assms(1) refl refl assms(2,3)] by metis

text \<open>
  C8. \<open>AllocateSpace\<close> on a well-formed page with at least \<open>n + 2\<close> free bytes: it succeeds, whether the room comes from a
  free block, from the gap or from a defragmentation; the room is apart from every cell, one more cell
  pointer still fits, the cells keep their order and contents, and the free bytes have gone down by \<open>n\<close>.
\<close>

theorem allocateSpace_room:
  assumes "page_ok bt p cs fs" "usableSize bt \<le> length temp" "4 \<le> n" "n + 2 \<le> nFree p"
  shows "\<exists>idx d. AllocateSpace bt temp p n = Some (idx, SQLITE_OK, p \<lparr>aData := d\<rparr>) \<and> allocated bt p cs n idx d"
  by (rule AllocateSpace_ok [OF assms])

text \<open>
  C11. \<open>Defragment\<close> on a well-formed page: the cells end up packed at the end of the page in the order of their
  pointers, with their contents, without free blocks, and the gap has all the free bytes.
\<close>

theorem defragment_packs:
  assumes "page_ok bt p cs fs" "usableSize bt \<le> length temp"
  shows "\<exists>d. Defragment bt temp p = Some (SQLITE_OK, p \<lparr>aData := d\<rparr>) \<and>
    page_ok bt (p \<lparr>aData := d\<rparr>) (packed (usableSize bt) (map snd cs)) [] \<and>
    contents d (packed (usableSize bt) (map snd cs)) = contents (aData p) cs \<and>
    top_of d (hdrOffset p + 5) = cellOffset p + 2 * nCell p + nFree p"
  by (rule Defragment_ok [OF assms])

text \<open>
  C10. \<open>dropCell\<close> removes cell \<open>i\<close> and nothing else: the page stays well formed, and the contents of its cells, in order,
  are the old ones without the \<open>i\<close>-th.
\<close>

theorem dropCell_removes:
  assumes "page_ok bt p cs fs" "i < nCell p" "maskPage p = 2 ^ k - 1" "usableSize bt \<le> 2 ^ k" "even (hdrOffset p)"
  shows "\<exists>d n cs' fs'. dropCell bt p i (snd (cs ! i)) SQLITE_OK = Some (SQLITE_OK, p \<lparr>aData := d, nFree := n, nCell := nCell p - 1\<rparr>) \<and>
    page_ok bt (p \<lparr>aData := d, nFree := n, nCell := nCell p - 1\<rparr>) cs' fs' \<and>
    contents d cs' = take i (contents (aData p) cs) @ drop (Suc i) (contents (aData p) cs)"
  using dropCell_ok [OF assms(1,2) refl assms(3-5)] by blast


text \<open>
  C12. What \<open>Initialize\<close> guarantees of a page it accepts, whatever its bytes, when the page has at most 32768 usable
  bytes: the extent that \<open>cellSize\<close> computes for each cell (which leaves out an integer key) lies between the cell
  pointers and the end of the usable area, the free blocks lie there too, in ascending order and more than three
  bytes apart, and the bytes they count do not exceed the page. On larger pages the sums of the check can
  wrap, and this fails.
\<close>

theorem initialize_checks:
  assumes "bt = set_payload_limits bt0" "512 \<le> pageSize bt0" "pageSize bt0 \<le> 65536"
    and "480 \<le> usableSize bt0" "usableSize bt0 \<le> pageSize bt0" "usableSize bt0 \<le> 32768"
    and "\<not> isInit p" "Initialize bt p = Some (SQLITE_OK, q)"
  shows "(\<forall>i<nCell q. \<exists>pc sz. u16 (aData p) (cellOffset q + 2 * i) = pc \<and> cellOffset q + 2 * nCell q \<le> pc \<and>
      cellSize bt q (drop pc (aData p)) = Some sz \<and> pc + sz \<le> usableSize bt) \<and>
    (\<exists>fs. chain (aData p) (hdrOffset p + 1) fs \<and> (\<forall>r\<in>set fs. cellOffset q + 2 * nCell q \<le> fst r \<and> fst r + snd r \<le> usableSize bt) \<and>
      sorted_wrt (\<lambda>r q. fst r + snd r + 3 < fst q) fs \<and>
      top_of (aData p) (hdrOffset p + 5) + unat (aData p ! (hdrOffset p + 7)) + total_size fs \<le> usableSize bt)"
proof -
  have "bt_small bt" using set_payload_limits_small [OF assms(2-6)] assms(1) by simp
  note S = Initialize_sound [OF assms(7,8) this]
  show ?thesis using S(2,3) unfolding conjunct1 [OF S(4)] conjunct2 [OF S(4)] by blast
qed

section \<open>Examples\<close>

definition bt64 :: bt_shared where
  "bt64 = \<lparr>secure_delete = False, bt_maxLocal = 16, bt_minLocal = 4, bt_maxLeaf = 16, bt_minLeaf = 4, bt_max1bytePayload = 16, pageSize = 64, usableSize = 64\<rparr>"

text \<open>A small leaf page with two cells, one free block and two fragment bytes.\<close>

definition page64 :: memory_page where
  "page64 = \<lparr>isInit = True, nOverflow = 0, IsIntegerKey = False, IsLeaf = 1, HasData = 0, hdrOffset = 0, childPtrSize = 0, max1bytePayload = 16,
     maxLocal = 16, minLocal = 4, cellOffset = 8, nFree = 40, maskPage = 63, aiOvfl = [], apOvfl = [],
     aData = [10, 0, 48, 0, 2, 0, 42, 2, 0, 56, 0, 42] @ replicate 30 0 @ [3, 1, 2, 3] @ [0, 0] @ [0, 0, 0, 8] @ replicate 4 0 @ [7, 1, 2, 3, 4, 5, 6, 7],
     nCell = 2, pgno = 2\<rparr>"

text \<open>The regions of its cells.\<close>

definition cells64 :: "region list" where
  "cells64 = [(56, 8), (42, 4)]"

lemma page64_layout: "layout 64 0 12 (aData page64) [(56, 8), (42, 4)] [(48, 8)]" "nFree page64 = free_bytes 0 12 (aData page64) [(48, 8)]"
proof -
  have "top_of (aData page64) 5 = 42" "chain (aData page64) 1 [(48, 8)]" "regions 42 64 ([(56, 8), (42, 4)] @ [(48, 8)])"
    "unat (aData page64 ! 7) = 2" "length (aData page64) = 64" by code_simp+
  then show "layout 64 0 12 (aData page64) [(56, 8), (42, 4)] [(48, 8)]" "nFree page64 = free_bytes 0 12 (aData page64) [(48, 8)]"
    by (simp_all add: layout_def free_bytes_def) (simp add: page64_def)
qed

lemma cells64_eq: "[(56, 8), (42, 4)] = cells64"
  by (simp add: cells64_def)

lemma cells64_len: "length cells64 = 2"
  by (simp add: cells64_def)

lemma page64_ok: "page_ok bt64 page64 cells64 [(48, 8)]"
proof -
  have n: "u16 (aData page64) 3 = 2" by code_simp
  have l: "limits_ok bt64 page64" by (simp add: limits_ok_def bt64_def page64_def)
  have r: "read_size page64 (drop 42 (aData page64)) = Some (3, drop 43 (aData page64))" "read_size page64 (drop 56 (aData page64)) = Some (7, drop 57 (aData page64))"
    "length (aData page64) = 64" by code_simp+
  have "cellSize bt64 page64 (drop 42 (aData page64)) = Some 4" "cellSize bt64 page64 (drop 56 (aData page64)) = Some 8"
    using cellSize_read [OF l _ _ refl, of "drop 42 (aData page64)"] cellSize_read [OF l _ _ refl, of "drop 56 (aData page64)"] r
    by (simp_all add: local_size_def page64_def)
  moreover have "u16 (aData page64) 8 = 56" "u16 (aData page64) 10 = 42" by code_simp+
  ultimately have c: "u16 (aData page64) (8 + 2 * i) = fst (cells64 ! i) \<and> cellSize bt64 page64 (drop (fst (cells64 ! i)) (aData page64)) = Some (snd (cells64 ! i))"
    if "i < 2" for i using that by (cases i) (simp_all add: less_Suc_eq cells64_def)
  have "hdrOffset page64 = 0" "cellOffset page64 = 8" "nCell page64 = 2" "usableSize bt64 = 64" "nOverflow page64 = 0" "IsLeaf page64 = 1" "childPtrSize page64 = 0"
    by (simp_all add: page64_def bt64_def)
  then show ?thesis using page64_layout l c n by (simp add: page_ok_def cells64_len cells64_eq)
qed

theorem freeSpace_balance_witness:
  "\<exists>d gs. freeSpace bt64 page64 42 4 = Some (SQLITE_OK, page64 \<lparr>aData := d, nFree := nFree page64 + 4\<rparr>) \<and>
    layout (usableSize bt64) (hdrOffset page64) 12 d ([(56, 8)] @ []) gs \<and> nFree page64 + 4 = free_bytes (hdrOffset page64) 12 d gs \<and>
    keeps (hdrOffset page64) 12 ([(56, 8)] @ []) (aData page64) d"
  by (rule freeSpace_balance) (use page64_layout in \<open>simp_all add: bt64_def page64_def\<close>)

theorem allocateSpace_room_witness:
  "\<exists>idx d. AllocateSpace bt64 (replicate 64 0) page64 6 = Some (idx, SQLITE_OK, page64 \<lparr>aData := d\<rparr>) \<and> allocated bt64 page64 cells64 6 idx d"
  by (rule allocateSpace_room [OF page64_ok]) (simp_all add: bt64_def page64_def)

theorem defragment_packs_witness:
  "\<exists>d. Defragment bt64 (replicate 64 0) page64 = Some (SQLITE_OK, page64 \<lparr>aData := d\<rparr>) \<and>
    page_ok bt64 (page64 \<lparr>aData := d\<rparr>) (packed (usableSize bt64) (map snd cells64)) [] \<and>
    contents d (packed (usableSize bt64) (map snd cells64)) = contents (aData page64) cells64 \<and>
    top_of d (hdrOffset page64 + 5) = cellOffset page64 + 2 * nCell page64 + nFree page64"
  by (rule defragment_packs [OF page64_ok]) (simp add: bt64_def)

theorem dropCell_removes_witness:
  "\<exists>d n cs' fs'. dropCell bt64 page64 1 (snd (cells64 ! 1)) SQLITE_OK = Some (SQLITE_OK, page64 \<lparr>aData := d, nFree := n, nCell := nCell page64 - 1\<rparr>) \<and>
    page_ok bt64 (page64 \<lparr>aData := d, nFree := n, nCell := nCell page64 - 1\<rparr>) cs' fs' \<and>
    contents d cs' = take 1 (contents (aData page64) cells64) @ drop (Suc 1) (contents (aData page64) cells64)"
  by (rule dropCell_removes [OF page64_ok, where k = 6]) (simp_all add: bt64_def page64_def)

definition bt512 :: bt_shared where
  "bt512 = set_payload_limits \<lparr>secure_delete = False, bt_maxLocal = 0, bt_minLocal = 0, bt_maxLeaf = 0, bt_minLeaf = 0, bt_max1bytePayload = 0, pageSize = 512, usableSize = 512\<rparr>"

definition page512 :: "byte list \<Rightarrow> memory_page" where
  "page512 d = \<lparr>isInit = False, nOverflow = 0, IsIntegerKey = False, IsLeaf = 0, HasData = 0, hdrOffset = 0, childPtrSize = 0, max1bytePayload = 0,
     maxLocal = 0, minLocal = 0, cellOffset = 0, nFree = 0, maskPage = 0, aiOvfl = [], apOvfl = [], aData = d, nCell = 0, pgno = 2\<rparr>"

lemma bt512_ok: "bt_ok bt512" "pageSize bt512 = 512" "usableSize bt512 = 512"
  unfolding bt512_def by (rule set_payload_limits_ok; simp) (simp_all add: set_payload_limits_def Let_def)

lemma bt512_limit: "bt_maxLocal bt512 = 102"
  by (simp add: bt512_def set_payload_limits_def Let_def)


text \<open>
  A page whose header places the cell content area inside the header itself passes the check of \<open>Initialize\<close>, which
  then counts 65529 free bytes on a page of 512.
\<close>

lemma initialize_short_top:
  "Initialize bt512 (page512 ([13, 0, 0, 0, 0, 0, 1, 0] @ replicate 504 0)) =
    Some (SQLITE_OK, decoded bt512 (page512 ([13, 0, 0, 0, 0, 0, 1, 0] @ replicate 504 0)) 13
      \<lparr>maskPage := 511, nOverflow := 0, cellOffset := 8, nCell := 0, nFree := 65529, isInit := True\<rparr>)"
proof -
  define d :: "byte list" where "d = [13, 0, 0, 0, 0, 0, 1, 0] @ replicate 504 0"
  let ?p = "decoded bt512 (page512 d) 13 \<lparr>maskPage := 511, nOverflow := 0, cellOffset := 8\<rparr>"
  have d: "length d = 512" "get8 d 0 = Some 13" "get16 d 1 = Some 0" "get16 d 3 = Some 0" "get_nz d 5 = Some 1" "get8 d 7 = Some 0"
    unfolding d_def by code_simp+
  have p: "decodeFlags bt512 (page512 d) 13 = Some (SQLITE_OK, decoded bt512 (page512 d) 13)" by (rule decoded_flags) (simp_all add: page512_def)
  have f: "hdrOffset (decoded bt512 (page512 d) 13) = 0" "aData (decoded bt512 (page512 d) 13) = d" "IsLeaf (decoded bt512 (page512 d) 13) = 1"
    by (simp_all add: decoded_def page512_def)
  have l: "init_layout bt512 ?p 8 = Some (SQLITE_OK, ?p \<lparr>nCell := 0, nFree := 65529, isInit := True\<rparr>)"
    using d f by (simp add: init_layout_def init_free.simps bt512_ok)
  have "isInit (page512 d) = False" "hdrOffset (page512 d) = 0" "aData (page512 d) = d" by (simp_all add: page512_def)
  then have "Initialize bt512 (page512 d) = init_layout bt512 ?p 8"
    using d(1,2) p f by (simp add: Initialize_def bt512_ok)
  then show ?thesis using l by (simp add: d_def)
qed

lemma page512_init: "\<not> isInit (page512 d)"
  by (simp add: page512_def)

text \<open>
  A page with one cell of four bytes at its end and a free block of eight bytes before it: the decoded fields after
  the check.
\<close>

definition data512 :: "byte list" where
  "data512 = [10, 1, 244, 0, 1, 1, 244, 0, 1, 252] @ replicate 490 0 @ [0, 0, 0, 8, 0, 0, 0, 0, 3, 1, 2, 3]"

lemma data512_reads:
  "length data512 = 512" "get8 data512 0 = Some 10" "get16 data512 1 = Some 500" "get16 data512 3 = Some 1" "get_nz data512 5 = Some 500"
  "get8 data512 7 = Some 0" "get16 data512 8 = Some 508" "get16 data512 500 = Some 0" "get16 data512 502 = Some 8" "drop 508 data512 = [3, 1, 2, 3]"
  "top_of data512 5 = 500" "unat (data512 ! 7) = 0" "u16 data512 8 = 508"
  by code_simp+

lemma data512_accepted:
  "\<exists>q. Initialize bt512 (page512 data512) = Some (SQLITE_OK, q) \<and> nCell q = 1 \<and> cellOffset q = 8 \<and> nFree q = 498"
proof -
  let ?p = "decoded bt512 (page512 data512) 10 \<lparr>maskPage := 511, nOverflow := 0, cellOffset := 8\<rparr>"
  let ?q = "?p \<lparr>nCell := 1\<rparr>"
  have p: "decodeFlags bt512 (page512 data512) 10 = Some (SQLITE_OK, decoded bt512 (page512 data512) 10)" by (rule decoded_flags) (simp_all add: page512_def)
  have f: "hdrOffset (decoded bt512 (page512 data512) 10) = 0" "aData (decoded bt512 (page512 data512) 10) = data512" "IsLeaf (decoded bt512 (page512 data512) 10) = 1"
    "childPtrSize ?q = 0" "IsIntegerKey ?q = False" "maxLocal ?q = bt_maxLocal bt512" "minLocal ?q = bt_minLocal bt512" "cellOffset ?q = 8" "aData ?q = data512"
    by (simp_all add: decoded_def page512_def)
  have l: "limits_ok bt512 ?q" using bt512_ok f by (simp add: limits_ok_def bt_ok_def)
  have "read_size ?q [3, 1, 2, 3] = Some (3, [1, 2, 3])" unfolding read_size_def f(5) by code_simp
  then have "cellSize bt512 ?q [3, 1, 2, 3] = Some 4"
    using cellSize_read [OF l, of "[3, 1, 2, 3]" 3 "[1, 2, 3]" 1] f(4,6) bt512_limit by (simp add: local_size_def)
  then have ic: "init_cells bt512 ?q 10 508 0 1 = Some SQLITE_OK"
    using f(8,9) data512_reads by (simp add: bt512_ok del: One_nat_def add: init_cells.simps(2) [of _ _ _ _ _ 0, folded One_nat_def])
  have fr: "init_free 512 10 508 data512 500 500 = Some (Some 508)"
    using data512_reads by (simp add: init_free.simps [of _ _ _ _ 500] init_free.simps [of _ _ _ _ 0])
  have "init_layout bt512 ?p 8 = Some (SQLITE_OK, ?q \<lparr>nFree := 498, isInit := True\<rparr>)"
    using data512_reads f(1-3) ic fr
    by (simp add: init_layout_def bt512_ok Let_def MX_CELL_def del: init_cells.simps One_nat_def)
  moreover have "isInit (page512 data512) = False" "hdrOffset (page512 data512) = 0" "aData (page512 data512) = data512" by (simp_all add: page512_def)
  then have "Initialize bt512 (page512 data512) = init_layout bt512 ?p 8"
    using data512_reads p f by (simp add: Initialize_def bt512_ok)
  ultimately show ?thesis by simp
qed

theorem initialize_checks_witness:
  "\<exists>q. (\<exists>sz. cellSize bt512 q (drop 508 data512) = Some sz \<and> 508 + sz \<le> 512) \<and>
    (\<exists>fs. chain data512 1 fs \<and> (\<forall>r\<in>set fs. 10 \<le> fst r \<and> fst r + snd r \<le> 512) \<and> 500 + total_size fs \<le> 512)"
proof -
  obtain q where q: "Initialize bt512 (page512 data512) = Some (SQLITE_OK, q)" "nCell q = 1" "cellOffset q = 8" using data512_accepted by blast
  have f: "hdrOffset (page512 data512) = 0" "aData (page512 data512) = data512" by (simp_all add: page512_def)
  show ?thesis
    using initialize_checks [OF bt512_def _ _ _ _ _ page512_init q(1)] q(2,3) f data512_reads by (auto simp: bt512_ok)
qed

text \<open>
  The wrapped sums: on a page of 65536 bytes a free block at 60000 with 10000 bytes is accepted; and a block at 300 of
  a page of 512 bytes that claims 65300 bytes and links to itself passes the check again and again, so that
  the walk does not end.
\<close>

lemma init_free_wraps:
  "get16 d 60000 = Some 0 \<Longrightarrow> get16 d 60002 = Some 10000 \<Longrightarrow> init_free 65536 8 65532 d 60000 n = Some (Some (n + 10000))"
  by (simp add: init_free.simps)

lemma init_free_loops:
  assumes "get16 d 300 = Some 300" "get16 d 302 = Some 65300"
  shows "init_free 512 8 508 d 300 n = init_free 512 8 508 d 300 (n + 65300)" "init_free 512 8 508 d 300 n = None"
proof -
  show "init_free 512 8 508 d 300 n = init_free 512 8 508 d 300 (n + 65300)"
    using assms by (subst init_free.simps) simp
  have "\<not> (u = 512 \<and> a = 8 \<and> b = 508 \<and> e = d \<and> pc = 300)" if "init_free u a b e pc m = Some y" for u a b e pc m y
  proof (rule init_free.raw_induct [where P = "\<lambda>u a b e pc m y. \<not> (u = 512 \<and> a = 8 \<and> b = 508 \<and> e = d \<and> pc = 300)", OF _ that], goal_cases)
    case (1 f u a b e pc m y)
    show ?case
    proof
      assume "u = 512 \<and> a = 8 \<and> b = 508 \<and> e = d \<and> pc = 300"
      with 1(2) assms have "f 512 8 508 d 300 (m + 65300) = Some y" by simp
      from 1(1) [OF this] show False by simp
    qed
  qed
  then show "init_free 512 8 508 d 300 n = None" by (metis option.exhaust)
qed

end
