(* ===== verification/Pager.thy ===== *)
theory Pager
  imports WalCkpt
begin

text \<open>
  The rollback journal of the pager (src/btree/pager.go): the format of journal files, writing a journal and
  playing it back.

  The pager is modelled for databases on disk in rollback mode: the database file is open (\<open>fd\<close> is its
  contents), there is no write-ahead log and no backup in progress. \<open>jfd\<close> is the journal file when it is open,
  \<open>sjfd\<close> the sub-journal; \<open>files\<close> holds the other files by name. The page cache is a map from page numbers to
  pages, with the operations \<open>MakeDirty\<close>, \<open>MakeClean\<close>, \<open>CleanAll\<close>, \<open>ClearSyncFlags\<close> and \<open>Clear\<close> as their comments in
  src/pagecache/ describe them; the lists behind it are the subject of the theory \<open>Pcache\<close>.

  System calls are numbered: \<open>pio_read io k\<close> is the result of the \<open>k\<close>-th call if it reads a file, \<open>pio_rc io k\<close> if it does
  anything else. A sync, a lock, a truncation or a removal that fails has no effect; a write that fails has written the first
  \<open>pio_torn io k\<close> bytes; a read that fails leaves whatever the buffer holds, \<open>pio_buf io k\<close>.
\<close>

section \<open>The pager\<close>

record pio =
  pio_rc :: "nat \<Rightarrow> rc"
  pio_read :: "nat \<Rightarrow> rc"
  pio_buf :: "nat \<Rightarrow> byte list"
  pio_torn :: "nat \<Rightarrow> nat"
  pio_rand :: "nat \<Rightarrow> uint32"
  pio_safe_append :: bool
  pio_sequential :: bool
  pio_powersafe :: bool
  pio_sector :: nat
  pio_busy :: "nat \<Rightarrow> bool"

record cpage =
  pData :: "byte list"
  pDirty :: bool
  needSync :: bool
  dontWrite :: bool

record PagerSavepoint =
  iOffset :: nat
  iHdrOffset :: nat
  pInSavepoint :: "nat set"
  nOrig :: nat
  iSubRec :: nat

record pager =
  exclusiveMode :: bool
  journalMode :: nat
  useJournal :: bool
  noSync :: bool
  fullSync :: bool
  tempFile :: bool
  readOnly :: bool
  eState :: nat
  eLock :: nat
  changeCountDone :: bool
  setMaster :: bool
  doNotSpill :: nat
  doNotSyncSpill :: nat
  subjInMemory :: bool
  dbSize :: nat
  dbOrigSize :: nat
  dbFileSize :: nat
  dbHintSize :: nat
  errCode :: rc
  nRec :: nat
  cksumInit :: uint32
  nSubRec :: nat
  pInJournal :: "nat set option"
  fd :: "byte list"
  jfd :: "byte list option"
  sjfd :: "byte list option"
  jmem :: bool
  journalOff :: nat
  journalHdr :: nat
  Savepoints :: "PagerSavepoint list"
  dbFileVers :: "byte list"
  nReserve :: nat
  sectorSize :: nat
  pageSize :: nat
  mxPageNumber :: nat
  journalSizeLimit :: int
  mxPathname :: nat
  xCodec :: "(byte list \<Rightarrow> nat \<Rightarrow> nat \<Rightarrow> byte list option) option"
  zJournal :: "byte list"
  files :: "byte list \<Rightarrow> byte list option"
  pcache :: "nat \<Rightarrow> cpage option"
  pcRef :: nat
  calls :: nat

definition PAGER_OPEN :: nat where "PAGER_OPEN = 0"
definition PAGER_READER :: nat where "PAGER_READER = 1"
definition PAGER_WRITER_LOCKED :: nat where "PAGER_WRITER_LOCKED = 2"
definition PAGER_WRITER_CACHEMOD :: nat where "PAGER_WRITER_CACHEMOD = 3"
definition PAGER_WRITER_DBMOD :: nat where "PAGER_WRITER_DBMOD = 4"
definition PAGER_WRITER_FINISHED :: nat where "PAGER_WRITER_FINISHED = 5"
definition PAGER_ERROR :: nat where "PAGER_ERROR = 6"

definition NO_LOCK :: nat where "NO_LOCK = 0"
definition SHARED_LOCK :: nat where "SHARED_LOCK = 1"
definition RESERVED_LOCK :: nat where "RESERVED_LOCK = 2"
definition EXCLUSIVE_LOCK :: nat where "EXCLUSIVE_LOCK = 4"
definition UNKNOWN_LOCK :: nat where "UNKNOWN_LOCK = EXCLUSIVE_LOCK + 1"

definition PAGER_JOURNALMODE_DELETE :: nat where "PAGER_JOURNALMODE_DELETE = 0"
definition PAGER_JOURNALMODE_PERSIST :: nat where "PAGER_JOURNALMODE_PERSIST = 1"
definition PAGER_JOURNALMODE_OFF :: nat where "PAGER_JOURNALMODE_OFF = 2"
definition PAGER_JOURNALMODE_TRUNCATE :: nat where "PAGER_JOURNALMODE_TRUNCATE = 3"
definition PAGER_JOURNALMODE_MEMORY :: nat where "PAGER_JOURNALMODE_MEMORY = 4"
definition PAGER_JOURNALMODE_WAL :: nat where "PAGER_JOURNALMODE_WAL = 5"

definition MAX_SECTOR_SIZE :: nat where "MAX_SECTOR_SIZE = 0x10000"
definition PAGER_MAX_PGNO :: nat where "PAGER_MAX_PGNO = 2147483647"
definition PENDING_BYTE :: nat where "PENDING_BYTE = 0x40000000"

definition PAGER_MJ_PGNO :: "pager \<Rightarrow> nat" where
  "PAGER_MJ_PGNO p = PENDING_BYTE div pageSize p + 1"

definition aJournalMagic :: "byte list" where
  "aJournalMagic = [0xd9, 0xd5, 0x05, 0xf9, 0x20, 0xa1, 0x63, 0xd7]"

definition JOURNAL_PG_SZ :: "pager \<Rightarrow> nat" where
  "JOURNAL_PG_SZ p = pageSize p + 8"

definition JOURNAL_HDR_SZ :: "pager \<Rightarrow> nat" where
  "JOURNAL_HDR_SZ p = sectorSize p"

section \<open>System calls\<close>

definition sys :: "pio \<Rightarrow> pager \<Rightarrow> rc \<times> pager" where
  "sys io p = (pio_rc io (calls p), p \<lparr>calls := Suc (calls p)\<rparr>)"

definition sys_read :: "pio \<Rightarrow> byte list \<Rightarrow> nat \<Rightarrow> nat \<Rightarrow> pager \<Rightarrow> rc \<times> byte list \<times> pager" where
  "sys_read io f n off p = (let (rc, d) = osRead (\<lambda>_. pio_read io (calls p)) f n off in
     (rc, if pio_read io (calls p) = SQLITE_OK then d else pio_buf io (calls p), p \<lparr>calls := Suc (calls p)\<rparr>))"

definition sys_write :: "pio \<Rightarrow> byte list \<Rightarrow> byte list \<Rightarrow> nat \<Rightarrow> pager \<Rightarrow> rc \<times> byte list \<times> pager" where
  "sys_write io f bs off p =
     (let rc = pio_rc io (calls p) in
      (rc, osWrite f (if rc = SQLITE_OK then bs else take (pio_torn io (calls p)) bs) off, p \<lparr>calls := Suc (calls p)\<rparr>))"

definition sys_truncate :: "pio \<Rightarrow> byte list \<Rightarrow> nat \<Rightarrow> pager \<Rightarrow> rc \<times> byte list \<times> pager" where
  "sys_truncate io f n p =
     (let rc = pio_rc io (calls p) in (rc, if rc = SQLITE_OK then osTruncate f n else f, p \<lparr>calls := Suc (calls p)\<rparr>))"

definition db_write :: "pio \<Rightarrow> byte list \<Rightarrow> nat \<Rightarrow> pager \<Rightarrow> rc \<times> pager" where
  "db_write io bs off p = (let (rc, f, p) = sys_write io (fd p) bs off p in (rc, p \<lparr>fd := f\<rparr>))"

definition jrnl_write :: "pio \<Rightarrow> byte list \<Rightarrow> nat \<Rightarrow> pager \<Rightarrow> (rc \<times> pager) option" where
  "jrnl_write io bs off p = do { f \<leftarrow> jfd p; let (rc, f, p) = sys_write io f bs off p; Some (rc, p \<lparr>jfd := Some f\<rparr>) }"

definition jrnl_truncate :: "pio \<Rightarrow> nat \<Rightarrow> pager \<Rightarrow> (rc \<times> pager) option" where
  "jrnl_truncate io n p = do { f \<leftarrow> jfd p; let (rc, f, p) = sys_truncate io f n p; Some (rc, p \<lparr>jfd := Some f\<rparr>) }"

text \<open>The value read is meaningful when the result code is \<^term>\<open>SQLITE_OK\<close>.\<close>

definition read32bits :: "pio \<Rightarrow> byte list \<Rightarrow> nat \<Rightarrow> pager \<Rightarrow> (rc \<times> uint32 \<times> pager) option" where
  "read32bits io f off p = do {
     let (rc, ac, p) = sys_read io f 4 off p;
     if rc = SQLITE_OK then do { v \<leftarrow> ReadUint32 ac; Some (rc, v, p) } else Some (rc, 0, p)
   }"

definition write32bits :: "pio \<Rightarrow> nat \<Rightarrow> uint32 \<Rightarrow> pager \<Rightarrow> (rc \<times> pager) option" where
  "write32bits io off v p = do { ac \<leftarrow> WriteUint32 (replicate 4 0) v; jrnl_write io ac off p }"

text \<open>Closing the journal leaves its contents on disk, unless it is kept in memory.\<close>

definition close_journal :: "pager \<Rightarrow> pager" where
  "close_journal p = (case jfd p of None \<Rightarrow> p
     | Some f \<Rightarrow> p \<lparr>jfd := None, jmem := False, files := (if jmem p then files p else (files p)(zJournal p := Some f))\<rparr>)"

section \<open>Codec and page cache\<close>

text \<open>
  \<open>Codec1\<close> decodes in place. \<open>Codec2\<close> returns the encoded page; when there is no codec it returns the buffer it was not
  given, a nil slice, as \<^term>\<open>None\<close> here.
\<close>

definition Codec1 :: "pager \<Rightarrow> byte list \<Rightarrow> nat \<Rightarrow> rc \<times> byte list" where
  "Codec1 p d pgno = (case xCodec p of None \<Rightarrow> (SQLITE_OK, d)
     | Some f \<Rightarrow> (case f d pgno 3 of None \<Rightarrow> (SQLITE_NOMEM, d) | Some e \<Rightarrow> (SQLITE_OK, e)))"

definition Codec2 :: "pager \<Rightarrow> byte list \<Rightarrow> nat \<Rightarrow> nat \<Rightarrow> byte list option \<times> rc" where
  "Codec2 p d pgno i = (case xCodec p of None \<Rightarrow> (None, SQLITE_OK)
     | Some f \<Rightarrow> (case f d pgno i of None \<Rightarrow> (None, SQLITE_NOMEM) | Some e \<Rightarrow> (Some e, SQLITE_OK)))"

definition set_page :: "nat \<Rightarrow> cpage \<Rightarrow> pager \<Rightarrow> pager" where
  "set_page n c p = p \<lparr>pcache := (pcache p)(n := Some c)\<rparr>"

definition MakeDirty :: "cpage \<Rightarrow> cpage" where
  "MakeDirty c = c \<lparr>pDirty := True, dontWrite := False\<rparr>"

definition MakeClean :: "cpage \<Rightarrow> cpage" where
  "MakeClean c = (if pDirty c then c \<lparr>pDirty := False, needSync := False\<rparr> else c)"

definition pcache_clean_all :: "pager \<Rightarrow> pager" where
  "pcache_clean_all p = p \<lparr>pcache := (\<lambda>n. map_option MakeClean (pcache p n))\<rparr>"

definition ClearSyncFlags :: "pager \<Rightarrow> pager" where
  "ClearSyncFlags p = p \<lparr>pcache := (\<lambda>n. map_option (\<lambda>c. if pDirty c then c \<lparr>needSync := False\<rparr> else c) (pcache p n))\<rparr>"

definition pcache_truncate :: "nat \<Rightarrow> pager \<Rightarrow> pager" where
  "pcache_truncate n p = p \<lparr>pcache := (\<lambda>k. if k > n then None else pcache p k)\<rparr>"

definition pager_reset :: "pager \<Rightarrow> pager" where
  "pager_reset p = p \<lparr>pcache := (\<lambda>_. None)\<rparr>"

section \<open>Journal headers\<close>

definition journalHdrOffset :: "pager \<Rightarrow> nat option" where
  "journalHdrOffset p = do {
     assertion (JOURNAL_HDR_SZ p \<noteq> 0);
     let c = journalOff p;
     let offset = (if c \<noteq> 0 then ((c - 1) div JOURNAL_HDR_SZ p + 1) * JOURNAL_HDR_SZ p else 0);
     assertion (offset mod JOURNAL_HDR_SZ p = 0);
     assertion (offset \<ge> c);
     assertion (offset - c < JOURNAL_HDR_SZ p);
     Some offset
   }"

definition zeroJournalHdr :: "pio \<Rightarrow> bool \<Rightarrow> pager \<Rightarrow> (rc \<times> pager) option" where
  "zeroJournalHdr io doTruncate p = do {
     assertion (jfd p \<noteq> None);
     if journalOff p = 0 then Some (SQLITE_OK, p)
     else do {
       let iLimit = journalSizeLimit p;
       (rc, p) \<leftarrow> (if doTruncate \<or> iLimit = 0 then jrnl_truncate io 0 p else jrnl_write io (replicate 28 0) 0 p);
       let (rc, p) = (if rc = SQLITE_OK \<and> \<not> noSync p then sys io p else (rc, p));
       if rc = SQLITE_OK \<and> iLimit > 0 then do {
         f \<leftarrow> jfd p;
         let (rc, p) = sys io p;
         if rc = SQLITE_OK \<and> int (length f) > iLimit then jrnl_truncate io (nat iLimit) p else Some (rc, p)
       } else Some (rc, p)
     }
   }"

text \<open>The loop of \<open>writeJournalHdr\<close> that fills the header sector, \<open>sz\<close> bytes, with copies of \<open>z\<close>; \<open>nWrite\<close> bytes are written.\<close>

function hdr_writes :: "pio \<Rightarrow> byte list \<Rightarrow> nat \<Rightarrow> nat \<Rightarrow> pager \<Rightarrow> (rc \<times> pager) option" where
  "hdr_writes io z sz nWrite p =
     (if z \<noteq> [] \<and> nWrite < sz then
        case jrnl_write io z (journalOff p) p of None \<Rightarrow> None
        | Some (rc, p') \<Rightarrow>
            if \<not> journalHdr p' \<le> journalOff p' then None
            else let p' = p' \<lparr>journalOff := journalOff p' + length z\<rparr> in
              if rc = SQLITE_OK then hdr_writes io z sz (nWrite + length z) p' else Some (rc, p')
      else Some (SQLITE_OK, p))"
  by pat_completeness auto
termination
  by (relation "measure (\<lambda>(_, z, sz, nWrite, p). sz - nWrite)") (auto simp: diff_less_mono2 neq_Nil_conv)

declare hdr_writes.simps [simp del]

text \<open>The 28 bytes of a header: magic number and record count, or zeros while these are not known to be on disk.\<close>

definition hdr_bytes :: "byte list \<Rightarrow> uint32 \<Rightarrow> uint32 \<Rightarrow> uint32 \<Rightarrow> uint32 \<Rightarrow> byte list" where
  "hdr_bytes start ck n sec pgsz = start @ bytes32 ck @ bytes32 n @ bytes32 sec @ bytes32 pgsz"

definition writeJournalHdr :: "pio \<Rightarrow> pager \<Rightarrow> (rc \<times> pager) option" where
  "writeJournalHdr io p = do {
     assertion (jfd p \<noteq> None);
     let nHeader = (if pageSize p > JOURNAL_HDR_SZ p then JOURNAL_HDR_SZ p else pageSize p);
     assertion (28 \<le> nHeader);
     let p = p \<lparr>Savepoints := map (\<lambda>s. if iHdrOffset s = 0 then s \<lparr>iHdrOffset := journalOff p\<rparr> else s) (Savepoints p)\<rparr>;
     off \<leftarrow> journalHdrOffset p;
     let p = p \<lparr>journalHdr := off, journalOff := off\<rparr>;
     let start = (if noSync p \<or> journalMode p = PAGER_JOURNALMODE_MEMORY \<or> pio_safe_append io
       then aJournalMagic @ bytes32 0xffffffff else replicate 12 0);
     let p = p \<lparr>cksumInit := pio_rand io (calls p)\<rparr>;
     let zHeader = hdr_bytes start (cksumInit p) (of_nat (dbOrigSize p)) (of_nat (sectorSize p)) (of_nat (pageSize p))
       @ replicate (nHeader - 28) 0;
     hdr_writes io zHeader (JOURNAL_HDR_SZ p) 0 p
   }"

text \<open>
  \<open>sqlite3PagerSetPagesize\<close> for a file database, as called with a negative \<open>nReserve\<close>. The allocation of the new buffer
  counts as a call.
\<close>

definition sqlite3PagerSetPagesize :: "pio \<Rightarrow> nat \<Rightarrow> pager \<Rightarrow> (rc \<times> pager) option" where
  "sqlite3PagerSetPagesize io sz p = do {
     assertion (sz = 0 \<or> 512 \<le> sz \<and> sz \<le> SQLITE_MAX_PAGE_SIZE);
     (rc, p) \<leftarrow> (if pcRef p = 0 \<and> sz \<noteq> 0 \<and> sz \<noteq> pageSize p then do {
         let (rc, nByte, p) = (if eState p > PAGER_OPEN then let (rc, p) = sys io p in (rc, length (fd p), p) else (SQLITE_OK, 0, p));
         if rc \<noteq> SQLITE_OK then Some (rc, p)
         else do {
           let (rc, p) = sys io p;
           if rc \<noteq> SQLITE_OK then Some (SQLITE_NOMEM, p)
           else Some (SQLITE_OK, (pager_reset p) \<lparr>dbSize := (nByte + sz - 1) div sz, pageSize := sz\<rparr>)
         }
       } else Some (SQLITE_OK, p));
     if rc = SQLITE_OK then do { assertion (nReserve p < 1000); Some (rc, p) } else Some (rc, p)
   }"

text \<open>Result code, record count, database size and the pager; the two values count when the result is \<^term>\<open>SQLITE_OK\<close>.\<close>

definition readJournalHdr :: "pio \<Rightarrow> bool \<Rightarrow> nat \<Rightarrow> pager \<Rightarrow> (rc \<times> nat \<times> nat \<times> pager) option" where
  "readJournalHdr io isHot journalSize p = do {
     f \<leftarrow> jfd p;
     off \<leftarrow> journalHdrOffset p;
     let p = p \<lparr>journalOff := off\<rparr>;
     if off + JOURNAL_HDR_SZ p > journalSize then Some (SQLITE_DONE, 0, 0, p)
     else do {
       let (rc, p) = (if isHot \<or> off \<noteq> journalHdr p then
           let (rc, aMagic, p) = sys_read io f 8 off p in
           (if rc = SQLITE_OK \<and> aMagic \<noteq> aJournalMagic then SQLITE_DONE else rc, p)
         else (SQLITE_OK, p));
       if rc \<noteq> SQLITE_OK then Some (rc, 0, 0, p)
       else do {
         (rc, n, p) \<leftarrow> read32bits io f (off + 8) p;
         if rc \<noteq> SQLITE_OK then Some (rc, 0, 0, p)
         else do {
           (rc, ck, p) \<leftarrow> read32bits io f (off + 12) p;
           if rc \<noteq> SQLITE_OK then Some (rc, 0, 0, p)
           else do {
             let p = p \<lparr>cksumInit := ck\<rparr>;
             (rc, mx, p) \<leftarrow> read32bits io f (off + 16) p;
             if rc \<noteq> SQLITE_OK then Some (rc, 0, 0, p)
             else if journalOff p \<noteq> 0 then
               Some (SQLITE_OK, unat n, unat mx, p \<lparr>journalOff := journalOff p + JOURNAL_HDR_SZ p\<rparr>)
             else do {
               (rc, sec, p) \<leftarrow> read32bits io f (off + 20) p;
               if rc \<noteq> SQLITE_OK then Some (rc, 0, 0, p)
               else do {
                 (rc, pgsz, p) \<leftarrow> read32bits io f (off + 24) p;
                 if rc \<noteq> SQLITE_OK then Some (rc, 0, 0, p)
                 else do {
                   let pgsz = (if pgsz = 0 then of_nat (pageSize p) else pgsz);
                   if pgsz < 512 \<or> sec < 32 \<or> unat pgsz > SQLITE_MAX_PAGE_SIZE \<or> unat sec > MAX_SECTOR_SIZE \<or>
                      (pgsz - 1) AND pgsz \<noteq> 0 \<or> (sec - 1) AND sec \<noteq> 0
                   then Some (SQLITE_DONE, 0, 0, p)
                   else do {
                     (rc, p) \<leftarrow> sqlite3PagerSetPagesize io (unat pgsz) p;
                     let p = p \<lparr>sectorSize := unat sec\<rparr>;
                     Some (rc, unat n, unat mx, p \<lparr>journalOff := journalOff p + JOURNAL_HDR_SZ p\<rparr>)
                   }
                 }
               }
             }
           }
         }
       }
     }
   }"

section \<open>Master journal names\<close>

text \<open>
  A name is a list of bytes; its checksum sums them as signed characters. \<open>readMasterJournal\<close> gives the contents of the
  buffer up to the terminator that it writes last, the empty list when there is no name.
\<close>

definition name_cksum :: "byte list \<Rightarrow> uint32" where
  "name_cksum z = foldl (\<lambda>c b. c + scast b) 0 z"

definition readMasterJournal :: "pio \<Rightarrow> byte list \<Rightarrow> nat \<Rightarrow> pager \<Rightarrow> (rc \<times> byte list \<times> pager) option" where
  "readMasterJournal io f nMaster p = do {
     let (rc, p) = sys io p;
     let szJ = length f;
     if rc \<noteq> SQLITE_OK \<or> szJ < 16 then Some (rc, [], p)
     else do {
       (rc, len, p) \<leftarrow> read32bits io f (szJ - 16) p;
       if rc \<noteq> SQLITE_OK \<or> unat len \<ge> nMaster then Some (rc, [], p)
       else do {
         (rc, cksum, p) \<leftarrow> read32bits io f (szJ - 12) p;
         if rc \<noteq> SQLITE_OK then Some (rc, [], p)
         else do {
           let (rc, aMagic, p) = sys_read io f 8 (szJ - 8) p;
           if rc \<noteq> SQLITE_OK \<or> aMagic \<noteq> aJournalMagic then Some (rc, [], p)
           else if szJ < 16 + unat len then Some (SQLITE_IOERR, [], p)
           else do {
             let (rc, z, p) = sys_read io f (unat len) (szJ - 16 - unat len) p;
             if rc \<noteq> SQLITE_OK then Some (rc, [], p)
             else Some (SQLITE_OK, if cksum - name_cksum z \<noteq> 0 then [] else z, p)
           }
         }
       }
     }
   }"

definition writeMasterJournal :: "pio \<Rightarrow> byte list option \<Rightarrow> pager \<Rightarrow> (rc \<times> pager) option" where
  "writeMasterJournal io zMaster p = do {
     assertion (\<not> setMaster p);
     case zMaster of None \<Rightarrow> Some (SQLITE_OK, p)
     | Some z \<Rightarrow>
         if journalMode p = PAGER_JOURNALMODE_MEMORY \<or> journalMode p = PAGER_JOURNALMODE_OFF then Some (SQLITE_OK, p)
         else do {
           let p = p \<lparr>setMaster := True\<rparr>;
           assertion (jfd p \<noteq> None);
           assertion (journalHdr p \<le> journalOff p);
           let z = takeWhile (\<lambda>b. b \<noteq> 0) z;
           let nMaster = length z;
           off \<leftarrow> (if fullSync p then journalHdrOffset p else Some (journalOff p));
           let p = p \<lparr>journalOff := off\<rparr>;
           (rc, p) \<leftarrow> write32bits io off (of_nat (PAGER_MJ_PGNO p)) p;
           if rc \<noteq> SQLITE_OK then Some (rc, p)
           else do {
             (rc, p) \<leftarrow> jrnl_write io z (off + 4) p;
             if rc \<noteq> SQLITE_OK then Some (rc, p)
             else do {
               (rc, p) \<leftarrow> write32bits io (off + 4 + nMaster) (of_nat nMaster) p;
               if rc \<noteq> SQLITE_OK then Some (rc, p)
               else do {
                 (rc, p) \<leftarrow> write32bits io (off + 4 + nMaster + 4) (name_cksum z) p;
                 if rc \<noteq> SQLITE_OK then Some (rc, p)
                 else do {
                   (rc, p) \<leftarrow> jrnl_write io aJournalMagic (off + 4 + nMaster + 8) p;
                   if rc \<noteq> SQLITE_OK then Some (rc, p)
                   else do {
                     let p = p \<lparr>journalOff := journalOff p + nMaster + 20\<rparr>;
                     f \<leftarrow> jfd p;
                     let (rc, p) = sys io p;
                     if rc = SQLITE_OK \<and> length f > journalOff p then jrnl_truncate io (journalOff p) p
                     else Some (rc, p)
                   }
                 }
               }
             }
           }
         }
   }"

section \<open>Locks\<close>

definition pagerUnlockDb :: "pio \<Rightarrow> nat \<Rightarrow> pager \<Rightarrow> (rc \<times> pager) option" where
  "pagerUnlockDb io lock p = do {
     assertion (\<not> exclusiveMode p \<or> eLock p = lock);
     assertion (lock = NO_LOCK \<or> lock = SHARED_LOCK);
     assertion (eLock p \<ge> lock);
     let (rc, p) = sys io p;
     Some (rc, if eLock p \<noteq> UNKNOWN_LOCK then p \<lparr>eLock := lock\<rparr> else p)
   }"

definition pagerLockDb :: "pio \<Rightarrow> nat \<Rightarrow> pager \<Rightarrow> (rc \<times> pager) option" where
  "pagerLockDb io lock p = do {
     assertion (lock = SHARED_LOCK \<or> lock = RESERVED_LOCK \<or> lock = EXCLUSIVE_LOCK);
     if eLock p < lock \<or> eLock p = UNKNOWN_LOCK then
       let (rc, p) = sys io p in
       Some (rc, if rc = SQLITE_OK \<and> (eLock p \<noteq> UNKNOWN_LOCK \<or> lock = EXCLUSIVE_LOCK) then p \<lparr>eLock := lock\<rparr> else p)
     else Some (SQLITE_OK, p)
   }"

text \<open>The busy handler decides about another attempt.\<close>

partial_function (option) wait_loop :: "pio \<Rightarrow> nat \<Rightarrow> pager \<Rightarrow> (rc \<times> pager) option" where
  "wait_loop io lock p = do {
     (rc, p) \<leftarrow> pagerLockDb io lock p;
     if rc = SQLITE_BUSY \<and> pio_busy io (calls p) then wait_loop io lock p else Some (rc, p)
   }"

definition pager_wait_on_lock :: "pio \<Rightarrow> nat \<Rightarrow> pager \<Rightarrow> (rc \<times> pager) option" where
  "pager_wait_on_lock io lock p = do {
     assertion (eLock p \<ge> lock \<or> eLock p = NO_LOCK \<and> lock = SHARED_LOCK \<or> eLock p = RESERVED_LOCK \<and> lock = EXCLUSIVE_LOCK);
     wait_loop io lock p
   }"

definition sqlite3PagerExclusiveLock :: "pio \<Rightarrow> pager \<Rightarrow> (rc \<times> pager) option" where
  "sqlite3PagerExclusiveLock io p = do {
     assertion (eState p = PAGER_WRITER_CACHEMOD \<or> eState p = PAGER_WRITER_DBMOD \<or> eState p = PAGER_WRITER_LOCKED);
     pager_wait_on_lock io EXCLUSIVE_LOCK p
   }"

definition pager_error :: "rc \<Rightarrow> pager \<Rightarrow> rc \<times> pager" where
  "pager_error rc p = (rc, if rc \<in> {SQLITE_FULL, SQLITE_IOERR, SQLITE_IOERR_NOMEM, SQLITE_IOERR_SHORT_READ}
     then p \<lparr>errCode := rc, eState := PAGER_ERROR\<rparr> else p)"

definition sqlite3PagerSync :: "pio \<Rightarrow> pager \<Rightarrow> rc \<times> pager" where
  "sqlite3PagerSync io p = (let (rc, p) = sys io p in
     if \<not> noSync p then (rc, p) else (if rc = SQLITE_NOTFOUND then SQLITE_OK else rc, p))"

section \<open>Savepoints\<close>

definition SubjournalRequiresPage :: "nat \<Rightarrow> pager \<Rightarrow> bool" where
  "SubjournalRequiresPage pgno p = list_ex (\<lambda>s. nOrig s \<ge> pgno \<and> pgno \<notin> pInSavepoint s) (Savepoints p)"

definition AddToSavepointBitvecs :: "nat \<Rightarrow> pager \<Rightarrow> pager" where
  "AddToSavepointBitvecs pgno p =
     p \<lparr>Savepoints := map (\<lambda>s. if pgno \<le> nOrig s then s \<lparr>pInSavepoint := insert pgno (pInSavepoint s)\<rparr> else s) (Savepoints p)\<rparr>"

definition ReleaseAllSavepoints :: "pager \<Rightarrow> pager" where
  "ReleaseAllSavepoints p = p \<lparr>Savepoints := [], nSubRec := 0, sjfd := (if exclusiveMode p then sjfd p else None)\<rparr>"

section \<open>Page contents\<close>

definition readDbPage :: "pio \<Rightarrow> nat \<Rightarrow> pager \<Rightarrow> (rc \<times> byte list \<times> pager) option" where
  "readDbPage io pgno p = do {
     assertion (eState p \<ge> PAGER_READER);
     let (rc, d, p) = sys_read io (fd p) (pageSize p) ((pgno - 1) * pageSize p) p;
     let rc = (if rc = SQLITE_IOERR_SHORT_READ then SQLITE_OK else rc);
     let p = (if pgno = 1 then p \<lparr>dbFileVers := (if rc \<noteq> SQLITE_OK then replicate 16 0xff else take 16 (drop 24 d))\<rparr> else p);
     let (rc, d) = Codec1 p d pgno;
     Some (rc, d, p)
   }"

text \<open>
  \<open>Acquire\<close>: the page is in the cache afterwards. The allocation of a page that is not in the cache counts as a call.
  On an error the source also ends the transaction if no page is in use; a transaction always has page 1 in use.
\<close>

definition new_page :: "byte list \<Rightarrow> cpage" where
  "new_page d = \<lparr>pData = d, pDirty = False, needSync = False, dontWrite = False\<rparr>"

definition Acquire :: "pio \<Rightarrow> nat \<Rightarrow> bool \<Rightarrow> pager \<Rightarrow> (rc \<times> pager) option" where
  "Acquire io pgno noContent p = do {
     assertion (eState p \<ge> PAGER_READER);
     if pgno = 0 then Some (SQLITE_CORRUPT, p)
     else if errCode p \<noteq> SQLITE_OK then Some (errCode p, p)
     else if pcache p pgno \<noteq> None \<and> \<not> noContent then do {
       assertion (pgno \<le> PAGER_MAX_PGNO \<and> pgno \<noteq> PAGER_MJ_PGNO p);
       Some (SQLITE_OK, p)
     }
     else do {
       let (rc, p) = (if pcache p pgno = None then sys io p else (SQLITE_OK, p));
       if rc \<noteq> SQLITE_OK then Some (SQLITE_NOMEM, p)
       else if pgno > PAGER_MAX_PGNO \<or> pgno = PAGER_MJ_PGNO p then Some (SQLITE_CORRUPT, p \<lparr>pcache := (pcache p)(pgno := None)\<rparr>)
       else if dbSize p < pgno \<or> noContent then
         if pgno > mxPageNumber p then Some (SQLITE_FULL, p \<lparr>pcache := (pcache p)(pgno := None)\<rparr>)
         else
           let p = (if noContent then AddToSavepointBitvecs pgno
                 (if pgno \<le> dbOrigSize p then p \<lparr>pInJournal := map_option (insert pgno) (pInJournal p)\<rparr> else p) else p);
               c = (case pcache p pgno of None \<Rightarrow> new_page (replicate (pageSize p) 0) | Some c \<Rightarrow> c \<lparr>pData := replicate (pageSize p) 0\<rparr>)
           in Some (SQLITE_OK, set_page pgno c p)
       else do {
         (rc, d, p) \<leftarrow> readDbPage io pgno p;
         Some (rc, if rc = SQLITE_OK then set_page pgno (new_page d) p else p)
       }
     }
   }"

section \<open>Playing back\<close>

text \<open>The sum over every 200th byte from the end of the page; \<open>i\<close> is the index of the next byte.\<close>

function cksum_loop :: "byte list \<Rightarrow> int \<Rightarrow> uint32 \<Rightarrow> uint32 option" where
  "cksum_loop d i ck = (if i > 0 then (if nat i < length d then cksum_loop d (i - 200) (ck + ucast (d ! nat i)) else None) else Some ck)"
  by pat_completeness auto
termination
  by (relation "measure (\<lambda>(_, i, _). nat i)") auto

declare cksum_loop.simps [simp del]

definition pager_cksum :: "pager \<Rightarrow> byte list \<Rightarrow> uint32 option" where
  "pager_cksum p d = cksum_loop d (int (pageSize p) - 200) (cksumInit p)"

text \<open>
  The parts of \<open>pager_playback_one_page\<close> behind the checks: the page goes to the database file when the record is on
  disk, and to the cache when it has the page. \<open>off\<close> is the offset behind the record.
\<close>

definition playback_file :: "pio \<Rightarrow> nat \<Rightarrow> byte list \<Rightarrow> nat \<Rightarrow> bool \<Rightarrow> bool \<Rightarrow> pager \<Rightarrow> (rc \<times> bool \<times> pager) option" where
  "playback_file io off d pgno isMain isSavepnt p = do {
     let isSynced = (if isMain then noSync p \<or> off \<le> journalHdr p
       else (case pcache p pgno of None \<Rightarrow> True | Some c \<Rightarrow> \<not> needSync c));
     if (eState p \<ge> PAGER_WRITER_DBMOD \<or> eState p = PAGER_OPEN) \<and> isSynced then
       let (rc, p) = db_write io d ((pgno - 1) * pageSize p) p in
       Some (rc, True, if pgno > dbFileSize p then p \<lparr>dbFileSize := pgno\<rparr> else p)
     else if \<not> isMain \<and> pcache p pgno = None then do {
       assertion isSavepnt;
       assertion (doNotSpill p = 0);
       (rc, p) \<leftarrow> Acquire io pgno True (p \<lparr>doNotSpill := doNotSpill p + 1\<rparr>);
       assertion (doNotSpill p = 1);
       let p = p \<lparr>doNotSpill := doNotSpill p - 1\<rparr>;
       if rc \<noteq> SQLITE_OK then Some (rc, False, p)
       else do { c \<leftarrow> pcache p pgno; Some (SQLITE_OK, True, set_page pgno (MakeDirty c) p) }
     }
     else Some (SQLITE_OK, True, p)
   }"

definition playback_cache :: "nat \<Rightarrow> byte list \<Rightarrow> nat \<Rightarrow> bool \<Rightarrow> bool \<Rightarrow> rc \<Rightarrow> pager \<Rightarrow> rc \<times> pager" where
  "playback_cache off d pgno isMain isSavepnt rc p = (case pcache p pgno of None \<Rightarrow> (rc, p)
     | Some c \<Rightarrow>
         let c = c \<lparr>pData := d\<rparr>;
             c = (if isMain \<and> (\<not> isSavepnt \<or> off \<le> journalHdr p) then MakeClean c else c);
             p = (if pgno = 1 then p \<lparr>dbFileVers := take 16 (drop 24 d)\<rparr> else p);
             (rc, e) = Codec1 p d pgno
         in (rc, set_page pgno (c \<lparr>pData := e\<rparr>) p))"

definition pager_playback_one_page ::
  "pio \<Rightarrow> nat \<Rightarrow> nat set option \<Rightarrow> bool \<Rightarrow> bool \<Rightarrow> pager \<Rightarrow> (rc \<times> nat \<times> nat set option \<times> pager) option" where
  "pager_playback_one_page io off pDone isMain isSavepnt p = do {
     assertion (isMain \<or> pDone \<noteq> None);
     assertion (isSavepnt \<or> pDone = None);
     assertion (eState p \<ge> PAGER_WRITER_CACHEMOD \<or> eState p = PAGER_OPEN \<and> eLock p = EXCLUSIVE_LOCK);
     assertion (eState p \<ge> PAGER_WRITER_CACHEMOD \<or> isMain);
     f \<leftarrow> (if isMain then jfd p else sjfd p);
     (rc, pg, p) \<leftarrow> read32bits io f off p;
     if rc \<noteq> SQLITE_OK then Some (rc, off, pDone, p)
     else do {
       let pgno = unat pg;
       let (rc, d, p) = sys_read io f (pageSize p) (off + 4) p;
       if rc \<noteq> SQLITE_OK then Some (rc, off, pDone, p)
       else do {
         let off = off + pageSize p + 4 + (if isMain then 4 else 0);
         if pgno = 0 \<or> pgno = PAGER_MJ_PGNO p then do { assertion (\<not> isSavepnt); Some (SQLITE_DONE, off, pDone, p) }
         else if pgno > dbSize p \<or> (case pDone of None \<Rightarrow> False | Some s \<Rightarrow> pgno \<in> s) then Some (SQLITE_OK, off, pDone, p)
         else do {
           (rc, p) \<leftarrow> (if isMain then do {
               (rc, cksum, p) \<leftarrow> read32bits io f (off - 4) p;
               if rc \<noteq> SQLITE_OK then Some (rc, p)
               else if isSavepnt then Some (SQLITE_OK, p)
               else do { ck \<leftarrow> pager_cksum p d; Some (if ck \<noteq> cksum then SQLITE_DONE else SQLITE_OK, p) }
             } else Some (SQLITE_OK, p));
           if rc \<noteq> SQLITE_OK then Some (rc, off, pDone, p)
           else do {
             let pDone = map_option (insert pgno) pDone;
             let p = (if pgno = 1 \<and> nReserve p \<noteq> unat (d ! 20) then p \<lparr>nReserve := unat (d ! 20)\<rparr> else p);
             assertion (eState p \<noteq> PAGER_OPEN \<or> pcache p pgno = None);
             (rc, go, p) \<leftarrow> playback_file io off d pgno isMain isSavepnt p;
             if \<not> go then Some (rc, off, pDone, p)
             else let (rc, p) = playback_cache off d pgno isMain isSavepnt rc p in Some (rc, off, pDone, p)
           }
         }
       }
     }
   }"

definition pager_truncate :: "pio \<Rightarrow> nat \<Rightarrow> pager \<Rightarrow> (rc \<times> pager) option" where
  "pager_truncate io n p = do {
     assertion (eState p \<noteq> PAGER_ERROR);
     assertion (eState p \<noteq> PAGER_READER);
     if eState p \<ge> PAGER_WRITER_DBMOD \<or> eState p = PAGER_OPEN then do {
       assertion (eLock p = EXCLUSIVE_LOCK);
       let (rc, p) = sys io p;
       let currentSize = length (fd p);
       let newSize = pageSize p * n;
       if rc = SQLITE_OK \<and> currentSize \<noteq> newSize then
         let (rc, p) = (if currentSize > newSize then let (rc, f, p) = sys_truncate io (fd p) newSize p in (rc, p \<lparr>fd := f\<rparr>)
             else if currentSize + pageSize p \<le> newSize then db_write io (replicate (pageSize p) 0) (newSize - pageSize p) p
             else (rc, p))
         in Some (rc, if rc = SQLITE_OK then p \<lparr>dbFileSize := n\<rparr> else p)
       else Some (rc, p)
     } else Some (SQLITE_OK, p)
   }"

definition setSectorSize :: "pio \<Rightarrow> pager \<Rightarrow> pager" where
  "setSectorSize io p = p \<lparr>sectorSize := (if tempFile p \<or> pio_powersafe io then 512
     else (let s = (if pio_sector io < 32 then 512 else pio_sector io) in if s > MAX_SECTOR_SIZE then MAX_SECTOR_SIZE else s))\<rparr>"

text \<open>How \<open>pager_end_transaction\<close> finalizes the journal.\<close>

definition finalize_journal :: "pio \<Rightarrow> bool \<Rightarrow> pager \<Rightarrow> (rc \<times> pager) option" where
  "finalize_journal io hasMaster p =
     (if jfd p = None then Some (SQLITE_OK, p)
      else if jmem p then do { assertion (journalMode p = PAGER_JOURNALMODE_MEMORY); Some (SQLITE_OK, close_journal p) }
      else if journalMode p = PAGER_JOURNALMODE_TRUNCATE then do {
        (rc, p) \<leftarrow> (if journalOff p = 0 then Some (SQLITE_OK, p) else jrnl_truncate io 0 p);
        Some (rc, p \<lparr>journalOff := 0\<rparr>)
      }
      else if journalMode p = PAGER_JOURNALMODE_PERSIST \<or> exclusiveMode p \<and> journalMode p \<noteq> PAGER_JOURNALMODE_WAL then do {
        (rc, p) \<leftarrow> zeroJournalHdr io hasMaster p;
        Some (rc, p \<lparr>journalOff := 0\<rparr>)
      }
      else do {
        assertion (journalMode p \<in> {PAGER_JOURNALMODE_DELETE, PAGER_JOURNALMODE_MEMORY, PAGER_JOURNALMODE_WAL});
        let p = close_journal p;
        if tempFile p then Some (SQLITE_OK, p)
        else let (rc, p) = sys io p in Some (rc, if rc = SQLITE_OK then p \<lparr>files := (files p)(zJournal p := None)\<rparr> else p)
      })"

definition pager_end_transaction :: "pio \<Rightarrow> bool \<Rightarrow> pager \<Rightarrow> (rc \<times> pager) option" where
  "pager_end_transaction io hasMaster p = do {
     assertion (eState p \<noteq> PAGER_ERROR);
     if eState p < PAGER_WRITER_LOCKED \<and> eLock p < RESERVED_LOCK then Some (SQLITE_OK, p)
     else do {
       let p = ReleaseAllSavepoints p;
       assertion (jfd p \<noteq> None \<or> pInJournal p = None);
       (rc, p) \<leftarrow> finalize_journal io hasMaster p;
       let p = pcache_truncate (dbSize p) (pcache_clean_all (p \<lparr>pInJournal := None, nRec := 0\<rparr>));
       (rc2, p) \<leftarrow> (if exclusiveMode p then Some (SQLITE_OK, p)
         else do { (rc2, p) \<leftarrow> pagerUnlockDb io SHARED_LOCK p; Some (rc2, p \<lparr>changeCountDone := False\<rparr>) });
       Some (if rc = SQLITE_OK then rc2 else rc, p \<lparr>eState := PAGER_READER, setMaster := False\<rparr>)
     }
   }"

text \<open>
  \<open>pager_delmaster\<close>: \<open>m\<close> is the rest of the master journal, the names of journals, each with a terminating zero. The result
  code \<^term>\<open>SQLITE_DONE\<close> stands for the end of the loop without a match.
\<close>

definition file_at :: "pager \<Rightarrow> byte list \<Rightarrow> byte list option" where
  "file_at p z = (if z = zJournal p \<and> jfd p \<noteq> None \<and> \<not> jmem p then jfd p else files p z)"

function delmaster_loop :: "pio \<Rightarrow> byte list \<Rightarrow> byte list \<Rightarrow> pager \<Rightarrow> (rc \<times> pager) option" where
  "delmaster_loop io zMaster m p =
     (if m = [] then Some (SQLITE_DONE, p)
      else
        let z = takeWhile (\<lambda>b. b \<noteq> 0) m; rest = drop (length z + 1) m; (rc, p) = sys io p in
        if rc \<noteq> SQLITE_OK then Some (rc, p)
        else (case file_at p z of None \<Rightarrow> delmaster_loop io zMaster rest p
          | Some f \<Rightarrow>
              let (rc, p) = sys io p in
              if rc \<noteq> SQLITE_OK then Some (rc, p)
              else (case readMasterJournal io f (mxPathname p + 1) p of None \<Rightarrow> None
                | Some (rc, zPtr, p) \<Rightarrow>
                    if rc \<noteq> SQLITE_OK then Some (rc, p)
                    else if takeWhile (\<lambda>b. b \<noteq> 0) zPtr \<noteq> [] \<and> takeWhile (\<lambda>b. b \<noteq> 0) zPtr = zMaster then Some (SQLITE_OK, p)
                    else delmaster_loop io zMaster rest p)))"
  by pat_completeness auto
termination
  by (relation "measure (\<lambda>(_, _, m, _). length m)") auto

declare delmaster_loop.simps [simp del]

definition pager_delmaster :: "pio \<Rightarrow> byte list \<Rightarrow> pager \<Rightarrow> (rc \<times> pager) option" where
  "pager_delmaster io zMaster p = do {
     let (rc, p) = sys io p;
     if rc \<noteq> SQLITE_OK then Some (SQLITE_NOMEM, p)
     else do {
       let (rc, p) = sys io p;
       if rc \<noteq> SQLITE_OK then Some (rc, p)
       else (case file_at p zMaster of None \<Rightarrow> Some (SQLITE_CANTOPEN, p)
         | Some m \<Rightarrow> do {
             let (rc, p) = sys io p;
             if rc \<noteq> SQLITE_OK then Some (rc, p)
             else do {
               let (rc, p) = sys io p;
               if rc \<noteq> SQLITE_OK then Some (SQLITE_NOMEM, p)
               else do {
                 let (rc, z, p) = sys_read io m (length m) 0 p;
                 if rc \<noteq> SQLITE_OK then Some (rc, p)
                 else do {
                   (rc, p) \<leftarrow> delmaster_loop io zMaster z p;
                   if rc \<noteq> SQLITE_DONE then Some (rc, p)
                   else let (rc, p) = sys io p in Some (rc, if rc = SQLITE_OK then p \<lparr>files := (files p)(zMaster := None)\<rparr> else p)
                 }
               }
             }
           })
     }
   }"

text \<open>
  \<open>pager_playback\<close>. The records behind one header: \<open>n\<close> is the number of records left. The flag in the result is false for
  a jump to the end of the function.
\<close>

fun playback_records :: "pio \<Rightarrow> nat \<Rightarrow> nat \<Rightarrow> bool \<Rightarrow> pager \<Rightarrow> (bool \<times> rc \<times> bool \<times> pager) option" where
  "playback_records io szJ 0 reset p = Some (True, SQLITE_OK, reset, p)"
| "playback_records io szJ (Suc n) reset p = do {
     let p = (if reset then pager_reset p else p);
     (rc, off, _, p) \<leftarrow> pager_playback_one_page io (journalOff p) None True False p;
     let p = p \<lparr>journalOff := off\<rparr>;
     if rc = SQLITE_OK then playback_records io szJ n False p
     else if rc = SQLITE_DONE then Some (True, rc, False, p \<lparr>journalOff := szJ\<rparr>)
     else if rc = SQLITE_IOERR_SHORT_READ then Some (False, SQLITE_OK, False, p)
     else Some (False, rc, False, p)
   }"

text \<open>The loop over the headers. It ends because every header lies behind the one before; here \<open>fuel\<close> bounds their number.\<close>

fun playback_loop :: "pio \<Rightarrow> bool \<Rightarrow> nat \<Rightarrow> nat \<Rightarrow> bool \<Rightarrow> pager \<Rightarrow> (rc \<times> pager) option" where
  "playback_loop io isHot szJ 0 reset p = None"
| "playback_loop io isHot szJ (Suc fuel) reset p = do {
     (rc, n, mxPg, p) \<leftarrow> readJournalHdr io isHot szJ p;
     if rc \<noteq> SQLITE_OK then Some (if rc = SQLITE_DONE then SQLITE_OK else rc, p)
     else do {
       n \<leftarrow> (if n = 0xffffffff then do {
             assertion (journalOff p = JOURNAL_HDR_SZ p);
             Some ((szJ - JOURNAL_HDR_SZ p) div JOURNAL_PG_SZ p)
           } else Some n);
       let n = (if n = 0 \<and> \<not> isHot \<and> journalHdr p + JOURNAL_HDR_SZ p = journalOff p then (szJ - journalOff p) div JOURNAL_PG_SZ p else n);
       (rc, p) \<leftarrow> (if journalOff p = JOURNAL_HDR_SZ p then do {
             (rc, p) \<leftarrow> pager_truncate io mxPg p;
             Some (rc, if rc = SQLITE_OK then p \<lparr>dbSize := mxPg\<rparr> else p)
           } else Some (SQLITE_OK, p));
       if rc \<noteq> SQLITE_OK then Some (rc, p)
       else do {
         (go, rc, reset, p) \<leftarrow> playback_records io szJ n reset p;
         if go then playback_loop io isHot szJ fuel reset p else Some (rc, p)
       }
     }
   }"

text \<open>The part of \<open>pager_playback\<close> behind the label \<open>end_playback\<close>.\<close>

definition playback_end :: "pio \<Rightarrow> bool \<Rightarrow> rc \<Rightarrow> pager \<Rightarrow> (rc \<times> pager) option" where
  "playback_end io res rc p = do {
     let p = p \<lparr>changeCountDone := tempFile p\<rparr>;
     (rc, zMaster, p) \<leftarrow> (if rc = SQLITE_OK then do { f \<leftarrow> jfd p; readMasterJournal io f (mxPathname p + 1) p } else Some (rc, [], p));
     let zMaster = takeWhile (\<lambda>b. b \<noteq> 0) zMaster;
     let (rc, p) = (if rc = SQLITE_OK \<and> (eState p \<ge> PAGER_WRITER_DBMOD \<or> eState p = PAGER_OPEN) then sqlite3PagerSync io p else (rc, p));
     (rc, p) \<leftarrow> (if rc = SQLITE_OK then pager_end_transaction io (zMaster \<noteq> []) p else Some (rc, p));
     (rc, p) \<leftarrow> (if rc = SQLITE_OK \<and> zMaster \<noteq> [] \<and> res then pager_delmaster io zMaster p else Some (rc, p));
     Some (rc, setSectorSize io p)
   }"

definition pager_playback :: "pio \<Rightarrow> bool \<Rightarrow> pager \<Rightarrow> (rc \<times> pager) option" where
  "pager_playback io isHot p = do {
     f \<leftarrow> jfd p;
     let (rc, p) = sys io p;
     let szJ = length f;
     if rc \<noteq> SQLITE_OK then playback_end io True rc p
     else do {
       (rc, zMaster, p) \<leftarrow> readMasterJournal io f (mxPathname p + 1) p;
       let zMaster = takeWhile (\<lambda>b. b \<noteq> 0) zMaster;
       let (rc, res, p) = (if rc = SQLITE_OK \<and> zMaster \<noteq> [] then let (rc, p) = sys io p in (rc, file_at p zMaster \<noteq> None, p) else (rc, True, p));
       if rc \<noteq> SQLITE_OK \<or> \<not> res then playback_end io res rc p
       else do {
         (rc, p) \<leftarrow> playback_loop io isHot szJ (szJ + 2) isHot (p \<lparr>journalOff := 0\<rparr>);
         playback_end io res rc p
       }
     }
   }"

definition pagerSyncHotJournal :: "pio \<Rightarrow> pager \<Rightarrow> (rc \<times> pager) option" where
  "pagerSyncHotJournal io p = do {
     f \<leftarrow> jfd p;
     let (rc, p) = (if \<not> noSync p then sys io p else (SQLITE_OK, p));
     if rc \<noteq> SQLITE_OK then Some (rc, p)
     else let (rc, p) = sys io p in Some (rc, if rc = SQLITE_OK then p \<lparr>journalHdr := length f\<rparr> else p)
   }"

text \<open>The part of \<open>sqlite3PagerSharedLock\<close> that opens a hot journal, for reading and writing, and rolls it back.\<close>

definition hot_rollback :: "pio \<Rightarrow> pager \<Rightarrow> (rc \<times> pager) option" where
  "hot_rollback io p = do {
     (rc, p) \<leftarrow> pagerLockDb io EXCLUSIVE_LOCK p;
     if rc \<noteq> SQLITE_OK then Some (rc, p)
     else do {
       (rc, p) \<leftarrow> (if jfd p = None then do {
           let (rc, p) = sys io p;
           if rc = SQLITE_OK \<and> files p (zJournal p) \<noteq> None then do {
             assertion (\<not> tempFile p);
             let (rc, p) = sys io p;
             Some (rc, if rc = SQLITE_OK then p \<lparr>jfd := files p (zJournal p)\<rparr> else p)
           }
           else Some (rc, p)
         } else Some (SQLITE_OK, p));
       (rc, p) \<leftarrow> (if jfd p \<noteq> None then do {
           assertion (rc = SQLITE_OK);
           (rc, p) \<leftarrow> pagerSyncHotJournal io p;
           if rc \<noteq> SQLITE_OK then Some (rc, p)
           else do { (rc, p) \<leftarrow> pager_playback io True p; Some (rc, p \<lparr>eState := PAGER_OPEN\<rparr>) }
         }
         else if \<not> exclusiveMode p then do { (_, p) \<leftarrow> pagerUnlockDb io SHARED_LOCK p; Some (rc, p) }
         else Some (rc, p));
       if rc \<noteq> SQLITE_OK then Some (pager_error rc p)
       else do {
         assertion (eState p = PAGER_OPEN);
         assertion (eLock p = SHARED_LOCK \<or> exclusiveMode p \<and> eLock p > SHARED_LOCK);
         Some (rc, p)
       }
     }
   }"

section \<open>Writing\<close>

definition openSubJournal :: "pio \<Rightarrow> pager \<Rightarrow> rc \<times> pager" where
  "openSubJournal io p = (if sjfd p \<noteq> None then (SQLITE_OK, p)
     else if journalMode p = PAGER_JOURNALMODE_MEMORY \<or> subjInMemory p then (SQLITE_OK, p \<lparr>sjfd := Some []\<rparr>)
     else let (rc, p) = sys io p in (rc, if rc = SQLITE_OK then p \<lparr>sjfd := Some []\<rparr> else p))"

definition subjrnl_write :: "pio \<Rightarrow> byte list \<Rightarrow> nat \<Rightarrow> pager \<Rightarrow> (rc \<times> pager) option" where
  "subjrnl_write io bs off p = do { f \<leftarrow> sjfd p; let (rc, f, p) = sys_write io f bs off p; Some (rc, p \<lparr>sjfd := Some f\<rparr>) }"

text \<open>The record of \<open>subjournalPage\<close>: page number and contents, without a checksum.\<close>

definition subjournal_record :: "pio \<Rightarrow> byte list \<Rightarrow> nat \<Rightarrow> pager \<Rightarrow> (rc \<times> pager) option" where
  "subjournal_record io d0 pgno p = do {
     let offset = nSubRec p * (4 + pageSize p);
     let (d2, rc) = Codec2 p d0 pgno 7;
     if rc \<noteq> SQLITE_OK then Some (rc, p)
     else do {
       ac \<leftarrow> WriteUint32 (replicate 4 0) (of_nat pgno);
       (rc, p) \<leftarrow> subjrnl_write io ac offset p;
       if rc \<noteq> SQLITE_OK then Some (rc, p)
       else do {
         d \<leftarrow> d2;
         assertion (pageSize p \<le> length d);
         subjrnl_write io (take (pageSize p) d) (offset + 4) p
       }
     }
   }"

definition subjournalPage :: "pio \<Rightarrow> nat \<Rightarrow> pager \<Rightarrow> (rc \<times> pager) option" where
  "subjournalPage io pgno p = do {
     c \<leftarrow> pcache p pgno;
     (rc, p) \<leftarrow> (if journalMode p = PAGER_JOURNALMODE_OFF then Some (SQLITE_OK, p)
       else do {
         assertion (useJournal p);
         assertion (jfd p \<noteq> None);
         assertion (sjfd p \<noteq> None \<or> nSubRec p = 0);
         assertion (pgno \<in> (case pInJournal p of None \<Rightarrow> {} | Some s \<Rightarrow> s) \<or> pgno > dbOrigSize p);
         let (rc, p) = openSubJournal io p;
         if rc \<noteq> SQLITE_OK then Some (rc, p) else subjournal_record io (pData c) pgno p
       });
     if rc \<noteq> SQLITE_OK then Some (rc, p)
     else do {
       assertion (Savepoints p \<noteq> []);
       Some (SQLITE_OK, AddToSavepointBitvecs pgno (p \<lparr>nSubRec := nSubRec p + 1\<rparr>))
     }
   }"

definition pager_open_journal :: "pio \<Rightarrow> pager \<Rightarrow> (rc \<times> pager) option" where
  "pager_open_journal io p = do {
     assertion (eState p = PAGER_WRITER_LOCKED);
     assertion (pInJournal p = None);
     if errCode p \<noteq> SQLITE_OK then Some (errCode p, p)
     else do {
       (rc, p) \<leftarrow> (if journalMode p = PAGER_JOURNALMODE_OFF then Some (SQLITE_OK, p)
         else do {
           let (rc, p) = sys io p;
           if rc \<noteq> SQLITE_OK then Some (SQLITE_NOMEM, p)
           else do {
             let p = p \<lparr>pInJournal := Some {}\<rparr>;
             let (rc, p) = (if jfd p \<noteq> None then (SQLITE_OK, p)
               else if journalMode p = PAGER_JOURNALMODE_MEMORY then (SQLITE_OK, p \<lparr>jfd := Some [], jmem := True\<rparr>)
               else let (rc, p) = sys io p in
                 (rc, if rc = SQLITE_OK then p \<lparr>jfd := Some (case files p (zJournal p) of None \<Rightarrow> [] | Some f \<Rightarrow> f)\<rparr> else p));
             if rc \<noteq> SQLITE_OK then Some (rc, p)
             else writeJournalHdr io (p \<lparr>nRec := 0, journalOff := 0, setMaster := False, journalHdr := 0\<rparr>)
           }
         });
       Some (rc, if rc \<noteq> SQLITE_OK then p \<lparr>pInJournal := None\<rparr> else p \<lparr>eState := PAGER_WRITER_CACHEMOD\<rparr>)
     }
   }"

definition in_journal :: "nat \<Rightarrow> pager \<Rightarrow> bool" where
  "in_journal pgno p = (case pInJournal p of None \<Rightarrow> False | Some s \<Rightarrow> pgno \<in> s)"

text \<open>The part of \<open>pager_write\<close> that appends a record to the main journal.\<close>

definition journal_page :: "pio \<Rightarrow> nat \<Rightarrow> pager \<Rightarrow> (rc \<times> pager) option" where
  "journal_page io pgno p = do {
     c \<leftarrow> pcache p pgno;
     let iOff = journalOff p;
     assertion (pgno \<noteq> PAGER_MJ_PGNO p);
     assertion (journalHdr p \<le> journalOff p);
     let (d2, rc) = Codec2 p (pData c) pgno 7;
     if rc \<noteq> SQLITE_OK then Some (rc, p)
     else do {
       d \<leftarrow> d2;
       cksum \<leftarrow> pager_cksum p d;
       let p = set_page pgno (c \<lparr>needSync := True\<rparr>) p;
       (rc, p) \<leftarrow> write32bits io iOff (of_nat pgno) p;
       if rc \<noteq> SQLITE_OK then Some (rc, p)
       else do {
         assertion (pageSize p \<le> length d);
         (rc, p) \<leftarrow> jrnl_write io (take (pageSize p) d) (iOff + 4) p;
         if rc \<noteq> SQLITE_OK then Some (rc, p)
         else do {
           (rc, p) \<leftarrow> write32bits io (iOff + pageSize p + 4) cksum p;
           if rc \<noteq> SQLITE_OK then Some (rc, p)
           else do {
             s \<leftarrow> pInJournal p;
             Some (SQLITE_OK, AddToSavepointBitvecs pgno
               (p \<lparr>journalOff := journalOff p + 8 + pageSize p, nRec := nRec p + 1, pInJournal := Some (insert pgno s)\<rparr>))
           }
         }
       }
     }
   }"

text \<open>The part of \<open>pager_write\<close> behind the opening of the journal.\<close>

definition write_page :: "pio \<Rightarrow> nat \<Rightarrow> pager \<Rightarrow> (rc \<times> pager) option" where
  "write_page io pgno p = do {
     assertion (eState p \<ge> PAGER_WRITER_CACHEMOD);
     c \<leftarrow> pcache p pgno;
     let p = set_page pgno (MakeDirty c) p;
     (rc, p) \<leftarrow> (if in_journal pgno p then Some (SQLITE_OK, p)
       else if pgno \<le> dbOrigSize p \<and> jfd p \<noteq> None then journal_page io pgno p
       else Some (SQLITE_OK, if eState p \<noteq> PAGER_WRITER_DBMOD then set_page pgno ((MakeDirty c) \<lparr>needSync := True\<rparr>) p else p));
     if rc \<noteq> SQLITE_OK then Some (rc, p)
     else do {
       (rc, p) \<leftarrow> (if SubjournalRequiresPage pgno p then subjournalPage io pgno p else Some (SQLITE_OK, p));
       Some (rc, if dbSize p < pgno then p \<lparr>dbSize := pgno\<rparr> else p)
     }
   }"

definition pager_write :: "pio \<Rightarrow> nat \<Rightarrow> pager \<Rightarrow> (rc \<times> pager) option" where
  "pager_write io pgno p = do {
     assertion (eState p = PAGER_WRITER_LOCKED \<or> eState p = PAGER_WRITER_CACHEMOD \<or> eState p = PAGER_WRITER_DBMOD);
     if errCode p \<noteq> SQLITE_OK then Some (errCode p, p)
     else if readOnly p then Some (SQLITE_PERM, p)
     else do {
       (rc, p) \<leftarrow> (if eState p = PAGER_WRITER_LOCKED then pager_open_journal io p else Some (SQLITE_OK, p));
       if rc \<noteq> SQLITE_OK then Some (rc, p) else write_page io pgno p
     }
   }"

text \<open>The inspection of the place where the next header could be, in \<open>syncJournal\<close>, and the update of the record count.\<close>

definition sync_count :: "pio \<Rightarrow> pager \<Rightarrow> (rc \<times> pager) option" where
  "sync_count io p = do {
     f \<leftarrow> jfd p;
     nxt \<leftarrow> journalHdrOffset p;
     let (rc, aMagic, p) = sys_read io f 8 nxt p;
     (rc, p) \<leftarrow> (if rc = SQLITE_OK \<and> aMagic = aJournalMagic then jrnl_write io [0] nxt p else Some (rc, p));
     if rc \<noteq> SQLITE_OK \<and> rc \<noteq> SQLITE_IOERR_SHORT_READ then Some (rc, p)
     else do {
       let (rc, p) = (if fullSync p \<and> \<not> pio_sequential io then sys io p else (SQLITE_OK, p));
       if rc \<noteq> SQLITE_OK then Some (rc, p)
       else jrnl_write io (aJournalMagic @ bytes32 (of_nat (nRec p))) (journalHdr p) p
     }
   }"

definition syncJournal :: "pio \<Rightarrow> bool \<Rightarrow> pager \<Rightarrow> (rc \<times> pager) option" where
  "syncJournal io newHdr p = do {
     assertion (eState p = PAGER_WRITER_CACHEMOD \<or> eState p = PAGER_WRITER_DBMOD);
     (rc, p) \<leftarrow> sqlite3PagerExclusiveLock io p;
     if rc \<noteq> SQLITE_OK then Some (rc, p)
     else do {
       (rc, p) \<leftarrow> (if noSync p then Some (SQLITE_OK, p)
         else do {
           assertion (\<not> tempFile p);
           if jfd p \<noteq> None \<and> journalMode p \<noteq> PAGER_JOURNALMODE_MEMORY then do {
             (rc, p) \<leftarrow> (if \<not> pio_safe_append io then sync_count io p else Some (SQLITE_OK, p));
             if rc \<noteq> SQLITE_OK then Some (rc, p)
             else do {
               let (rc, p) = (if \<not> pio_sequential io then sys io p else (SQLITE_OK, p));
               if rc \<noteq> SQLITE_OK then Some (rc, p)
               else do {
                 let p = p \<lparr>journalHdr := journalOff p\<rparr>;
                 if newHdr \<and> \<not> pio_safe_append io then writeJournalHdr io (p \<lparr>nRec := 0\<rparr>) else Some (SQLITE_OK, p)
               }
             }
           } else Some (SQLITE_OK, p \<lparr>journalHdr := journalOff p\<rparr>)
         });
       if rc \<noteq> SQLITE_OK then Some (rc, p)
       else Some (SQLITE_OK, (ClearSyncFlags p) \<lparr>eState := PAGER_WRITER_DBMOD\<rparr>)
     }
   }"

definition put32 :: "byte list \<Rightarrow> nat \<Rightarrow> uint32 \<Rightarrow> byte list option" where
  "put32 d off v = map_option (\<lambda>b. take off d @ b) (WriteUint32 (drop off d) v)"

text \<open>\<open>SQLITE_VERSION_NUMBER\<close> is set by the build.\<close>

definition pager_write_changecounter :: "uint32 \<Rightarrow> pager \<Rightarrow> byte list \<Rightarrow> byte list option" where
  "pager_write_changecounter version p d = do {
     v \<leftarrow> ReadUint32 (dbFileVers p);
     d \<leftarrow> put32 d 24 (v + 1);
     d \<leftarrow> put32 d 92 (v + 1);
     put32 d 96 version
   }"

fun write_pagelist_loop :: "pio \<Rightarrow> uint32 \<Rightarrow> nat list \<Rightarrow> pager \<Rightarrow> (rc \<times> pager) option" where
  "write_pagelist_loop io version [] p = Some (SQLITE_OK, p)"
| "write_pagelist_loop io version (pgno # pgs) p = do {
     c \<leftarrow> pcache p pgno;
     (rc, p) \<leftarrow> (if pgno \<le> dbSize p \<and> \<not> dontWrite c then do {
         assertion (\<not> needSync c);
         d \<leftarrow> (if pgno = 1 then pager_write_changecounter version p (pData c) else Some (pData c));
         let p = set_page pgno (c \<lparr>pData := d\<rparr>) p;
         let (e, rc) = Codec2 p d pgno 6;
         if rc \<noteq> SQLITE_OK then Some (rc, p)
         else do {
           e \<leftarrow> e;
           assertion (pageSize p \<le> length e);
           let (rc, p) = db_write io (take (pageSize p) e) ((pgno - 1) * pageSize p) p;
           let p = (if pgno = 1 then p \<lparr>dbFileVers := take 16 (drop 24 e)\<rparr> else p);
           Some (rc, if pgno > dbFileSize p then p \<lparr>dbFileSize := pgno\<rparr> else p)
         }
       } else Some (SQLITE_OK, p));
     if rc \<noteq> SQLITE_OK then Some (rc, p) else write_pagelist_loop io version pgs p
   }"

definition pager_write_pagelist :: "pio \<Rightarrow> uint32 \<Rightarrow> nat list \<Rightarrow> pager \<Rightarrow> (rc \<times> pager) option" where
  "pager_write_pagelist io version pgs p = do {
     assertion (eState p = PAGER_WRITER_DBMOD);
     assertion (eLock p = EXCLUSIVE_LOCK);
     write_pagelist_loop io version pgs (if dbSize p > dbHintSize p then p \<lparr>dbHintSize := dbSize p\<rparr> else p)
   }"

definition pagerStress :: "pio \<Rightarrow> uint32 \<Rightarrow> nat \<Rightarrow> pager \<Rightarrow> (rc \<times> pager) option" where
  "pagerStress io version pgno p = do {
     c \<leftarrow> pcache p pgno;
     assertion (pDirty c);
     if errCode p \<noteq> SQLITE_OK \<or> doNotSpill p \<noteq> 0 \<or> doNotSyncSpill p \<noteq> 0 \<and> needSync c then Some (SQLITE_OK, p)
     else do {
       (rc, p) \<leftarrow> (if needSync c \<or> eState p = PAGER_WRITER_CACHEMOD then syncJournal io True p else Some (SQLITE_OK, p));
       (rc, p) \<leftarrow> (if rc = SQLITE_OK \<and> pgno > dbSize p \<and> SubjournalRequiresPage pgno p then subjournalPage io pgno p else Some (rc, p));
       (rc, p) \<leftarrow> (if rc = SQLITE_OK then do {
           c \<leftarrow> pcache p pgno;
           assertion (\<not> needSync c);
           pager_write_pagelist io version [pgno] p
         } else Some (rc, p));
       if rc = SQLITE_OK then do { c \<leftarrow> pcache p pgno; Some (pager_error rc (set_page pgno (MakeClean c) p)) }
       else Some (pager_error rc p)
     }
   }"

end
