(* ===== verification/PagerPlay.thy ===== *)
theory PagerPlay
  imports Pager
begin

text \<open>
  Hot rollback: what \<open>pager_playback\<close> makes of a journal whose headers and records are intact up to a point behind
  which there is no further header.
\<close>

section \<open>Reading a file\<close>

definition fine :: "pio \<Rightarrow> bool" where
  "fine io \<longleftrightarrow> (\<forall>k. pio_rc io k = SQLITE_OK \<and> pio_read io k = SQLITE_OK)"

definition u32_at :: "byte list \<Rightarrow> nat \<Rightarrow> uint32" where
  "u32_at f off = the (ReadUint32 (take 4 (drop off f)))"

lemma ReadUint32_Some: "4 \<le> length b \<Longrightarrow> \<exists>v. ReadUint32 b = Some v"
  by (cases b rule: list.exhaust; cases "tl b"; cases "tl (tl b)"; cases "tl (tl (tl b))") (auto simp: ReadUint32_def split: list.split)

lemma sys_fine: "fine io \<Longrightarrow> sys io p = (SQLITE_OK, p \<lparr>calls := Suc (calls p)\<rparr>)"
  by (simp add: sys_def fine_def)

lemma sys_read_fine:
  "fine io \<Longrightarrow> off + n \<le> length f \<Longrightarrow> sys_read io f n off p = (SQLITE_OK, take n (drop off f), p \<lparr>calls := Suc (calls p)\<rparr>)"
  by (simp add: sys_read_def osRead_def fine_def Let_def)

lemma sys_write_fine: "fine io \<Longrightarrow> sys_write io f bs off p = (SQLITE_OK, osWrite f bs off, p \<lparr>calls := Suc (calls p)\<rparr>)"
  by (simp add: sys_write_def fine_def Let_def)

lemma sys_truncate_fine: "fine io \<Longrightarrow> sys_truncate io f n p = (SQLITE_OK, osTruncate f n, p \<lparr>calls := Suc (calls p)\<rparr>)"
  by (simp add: sys_truncate_def fine_def Let_def)

lemma db_write_fine: "fine io \<Longrightarrow> db_write io bs off p = (SQLITE_OK, p \<lparr>fd := osWrite (fd p) bs off, calls := Suc (calls p)\<rparr>)"
  by (simp add: db_write_def sys_write_fine)

lemma read32bits_fine:
  assumes "fine io" "off + 4 \<le> length f"
  shows "read32bits io f off p = Some (SQLITE_OK, u32_at f off, p \<lparr>calls := Suc (calls p)\<rparr>)"
proof -
  obtain v where "ReadUint32 (take 4 (drop off f)) = Some v" using ReadUint32_Some [of "take 4 (drop off f)"] assms(2) by auto
  then show ?thesis using assms by (simp add: read32bits_def sys_read_fine u32_at_def)
qed

lemmas fine_calls = sys_fine sys_read_fine sys_write_fine sys_truncate_fine db_write_fine read32bits_fine

section \<open>Checksums and offsets\<close>

lemma cksum_loop_Some: "i < int (length d) \<Longrightarrow> \<exists>c. cksum_loop d i ck = Some c"
proof (induction d i ck rule: cksum_loop.induct)
  case (1 d i ck)
  show ?case
  proof (cases "i > 0")
    case True
    then have "nat i < length d" using 1(2) by simp
    then show ?thesis using True 1(1) [OF True] 1(2) by (subst cksum_loop.simps) auto
  next
    case False
    then show ?thesis by (subst cksum_loop.simps) auto
  qed
qed

definition page_cksum :: "nat \<Rightarrow> uint32 \<Rightarrow> byte list \<Rightarrow> uint32" where
  "page_cksum S ck d = the (cksum_loop d (int S - 200) ck)"

lemma pager_cksum_eq: "length d = pageSize p \<Longrightarrow> 0 < pageSize p \<Longrightarrow> pager_cksum p d = Some (page_cksum (pageSize p) (cksumInit p) d)"
  using cksum_loop_Some [of "int (pageSize p) - 200" d "cksumInit p"] by (auto simp: pager_cksum_def page_cksum_def)

definition next_sector :: "nat \<Rightarrow> nat \<Rightarrow> nat" where
  "next_sector z c = (if c \<noteq> 0 then ((c - 1) div z + 1) * z else 0)"

lemma next_sector:
  assumes "0 < z"
  shows "c \<le> next_sector z c" "next_sector z c < c + z" "next_sector z c mod z = 0"
proof -
  have "c \<le> next_sector z c \<and> next_sector z c < c + z"
  proof (cases c)
    case (Suc m)
    have "m = m div z * z + m mod z" "m mod z < z" using assms by (simp_all only: div_mult_mod_eq mod_less_divisor)
    moreover have "next_sector z c = m div z * z + z" by (simp add: next_sector_def Suc)
    ultimately show ?thesis using Suc by linarith
  qed (simp add: next_sector_def assms)
  then show "c \<le> next_sector z c" "next_sector z c < c + z" by auto
qed (simp add: next_sector_def)

lemma journalHdrOffset_eq:
  assumes "0 < sectorSize p"
  shows "journalHdrOffset p = Some (next_sector (sectorSize p) (journalOff p))"
proof -
  define n where "n = next_sector (sectorSize p) (journalOff p)"
  have "(if journalOff p \<noteq> 0 then ((journalOff p - 1) div sectorSize p + 1) * sectorSize p else 0) = n"
    by (simp add: n_def next_sector_def)
  moreover have "journalOff p \<le> n" "n - journalOff p < sectorSize p" "n mod sectorSize p = 0"
    using next_sector [OF assms, of "journalOff p"] by (auto simp: n_def)
  ultimately show ?thesis using assms unfolding journalHdrOffset_def JOURNAL_HDR_SZ_def Let_def n_def [symmetric] by simp
qed

lemma next_sector_aligned:
  assumes "c mod z = 0"
  shows "next_sector z c = c"
proof (cases "z = 0")
  case False
  obtain b where b: "c = b * z" using assms by (metis mod_0_imp_dvd dvd_def mult.commute)
  obtain a where a: "next_sector z c = a * z" using next_sector(3) [of z c] False by (metis mod_0_imp_dvd dvd_def mult.commute neq0_conv)
  have "b * z \<le> a * z" "a * z < (b + 1) * z" using next_sector(1,2) [of z c] False a b by auto
  then have "b \<le> a" "a < b + 1" using False by (simp_all only: mult_less_cancel2 mult_le_cancel2)
  then show ?thesis using a b by simp
qed (use assms in \<open>simp add: next_sector_def\<close>)

section \<open>Journals\<close>

type_synonym jrec = "nat \<times> byte list"
type_synonym jseg = "uint32 \<times> jrec list"

definition rec_at :: "byte list \<Rightarrow> nat \<Rightarrow> uint32 \<Rightarrow> nat \<Rightarrow> jrec \<Rightarrow> bool" where
  "rec_at f S ck off r \<longleftrightarrow> off + S + 8 \<le> length f \<and> unat (u32_at f off) = fst r \<and> take S (drop (off + 4) f) = snd r \<and>
     u32_at f (off + S + 4) = page_cksum S ck (snd r) \<and> 0 < fst r \<and> fst r \<noteq> PENDING_BYTE div S + 1"

definition recs_at :: "byte list \<Rightarrow> nat \<Rightarrow> uint32 \<Rightarrow> nat \<Rightarrow> jrec list \<Rightarrow> bool" where
  "recs_at f S ck off rs \<longleftrightarrow> (\<forall>i<length rs. rec_at f S ck (off + i * (S + 8)) (rs ! i))"

definition hdr_at :: "byte list \<Rightarrow> nat \<Rightarrow> nat \<Rightarrow> nat \<Rightarrow> uint32 \<Rightarrow> nat \<Rightarrow> bool" where
  "hdr_at f z off n ck mx \<longleftrightarrow> off + z \<le> length f \<and> take 8 (drop off f) = aJournalMagic \<and> unat (u32_at f (off + 8)) = n \<and>
     u32_at f (off + 12) = ck \<and> unat (u32_at f (off + 16)) = mx"

text \<open>No header at the next sector boundary.\<close>

definition inert :: "byte list \<Rightarrow> nat \<Rightarrow> nat \<Rightarrow> bool" where
  "inert f z off \<longleftrightarrow> off + z > length f \<or> take 8 (drop off f) \<noteq> aJournalMagic"

text \<open>\<open>segs_at f z S mx off segs e\<close>: from \<open>off\<close> on the journal has the headers and records of \<open>segs\<close>, which end at \<open>e\<close>.\<close>

fun segs_at :: "byte list \<Rightarrow> nat \<Rightarrow> nat \<Rightarrow> nat \<Rightarrow> nat \<Rightarrow> jseg list \<Rightarrow> nat \<Rightarrow> bool" where
  "segs_at f z S mx off [] e = (e = off)"
| "segs_at f z S mx off ((ck, rs) # segs) e =
     (hdr_at f z (next_sector z off) (length rs) ck mx \<and> length rs < 0xffffffff \<and> recs_at f S ck (next_sector z off + z) rs \<and>
      segs_at f z S mx (next_sector z off + z + length rs * (S + 8)) segs e)"

definition all_recs :: "jseg list \<Rightarrow> jrec list" where
  "all_recs segs = concat (map snd segs)"

text \<open>What playing back the records makes of the database file.\<close>

fun undo :: "nat \<Rightarrow> nat \<Rightarrow> byte list \<Rightarrow> jrec list \<Rightarrow> byte list" where
  "undo S mx db [] = db"
| "undo S mx db ((pg, d) # rs) = undo S mx (if pg \<le> mx then osWrite db d ((pg - 1) * S) else db) rs"

lemma undo_append: "undo S mx db (rs @ rs') = undo S mx (undo S mx db rs) rs'"
  by (induction S mx db rs rule: undo.induct) auto

lemma recs_at_Cons: "recs_at f S ck off (r # rs) \<longleftrightarrow> rec_at f S ck off r \<and> recs_at f S ck (off + S + 8) rs"
  unfolding recs_at_def by (auto simp: All_less_Suc2 algebra_simps)

section \<open>Playing back records\<close>

text \<open>The state of the pager in a hot rollback.\<close>

definition hot :: "byte list \<Rightarrow> pager \<Rightarrow> bool" where
  "hot f p \<longleftrightarrow> jfd p = Some f \<and> eState p = PAGER_OPEN \<and> eLock p = EXCLUSIVE_LOCK \<and> journalHdr p = length f \<and> 21 \<le> pageSize p"

text \<open>What a rollback does not change.\<close>

definition rest :: "pager \<Rightarrow> pager" where
  "rest p = p \<lparr>fd := [], calls := 0, dbFileSize := 0, nReserve := 0, journalOff := 0, cksumInit := 0, dbSize := 0, pcache := (\<lambda>_. None)\<rparr>"

lemma rest_update [simp]:
  "rest (p \<lparr>fd := a\<rparr>) = rest p" "rest (p \<lparr>calls := b\<rparr>) = rest p" "rest (p \<lparr>dbFileSize := c\<rparr>) = rest p" "rest (p \<lparr>nReserve := d\<rparr>) = rest p"
  "rest (p \<lparr>journalOff := e\<rparr>) = rest p" "rest (p \<lparr>cksumInit := g\<rparr>) = rest p" "rest (p \<lparr>dbSize := h\<rparr>) = rest p" "rest (p \<lparr>pcache := k\<rparr>) = rest p"
  by (simp_all add: rest_def)

lemma rest_sel:
  assumes "rest p = rest q"
  shows "jfd p = jfd q" "eState p = eState q" "eLock p = eLock q" "journalHdr p = journalHdr q" "pageSize p = pageSize q" "sectorSize p = sectorSize q"
    "pcRef p = pcRef q" "exclusiveMode p = exclusiveMode q" "journalMode p = journalMode q" "noSync p = noSync q" "tempFile p = tempFile q"
    "files p = files q" "zJournal p = zJournal q" "jmem p = jmem q" "mxPathname p = mxPathname q" "journalSizeLimit p = journalSizeLimit q" "pInJournal p = pInJournal q"
  using arg_cong [OF assms, of jfd] arg_cong [OF assms, of eState] arg_cong [OF assms, of eLock] arg_cong [OF assms, of journalHdr]
    arg_cong [OF assms, of pageSize] arg_cong [OF assms, of sectorSize] arg_cong [OF assms, of pcRef] arg_cong [OF assms, of exclusiveMode]
    arg_cong [OF assms, of journalMode] arg_cong [OF assms, of noSync] arg_cong [OF assms, of tempFile] arg_cong [OF assms, of files]
    arg_cong [OF assms, of zJournal] arg_cong [OF assms, of jmem] arg_cong [OF assms, of mxPathname] arg_cong [OF assms, of journalSizeLimit] arg_cong [OF assms, of pInJournal]
  by (simp_all add: rest_def)

lemma hot_rest: "rest p = rest q \<Longrightarrow> hot f q \<Longrightarrow> hot f p"
  using rest_sel [of p q] by (simp add: hot_def)

lemma one_page_hot:
  assumes io: "fine io" and h: "hot f p" "pcache p = (\<lambda>_. None)" "nReserve p < 1000" and r: "rec_at f (pageSize p) (cksumInit p) (journalOff p) (pg, d)"
  shows "\<exists>q. pager_playback_one_page io (journalOff p) None True False p = Some (SQLITE_OK, journalOff p + pageSize p + 8, None, q) \<and>
    rest q = rest p \<and> fd q = undo (pageSize p) (dbSize p) (fd p) [(pg, d)] \<and> nReserve q < 1000 \<and> pcache q = (\<lambda>_. None) \<and> cksumInit q = cksumInit p \<and> dbSize q = dbSize p"
proof -
  let ?S = "pageSize p" and ?off = "journalOff p"
  have R: "?off + ?S + 8 \<le> length f" "unat (u32_at f ?off) = pg" "take ?S (drop (?off + 4) f) = d" "length d = ?S"
    "u32_at f (?off + ?S + 4) = page_cksum ?S (cksumInit p) d" "0 < pg" "pg \<noteq> PENDING_BYTE div ?S + 1"
    using r by (auto simp: rec_at_def)
  have R5: "u32_at f (4 + (?off + ?S)) = page_cksum ?S (cksumInit p) d" using R(5) by (simp add: add.commute)
  have H: "jfd p = Some f" "eState p = PAGER_OPEN" "eLock p = EXCLUSIVE_LOCK" "journalHdr p = length f" "21 \<le> ?S" using h(1) by (auto simp: hot_def)
  have ck: "pager_cksum (p \<lparr>calls := c\<rparr>) d = Some (page_cksum ?S (cksumInit p) d)" for c
    using pager_cksum_eq [of d "p \<lparr>calls := c\<rparr>"] R(4) H(5) by simp
  have u: "unat (d ! 20) < 1000" using unsigned_less [of "d ! 20", where 'a = nat] by simp
  show ?thesis
  proof (cases "pg \<le> dbSize p")
    case True
    then show ?thesis
      using R(1-4,6,7) R5 H h(2,3) u by (simp add: pager_playback_one_page_def fine_calls [OF io] ck PAGER_MJ_PGNO_def playback_file_def playback_cache_def Let_def
        PAGER_OPEN_def PAGER_WRITER_CACHEMOD_def)
  next
    case False
    then show ?thesis
      using R(1-4,6,7) H h(2,3) by (simp add: pager_playback_one_page_def fine_calls [OF io] PAGER_MJ_PGNO_def)
  qed
qed

lemma playback_records_hot:
  assumes "fine io" "hot f p" "reset \<or> pcache p = (\<lambda>_. None)" "nReserve p < 1000" "recs_at f (pageSize p) (cksumInit p) (journalOff p) rs"
  shows "\<exists>q reset'. playback_records io szJ (length rs) reset p = Some (True, SQLITE_OK, reset', q) \<and> rest q = rest p \<and>
    fd q = undo (pageSize p) (dbSize p) (fd p) rs \<and> nReserve q < 1000 \<and> (reset' \<or> pcache q = (\<lambda>_. None)) \<and> cksumInit q = cksumInit p \<and> dbSize q = dbSize p \<and>
    journalOff q = journalOff p + length rs * (pageSize p + 8)"
  using assms(2-5)
proof (induction rs arbitrary: p reset)
  case (Cons r rs)
  obtain pg d where r: "r = (pg, d)" by (cases r)
  let ?p = "if reset then pager_reset p else p"
  have P: "rest ?p = rest p" "pcache ?p = (\<lambda>_. None)" "nReserve ?p = nReserve p" "fd ?p = fd p" "cksumInit ?p = cksumInit p" "dbSize ?p = dbSize p" "journalOff ?p = journalOff p"
    "pageSize ?p = pageSize p" using Cons.prems(2) by (auto simp: pager_reset_def)
  have R: "rec_at f (pageSize p) (cksumInit p) (journalOff p) (pg, d)" "recs_at f (pageSize p) (cksumInit p) (journalOff p + pageSize p + 8) rs"
    using Cons.prems(4) by (auto simp: recs_at_Cons r)
  obtain q where q: "pager_playback_one_page io (journalOff p) None True False ?p = Some (SQLITE_OK, journalOff p + pageSize p + 8, None, q)"
    "rest q = rest p" "fd q = undo (pageSize p) (dbSize p) (fd p) [(pg, d)]" "nReserve q < 1000" "pcache q = (\<lambda>_. None)" "cksumInit q = cksumInit p" "dbSize q = dbSize p"
    using one_page_hot [OF assms(1) hot_rest [OF P(1) Cons.prems(1)] P(2)] Cons.prems(3) R(1) unfolding P by blast
  let ?q = "q \<lparr>journalOff := journalOff p + pageSize p + 8\<rparr>"
  have S: "pageSize q = pageSize p" using rest_sel(5) [OF q(2)] .
  obtain s reset' where s: "playback_records io szJ (length rs) False ?q = Some (True, SQLITE_OK, reset', s)" "rest s = rest ?q"
    "fd s = undo (pageSize p) (dbSize p) (fd q) rs" "nReserve s < 1000" "reset' \<or> pcache s = (\<lambda>_. None)" "cksumInit s = cksumInit p" "dbSize s = dbSize p"
    "journalOff s = journalOff p + pageSize p + 8 + length rs * (pageSize p + 8)"
    using Cons.IH [of ?q False] hot_rest [OF _ Cons.prems(1), of ?q] q R(2) S by auto
  show ?case
    using s q P by (auto simp: r algebra_simps)
qed simp

section \<open>Headers\<close>

definition geometry :: "nat \<Rightarrow> nat \<Rightarrow> bool" where
  "geometry z S \<longleftrightarrow> 512 \<le> S \<and> S \<le> SQLITE_MAX_PAGE_SIZE \<and> 32 \<le> z \<and> z \<le> MAX_SECTOR_SIZE \<and>
     (of_nat S - 1 :: uint32) AND of_nat S = 0 \<and> (of_nat z - 1 :: uint32) AND of_nat z = 0"

text \<open>The first header also has sector size and page size.\<close>

definition first_hdr :: "byte list \<Rightarrow> nat \<Rightarrow> nat \<Rightarrow> bool" where
  "first_hdr f z S \<longleftrightarrow> u32_at f 20 = of_nat z \<and> u32_at f 24 = of_nat S"

lemma readJournalHdr_hot:
  assumes io: "fine io" and h: "hot f p" "geometry (sectorSize p) (pageSize p)" "nReserve p < 1000" and off: "off = next_sector (sectorSize p) (journalOff p)"
    and a: "hdr_at f (sectorSize p) off n ck mx" "off = 0 \<longrightarrow> first_hdr f (sectorSize p) (pageSize p)"
  shows "\<exists>c. readJournalHdr io True (length f) p = Some (SQLITE_OK, n, mx, p \<lparr>journalOff := off + sectorSize p, cksumInit := ck, calls := c\<rparr>)"
proof -
  let ?z = "sectorSize p" and ?S = "pageSize p"
  have g: "512 \<le> ?S" "?S \<le> 65536" "32 \<le> ?z" "?z \<le> 65536" "(of_nat ?S - 1 :: uint32) AND of_nat ?S = 0" "(of_nat ?z - 1 :: uint32) AND of_nat ?z = 0"
    using h(2) by (auto simp: geometry_def SQLITE_MAX_PAGE_SIZE_def MAX_SECTOR_SIZE_def)
  have H: "off + ?z \<le> length f" "take 8 (drop off f) = aJournalMagic" "unat (u32_at f (off + 8)) = n" "u32_at f (off + 12) = ck" "unat (u32_at f (off + 16)) = mx"
    using a(1) by (auto simp: hdr_at_def)
  have j: "journalHdrOffset p = Some off" using journalHdrOffset_eq [of p] g(3) off by simp
  have u: "unat (of_nat ?S :: uint32) = ?S" "unat (of_nat ?z :: uint32) = ?z" using g by (simp_all add: unat_of_nat)
  then have w: "\<not> (of_nat ?S :: uint32) < 512" "\<not> (of_nat ?z :: uint32) < 32" "(of_nat ?S :: uint32) \<noteq> 0"
    using g by (auto simp: word_less_nat_alt)
  show ?thesis
  proof (cases "off = 0")
    case True
    then have "u32_at f 20 = of_nat ?z" "u32_at f 24 = of_nat ?S" using a(2) by (auto simp: first_hdr_def)
    then show ?thesis
      using H g h u w True j by (simp add: readJournalHdr_def hot_def fine_calls [OF io] JOURNAL_HDR_SZ_def SQLITE_MAX_PAGE_SIZE_def MAX_SECTOR_SIZE_def
        sqlite3PagerSetPagesize_def Let_def) (intro exI pager.equality; simp)
  next
    case False
    then show ?thesis
      using H g h j by (simp add: readJournalHdr_def hot_def fine_calls [OF io] JOURNAL_HDR_SZ_def Let_def) (intro exI pager.equality; simp)
  qed
qed

lemma readJournalHdr_inert:
  assumes io: "fine io" and h: "hot f p" "32 \<le> sectorSize p" and a: "inert f (sectorSize p) (next_sector (sectorSize p) (journalOff p))"
  shows "\<exists>q. readJournalHdr io True (length f) p = Some (SQLITE_DONE, 0, 0, q) \<and> rest q = rest p \<and> fd q = fd p \<and>
    journalOff q = next_sector (sectorSize p) (journalOff p)"
proof -
  define off where "off = next_sector (sectorSize p) (journalOff p)"
  have j: "journalHdrOffset p = Some off" using journalHdrOffset_eq [of p] h(2) by (simp add: off_def)
  show ?thesis
  proof (cases "off + sectorSize p > length f")
    case True
    then show ?thesis using h j unfolding off_def [symmetric] by (simp add: readJournalHdr_def hot_def JOURNAL_HDR_SZ_def)
  next
    case False
    then have "take 8 (drop off f) \<noteq> aJournalMagic" using a by (auto simp: inert_def off_def)
    then show ?thesis
      using False h j unfolding off_def [symmetric] by (simp add: readJournalHdr_def hot_def fine_calls [OF io] JOURNAL_HDR_SZ_def Let_def)
  qed
qed

section \<open>The loop over the headers\<close>

lemma playback_loop_later:
  assumes "fine io" "hot f p" "geometry (sectorSize p) (pageSize p)" "nReserve p < 1000" "reset \<or> pcache p = (\<lambda>_. None)" "0 < journalOff p"
    "segs_at f (sectorSize p) (pageSize p) mx (journalOff p) segs e" "inert f (sectorSize p) (next_sector (sectorSize p) e)" "length segs < fuel"
  shows "\<exists>q. playback_loop io True (length f) fuel reset p = Some (SQLITE_OK, q) \<and> rest q = rest p \<and>
    fd q = undo (pageSize p) (dbSize p) (fd p) (all_recs segs) \<and> 0 < journalOff q"
  using assms(2-9)
proof (induction segs arbitrary: p reset fuel)
  case Nil
  then obtain k where k: "fuel = Suc k" by (cases fuel) auto
  have z: "32 \<le> sectorSize p" using Nil by (simp add: geometry_def)
  show ?case using readJournalHdr_inert [OF assms(1) Nil(1) z] Nil(5,6,7) next_sector(1) [of "sectorSize p" "journalOff p"] z by (auto simp: k all_recs_def)
next
  case (Cons seg segs)
  obtain ck rs where seg: "seg = (ck, rs)" by (cases seg)
  obtain k where k: "fuel = Suc k" "length segs < k" using Cons.prems(8) by (cases fuel) auto
  let ?z = "sectorSize p" and ?S = "pageSize p"
  define off where "off = next_sector ?z (journalOff p)"
  have z: "32 \<le> ?z" using Cons.prems(2) by (simp add: geometry_def)
  have pos: "0 < off" using next_sector(1) [of ?z "journalOff p"] z Cons.prems(5) by (simp add: off_def)
  have S: "hdr_at f ?z off (length rs) ck mx" "length rs < 0xffffffff" "recs_at f ?S ck (off + ?z) rs" "segs_at f ?z ?S mx (off + ?z + length rs * (?S + 8)) segs e"
    using Cons.prems(6) by (auto simp: seg off_def)
  obtain c where c: "readJournalHdr io True (length f) p = Some (SQLITE_OK, length rs, mx, p \<lparr>journalOff := off + ?z, cksumInit := ck, calls := c\<rparr>)"
    using readJournalHdr_hot [OF assms(1) Cons.prems(1-3) off_def S(1)] pos by auto
  let ?p = "p \<lparr>journalOff := off + ?z, cksumInit := ck, calls := c\<rparr>"
  have P: "rest ?p = rest p" by simp
  obtain q reset' where q: "playback_records io (length f) (length rs) reset ?p = Some (True, SQLITE_OK, reset', q)" "rest q = rest p"
    "fd q = undo ?S (dbSize p) (fd p) rs" "nReserve q < 1000" "reset' \<or> pcache q = (\<lambda>_. None)" "dbSize q = dbSize p" "journalOff q = off + ?z + length rs * (?S + 8)"
    using playback_records_hot [OF assms(1) hot_rest [OF P Cons.prems(1)], of reset rs "length f"] Cons.prems(3,4) S(3) P by auto
  have Q: "pageSize q = ?S" "sectorSize q = ?z" using rest_sel [OF q(2)] by auto
  obtain s where s: "playback_loop io True (length f) k reset' q = Some (SQLITE_OK, s)" "rest s = rest q" "fd s = undo ?S (dbSize p) (fd q) (all_recs segs)" "0 < journalOff s"
    using Cons.IH [OF hot_rest [OF q(2) Cons.prems(1)], of reset' k] q(4,5,6,7) Q Cons.prems(2,7) S(4) k(2) pos by auto
  have "JOURNAL_HDR_SZ ?p = ?z" "journalOff ?p \<noteq> ?z" using pos by (simp_all add: JOURNAL_HDR_SZ_def)
  then have "playback_loop io True (length f) fuel reset p = Some (SQLITE_OK, s)"
    using c q(1) s(1) S(2) by (simp add: k(1))
  then show ?case using s q by (auto simp: all_recs_def seg undo_append)
qed

definition trunc :: "nat \<Rightarrow> nat \<Rightarrow> byte list \<Rightarrow> byte list" where
  "trunc S n db = (if length db > S * n then osTruncate db (S * n)
     else if length db + S \<le> S * n then osWrite db (replicate S 0) (S * n - S) else db)"

lemma pager_truncate_hot:
  assumes "fine io" "eState p = PAGER_OPEN" "eLock p = EXCLUSIVE_LOCK"
  shows "\<exists>q. pager_truncate io n p = Some (SQLITE_OK, q) \<and> rest q = rest p \<and> fd q = trunc (pageSize p) n (fd p) \<and>
    journalOff q = journalOff p \<and> cksumInit q = cksumInit p \<and> nReserve q = nReserve p \<and> pcache q = pcache p"
  using assms(2,3) by (auto simp: pager_truncate_def fine_calls [OF assms(1)] PAGER_OPEN_def PAGER_ERROR_def PAGER_READER_def trunc_def osWrite_def Let_def)

lemma playback_loop_first:
  assumes "fine io" "hot f p" "geometry (sectorSize p) (pageSize p)" "nReserve p < 1000" "reset \<or> pcache p = (\<lambda>_. None)" "journalOff p = 0"
    "segs_at f (sectorSize p) (pageSize p) mx 0 segs e" "inert f (sectorSize p) (next_sector (sectorSize p) e)" "length segs < fuel"
    "segs \<noteq> [] \<longrightarrow> first_hdr f (sectorSize p) (pageSize p)"
  shows "\<exists>q. playback_loop io True (length f) fuel reset p = Some (SQLITE_OK, q) \<and> rest q = rest p \<and>
    fd q = (if segs = [] then fd p else undo (pageSize p) mx (trunc (pageSize p) mx (fd p)) (all_recs segs)) \<and> (segs \<noteq> [] \<longrightarrow> 0 < journalOff q)"
proof -
  obtain k where k: "fuel = Suc k" "length segs \<le> k" using assms(9) by (cases fuel) auto
  let ?z = "sectorSize p" and ?S = "pageSize p"
  have z: "32 \<le> ?z" using assms(3) by (simp add: geometry_def)
  show ?thesis
  proof (cases segs)
    case Nil
    then show ?thesis using readJournalHdr_inert [OF assms(1,2) z] assms(6-8) by (auto simp: k)
  next
    case (Cons seg segs')
    obtain ck rs where seg: "seg = (ck, rs)" by (cases seg)
    have n0: "next_sector ?z 0 = 0" by (simp add: next_sector_def)
    have S: "hdr_at f ?z 0 (length rs) ck mx" "length rs < 0xffffffff" "recs_at f ?S ck ?z rs" "segs_at f ?z ?S mx (?z + length rs * (?S + 8)) segs' e"
      using assms(7) by (auto simp: Cons seg n0)
    obtain c where c: "readJournalHdr io True (length f) p = Some (SQLITE_OK, length rs, mx, p \<lparr>journalOff := ?z, cksumInit := ck, calls := c\<rparr>)"
      using readJournalHdr_hot [OF assms(1-4), of 0 "length rs" ck mx] S(1) assms(6,10) Cons n0 by auto
    let ?p = "p \<lparr>journalOff := ?z, cksumInit := ck, calls := c\<rparr>"
    have eq: "eState ?p = PAGER_OPEN" "eLock ?p = EXCLUSIVE_LOCK" using assms(2) by (auto simp: hot_def)
    obtain t where t: "pager_truncate io mx ?p = Some (SQLITE_OK, t)" "rest t = rest p" "fd t = trunc ?S mx (fd p)" "journalOff t = ?z" "cksumInit t = ck"
      "nReserve t = nReserve p" "pcache t = pcache p"
      using pager_truncate_hot [OF assms(1) eq, of mx] by auto
    let ?t = "t \<lparr>dbSize := mx\<rparr>"
    have T: "rest ?t = rest p" "pageSize t = ?S" using t(2) rest_sel [OF t(2)] by auto
    obtain q reset' where q: "playback_records io (length f) (length rs) reset ?t = Some (True, SQLITE_OK, reset', q)" "rest q = rest p"
      "fd q = undo ?S mx (fd t) rs" "nReserve q < 1000" "reset' \<or> pcache q = (\<lambda>_. None)" "dbSize q = mx" "journalOff q = ?z + length rs * (?S + 8)"
      using playback_records_hot [OF assms(1) hot_rest [OF T(1) assms(2)], of reset rs "length f"] assms(4,5) S(3) T t by auto
    have Q: "pageSize q = ?S" "sectorSize q = ?z" using rest_sel [OF q(2)] by auto
    have "\<exists>s. playback_loop io True (length f) k reset' q = Some (SQLITE_OK, s) \<and> rest s = rest q \<and> fd s = undo (pageSize q) (dbSize q) (fd q) (all_recs segs') \<and> 0 < journalOff s"
      using q(4,5,7) Q assms(3,8) S(4) k(2) z Cons by (intro playback_loop_later [OF assms(1) hot_rest [OF q(2) assms(2)], where mx = mx and e = e]) auto
    then obtain s where s: "playback_loop io True (length f) k reset' q = Some (SQLITE_OK, s)" "rest s = rest q" "fd s = undo ?S mx (fd q) (all_recs segs')" "0 < journalOff s"
      using Q q(6) by auto
    have "JOURNAL_HDR_SZ ?p = ?z" by (simp add: JOURNAL_HDR_SZ_def)
    then have "playback_loop io True (length f) fuel reset p = Some (SQLITE_OK, s)"
      using c q(1) s(1) S(2) t(1) by (simp add: k(1))
    then show ?thesis using s q t(3) by (auto simp: all_recs_def seg Cons undo_append)
  qed
qed

section \<open>Restoring the pages\<close>

definition page :: "nat \<Rightarrow> byte list \<Rightarrow> nat \<Rightarrow> byte list" where
  "page S db i = take S (drop ((i - 1) * S) db)"

lemma nth_page:
  assumes "j < length db" "0 < S"
  shows "page S db (j div S + 1) ! (j mod S) = db ! j" "page S db (j div S + 1) ! (j - j div S * S) = db ! j"
proof -
  have m: "j div S * S + j mod S = j" "j mod S < S" "j div S * S \<le> length db" using assms div_times_less_eq_dividend [of j S] by (auto simp only: div_mult_mod_eq mod_less_divisor)
  have "page S db (j div S + 1) ! (j mod S) = drop (j div S * S) db ! (j mod S)" using m(2) by (simp add: page_def)
  also have "\<dots> = db ! (j div S * S + j mod S)" using m(3) by (rule nth_drop)
  finally show "page S db (j div S + 1) ! (j mod S) = db ! j" by (simp only: m(1))
  then show "page S db (j div S + 1) ! (j - j div S * S) = db ! j" by (simp add: minus_div_mult_eq_mod)
qed

lemma length_osWrite: "length (osWrite f bs off) = (if bs = [] then length f else max (length f) (off + length bs))"
  by (auto simp: osWrite_def max_def)

lemma nth_osWrite:
  "j < length (osWrite f bs off) \<Longrightarrow> osWrite f bs off ! j =
    (if off \<le> j \<and> j < off + length bs then bs ! (j - off) else if j < length f then f ! j else 0)"
  using byte_at_osWrite [of f bs off j] by (auto simp: byte_at_def split: if_splits)

text \<open>Every record up to page \<open>N\<close> has the contents of its page in \<open>db0\<close>.\<close>

definition originals :: "nat \<Rightarrow> nat \<Rightarrow> byte list \<Rightarrow> jrec list \<Rightarrow> bool" where
  "originals S N db0 rs \<longleftrightarrow> (\<forall>(pg, d)\<in>set rs. 0 < pg \<and> length d = S \<and> (pg \<le> N \<longrightarrow> d = page S db0 pg))"

lemma undo_bytes:
  assumes "originals S N db0 rs" "0 < S" "length db0 = N * S" "length db \<le> N * S"
  shows "length db \<le> length (undo S N db rs) \<and> length (undo S N db rs) \<le> N * S \<and>
    (\<forall>pg\<in>fst ` set rs. pg \<le> N \<longrightarrow> pg * S \<le> length (undo S N db rs)) \<and>
    (\<forall>j<length (undo S N db rs). undo S N db rs ! j = (if j div S + 1 \<in> fst ` set rs then db0 ! j else if j < length db then db ! j else 0))"
  using assms(1,4)
proof (induction rs arbitrary: db)
  case (Cons r rs)
  obtain pg d where r: "r = (pg, d)" by (cases r)
  have O: "originals S N db0 rs" "0 < pg" "length d = S" "pg \<le> N \<Longrightarrow> d = page S db0 pg" using Cons.prems(1) by (auto simp: originals_def r)
  let ?db = "if pg \<le> N then osWrite db d ((pg - 1) * S) else db"
  have pS: "(pg - 1) * S + S = pg * S" using O(2) by (cases pg) auto
  have le: "pg \<le> N \<Longrightarrow> pg * S \<le> N * S" by simp
  have L: "length db \<le> length ?db" "length ?db \<le> N * S" "pg \<le> N \<Longrightarrow> pg * S \<le> length ?db"
    using Cons.prems(2) assms(2) O(3) pS le by (auto simp: length_osWrite)
  have IH: "length ?db \<le> length (undo S N ?db rs)" "length (undo S N ?db rs) \<le> N * S" "\<forall>pg\<in>fst ` set rs. pg \<le> N \<longrightarrow> pg * S \<le> length (undo S N ?db rs)"
    "\<forall>j<length (undo S N ?db rs). undo S N ?db rs ! j = (if j div S + 1 \<in> fst ` set rs then db0 ! j else if j < length ?db then ?db ! j else 0)"
    using Cons.IH [OF O(1) L(2)] by blast+
  have inside: "(pg - 1) * S \<le> j \<and> j < (pg - 1) * S + S \<longleftrightarrow> j div S + 1 = pg" for j
    using page_offset [of "j mod S" S pg "j div S + 1"] O(2) assms(2) by simp
  have B: "?db ! j = (if pg \<le> N \<and> j div S + 1 = pg then db0 ! j else if j < length db then db ! j else 0)" if "j < length ?db" for j
  proof (cases "pg \<le> N")
    case True
    then have "j div S + 1 = pg \<Longrightarrow> j < N * S" using inside [of j] le pS by linarith
    then have "j div S + 1 = pg \<Longrightarrow> d ! (j - (pg - 1) * S) = db0 ! j"
      using O(4) True assms(2,3) nth_page(2) [of j db0 S] by auto
    then show ?thesis using True that nth_osWrite [of j db d "(pg - 1) * S"] inside [of j] O(3) by auto
  next
    case False
    then show ?thesis using that by auto
  qed
  have 1: "length db \<le> length (undo S N db (r # rs))" using IH(1) L(1) by (simp add: r)
  have 2: "length (undo S N db (r # rs)) \<le> N * S" using IH(2) by (simp add: r)
  have 3: "\<forall>pg\<in>fst ` set (r # rs). pg \<le> N \<longrightarrow> pg * S \<le> length (undo S N db (r # rs))" using IH(1,3) L(3) by (auto simp: r)
  have 4: "\<forall>j<length (undo S N db (r # rs)). undo S N db (r # rs) ! j = (if j div S + 1 \<in> fst ` set (r # rs) then db0 ! j else if j < length db then db ! j else 0)"
  proof (intro allI impI)
    fix j assume j: "j < length (undo S N db (r # rs))"
    have "j div S + 1 \<le> N" using j IH(2) by (simp add: r less_mult_imp_div_less Suc_le_eq)
    moreover have "j < length db \<Longrightarrow> j < length ?db" using L(1) by simp
    moreover have "j div S + 1 = pg \<Longrightarrow> pg \<le> N \<Longrightarrow> j < length ?db" using L(3) inside [of j] pS by fastforce
    ultimately show "undo S N db (r # rs) ! j = (if j div S + 1 \<in> fst ` set (r # rs) then db0 ! j else if j < length db then db ! j else 0)"
      using IH(4) j B [of j] by (auto simp: r)
  qed
  show ?case using 1 2 3 4 by blast
qed auto

text \<open>A page is whole in \<open>db\<close> with its original contents, or it has a record.\<close>

definition covered :: "nat \<Rightarrow> nat \<Rightarrow> byte list \<Rightarrow> byte list \<Rightarrow> nat set \<Rightarrow> bool" where
  "covered S N db0 db pgs \<longleftrightarrow> (\<forall>i. 1 \<le> i \<and> i \<le> N \<and> i \<notin> pgs \<longrightarrow> i * S \<le> length db \<and> page S db i = page S db0 i)"

lemma restored:
  assumes o: "originals S N db0 rs" "0 < S" "length db0 = N * S" and c: "covered S N db0 db (fst ` set rs)"
  shows "undo S N (trunc S N db) rs = db0"
proof -
  let ?t = "trunc S N db"
  have N: "S * N = N * S" by simp
  have t: "length ?t \<le> N * S" "length ?t < N * S \<Longrightarrow> length db < N * S \<and> ?t = db" "\<And>j. j < length db \<Longrightarrow> j < N * S \<Longrightarrow> j < length ?t \<and> ?t ! j = db ! j"
    unfolding trunc_def N using assms(2) by (auto simp: length_osWrite nth_osWrite osTruncate_def)
  have U: "length ?t \<le> length (undo S N ?t rs)" "length (undo S N ?t rs) \<le> N * S" "\<forall>pg\<in>fst ` set rs. pg \<le> N \<longrightarrow> pg * S \<le> length (undo S N ?t rs)"
    "\<forall>j<length (undo S N ?t rs). undo S N ?t rs ! j = (if j div S + 1 \<in> fst ` set rs then db0 ! j else if j < length ?t then ?t ! j else 0)"
    using undo_bytes [OF o t(1)] by blast+
  have len: "length (undo S N ?t rs) = N * S"
  proof (rule antisym [OF U(2)], rule ccontr)
    assume a: "\<not> N * S \<le> length (undo S N ?t rs)"
    then have "length ?t < N * S" using U(1) by simp
    then have "N \<in> fst ` set rs" using c t(2) a unfolding covered_def by (cases N) (auto dest!: spec [of _ N])
    then show False using U(3) a by auto
  qed
  show ?thesis
  proof (rule nth_equalityI)
    show "length (undo S N ?t rs) = length db0" using len o(3) by simp
    fix j assume j: "j < length (undo S N ?t rs)"
    show "undo S N ?t rs ! j = db0 ! j"
    proof (cases "j div S + 1 \<in> fst ` set rs")
      case True
      then show ?thesis using U(4) j by auto
    next
      case False
      let ?i = "j div S + 1"
      have i: "1 \<le> ?i" "?i \<le> N" using j len by (simp_all add: less_mult_imp_div_less Suc_le_eq)
      then have e: "?i * S \<le> length db" "page S db ?i = page S db0 ?i" using c False by (auto simp: covered_def)
      have m: "j = j div S * S + j mod S" "j mod S < S" using assms(2) by simp_all
      moreover have "?i * S = j div S * S + S" by simp
      ultimately have "j < ?i * S" by linarith
      then have "j < length db" using e(1) by simp
      moreover have "db ! j = db0 ! j"
      proof -
        have "page S db ?i ! (j mod S) = db ! j" "page S db0 ?i ! (j mod S) = db0 ! j"
          using nth_page(1) [of j] assms(2) \<open>j < length db\<close> j len o(3) by auto
        then show ?thesis using e(2) by simp
      qed
      ultimately show ?thesis using U(4) j False t(3) [of j] len by auto
    qed
  qed
qed

section \<open>The end of a rollback\<close>

text \<open>The journal does not end with the name of a master journal.\<close>

definition no_master :: "byte list \<Rightarrow> nat \<Rightarrow> bool" where
  "no_master f n \<longleftrightarrow> length f < 16 \<or> unat (u32_at f (length f - 16)) \<ge> n \<or> drop (length f - 8) f \<noteq> aJournalMagic"

lemma readMasterJournal_none:
  assumes "fine io" "no_master f n"
  shows "\<exists>q. readMasterJournal io f n p = Some (SQLITE_OK, [], q) \<and> rest q = rest p \<and> fd q = fd p \<and> journalOff q = journalOff p \<and> dbSize q = dbSize p \<and>
    pcache q = pcache p \<and> nReserve q = nReserve p"
proof (cases "length f < 16")
  case False
  then have d: "take 8 (drop (length f - 8) f) = drop (length f - 8) f" by simp
  show ?thesis using False assms(2) by (auto simp: readMasterJournal_def fine_calls [OF assms(1)] no_master_def d Let_def)
qed (simp add: readMasterJournal_def fine_calls [OF assms(1)])

text \<open>Afterwards the journal is gone, or it does not start with a header.\<close>

definition journal_dead :: "nat \<Rightarrow> pager \<Rightarrow> bool" where
  "journal_dead z p \<longleftrightarrow> (case file_at p (zJournal p) of None \<Rightarrow> True | Some g \<Rightarrow> inert g z 0)"

lemma journal_dead_cong:
  "jfd r = jfd q \<Longrightarrow> jmem r = jmem q \<Longrightarrow> files r = files q \<Longrightarrow> zJournal r = zJournal q \<Longrightarrow> journal_dead z r = journal_dead z q"
  by (simp only: journal_dead_def file_at_def)

lemma journal_dead_update [simp]:
  "journal_dead z (p \<lparr>calls := a\<rparr>) = journal_dead z p" "journal_dead z (p \<lparr>pInJournal := b\<rparr>) = journal_dead z p" "journal_dead z (p \<lparr>nRec := c\<rparr>) = journal_dead z p"
  "journal_dead z (p \<lparr>pcache := d\<rparr>) = journal_dead z p" "journal_dead z (p \<lparr>eLock := e\<rparr>) = journal_dead z p" "journal_dead z (p \<lparr>changeCountDone := g\<rparr>) = journal_dead z p"
  "journal_dead z (p \<lparr>eState := h\<rparr>) = journal_dead z p" "journal_dead z (p \<lparr>setMaster := i\<rparr>) = journal_dead z p" "journal_dead z (p \<lparr>sectorSize := k\<rparr>) = journal_dead z p"
  by (rule journal_dead_cong; simp)+

lemma inert_zeros:
  assumes "32 \<le> z"
  shows "inert [] z 0" "inert (osWrite f (replicate 28 0) 0) z 0" "inert (take n (osWrite f (replicate 28 0) 0)) z 0" "inert (osTruncate f 0) z 0"
proof -
  have "take 8 (take n (osWrite f (replicate 28 0) 0)) \<noteq> aJournalMagic" for n
    by (cases n) (auto simp: osWrite_def aJournalMagic_def)
  moreover have "take 8 (osWrite f (replicate 28 0) 0) \<noteq> aJournalMagic"
  proof
    assume "take 8 (osWrite f (replicate 28 0) 0) = aJournalMagic"
    then have "hd (take 8 (osWrite f (replicate 28 0) 0)) = hd aJournalMagic" by simp
    then show False by (simp add: osWrite_def aJournalMagic_def)
  qed
  ultimately show "inert [] z 0" "inert (osWrite f (replicate 28 0) 0) z 0" "inert (take n (osWrite f (replicate 28 0) 0)) z 0" "inert (osTruncate f 0) z 0"
    using assms by (auto simp: inert_def osTruncate_def)
qed

lemma zeroJournalHdr_fine:
  assumes io: "fine io" and j: "jfd p = Some f" "32 \<le> z" "journalOff p = 0 \<longrightarrow> inert f z 0"
  shows "\<exists>q g. zeroJournalHdr io m p = Some (SQLITE_OK, q) \<and> jfd q = Some g \<and> inert g z 0 \<and> rest (q \<lparr>jfd := Some f\<rparr>) = rest p \<and> fd q = fd p"
  using assms inert_zeros [OF j(2)]
  by (auto simp: zeroJournalHdr_def fine_calls [OF io] jrnl_truncate_def jrnl_write_def Let_def rest_def osTruncate_def)

lemma finalize_journal_fine:
  assumes io: "fine io" and h: "jfd p = Some f" "\<not> jmem p" "\<not> tempFile p"
    and m: "journalMode p \<in> {PAGER_JOURNALMODE_DELETE, PAGER_JOURNALMODE_PERSIST, PAGER_JOURNALMODE_TRUNCATE}"
    and z: "32 \<le> z" "journalOff p = 0 \<longrightarrow> inert f z 0"
  shows "\<exists>q. finalize_journal io False p = Some (SQLITE_OK, q) \<and> fd q = fd p \<and> eLock q = eLock p \<and> exclusiveMode q = exclusiveMode p \<and>
    journal_dead z q"
proof -
  note c = PAGER_JOURNALMODE_DELETE_def PAGER_JOURNALMODE_PERSIST_def PAGER_JOURNALMODE_TRUNCATE_def PAGER_JOURNALMODE_MEMORY_def PAGER_JOURNALMODE_WAL_def
  obtain q g where q: "zeroJournalHdr io False p = Some (SQLITE_OK, q)" "jfd q = Some g" "inert g z 0" "rest (q \<lparr>jfd := Some f\<rparr>) = rest p" "fd q = fd p"
    using zeroJournalHdr_fine [OF io h(1) z] by blast
  have Q: "eLock q = eLock p" "exclusiveMode q = exclusiveMode p" "jmem q = jmem p" using rest_sel [OF q(4)] by auto
  consider (zero) "journalMode p = PAGER_JOURNALMODE_PERSIST \<or> exclusiveMode p \<and> journalMode p \<noteq> PAGER_JOURNALMODE_TRUNCATE"
    | (trunc) "journalMode p = PAGER_JOURNALMODE_TRUNCATE" | (del) "journalMode p = PAGER_JOURNALMODE_DELETE" "\<not> exclusiveMode p"
    using m by auto
  then show ?thesis
  proof cases
    case zero
    then have "finalize_journal io False p = Some (SQLITE_OK, q \<lparr>journalOff := 0\<rparr>)"
      using q(1) h m by (auto simp: finalize_journal_def c)
    then show ?thesis using q Q h(2) by (simp add: journal_dead_def file_at_def)
  next
    case trunc
    then show ?thesis using h z inert_zeros [OF z(1)] by (simp add: c finalize_journal_def fine_calls [OF io] jrnl_truncate_def journal_dead_def file_at_def Let_def)
  next
    case del
    then show ?thesis using h by (simp add: c finalize_journal_def fine_calls [OF io] close_journal_def journal_dead_def file_at_def Let_def)
  qed
qed

lemma end_transaction_hot:
  assumes io: "fine io" and h: "jfd p = Some f" "eState p = PAGER_OPEN" "eLock p = EXCLUSIVE_LOCK" "\<not> jmem p" "\<not> tempFile p"
    and m: "journalMode p \<in> {PAGER_JOURNALMODE_DELETE, PAGER_JOURNALMODE_PERSIST, PAGER_JOURNALMODE_TRUNCATE}"
    and z: "32 \<le> z" "journalOff p = 0 \<longrightarrow> inert f z 0"
  shows "\<exists>q. pager_end_transaction io False p = Some (SQLITE_OK, q) \<and> fd q = fd p \<and> journal_dead z q \<and>
    eLock q = (if exclusiveMode p then EXCLUSIVE_LOCK else SHARED_LOCK) \<and> exclusiveMode q = exclusiveMode p"
proof -
  note d = PAGER_OPEN_def PAGER_ERROR_def PAGER_WRITER_LOCKED_def RESERVED_LOCK_def EXCLUSIVE_LOCK_def SHARED_LOCK_def UNKNOWN_LOCK_def NO_LOCK_def
  let ?p = "ReleaseAllSavepoints p"
  obtain q where q: "finalize_journal io False ?p = Some (SQLITE_OK, q)" "fd q = fd p" "eLock q = EXCLUSIVE_LOCK" "exclusiveMode q = exclusiveMode p" "journal_dead z q"
    using finalize_journal_fine [OF io, of ?p f z] h m z by (auto simp: ReleaseAllSavepoints_def)
  have "jfd ?p \<noteq> None" using h(1) by (simp add: ReleaseAllSavepoints_def)
  then show ?thesis
    using q h(2,3)
    by (cases "exclusiveMode p") (simp_all add: pager_end_transaction_def d pcache_clean_all_def pcache_truncate_def pagerUnlockDb_def fine_calls [OF io] Let_def)
qed

section \<open>Hot rollback\<close>

text \<open>The journal on disk: intact segments of a transaction on a database of \<open>N\<close> pages, then no header.\<close>

definition journal_ok :: "byte list \<Rightarrow> nat \<Rightarrow> nat \<Rightarrow> nat \<Rightarrow> jseg list \<Rightarrow> bool" where
  "journal_ok f z S N segs \<longleftrightarrow>
     (\<exists>e. segs_at f z S N 0 segs e \<and> inert f z (next_sector z e)) \<and> (segs \<noteq> [] \<longrightarrow> first_hdr f z S)"

text \<open>Playing \<open>segs\<close> back takes \<open>db\<close> to \<open>db0\<close>.\<close>

definition recoverable :: "nat \<Rightarrow> nat \<Rightarrow> byte list \<Rightarrow> byte list \<Rightarrow> jseg list \<Rightarrow> bool" where
  "recoverable S N db0 db segs \<longleftrightarrow> (if segs = [] then db = db0
     else originals S N db0 (all_recs segs) \<and> length db0 = N * S \<and> covered S N db0 db (fst ` set (all_recs segs)))"

lemma segs_length: "segs_at f z S N off segs e \<Longrightarrow> 0 < z \<Longrightarrow> off \<le> length f \<Longrightarrow> off + length segs \<le> length f"
proof (induction segs arbitrary: off)
  case (Cons seg segs)
  obtain ck rs where seg: "seg = (ck, rs)" by (cases seg)
  let ?h = "next_sector z off"
  have S: "?h + z \<le> length f" "recs_at f S ck (?h + z) rs" "segs_at f z S N (?h + z + length rs * (S + 8)) segs e"
    using Cons.prems(1) by (auto simp: seg hdr_at_def)
  have "?h + z + length rs * (S + 8) \<le> length f"
  proof (cases rs rule: rev_cases)
    case (snoc rs' r)
    then have "rec_at f S ck (?h + z + length rs' * (S + 8)) r" using S(2) unfolding recs_at_def by (auto dest!: spec [of _ "length rs'"])
    then show ?thesis by (simp add: rec_at_def snoc)
  qed (use S(1) in simp)
  then show ?case using Cons.IH [OF S(3)] Cons.prems(2) next_sector(1) [of z off] by simp
qed simp

lemma pager_playback_hot:
  assumes io: "fine io" and h: "hot f p" "geometry (sectorSize p) (pageSize p)" "nReserve p < 1000" "\<not> jmem p" "\<not> tempFile p"
    and m: "journalMode p \<in> {PAGER_JOURNALMODE_DELETE, PAGER_JOURNALMODE_PERSIST, PAGER_JOURNALMODE_TRUNCATE}" "no_master f (mxPathname p + 1)"
    and j: "journal_ok f (sectorSize p) (pageSize p) N segs" "recoverable (pageSize p) N db0 (fd p) segs"
  shows "\<exists>q. pager_playback io True p = Some (SQLITE_OK, q) \<and> fd q = db0 \<and> journal_dead (sectorSize p) q \<and>
    eLock q = (if exclusiveMode p then EXCLUSIVE_LOCK else SHARED_LOCK) \<and> exclusiveMode q = exclusiveMode p"
proof -
  let ?z = "sectorSize p" and ?S = "pageSize p"
  obtain e where e: "segs_at f ?z ?S N 0 segs e" "inert f ?z (next_sector ?z e)" "segs \<noteq> [] \<longrightarrow> first_hdr f ?z ?S" using j(1) by (auto simp: journal_ok_def)
  have z: "32 \<le> ?z" "0 < ?S" using h(2) by (auto simp: geometry_def)
  have fuel: "length segs < length f + 2" using segs_length [OF e(1)] z by simp
  let ?p0 = "p \<lparr>calls := Suc (calls p)\<rparr>"
  obtain p1 where p1: "readMasterJournal io f (mxPathname p + 1) ?p0 = Some (SQLITE_OK, [], p1)" "rest p1 = rest p" "fd p1 = fd p" "nReserve p1 = nReserve p"
    using readMasterJournal_none [OF io m(2), of ?p0] by auto
  let ?p1 = "p1 \<lparr>journalOff := 0\<rparr>"
  have R1: "rest ?p1 = rest p" "sectorSize p1 = ?z" "pageSize p1 = ?S" using p1(2) rest_sel [OF p1(2)] by auto
  obtain p2 where p2: "playback_loop io True (length f) (length f + 2) True ?p1 = Some (SQLITE_OK, p2)" "rest p2 = rest p"
    "fd p2 = (if segs = [] then fd p else undo ?S N (trunc ?S N (fd p)) (all_recs segs))" "segs \<noteq> [] \<longrightarrow> 0 < journalOff p2"
    using playback_loop_first [OF io hot_rest [OF R1(1) h(1)], of True N segs e "length f + 2"] h(2,3) p1(3,4) R1 e fuel by auto
  have db: "fd p2 = db0" using p2(3) j(2) restored [of ?S N db0 "all_recs segs" "fd p"] z(2) by (auto simp: recoverable_def)
  have off: "journalOff p2 = 0 \<longrightarrow> inert f ?z 0" using p2(4) e(1,2) by (cases "segs = []") (auto simp: next_sector_def)
  let ?p2 = "p2 \<lparr>changeCountDone := tempFile p2\<rparr>"
  have P2: "jfd p2 = Some f" "eState p2 = PAGER_OPEN" "eLock p2 = EXCLUSIVE_LOCK" "jmem p2 = jmem p" "tempFile p2 = tempFile p" "journalMode p2 = journalMode p" "mxPathname p2 = mxPathname p"
    "exclusiveMode p2 = exclusiveMode p" "noSync p2 = noSync p"
    using rest_sel [OF p2(2)] h(1) by (auto simp: hot_def)
  obtain p3 where p3: "readMasterJournal io f (mxPathname p + 1) ?p2 = Some (SQLITE_OK, [], p3)" "rest p3 = rest ?p2" "fd p3 = fd p2" "journalOff p3 = journalOff p2"
    using readMasterJournal_none [OF io m(2), of ?p2] by auto
  let ?p3 = "p3 \<lparr>calls := Suc (calls p3)\<rparr>"
  have P3: "jfd p3 = Some f" "eState p3 = PAGER_OPEN" "eLock p3 = EXCLUSIVE_LOCK" "\<not> jmem p3" "\<not> tempFile p3" "journalMode p3 = journalMode p" "exclusiveMode p3 = exclusiveMode p"
    using rest_sel [OF p3(2)] P2 h(4,5) by auto
  obtain q where q: "pager_end_transaction io False ?p3 = Some (SQLITE_OK, q)" "fd q = db0" "journal_dead ?z q"
    "eLock q = (if exclusiveMode p then EXCLUSIVE_LOCK else SHARED_LOCK)" "exclusiveMode q = exclusiveMode p"
    using end_transaction_hot [OF io, of ?p3 f ?z] P3 m(1) z(1) off p3(3,4) db by auto
  have "playback_end io True SQLITE_OK p2 = Some (SQLITE_OK, setSectorSize io q)"
    using p3(1) q(1) P2 P3(2) by (simp add: playback_end_def sqlite3PagerSync_def fine_calls [OF io] PAGER_OPEN_def)
  then have "pager_playback io True p = Some (SQLITE_OK, setSectorSize io q)"
    using h(1) p1(1) p2(1) by (simp add: pager_playback_def hot_def fine_calls [OF io] del: playback_loop.simps)
  then show ?thesis using q by (simp add: setSectorSize_def)
qed

text \<open>
  C2. Hot rollback restores the database: a pager that opens a database with a journal left behind by a transaction that did not
  finish, whose headers and records are intact up to a point behind which there is no header, plays the journal back; then the
  database file is, byte for byte, the file that the transaction started from, whatever the transaction wrote over journalled pages
  or behind the end, and the journal is gone or no longer starts with a header, so that it is not played back again.
\<close>

theorem hot_rollback_restores:
  assumes io: "fine io" and p: "eState p = PAGER_OPEN" "eLock p = SHARED_LOCK" "jfd p = None" "files p (zJournal p) = Some f" "nReserve p < 1000" "\<not> jmem p" "\<not> tempFile p"
    and m: "journalMode p \<in> {PAGER_JOURNALMODE_DELETE, PAGER_JOURNALMODE_PERSIST, PAGER_JOURNALMODE_TRUNCATE}" "no_master f (mxPathname p + 1)"
    and j: "geometry (sectorSize p) (pageSize p)" "journal_ok f (sectorSize p) (pageSize p) N segs" "recoverable (pageSize p) N db0 (fd p) segs"
  shows "\<exists>q. hot_rollback io p = Some (SQLITE_OK, q) \<and> fd q = db0 \<and> journal_dead (sectorSize p) q"
proof -
  define p1 where "p1 = p \<lparr>eLock := EXCLUSIVE_LOCK, jfd := Some f, calls := (if noSync p then Suc (Suc (Suc (Suc (calls p)))) else Suc (Suc (Suc (Suc (Suc (calls p)))))),
    journalHdr := length f\<rparr>"
  have "hot f p1" using p j(1) by (auto simp: hot_def p1_def geometry_def)
  then obtain q where q: "pager_playback io True p1 = Some (SQLITE_OK, q)" "fd q = db0" "journal_dead (sectorSize p) q"
    "eLock q = (if exclusiveMode p then EXCLUSIVE_LOCK else SHARED_LOCK)" "exclusiveMode q = exclusiveMode p"
    using pager_playback_hot [OF io, of f p1 N segs db0] assms by (auto simp: p1_def)
  have "hot_rollback io p = Some (SQLITE_OK, q \<lparr>eState := PAGER_OPEN\<rparr>)"
    using p q(1,4,5) by (cases "noSync p") (simp_all add: hot_rollback_def pagerLockDb_def fine_calls [OF io] pagerSyncHotJournal_def p1_def EXCLUSIVE_LOCK_def SHARED_LOCK_def UNKNOWN_LOCK_def)
  then show ?thesis using q by simp
qed

section \<open>Examples\<close>

text \<open>A database of one page whose contents are restored, with a second page added by the transaction that did not finish.\<close>

definition ex_page :: "byte list" where
  "ex_page = replicate 512 5"

definition ex_journal :: "byte list" where
  "ex_journal = hdr_bytes (aJournalMagic @ bytes32 1) 7 1 512 512 @ replicate 484 0
     @ bytes32 1 @ ex_page @ bytes32 (page_cksum 512 7 ex_page)"

definition ex_io :: pio where
  "ex_io = \<lparr>pio_rc = (\<lambda>_. SQLITE_OK), pio_read = (\<lambda>_. SQLITE_OK), pio_buf = (\<lambda>_. []), pio_torn = (\<lambda>_. 0), pio_rand = (\<lambda>_. 7), pio_safe_append = False, pio_sequential = False,
     pio_powersafe = True, pio_sector = 512, pio_busy = (\<lambda>_. False)\<rparr>"

definition ex_pager :: pager where
  "ex_pager = \<lparr>exclusiveMode = False, journalMode = PAGER_JOURNALMODE_DELETE, useJournal = True, noSync = False, fullSync = True,
     tempFile = False, readOnly = False, eState = PAGER_OPEN, eLock = SHARED_LOCK, changeCountDone = False, setMaster = False,
     doNotSpill = 0, doNotSyncSpill = 0, subjInMemory = False, dbSize = 0, dbOrigSize = 0, dbFileSize = 0, dbHintSize = 0,
     errCode = SQLITE_OK, nRec = 0, cksumInit = 0, nSubRec = 0, pInJournal = None, fd = replicate 1024 9, jfd = None, sjfd = None,
     jmem = False, journalOff = 0, journalHdr = 0, Savepoints = [], dbFileVers = replicate 16 0, nReserve = 0, sectorSize = 512,
     pageSize = 512, mxPageNumber = 1073741823, journalSizeLimit = -1, mxPathname = 512, xCodec = None, zJournal = [106],
     files = [[106] \<mapsto> ex_journal], pcache = (\<lambda>_. None), pcRef = 0, calls = 0\<rparr>"

lemma length_ex [simp]: "length ex_page = 512" "length ex_journal = 1032"
  by (simp_all add: ex_page_def ex_journal_def hdr_bytes_def aJournalMagic_def)

lemma ex_journal_words [simp]:
  "u32_at ex_journal 8 = 1" "u32_at ex_journal 12 = 7" "u32_at ex_journal 16 = 1" "u32_at ex_journal 20 = 512" "u32_at ex_journal 24 = 512"
  "u32_at ex_journal 512 = 1" "u32_at ex_journal 1028 = page_cksum 512 7 ex_page"
  using ReadUint32_bytes32 [of _ "[]"] by (simp_all add: ex_journal_def u32_at_def hdr_bytes_def aJournalMagic_def)

lemma ex_journal_parts [simp]: "take 8 ex_journal = aJournalMagic" "take 512 (drop 516 ex_journal) = ex_page"
  "drop 1024 ex_journal = [5, 5, 5, 5] @ bytes32 (page_cksum 512 7 ex_page)"
  by (simp_all add: ex_journal_def hdr_bytes_def aJournalMagic_def ex_page_def numeral_eq_Suc)

lemma ex_journal_ok: "journal_ok ex_journal 512 512 1 [(7, [(1, ex_page)])]"
proof -
  have "segs_at ex_journal 512 512 1 0 [(7, [(1, ex_page)])] 1032"
    by (simp add: hdr_at_def next_sector_def recs_at_def rec_at_def PENDING_BYTE_def)
  moreover have "inert ex_journal 512 (next_sector 512 1032)" by (simp add: inert_def next_sector_def)
  ultimately show ?thesis by (auto simp: journal_ok_def first_hdr_def)
qed

lemma ex_recoverable: "recoverable 512 1 ex_page (replicate 1024 9) [(7, [(1, ex_page)])]"
  by (auto simp: recoverable_def originals_def covered_def all_recs_def page_def)

lemma ex_no_master: "no_master ex_journal 513"
  by (simp add: no_master_def aJournalMagic_def)

theorem hot_rollback_restores_witness:
  "\<exists>q. hot_rollback ex_io ex_pager = Some (SQLITE_OK, q) \<and> fd q = ex_page \<and> journal_dead 512 q"
  using hot_rollback_restores [of ex_io ex_pager ex_journal 1 "[(7, [(1, ex_page)])]" ex_page]
    ex_journal_ok ex_recoverable ex_no_master
  by (simp add: fine_def ex_io_def ex_pager_def geometry_def SQLITE_MAX_PAGE_SIZE_def MAX_SECTOR_SIZE_def)


end
