(* ===== verification/Spec2Isabelle.thy ===== *)
theory Spec2Isabelle
  imports RowSet Util Bitvec Buffer WalCkpt ParseRun Complete Pcache Memjournal Journal Like Fts3Hash Porter BtInit PagerPlay
begin

text \<open>
  A verification development for wendigo, a translation of the SQLite library from C to Go.

  \<^bold>\<open>The program.\<close> The sources under src/ are SQLite in the middle of its translation: an SQL text is cut
  into tokens (tokenize.go) and parsed, the parse tree is compiled to bytecode, the bytecode runs on
  a virtual machine (vdbe.go, with helpers such as rowset.go) over B-trees, whose pages the pager
  reads and writes through a page cache and, in WAL mode, through a write-ahead log (wal.go). Many
  files mix C and Go text.

  \<^bold>\<open>Reading the sources.\<close> Go text has the semantics of Go and C text that of C. Where the translation has left
  out a conversion, operands are widened to the common type. A failing \<open>assert\<close>, a nil dereference
  and an index out of range are the value \<^term>\<open>None\<close> of an option type; a C array name is a pointer
  to its first element; a NUL-terminated text is the list of its characters, \<open>zat z i\<close> reads it and
  gives the terminator at the end. Machine integers are words, or integers with the wrap-around
  written out where the code depends on it. Code outside the repository and the operating system
  (random numbers, file reads, locks, allocation) is an argument of the definitions that use it.

  \<^bold>\<open>Theories.\<close>
  \<^item> \<open>Prelude\<close>: result codes, list and word lemmas, and the locale \<open>bucket_merge\<close>, the contract of a
    bottom-up merge sort with carry propagation, and the locale \<open>simulation\<close>, the contract of a component that
    implements a specification operation by operation.
  \<^item> \<open>RowSet\<close> (rowset.go): the row sets of the virtual machine with their lazily sorted list and forest
    of trees, with the assertions of the merge and of the tree walk. A run of inserts and tests refines a batched set,
    and is sound when allocations fail; extraction is sorted; the sort is an interpretation of \<open>bucket_merge\<close>.
  \<^item> \<open>Ctype\<close> (global.go, macros of sqliteInt.go) and \<open>Util\<close> (util.go): character classes, checked 64-bit
    arithmetic, decimal and hexadecimal conversion, removal of quotes.
  \<^item> \<open>Bitvec\<close> (bitvec/): the dense and the sparse bit vector, both as interpretations of one locale of
    sets of bit numbers.
  \<^item> \<open>Buffer\<close> (btree/buffer.go): big-endian integers and variable-length integers, with round trips.
  \<^item> \<open>WalIndex\<close>, \<open>WalFrame\<close>, \<open>WalLog\<close>, \<open>WalSort\<close>, \<open>WalCkpt\<close> (wal.go): the hash index of the log, frames and
    checksums, recovery, reading and writing, restart, the sort of page numbers and checkpoints. The
    lookup of a page refines a search in the list of frames; recovery rebuilds exactly the committed
    frames; a checkpoint changes no page that an active reader sees, and no byte of the file while a reader uses the file alone.
  \<^item> \<open>TokenCodes\<close>, \<open>Keyword\<close>, \<open>Tokenize\<close>, \<open>ParseRun\<close> (tokenize.go, with pieces of util.go, main.go and
    sqliteInt.go): the keyword hash equals a linear search, tokens make progress, and \<open>Run\<close> hands the
    parser the tokens of the text in order and stops at the first error.
  \<^item> \<open>Complete\<close> (complete.go): the state machine of \<open>sqlite3_complete\<close> accepts exactly the texts that end
    with a finished statement.
  \<^item> \<open>Pcache\<close> (pagecache/pcache.go): the list of dirty pages and the reference counts of the page cache,
    as a refinement of a set of pages (\<open>sqlite3PcacheRef\<close> and \<open>Fetch\<close> are outside, and shown to be wrong); writing in page order; the choice of a page to spill.
  \<^item> \<open>Memjournal\<close> (memjournal.go) and \<open>Journal\<close> (journal.go): the journal kept in memory and the
    journal that is written to a file late, both as refinements of a byte file under the uses that their contracts name.
  \<^item> \<open>Like\<close> (func.go, utf.go): UTF-8 decoding and the matcher of LIKE and GLOB, which decides a declarative
    notion of matching on code points.
  \<^item> \<open>Fts3Hash\<close> (fts3_hash.go): the hash table of the full-text module, a heap of doubly linked elements, as a
    refinement of a finite map as long as no doubling of the table fails; an instance of the locale \<open>simulation\<close> of the prelude.
  \<^item> \<open>Fts3Words\<close>, \<open>Porter\<close> (fts3_tokenizer1.go, fts3_porter.go): the simple and the Porter tokenizer, two
    instances of the locale \<open>word_tokenizer\<close>; the stemmer stays inside its buffers.
  \<^item> \<open>BtPage\<close> (btree/memorypage.go, btree/btree.go): the single page of a B-tree, its header, cells and free
    space. \<open>BtSpace\<close> and \<open>BtFree\<close> hold the theory of the free list inside the bytes of a page and of \<open>freeSpace\<close>;
    \<open>BtCells\<close> the invariant of a page and \<open>Defragment\<close>; \<open>BtAlloc\<close> allocation and \<open>dropCell\<close>; \<open>BtInit\<close> empty pages,
    \<open>assemblePage\<close> and the check of \<open>Initialize\<close>. Every operation keeps the invariant, in which cells, free blocks,
    fragments and gap together make up the page.
  \<^item> \<open>Pager\<close> (btree/pager.go): the rollback journal, from journalling a page to playing a journal back, with system calls
    that may fail at any point. \<open>PagerPlay\<close>: the format of a journal as a predicate on the bytes of the file, and hot rollback,
    which restores the database file.

  \<^bold>\<open>Bounds and termination.\<close> Loops are total functions with measures; only loops whose end depends on the shape of
  memory (hash probes) carry a bound, the size of the table, and the theorems show that the bound is
  not reached in a well-formed state. The loop of \<open>freeSpace\<close> that joins free blocks and the walk along the free blocks in
  \<open>Initialize\<close> may run forever on a corrupt page and are partial functions; on a well-formed page they are shown to end. The loop over the headers of a journal is bounded
  by the size of the journal in bytes; an intact journal has fewer headers. The wait for a lock is a partial function, since the
  busy handler may ask for one more attempt for ever.

  \<^bold>\<open>Not modelled.\<close> The generated parser and the code generator, the virtual machine, B-trees above the level of a
  single page (cursors, balancing, overflow chains), of the pager opening and closing, temporary and in-memory databases and the
  write-ahead log mode, the failure of a query for the size of the log file during recovery, the full-text module apart from its hash tables and tokenizers, R-trees, the operating system layer, memory allocation and mutexes. Much of this
  text is halfway between C and Go: bodies mix declarations of both languages, use variables that are not
  declared and call functions that do not exist, so that their meaning is not determined.
\<close>

end
